(* ===== verification/UcPrelude.thy ===== *)
theory UcPrelude
  imports "HOL-Library.Word" "HOL-Library.Monad_Syntax"
begin

unbundle bit_operations_syntax

text \<open>
  Shared vocabulary of the development: the C integer types as words, the collections of
  rewrite rules the component theories fill, and the generic facts on lists and words that
  several components use.
\<close>

type_synonym u8 = "8 word"
type_synonym u16 = "16 word"
type_synonym u32 = "32 word"
type_synonym u64 = "64 word"

named_theorems uc_simps \<open>equations of the model that drive symbolic evaluation\<close>
named_theorems uc_inv \<open>preservation of the component invariants\<close>

section \<open>Arrays that a memmove opens or closes\<close>

text \<open>
  The sources keep growing arrays of pointers. Inserting at a position is a \<^verbatim>\<open>memmove\<close> to the
  right followed by a store, and removing is a \<^verbatim>\<open>memmove\<close> to the left.
\<close>

definition insert_at :: "nat \<Rightarrow> 'a \<Rightarrow> 'a list \<Rightarrow> 'a list" where
  "insert_at i x xs = take i xs @ x # drop i xs"

definition remove_at :: "nat \<Rightarrow> 'a list \<Rightarrow> 'a list" where
  "remove_at i xs = take i xs @ drop (Suc i) xs"

lemma length_insert_at [simp]: "length (insert_at i x xs) = Suc (length xs)"
  by (simp add: insert_at_def)

lemma length_remove_at [simp]: "i < length xs \<Longrightarrow> length (remove_at i xs) = length xs - 1"
  by (simp add: remove_at_def)

lemma set_insert_at [simp]: "set (insert_at i x xs) = insert x (set xs)"
proof -
  have "set (take i xs) \<union> set (drop i xs) = set xs"
    by (metis append_take_drop_id set_append)
  then show ?thesis by (auto simp: insert_at_def)
qed

lemma remove_at_insert_at [simp]: "i \<le> length xs \<Longrightarrow> remove_at i (insert_at i x xs) = xs"
  by (simp add: insert_at_def remove_at_def)

lemma set_remove_at_distinct:
  "distinct xs \<Longrightarrow> i < length xs \<Longrightarrow> set (remove_at i xs) = set xs - {xs ! i}"
proof -
  assume d: "distinct xs" and i: "i < length xs"
  have xs: "xs = take i xs @ xs ! i # drop (Suc i) xs"
    using i by (simp add: Cons_nth_drop_Suc)
  then have "distinct (take i xs @ xs ! i # drop (Suc i) xs)"
    using d by simp
  then have "set (remove_at i xs) = set (take i xs @ xs ! i # drop (Suc i) xs) - {xs ! i}"
    by (auto simp: remove_at_def)
  then show ?thesis using xs by simp
qed

lemma map_insert_at: "map f (insert_at i x xs) = insert_at i (f x) (map f xs)"
  by (simp add: insert_at_def take_map drop_map)

lemma map_remove_at: "map f (remove_at i xs) = remove_at i (map f xs)"
  by (simp add: remove_at_def take_map drop_map)

lemma distinct_insert_at [simp]:
  "distinct (insert_at i x xs) \<longleftrightarrow> x \<notin> set xs \<and> distinct xs"
proof -
  have "distinct (ys @ x # zs) \<longleftrightarrow> x \<notin> set (ys @ zs) \<and> distinct (ys @ zs)" for ys zs
    by auto
  from this [of "take i xs" "drop i xs"] show ?thesis
    by (simp only: insert_at_def append_take_drop_id)
qed

lemma distinct_remove_at [simp]: "distinct xs \<Longrightarrow> distinct (remove_at i xs)"
  by (auto simp: remove_at_def set_take_disj_set_drop_if_distinct)

text \<open>A sorted array stays sorted under both moves.\<close>

lemma sorted_wrt_insert_at:
  assumes "sorted_wrt P xs" "i \<le> length xs"
    and "\<And>j. j < i \<Longrightarrow> P (xs ! j) x"
    and "\<And>j. i \<le> j \<Longrightarrow> j < length xs \<Longrightarrow> P x (xs ! j)"
  shows "sorted_wrt P (insert_at i x xs)"
proof -
  have "sorted_wrt P (take i xs @ drop i xs)" using assms(1) by simp
  then have "sorted_wrt P (take i xs)" "sorted_wrt P (drop i xs)"
    and "\<forall>a\<in>set (take i xs). \<forall>b\<in>set (drop i xs). P a b"
    unfolding sorted_wrt_append by auto
  moreover have "\<forall>a\<in>set (take i xs). P a x"
    using assms(2,3) by (auto simp: in_set_conv_nth)
  moreover have "\<forall>b\<in>set (drop i xs). P x b"
    using assms(4) by (auto simp: in_set_conv_nth)
  ultimately show ?thesis
    by (auto simp: insert_at_def sorted_wrt_append)
qed

lemma sorted_wrt_remove_at:
  assumes "sorted_wrt P xs" shows "sorted_wrt P (remove_at i xs)"
proof -
  have "sorted_wrt P (take i xs @ drop i xs)" using assms by simp
  then have a: "sorted_wrt P (take i xs)" "sorted_wrt P (drop i xs)"
    and b: "\<forall>a\<in>set (take i xs). \<forall>b\<in>set (drop i xs). P a b"
    unfolding sorted_wrt_append by auto
  moreover have "sorted_wrt P (drop (Suc i) xs)"
    using assms by (rule sorted_wrt_drop)
  moreover have "set (drop (Suc i) xs) \<subseteq> set (drop i xs)"
    by (rule set_drop_subset_set_drop) simp
  ultimately show ?thesis
    by (auto simp: remove_at_def sorted_wrt_append)
qed

section \<open>Unsigned 64-bit addresses\<close>

text \<open>
  An inclusive upper bound is written \<open>e - 1\<close> in the sources, so that an exclusive end of
  \<open>0\<close> stands for the top of the address space. The lemmas below move such tests to \<^typ>\<open>nat\<close>.
\<close>

lemma le_minus_one_less:
  fixes a e :: "'a::len word"
  assumes "a \<le> e - 1" and "e \<noteq> 0"
  shows "a < e"
proof -
  have "0 < unat e" using assms(2) by (simp add: unat_gt_0)
  moreover have "unat a \<le> unat e - 1"
    using assms by (simp add: word_le_nat_alt unat_minus_one)
  ultimately show ?thesis by (simp add: word_less_nat_alt)
qed

lemma unat64_lt: "unat (w :: u64) < 2 ^ 64"
  by (rule order_less_le_trans [OF unsigned_less]) simp

lemma less_imp_le_minus_one: "a < e \<Longrightarrow> a \<le> e - 1" for a e :: u64
proof -
  assume "a < e"
  then have "e \<noteq> 0" by auto
  then have "unat (e - 1) = unat e - 1" by (rule unat_minus_one)
  with \<open>a < e\<close> show "a \<le> e - 1" by (simp add: word_le_nat_alt word_less_nat_alt)
qed

section \<open>Bit positions\<close>

text \<open>The positions of a word of fixed width, for proofs that look at every bit.\<close>

lemma upt_8: "[0 ..< 8] =
    [0, 1, 2, 3, 4, 5, 6, 7]"
  by (simp add: upt_rec)

lemma upt_16: "[0 ..< 16] =
    [0, 1, 2, 3, 4, 5, 6, 7, 8, 9, 10, 11, 12, 13, 14, 15]"
  by (simp add: upt_rec)

lemma upt_32: "[0 ..< 32] =
    [0, 1, 2, 3, 4, 5, 6, 7, 8, 9, 10, 11, 12, 13, 14, 15, 16, 17, 18, 19, 20, 21, 22, 23, 24, 25,
     26, 27, 28, 29, 30, 31]"
  by (simp add: upt_rec)

lemma upt_64: "[0 ..< 64] =
    [0, 1, 2, 3, 4, 5, 6, 7, 8, 9, 10, 11, 12, 13, 14, 15, 16, 17, 18, 19, 20, 21, 22, 23, 24, 25,
     26, 27, 28, 29, 30, 31, 32, 33, 34, 35, 36, 37, 38, 39, 40, 41, 42, 43, 44, 45, 46, 47, 48, 49,
     50, 51, 52, 53, 54, 55, 56, 57, 58, 59, 60, 61, 62, 63]"
  by (simp add: upt_rec)

text \<open>Two words are equal if they agree on all positions; the positions are tried one by one.\<close>

lemma bits_eqI:
  fixes v w :: "'a::len word"
  assumes "\<forall>n \<in> set [0 ..< LENGTH('a)]. bit v n \<longleftrightarrow> bit w n"
  shows "v = w"
  using assms by (auto intro: bit_word_eqI)

lemma bit_beyond: "LENGTH('a) \<le> n \<Longrightarrow> \<not> bit x n" for x :: "'a::len word"
  by (rule impossible_bit) simp

lemma bit_times_2: "bit (x * 2) n \<longleftrightarrow> n < LENGTH('a) \<and> 0 < n \<and> bit x (n - 1)" for x :: "'a::len word"
  using bit_push_bit_iff [of 1 x n] by (cases n) (auto simp: push_bit_eq_mult mult.commute dest: bit_imp_le_length)

lemma all_bits: "(\<forall>n \<in> set [0 ..< m]. P n) \<Longrightarrow> n < m \<Longrightarrow> P n"
  by simp

section \<open>Loops that may fail\<close>

text \<open>A C \<^verbatim>\<open>for\<close> loop over a list whose body may abort.\<close>

fun foldM :: "('a \<Rightarrow> 'b \<Rightarrow> 'b option) \<Rightarrow> 'a list \<Rightarrow> 'b \<Rightarrow> 'b option" where
  "foldM f [] s = Some s"
| "foldM f (x # xs) s = (case f x s of None \<Rightarrow> None | Some s' \<Rightarrow> foldM f xs s')"

lemma foldM_append: "foldM f (xs @ ys) s = (case foldM f xs s of None \<Rightarrow> None | Some s' \<Rightarrow> foldM f ys s')"
  by (induction xs arbitrary: s) (auto split: option.splits)

lemma foldM_cong [fundef_cong]:
  "\<lbrakk> xs = ys; s = t; \<And>x s. x \<in> set ys \<Longrightarrow> f x s = g x s \<rbrakk> \<Longrightarrow> foldM f xs s = foldM g ys t"
  by (induction xs arbitrary: ys s t) (auto split: option.splits)

text \<open>A property that every step of the loop keeps holds after the loop.\<close>

lemma foldM_invariant:
  assumes "foldM f xs s = Some s'" "P s"
    and "\<And>x s s'. \<lbrakk> x \<in> set xs; P s; f x s = Some s' \<rbrakk> \<Longrightarrow> P s'"
  shows "P s'"
  using assms
proof (induction xs arbitrary: s)
  case (Cons x xs)
  then obtain t where "f x s = Some t" "foldM f xs t = Some s'" by (auto split: option.splits)
  with Cons show ?case by (metis list.set_intros)
qed simp

text \<open>The loop runs to its end when no step fails in a state that satisfies the invariant.\<close>

lemma foldM_total:
  assumes "P s" and "\<And>x s. \<lbrakk> x \<in> set xs; P s \<rbrakk> \<Longrightarrow> \<exists>s'. f x s = Some s' \<and> P s'"
  shows "\<exists>s'. foldM f xs s = Some s' \<and> P s'"
  using assms
proof (induction xs arbitrary: s)
  case (Cons x xs)
  obtain t where "f x s = Some t" "P t" using Cons.prems by (metis list.set_intros(1))
  moreover have "\<exists>s'. foldM f xs t = Some s' \<and> P s'"
    using Cons.prems(2) by (intro Cons.IH [OF \<open>P t\<close>]) auto
  ultimately show ?case by simp
qed simp

end
