(* ===== verification/UcList.thy ===== *)
theory UcList
  imports UcPrelude
begin

text \<open>
  The singly linked list of \<^verbatim>\<open>list.c\<close> and \<^verbatim>\<open>list.h\<close>, which carries Unicorn's hook lists. The nodes
  of a list live in a store of their own, addressed by numbers, so that head, tail and next
  pointers are modelled as pointers. \<^verbatim>\<open>malloc\<close> is an argument (its result for the one call an
  operation makes). \<open>None\<close> as the result of a loop means that it does not return or follows a
  dangling pointer.
\<close>

section \<open>The data of list.h\<close>

record 'd list_item =
  li_next :: "nat option"
  li_data :: 'd

type_synonym 'd item_store = "nat \<rightharpoonup> 'd list_item"

record ('d, 's) clist =
  l_head :: "nat option"
  l_tail :: "nat option"
  l_delete_fn :: "('d \<Rightarrow> 's \<Rightarrow> 's) option"
  l_nodes :: "'d item_store"

section \<open>The operations of list.c\<close>

definition list_new :: "bool \<Rightarrow> ('d, 's) clist option" where
  "list_new calloc_ok =
     (if calloc_ok
      then Some \<lparr>l_head = None, l_tail = None, l_delete_fn = None, l_nodes = Map.empty\<rparr>
      else None)"

definition run_delete_fn :: "('d, 's) clist \<Rightarrow> 'd \<Rightarrow> 's \<Rightarrow> 's" where
  "run_delete_fn l d s = (case l_delete_fn l of None \<Rightarrow> s | Some f \<Rightarrow> f d s)"

partial_function (option) list_clear_loop ::
  "('d, 's) clist \<Rightarrow> nat option \<Rightarrow> 's \<Rightarrow> (('d, 's) clist \<times> 's) option" where
  "list_clear_loop l cur s =
     (case cur of
        None \<Rightarrow> Some (l, s)
      | Some c \<Rightarrow>
          (case l_nodes l c of
             None \<Rightarrow> None
           | Some it \<Rightarrow>
               list_clear_loop (l\<lparr>l_nodes := (l_nodes l)(c := None)\<rparr>) (li_next it)
                 (run_delete_fn l (li_data it) s)))"

definition list_clear :: "('d, 's) clist \<Rightarrow> 's \<Rightarrow> (('d, 's) clist \<times> 's) option" where
  "list_clear l s =
     (case list_clear_loop l (l_head l) s of
        None \<Rightarrow> None
      | Some (l', s') \<Rightarrow> Some (l'\<lparr>l_head := None, l_tail := None\<rparr>, s'))"

definition list_insert :: "nat option \<Rightarrow> ('d, 's) clist \<Rightarrow> 'd \<Rightarrow> nat option \<times> ('d, 's) clist" where
  "list_insert m l d =
     (case m of
        None \<Rightarrow> (None, l)
      | Some item \<Rightarrow>
          (let l1 = l\<lparr>l_nodes := (l_nodes l)(item \<mapsto> \<lparr>li_next = l_head l, li_data = d\<rparr>)\<rparr>;
               l2 = (if l_tail l1 = None then l1\<lparr>l_tail := Some item\<rparr> else l1)
           in (Some item, l2\<lparr>l_head := Some item\<rparr>)))"

text \<open>
  \<^verbatim>\<open>list->tail->next = item\<close> dereferences the tail, which the list keeps non-null whenever the
  head is; the model leaves the nodes alone where the C would follow a null or freed tail.
\<close>

definition set_next :: "nat option \<Rightarrow> nat option \<Rightarrow> ('d, 's) clist \<Rightarrow> ('d, 's) clist" where
  "set_next p q l =
     (case p of
        None \<Rightarrow> l
      | Some n \<Rightarrow>
          (case l_nodes l n of
             None \<Rightarrow> l
           | Some it \<Rightarrow> l\<lparr>l_nodes := (l_nodes l)(n \<mapsto> it\<lparr>li_next := q\<rparr>)\<rparr>))"

definition list_append :: "nat option \<Rightarrow> ('d, 's) clist \<Rightarrow> 'd \<Rightarrow> nat option \<times> ('d, 's) clist" where
  "list_append m l d =
     (case m of
        None \<Rightarrow> (None, l)
      | Some item \<Rightarrow>
          (let l1 = l\<lparr>l_nodes := (l_nodes l)(item \<mapsto> \<lparr>li_next = None, li_data = d\<rparr>)\<rparr>;
               l2 = (if l_head l1 = None then l1\<lparr>l_head := Some item\<rparr>
                     else set_next (l_tail l1) (Some item) l1)
           in (Some item, l2\<lparr>l_tail := Some item\<rparr>)))"

partial_function (option) list_remove_loop ::
  "('d, 's) clist \<Rightarrow> 'd \<Rightarrow> nat option \<Rightarrow> nat option \<Rightarrow> 's \<Rightarrow> (bool \<times> ('d, 's) clist \<times> 's) option" where
  "list_remove_loop l d cur prev s =
     (case cur of
        None \<Rightarrow> Some (False, l, s)
      | Some c \<Rightarrow>
          (case l_nodes l c of
             None \<Rightarrow> None
           | Some it \<Rightarrow>
               if li_data it = d then
                 (let l1 = (if l_head l = Some c then l\<lparr>l_head := li_next it\<rparr>
                            else set_next prev (li_next it) l);
                      l2 = (if l_tail l1 = Some c then l1\<lparr>l_tail := prev\<rparr> else l1)
                  in Some (True, l2\<lparr>l_nodes := (l_nodes l2)(c := None)\<rparr>,
                           run_delete_fn l (li_data it) s))
               else list_remove_loop l d (li_next it) cur s))"

definition list_remove :: "('d, 's) clist \<Rightarrow> 'd \<Rightarrow> 's \<Rightarrow> (bool \<times> ('d, 's) clist \<times> 's) option" where
  "list_remove l d s =
     (if l_head l = None then Some (False, l, s)
      else list_remove_loop l d (l_head l) None s)"

partial_function (option) list_exists_loop ::
  "('d, 's) clist \<Rightarrow> 'd \<Rightarrow> nat option \<Rightarrow> bool option" where
  "list_exists_loop l d cur =
     (case cur of
        None \<Rightarrow> Some False
      | Some c \<Rightarrow>
          (case l_nodes l c of
             None \<Rightarrow> None
           | Some it \<Rightarrow> if li_data it = d then Some True else list_exists_loop l d (li_next it)))"

definition list_exists :: "('d, 's) clist \<Rightarrow> 'd \<Rightarrow> bool option" where
  "list_exists l d = (if l_head l = None then Some False else list_exists_loop l d (l_head l))"

section \<open>What a list holds\<close>

text \<open>
  \<open>lpath h p ns xs q\<close>: following next pointers from \<open>p\<close> visits exactly the nodes \<open>ns\<close>, which
  hold the data \<open>xs\<close>, and ends at \<open>q\<close>.
\<close>

fun lpath :: "'d item_store \<Rightarrow> nat option \<Rightarrow> nat list \<Rightarrow> 'd list \<Rightarrow> nat option \<Rightarrow> bool" where
  "lpath h p [] [] q \<longleftrightarrow> p = q"
| "lpath h p (n # ns) (x # xs) q \<longleftrightarrow>
     p = Some n \<and>
     (case h n of None \<Rightarrow> False | Some it \<Rightarrow> li_data it = x \<and> lpath h (li_next it) ns xs q)"
| "lpath h p _ _ q \<longleftrightarrow> False"

definition list_nodes :: "('d, 's) clist \<Rightarrow> nat list \<Rightarrow> 'd list \<Rightarrow> bool" where
  "list_nodes l ns xs \<longleftrightarrow>
     lpath (l_nodes l) (l_head l) ns xs None \<and> distinct ns \<and>
     l_tail l = (if ns = [] then None else Some (last ns)) \<and> dom (l_nodes l) = set ns"

definition list_rep :: "('d, 's) clist \<Rightarrow> 'd list \<Rightarrow> bool" where
  "list_rep l xs \<longleftrightarrow> (\<exists>ns. list_nodes l ns xs)"

lemma lpath_length: "lpath h p ns xs q \<Longrightarrow> length ns = length xs"
  by (induction h p ns xs q rule: lpath.induct) (auto split: option.splits)

lemma lpath_Nil_iff [simp]: "lpath h p [] xs q \<longleftrightarrow> xs = [] \<and> p = q"
  by (cases xs) auto

lemma lpath_None_iff [simp]: "lpath h None ns xs q \<longleftrightarrow> ns = [] \<and> xs = [] \<and> q = None"
  by (cases ns; cases xs) auto

lemma lpath_append:
  "length ns = length xs \<Longrightarrow>
   lpath h p (ns @ ms) (xs @ ys) q \<longleftrightarrow> (\<exists>r. lpath h p ns xs r \<and> lpath h r ms ys q)"
  by (induction ns xs arbitrary: p rule: list_induct2) (auto split: option.splits)

lemma lpath_upd_other [simp]: "n \<notin> set ns \<Longrightarrow> lpath (h(n := v)) p ns xs q = lpath h p ns xs q"
  by (induction h p ns xs q rule: lpath.induct) (auto split: option.splits)

lemma lpath_dom: "lpath h p ns xs q \<Longrightarrow> set ns \<subseteq> dom h"
  by (induction h p ns xs q rule: lpath.induct) (auto split: option.splits)

lemma lpath_head: "lpath h p ns xs None \<Longrightarrow> p = (case ns of [] \<Rightarrow> None | n # _ \<Rightarrow> Some n)"
  by (cases ns; cases xs) auto

text \<open>Redirecting the next pointer of the last node of a path moves its end.\<close>

lemma lpath_redirect:
  "lpath h p (ns @ [n]) (xs @ [x]) q \<Longrightarrow> n \<notin> set ns \<Longrightarrow> h n = Some it \<Longrightarrow>
   lpath (h(n \<mapsto> it\<lparr>li_next := r\<rparr>)) p (ns @ [n]) (xs @ [x]) r"
proof -
  assume p: "lpath h p (ns @ [n]) (xs @ [x]) q" and n: "n \<notin> set ns" and it: "h n = Some it"
  from lpath_length [OF p] have len: "length ns = length xs" by simp
  from p len obtain m where "lpath h p ns xs m" "lpath h m [n] [x] q"
    by (auto simp: lpath_append)
  with n it show ?thesis
    by (auto simp: lpath_append [OF len])
qed

lemma list_rep_empty:
  "list_rep \<lparr>l_head = None, l_tail = None, l_delete_fn = f, l_nodes = Map.empty\<rparr> []"
  by (auto simp: list_rep_def list_nodes_def intro: exI [of _ "[]"])

section \<open>The operations implement a sequence\<close>

lemma list_insert_nodes:
  assumes "list_nodes l ns xs" and "p \<notin> set ns"
  shows "list_nodes (snd (list_insert (Some p) l d)) (p # ns) (d # xs)"
  using assms by (auto simp: list_insert_def list_nodes_def Let_def)

lemma list_append_nodes:
  assumes rep: "list_nodes l ns xs" and fresh: "p \<notin> set ns"
  shows "list_nodes (snd (list_append (Some p) l d)) (ns @ [p]) (xs @ [d])"
proof (cases ns rule: rev_cases)
  case Nil
  with rep fresh show ?thesis by (auto simp: list_append_def list_nodes_def Let_def)
next
  case (snoc ms n)
  from rep have path: "lpath (l_nodes l) (l_head l) ns xs None"
    and dist: "distinct ns" and tl: "l_tail l = Some n" and dom: "dom (l_nodes l) = set ns"
    by (auto simp: list_nodes_def snoc)
  from lpath_length [OF path] snoc obtain ys y where xs: "xs = ys @ [y]"
    by (cases xs rule: rev_cases) auto
  from dom snoc obtain it where it: "l_nodes l n = Some it" by auto
  have hd: "l_head l \<noteq> None" using lpath_head [OF path] snoc by (cases ms) auto
  let ?h = "(l_nodes l)(p \<mapsto> \<lparr>li_next = None, li_data = d\<rparr>)"
  have np: "n \<noteq> p" "n \<notin> set ms" using fresh dist snoc by auto
  have "lpath ?h (l_head l) (ms @ [n]) (ys @ [y]) None"
    using path fresh snoc xs by simp
  then have "lpath (?h(n \<mapsto> it\<lparr>li_next := Some p\<rparr>)) (l_head l) (ms @ [n]) (ys @ [y]) (Some p)"
    using np it by (intro lpath_redirect) auto
  moreover have "lpath (?h(n \<mapsto> it\<lparr>li_next := Some p\<rparr>)) (Some p) [p] [d] None"
    using np by simp
  ultimately have "lpath (?h(n \<mapsto> it\<lparr>li_next := Some p\<rparr>)) (l_head l) (ns @ [p]) (xs @ [d]) None"
    using lpath_append [OF lpath_length [OF path]] unfolding snoc xs by blast
  then show ?thesis
    using dist fresh dom hd tl it np snoc
    by (auto simp: list_append_def list_nodes_def Let_def set_next_def)
qed

lemma list_exists_loop_path:
  "lpath (l_nodes l) p ns xs None \<Longrightarrow> list_exists_loop l d p = Some (d \<in> set xs)"
proof (induction ns arbitrary: p xs)
  case Nil
  then show ?case by (auto simp: list_exists_loop.simps)
next
  case (Cons n ns)
  then show ?case
    by (cases xs) (auto simp: list_exists_loop.simps [of l d "Some n"] split: option.splits)
qed

lemma list_clear_loop_path:
  "lpath (l_nodes l) p ns xs None \<Longrightarrow> distinct ns \<Longrightarrow>
   list_clear_loop l p s =
     Some (l\<lparr>l_nodes := (l_nodes l) |` (- set ns)\<rparr>, fold (run_delete_fn l) xs s)"
proof (induction ns arbitrary: l p xs s)
  case Nil
  then show ?case by (auto simp: list_clear_loop.simps)
next
  case (Cons n ns)
  then obtain x ys it where xs: "xs = x # ys" and it: "l_nodes l n = Some it"
    and p: "p = Some n" "li_data it = x" "lpath (l_nodes l) (li_next it) ns ys None"
    by (cases xs) (auto split: option.splits)
  let ?l = "l\<lparr>l_nodes := (l_nodes l)(n := None)\<rparr>"
  have "lpath (l_nodes ?l) (li_next it) ns ys None" using p Cons.prems(2) by simp
  then have "list_clear_loop ?l (li_next it) (run_delete_fn l x s) =
      Some (?l\<lparr>l_nodes := (l_nodes ?l) |` (- set ns)\<rparr>,
            fold (run_delete_fn ?l) ys (run_delete_fn l x s))"
    using Cons.IH [of ?l] Cons.prems(2) by (simp only: distinct.simps)
  moreover have "((l_nodes l)(n := None)) |` (- set ns) = (l_nodes l) |` (- set (n # ns))"
    by (auto simp: restrict_map_def fun_eq_iff)
  moreover have "run_delete_fn ?l = run_delete_fn l"
    by (auto simp: run_delete_fn_def fun_eq_iff)
  ultimately show ?case
    by (simp add: list_clear_loop.simps [of l "Some n"] p it xs)
qed

text \<open>
  The removal loop, entered with the nodes \<open>as\<close> (data \<open>us\<close>, none of it the value sought) already
  passed and \<open>ns\<close> still ahead.
\<close>

lemma list_remove_loop_nodes:
  assumes "list_nodes l (as @ ns) (us @ xs)" and "length as = length us"
    and "lpath (l_nodes l) (l_head l) as us p" and "lpath (l_nodes l) p ns xs None"
    and "prev = (if as = [] then None else Some (last as))" and "d \<notin> set us"
  shows "\<exists>l' ms. list_remove_loop l d p prev s =
           Some (d \<in> set xs, l', if d \<in> set xs then run_delete_fn l d s else s) \<and>
           list_nodes l' ms (us @ remove1 d xs) \<and> set ms \<subseteq> set (as @ ns) \<and>
           l_delete_fn l' = l_delete_fn l"
  using assms
proof (induction ns arbitrary: as us p prev xs)
  case Nil
  then show ?case
    by (intro exI [of _ l] exI [of _ as]) (auto simp: list_remove_loop.simps [of l d None])
next
  case (Cons n ns)
  then obtain x ys it where xs: "xs = x # ys" and it: "l_nodes l n = Some it"
    and p: "p = Some n" "li_data it = x" "lpath (l_nodes l) (li_next it) ns ys None"
    by (cases xs) (auto split: option.splits)
  from Cons.prems(1) have dist: "distinct (as @ n # ns)"
    and tl: "l_tail l = Some (last (as @ n # ns))" and dom: "dom (l_nodes l) = set (as @ n # ns)"
    by (auto simp: list_nodes_def)
  show ?case
  proof (cases "x = d")
    case False
    have "\<exists>l' ms. list_remove_loop l d (li_next it) (Some n) s =
           Some (d \<in> set ys, l', if d \<in> set ys then run_delete_fn l d s else s) \<and>
           list_nodes l' ms ((us @ [x]) @ remove1 d ys) \<and> set ms \<subseteq> set ((as @ [n]) @ ns) \<and>
           l_delete_fn l' = l_delete_fn l"
    proof (rule Cons.IH)
      show "list_nodes l ((as @ [n]) @ ns) ((us @ [x]) @ ys)" using Cons.prems(1) xs by simp
      show "length (as @ [n]) = length (us @ [x])" using Cons.prems(2) by simp
      show "lpath (l_nodes l) (l_head l) (as @ [n]) (us @ [x]) (li_next it)"
        unfolding lpath_append [OF Cons.prems(2)]
        using Cons.prems(3) p it by (intro exI [of _ "Some n"]) simp
    qed (use p False Cons.prems(6) in auto)
    then show ?thesis
      using False by (simp add: list_remove_loop.simps [of l d "Some n"] p it xs)
  next
    case True
    show ?thesis
    proof (cases as rule: rev_cases)
      case Nil
      with Cons.prems(2,3) have hd: "l_head l = Some n" and us: "us = []" using p by auto
      have tln: "last ns \<noteq> n" if "ns \<noteq> []" using that dist Nil by auto
      let ?l = "l\<lparr>l_head := li_next it, l_tail := (if ns = [] then None else l_tail l),
                 l_nodes := (l_nodes l)(n := None)\<rparr>"
      have "list_remove_loop l d p prev s = Some (True, ?l, run_delete_fn l d s)"
        using True p it hd tl tln Cons.prems(5) Nil
        by (simp add: list_remove_loop.simps [of l d "Some n"] Let_def)
      moreover have "list_nodes ?l ns ys"
        using p dist dom tl Nil by (auto simp: list_nodes_def simp del: fun_upd_apply)
      ultimately show ?thesis
        using True xs us Nil by (intro exI [of _ ?l] exI [of _ ns]) auto
    next
      case (snoc bs b)
      with Cons.prems(2) obtain vs v where us: "us = vs @ [v]" by (cases us rule: rev_cases) auto
      have len: "length bs = length vs" using Cons.prems(2) snoc us by simp
      have nb: "n \<noteq> b" "b \<notin> set bs" "n \<notin> set bs" "n \<notin> set ns" "b \<notin> set ns"
        using dist snoc by auto
      from dom snoc obtain bit where bit: "l_nodes l b = Some bit" by auto
      have hd: "l_head l \<noteq> Some n"
        using Cons.prems(3) snoc us dist by (cases bs; cases vs) (auto split: option.splits)
      let ?h = "((l_nodes l)(b \<mapsto> bit\<lparr>li_next := li_next it\<rparr>))(n := None)"
      have "lpath ((l_nodes l)(b \<mapsto> bit\<lparr>li_next := li_next it\<rparr>)) (l_head l) as us (li_next it)"
        using Cons.prems(3) nb bit snoc us by (auto intro: lpath_redirect)
      then have "lpath ?h (l_head l) as us (li_next it)"
        using nb snoc by (simp del: fun_upd_apply)
      moreover have "lpath ?h (li_next it) ns ys None" using p(3) nb by (simp del: fun_upd_apply)
      ultimately have path: "lpath ?h (l_head l) (as @ ns) (us @ ys) None"
        using Cons.prems(2) by (auto simp: lpath_append)
      have dh: "dom ?h = set (as @ ns)" using dom nb snoc by auto
      let ?l = "l\<lparr>l_tail := (if ns = [] then Some b else l_tail l), l_nodes := ?h\<rparr>"
      have tln: "last ns \<noteq> n" if "ns \<noteq> []" using that nb by auto
      have "list_remove_loop l d p prev s = Some (True, ?l, run_delete_fn l d s)"
        using True p it hd tl tln bit Cons.prems(5) snoc
        by (simp add: list_remove_loop.simps [of l d "Some n"] Let_def set_next_def)
      moreover have "list_nodes ?l (as @ ns) (us @ ys)"
        using path dh dist tl snoc by (simp add: list_nodes_def del: fun_upd_apply)
      ultimately show ?thesis
        using True xs by (intro exI [of _ ?l] exI [of _ "as @ ns"]) auto
    qed
  qed
qed

section \<open>The interface the hook code relies on\<close>

text \<open>
  The operations as a client sees them, over the sequence \<open>rep\<close> a list stands for. \<open>fresh\<close> is what
  \<^verbatim>\<open>malloc\<close> promises: a node that is not in use in this list.
\<close>

locale pointer_list =
  fixes rep :: "'l \<Rightarrow> 'd list \<Rightarrow> bool"
    and fresh :: "'l \<Rightarrow> nat \<Rightarrow> bool"
    and del :: "'l \<Rightarrow> 'd \<Rightarrow> 's \<Rightarrow> 's"
    and ins :: "nat option \<Rightarrow> 'l \<Rightarrow> 'd \<Rightarrow> nat option \<times> 'l"
    and app :: "nat option \<Rightarrow> 'l \<Rightarrow> 'd \<Rightarrow> nat option \<times> 'l"
    and rem :: "'l \<Rightarrow> 'd \<Rightarrow> 's \<Rightarrow> (bool \<times> 'l \<times> 's) option"
    and mem :: "'l \<Rightarrow> 'd \<Rightarrow> bool option"
    and clr :: "'l \<Rightarrow> 's \<Rightarrow> ('l \<times> 's) option"
  assumes ins_ok: "rep l xs \<Longrightarrow> fresh l p \<Longrightarrow>
      \<exists>l'. ins (Some p) l d = (Some p, l') \<and> rep l' (d # xs) \<and> del l' = del l"
    and ins_null: "ins None l d = (None, l)"
    and app_ok: "rep l xs \<Longrightarrow> fresh l p \<Longrightarrow>
      \<exists>l'. app (Some p) l d = (Some p, l') \<and> rep l' (xs @ [d]) \<and> del l' = del l"
    and app_null: "app None l d = (None, l)"
    and rem_ok: "rep l xs \<Longrightarrow>
      \<exists>l'. rem l d s = Some (d \<in> set xs, l', if d \<in> set xs then del l d s else s) \<and>
           rep l' (remove1 d xs) \<and> del l' = del l"
    and mem_ok: "rep l xs \<Longrightarrow> mem l d = Some (d \<in> set xs)"
    and clr_ok: "rep l xs \<Longrightarrow>
      \<exists>l'. clr l s = Some (l', fold (del l) xs s) \<and> rep l' [] \<and> del l' = del l"
begin

lemma app_then_mem:
  assumes "rep l xs" "fresh l p" shows "mem (snd (app (Some p) l d)) e = Some (e = d \<or> e \<in> set xs)"
  using app_ok [OF assms, of d] mem_ok by fastforce

lemma rem_absent:
  assumes "rep l xs" "d \<notin> set xs"
  shows "\<exists>l'. rem l d s = Some (False, l', s) \<and> rep l' xs"
  using rem_ok [OF assms(1), of d s] assms(2) by (auto simp: remove1_idem)

end

definition list_fresh :: "('d, 's) clist \<Rightarrow> nat \<Rightarrow> bool" where
  "list_fresh l p \<longleftrightarrow> l_nodes l p = None"

lemma list_fresh_nodes: "list_nodes l ns xs \<Longrightarrow> list_fresh l p \<longleftrightarrow> p \<notin> set ns"
  by (auto simp: list_nodes_def list_fresh_def)

lemma set_next_delete_fn [simp]: "l_delete_fn (set_next p q l) = l_delete_fn l"
  by (simp add: set_next_def split: option.split)

lemma list_insert_delete_fn [simp]: "l_delete_fn (snd (list_insert m l d)) = l_delete_fn l"
  by (simp add: list_insert_def Let_def split: option.split)

lemma list_append_delete_fn [simp]: "l_delete_fn (snd (list_append m l d)) = l_delete_fn l"
  by (simp add: list_append_def Let_def split: option.split)

lemma run_delete_fn_cong: "l_delete_fn l' = l_delete_fn l \<Longrightarrow> run_delete_fn l' = run_delete_fn l"
  by (simp add: run_delete_fn_def fun_eq_iff)

lemma list_remove_rep:
  assumes "list_rep l xs"
  shows "\<exists>l'. list_remove l d s = Some (d \<in> set xs, l', if d \<in> set xs then run_delete_fn l d s else s) \<and>
    list_rep l' (remove1 d xs) \<and> run_delete_fn l' = run_delete_fn l"
proof (cases "l_head l")
  case None
  with assms have "xs = []" by (auto simp: list_rep_def list_nodes_def)
  with None assms show ?thesis by (simp add: list_remove_def)
next
  case (Some h)
  from assms obtain ns where ns: "list_nodes l ns xs" by (auto simp: list_rep_def)
  then have "lpath (l_nodes l) (l_head l) ns xs None" by (simp add: list_nodes_def)
  with list_remove_loop_nodes [of l "[]" ns "[]" xs "l_head l" None d s] ns Some
  show ?thesis by (auto simp: list_remove_def list_rep_def dest: run_delete_fn_cong)
qed

lemma list_clear_rep:
  assumes "list_rep l xs"
  shows "\<exists>l'. list_clear l s = Some (l', fold (run_delete_fn l) xs s) \<and> list_rep l' [] \<and>
    run_delete_fn l' = run_delete_fn l"
proof -
  from assms obtain ns where ns: "list_nodes l ns xs" by (auto simp: list_rep_def)
  then have "lpath (l_nodes l) (l_head l) ns xs None" "distinct ns" "dom (l_nodes l) = set ns"
    by (auto simp: list_nodes_def)
  then have loop: "list_clear_loop l (l_head l) s =
      Some (l\<lparr>l_nodes := Map.empty\<rparr>, fold (run_delete_fn l) xs s)"
    using list_clear_loop_path [of l "l_head l" ns xs s]
    by (simp add: restrict_map_def fun_eq_iff domIff)
       (metis (no_types, lifting) domIff ComplI restrict_map_def ext)
  show ?thesis
    by (intro exI [of _ "l\<lparr>l_nodes := Map.empty, l_head := None, l_tail := None\<rparr>"])
       (auto simp: list_clear_def loop list_rep_def list_nodes_def run_delete_fn_def fun_eq_iff)
qed

interpretation hl: pointer_list list_rep list_fresh run_delete_fn list_insert list_append
  list_remove list_exists list_clear
proof
  fix l :: "('d, 's) clist" and xs p and d :: 'd and s :: 's
  assume rep: "list_rep l xs"
  from rep obtain ns where ns: "list_nodes l ns xs" by (auto simp: list_rep_def)
  show "\<exists>l'. list_remove l d s = Some (d \<in> set xs, l', if d \<in> set xs then run_delete_fn l d s else s) \<and>
      list_rep l' (remove1 d xs) \<and> run_delete_fn l' = run_delete_fn l"
    by (rule list_remove_rep [OF rep])
  show "\<exists>l'. list_clear l s = Some (l', fold (run_delete_fn l) xs s) \<and> list_rep l' [] \<and>
      run_delete_fn l' = run_delete_fn l"
    by (rule list_clear_rep [OF rep])
  show "list_exists l d = Some (d \<in> set xs)"
    using ns list_exists_loop_path [of l "l_head l" ns xs d]
    by (auto simp: list_exists_def list_nodes_def)
  assume "list_fresh l p"
  with ns have p: "p \<notin> set ns" by (simp add: list_fresh_nodes)
  show "\<exists>l'. list_insert (Some p) l d = (Some p, l') \<and> list_rep l' (d # xs) \<and>
      run_delete_fn l' = run_delete_fn l"
    using list_insert_nodes [OF ns p, of d]
    by (intro exI [of _ "snd (list_insert (Some p) l d)"])
       (auto simp: list_rep_def list_insert_def Let_def run_delete_fn_def fun_eq_iff)
  show "\<exists>l'. list_append (Some p) l d = (Some p, l') \<and> list_rep l' (xs @ [d]) \<and>
      run_delete_fn l' = run_delete_fn l"
    using list_append_nodes [OF ns p, of d]
    by (intro exI [of _ "snd (list_append (Some p) l d)"])
       (auto simp: list_rep_def list_append_def Let_def run_delete_fn_def fun_eq_iff)
qed (simp_all add: list_insert_def list_append_def)

section \<open>Correctness of the list\<close>

text \<open>
  C29: for a well-formed list that holds the data \<^term>\<open>xs\<close> and a fresh node, every operation of
  \<^verbatim>\<open>list.c\<close> returns and refines the operation on \<^term>\<open>xs\<close>: insertion at the head, appending, removal of
  the first occurrence (running the delete function once on it), membership, and clearing (running
  the delete function on every element in order).
\<close>

theorem list_operations_refine:
  assumes "list_rep l xs" "list_fresh l p"
  shows "(\<exists>l'. list_insert (Some p) l d = (Some p, l') \<and> list_rep l' (d # xs)) \<and>
    (\<exists>l'. list_append (Some p) l d = (Some p, l') \<and> list_rep l' (xs @ [d])) \<and>
    (\<exists>l'. list_remove l d s = Some (d \<in> set xs, l', if d \<in> set xs then run_delete_fn l d s else s) \<and>
      list_rep l' (remove1 d xs)) \<and>
    list_exists l d = Some (d \<in> set xs) \<and>
    (\<exists>l'. list_clear l s = Some (l', fold (run_delete_fn l) xs s) \<and> list_rep l' [])"
  using hl.ins_ok [OF assms, of d] hl.app_ok [OF assms, of d] hl.rem_ok [OF assms(1), of d s]
    hl.mem_ok [OF assms(1), of d] hl.clr_ok [OF assms(1), of s] by blast

definition demo_list :: "(nat, nat) clist" where
  "demo_list = \<lparr>l_head = Some 5, l_tail = Some 9, l_delete_fn = Some (+),
     l_nodes = [5 \<mapsto> \<lparr>li_next = Some 9, li_data = 1\<rparr>, 9 \<mapsto> \<lparr>li_next = None, li_data = 2\<rparr>]\<rparr>"

lemma demo_list_rep: "list_rep demo_list [1, 2]" "list_fresh demo_list 7"
  unfolding list_rep_def
  by (rule exI [of _ "[5, 9]"]) (auto simp: list_nodes_def demo_list_def list_fresh_def)

theorem list_operations_refine_witness:
  "list_exists demo_list 2 = Some True \<and>
   (\<exists>l'. list_remove demo_list 2 10 = Some (True, l', 12) \<and> list_rep l' [1]) \<and>
   (\<exists>l'. list_append (Some 7) demo_list 2 = (Some 7, l') \<and> list_rep l' [1, 2, 2])"
  using list_operations_refine [OF demo_list_rep, of 2 10]
  by (auto simp: run_delete_fn_def demo_list_def)

end
