(* ===== verification/GTree.thy ===== *)
theory GTree
  imports UcPrelude
begin

text \<open>
  The balanced binary tree of \<^verbatim>\<open>glib_compat/gtree.c\<close>, which holds the exit addresses of an engine: the
  nodes with their balance factors, the two rotations, insertion with its path of at most
  \<^verbatim>\<open>MAX_GTREE_HEIGHT\<close> parents, lookup and the walk in order. A node has a left or right child exactly
  when the subtree here is not \<open>GNil\<close>; the pointers that replace a missing child, the threads to the
  neighbours in order, serve only the walk, which is the recursion over the tree here.

  The lemmas show that insertion keeps the balance factors correct and the tree of logarithmic height,
  so that the path never overflows, and that over a comparison function that orders the keys it
  behaves as an insertion into a sorted list of entries.
\<close>

section \<open>The tree\<close>

datatype ('k, 'v) GTreeNode = GNil
  | GNode (g_left: "('k, 'v) GTreeNode") (g_key: 'k) (g_value: 'v) (g_balance: int) (g_right: "('k, 'v) GTreeNode")

record ('k, 'v) GTree =
  g_root :: "('k, 'v) GTreeNode"
  g_nnodes :: u32

definition MAX_GTREE_HEIGHT :: nat where
  "MAX_GTREE_HEIGHT = 40"

definition g_tree_new_full :: "('k, 'v) GTree" where
  "g_tree_new_full = \<lparr>g_root = GNil, g_nnodes = 0\<rparr>"

definition g_tree_node_new :: "'k \<Rightarrow> 'v \<Rightarrow> ('k, 'v) GTreeNode" where
  "g_tree_node_new key val = GNode GNil key val 0 GNil"

section \<open>Rotations\<close>

fun g_tree_node_rotate_left :: "('k, 'v) GTreeNode \<Rightarrow> ('k, 'v) GTreeNode option" where
  "g_tree_node_rotate_left (GNode l k v a_bal (GNode rl rk rv b_bal rr)) =
    Some (if b_bal \<le> 0
      then GNode (GNode l k v (a_bal - 1) rl) rk rv (if 1 \<le> a_bal then b_bal - 1 else a_bal + b_bal - 2) rr
      else GNode (GNode l k v (a_bal - b_bal - 1) rl) rk rv (if a_bal \<le> b_bal then a_bal - 2 else b_bal - 1) rr)"
| "g_tree_node_rotate_left _ = None"

fun g_tree_node_rotate_right :: "('k, 'v) GTreeNode \<Rightarrow> ('k, 'v) GTreeNode option" where
  "g_tree_node_rotate_right (GNode (GNode ll lk lv b_bal lr) k v a_bal r) =
    Some (if b_bal \<le> 0
      then GNode ll lk lv (if a_bal < b_bal then b_bal + 1 else a_bal + 2) (GNode lr k v (a_bal - b_bal + 1) r)
      else GNode ll lk lv (if a_bal \<le> -1 then b_bal + 1 else a_bal + b_bal + 2) (GNode lr k v (a_bal + 1) r))"
| "g_tree_node_rotate_right _ = None"

fun g_tree_node_balance :: "('k, 'v) GTreeNode \<Rightarrow> ('k, 'v) GTreeNode option" where
  "g_tree_node_balance GNil = None"
| "g_tree_node_balance (GNode l k v b r) =
    (if b < -1 then
       (if l = GNil then None
        else do {
          l \<leftarrow> (if 0 < g_balance l then g_tree_node_rotate_left l else Some l);
          g_tree_node_rotate_right (GNode l k v b r) })
     else if 1 < b then
       (if r = GNil then None
        else do {
          r \<leftarrow> (if g_balance r < 0 then g_tree_node_rotate_right r else Some r);
          g_tree_node_rotate_left (GNode l k v b r) })
     else Some (GNode l k v b r))"

section \<open>Insertion\<close>

text \<open>
  One turn of the loop that restores the balance, at a node whose balance factor has just changed: the
  flag says whether the loop goes on to change the factor of the parent.
\<close>

definition g_tree_restore :: "('k, 'v) GTreeNode \<Rightarrow> (('k, 'v) GTreeNode \<times> bool \<times> bool) option" where
  "g_tree_restore node = do {
     node \<leftarrow> (if g_balance node < -1 \<or> 1 < g_balance node then g_tree_node_balance node else Some node);
     Some (node, g_balance node \<noteq> 0, True) }"

text \<open>
  The two loops of \<^verbatim>\<open>g_tree_insert_internal\<close>: the way down, which keeps the parents in an array, and
  the way back up along them. \<open>idx\<close> counts the used elements of the array, and a write beyond its end
  is \<open>None\<close>. The flags of the result say whether the parent's balance factor changes and whether
  a node was added.
\<close>

fun g_tree_insert_below ::
  "('k \<Rightarrow> 'k \<Rightarrow> int) \<Rightarrow> 'k \<Rightarrow> 'v \<Rightarrow> bool \<Rightarrow> nat \<Rightarrow> ('k, 'v) GTreeNode \<Rightarrow>
    (('k, 'v) GTreeNode \<times> bool \<times> bool) option" where
  "g_tree_insert_below key_compare key val repl idx GNil = None"
| "g_tree_insert_below key_compare key val repl idx (GNode l k v b r) =
    (let c = key_compare key k in
     if c = 0 then Some (GNode l (if repl then key else k) val b r, False, False)
     else if c < 0 then
       (if l = GNil then g_tree_restore (GNode (g_tree_node_new key val) k v (b - 1) r)
        else if MAX_GTREE_HEIGHT \<le> idx then None
        else do {
          (l, up, added) \<leftarrow> g_tree_insert_below key_compare key val repl (Suc idx) l;
          if up then g_tree_restore (GNode l k v (b - 1) r)
          else Some (GNode l k v b r, False, added) })
     else
       (if r = GNil then g_tree_restore (GNode l k v (b + 1) (g_tree_node_new key val))
        else if MAX_GTREE_HEIGHT \<le> idx then None
        else do {
          (r, up, added) \<leftarrow> g_tree_insert_below key_compare key val repl (Suc idx) r;
          if up then g_tree_restore (GNode l k v (b + 1) r)
          else Some (GNode l k v b r, False, added) }))"

definition g_tree_insert_internal ::
  "('k \<Rightarrow> 'k \<Rightarrow> int) \<Rightarrow> ('k, 'v) GTree \<Rightarrow> 'k \<Rightarrow> 'v \<Rightarrow> bool \<Rightarrow> ('k, 'v) GTree option" where
  "g_tree_insert_internal key_compare tree key val repl =
    (if g_root tree = GNil
     then Some (tree\<lparr>g_root := g_tree_node_new key val, g_nnodes := g_nnodes tree + 1\<rparr>)
     else do {
       (root, up, added) \<leftarrow> g_tree_insert_below key_compare key val repl 1 (g_root tree);
       Some (tree\<lparr>g_root := root, g_nnodes := g_nnodes tree + (if added then 1 else 0)\<rparr>) })"

definition g_tree_insert ::
  "('k \<Rightarrow> 'k \<Rightarrow> int) \<Rightarrow> ('k, 'v) GTree \<Rightarrow> 'k \<Rightarrow> 'v \<Rightarrow> ('k, 'v) GTree option" where
  "g_tree_insert key_compare tree key val = g_tree_insert_internal key_compare tree key val False"

definition g_tree_replace ::
  "('k \<Rightarrow> 'k \<Rightarrow> int) \<Rightarrow> ('k, 'v) GTree \<Rightarrow> 'k \<Rightarrow> 'v \<Rightarrow> ('k, 'v) GTree option" where
  "g_tree_replace key_compare tree key val = g_tree_insert_internal key_compare tree key val True"

section \<open>Lookup, the walk in order, and removal of all entries\<close>

fun g_tree_find_below :: "('k \<Rightarrow> 'k \<Rightarrow> int) \<Rightarrow> 'k \<Rightarrow> ('k, 'v) GTreeNode \<Rightarrow> ('k, 'v) GTreeNode" where
  "g_tree_find_below key_compare key GNil = GNil"
| "g_tree_find_below key_compare key (GNode l k v b r) =
    (let cmp = key_compare key k in
     if cmp = 0 then GNode l k v b r
     else if cmp < 0 then g_tree_find_below key_compare key l
     else g_tree_find_below key_compare key r)"

definition g_tree_find_node :: "('k \<Rightarrow> 'k \<Rightarrow> int) \<Rightarrow> ('k, 'v) GTree \<Rightarrow> 'k \<Rightarrow> ('k, 'v) GTreeNode" where
  "g_tree_find_node key_compare tree key = g_tree_find_below key_compare key (g_root tree)"

definition g_tree_lookup :: "('k \<Rightarrow> 'k \<Rightarrow> int) \<Rightarrow> ('k, 'v) GTree \<Rightarrow> 'k \<Rightarrow> 'v option" where
  "g_tree_lookup key_compare tree key =
    (case g_tree_find_node key_compare tree key of GNil \<Rightarrow> None | GNode l k v b r \<Rightarrow> Some v)"

text \<open>The callback of a walk returns the new state and whether to stop.\<close>

fun g_tree_walk ::
  "('k \<Rightarrow> 'v \<Rightarrow> 's \<Rightarrow> ('s \<times> bool) option) \<Rightarrow> ('k, 'v) GTreeNode \<Rightarrow> 's \<Rightarrow> ('s \<times> bool) option" where
  "g_tree_walk func GNil s = Some (s, False)"
| "g_tree_walk func (GNode l k v b r) s = do {
     (s, stop) \<leftarrow> g_tree_walk func l s;
     if stop then Some (s, True)
     else do {
       (s, stop) \<leftarrow> func k v s;
       if stop then Some (s, True) else g_tree_walk func r s } }"

definition g_tree_foreach ::
  "('k, 'v) GTree \<Rightarrow> ('k \<Rightarrow> 'v \<Rightarrow> 's \<Rightarrow> ('s \<times> bool) option) \<Rightarrow> 's \<Rightarrow> 's option" where
  "g_tree_foreach tree func s = map_option fst (g_tree_walk func (g_root tree) s)"

definition g_tree_remove_all :: "('k, 'v) GTree \<Rightarrow> ('k, 'v) GTree" where
  "g_tree_remove_all tree = tree\<lparr>g_root := GNil, g_nnodes := 0\<rparr>"

definition g_tree_nnodes :: "('k, 'v) GTree \<Rightarrow> int" where
  "g_tree_nnodes tree = sint (g_nnodes tree)"

section \<open>Balance\<close>

primrec g_height :: "('k, 'v) GTreeNode \<Rightarrow> nat" where
  "g_height GNil = 0"
| "g_height (GNode l k v b r) = Suc (max (g_height l) (g_height r))"

text \<open>The entries in order.\<close>

primrec g_entries :: "('k, 'v) GTreeNode \<Rightarrow> ('k \<times> 'v) list" where
  "g_entries GNil = []"
| "g_entries (GNode l k v b r) = g_entries l @ (k, v) # g_entries r"

text \<open>The stored balance factor is the difference of the heights, and it is at most one.\<close>

primrec g_avl :: "('k, 'v) GTreeNode \<Rightarrow> bool" where
  "g_avl GNil \<longleftrightarrow> True"
| "g_avl (GNode l k v b r) \<longleftrightarrow>
    g_avl l \<and> g_avl r \<and> b = int (g_height r) - int (g_height l) \<and> -1 \<le> b \<and> b \<le> 1"

lemma g_height_0 [simp]: "g_height n = 0 \<longleftrightarrow> n = GNil"
  by (cases n) simp_all

lemma rotate_entries:
  "g_tree_node_rotate_left n = Some n' \<Longrightarrow> g_entries n' = g_entries n"
  "g_tree_node_rotate_right n = Some n' \<Longrightarrow> g_entries n' = g_entries n"
  by (cases n rule: g_tree_node_rotate_left.cases; auto)
    (cases n rule: g_tree_node_rotate_right.cases; auto)

lemma balance_entries: "g_tree_node_balance n = Some n' \<Longrightarrow> g_entries n' = g_entries n"
  by (cases n) (auto split: if_splits bind_splits dest!: rotate_entries)

lemma restore_entries: "g_tree_restore n = Some (n', up, added) \<Longrightarrow> g_entries n' = g_entries n \<and> added"
  by (auto simp: g_tree_restore_def split: if_splits bind_splits dest!: balance_entries)

lemma balance_left_heavy:
  assumes "g_avl l" "g_avl r" "int (g_height r) - int (g_height l) = -2" "g_balance l \<noteq> 0"
  shows "\<exists>n. g_tree_node_balance (GNode l k v (-2) r) = Some n \<and> g_avl n \<and> g_balance n = 0 \<and>
    g_height n = g_height l"
proof -
  obtain ll lk lv lb lr where l: "l = GNode ll lk lv lb lr" using assms(3) by (cases l) auto
  show ?thesis
  proof (cases "0 < lb")
    case True
    then obtain a ak av ab b where lr: "lr = GNode a ak av ab b" using assms(1) l by (cases lr) auto
    show ?thesis using assms True unfolding l lr by (auto simp: max_def split: if_splits)
  next
    case False
    then show ?thesis using assms unfolding l by (auto simp: max_def split: if_splits)
  qed
qed

lemma balance_right_heavy:
  assumes "g_avl l" "g_avl r" "int (g_height r) - int (g_height l) = 2" "g_balance r \<noteq> 0"
  shows "\<exists>n. g_tree_node_balance (GNode l k v 2 r) = Some n \<and> g_avl n \<and> g_balance n = 0 \<and>
    g_height n = g_height r"
proof -
  obtain rl rk rv rb rr where r: "r = GNode rl rk rv rb rr" using assms(3) by (cases r) auto
  show ?thesis
  proof (cases "rb < 0")
    case True
    then obtain a ak av ab b where rl: "rl = GNode a ak av ab b" using assms(2) r by (cases rl) auto
    show ?thesis using assms True unfolding r rl by (auto simp: max_def split: if_splits)
  next
    case False
    then show ?thesis using assms unfolding r by (auto simp: max_def split: if_splits)
  qed
qed

text \<open>Restoring a node one of whose subtrees has grown by one, to a height \<open>h\<close> before.\<close>

definition restored :: "nat \<Rightarrow> (('k, 'v) GTreeNode \<times> bool \<times> bool) option \<Rightarrow> bool" where
  "restored h res \<longleftrightarrow> (case res of None \<Rightarrow> False
     | Some (n, up, added) \<Rightarrow> g_avl n \<and> g_height n = h + of_bool up \<and> (up \<longrightarrow> g_balance n \<noteq> 0))"

lemma restore_left:
  assumes n: "g_avl (GNode l k v b r)" and l': "g_avl l'" "g_height l' = Suc (g_height l)"
    and "l \<noteq> GNil \<Longrightarrow> g_balance l' \<noteq> 0"
  shows "restored (g_height (GNode l k v b r)) (g_tree_restore (GNode l' k v (b - 1) r))"
proof (cases "b = -1")
  case True
  then have "l \<noteq> GNil" and b: "int (g_height r) - int (g_height l') = -2"
    and h: "g_height (GNode l k v b r) = Suc (g_height l)" using n l'(2) by auto
  from balance_left_heavy [OF l'(1) _ b assms(4)] this(1) n
  obtain m where m: "g_tree_node_balance (GNode l' k v (-2) r) = Some m" "g_avl m" "g_balance m = 0"
    "g_height m = g_height l'" by (metis g_avl.simps(2))
  then have "g_tree_restore (GNode l' k v (b - 1) r) = Some (m, False, True)"
    using True by (simp add: g_tree_restore_def)
  then show ?thesis using m l'(2) h by (simp add: restored_def)
next
  case False
  then show ?thesis using n l' by (auto simp: restored_def g_tree_restore_def)
qed

lemma restore_right:
  assumes n: "g_avl (GNode l k v b r)" and r': "g_avl r'" "g_height r' = Suc (g_height r)"
    and "r \<noteq> GNil \<Longrightarrow> g_balance r' \<noteq> 0"
  shows "restored (g_height (GNode l k v b r)) (g_tree_restore (GNode l k v (b + 1) r'))"
proof (cases "b = 1")
  case True
  then have "r \<noteq> GNil" and b: "int (g_height r') - int (g_height l) = 2"
    and h: "g_height (GNode l k v b r) = Suc (g_height r)" using n r'(2) by auto
  from balance_right_heavy [OF _ r'(1) b assms(4)] this(1) n
  obtain m where m: "g_tree_node_balance (GNode l k v 2 r') = Some m" "g_avl m" "g_balance m = 0"
    "g_height m = g_height r'" by (metis g_avl.simps(2))
  then have "g_tree_restore (GNode l k v (b + 1) r') = Some (m, False, True)"
    using True by (simp add: g_tree_restore_def)
  then show ?thesis using m r'(2) h by (simp add: restored_def)
next
  case False
  then show ?thesis using n r' by (auto simp: restored_def g_tree_restore_def)
qed

lemma insert_below_balanced:
  assumes "g_avl n" "n \<noteq> GNil" "idx + g_height n \<le> Suc MAX_GTREE_HEIGHT"
  shows "restored (g_height n) (g_tree_insert_below cmp key val repl idx n)"
  using assms
proof (induction n arbitrary: idx)
  case (GNode l k v b r)
  have leaf: "g_avl (g_tree_node_new key val)" "g_height (g_tree_node_new key val) = Suc 0"
    by (simp_all add: g_tree_node_new_def)
  have n: "g_avl (GNode l k v b r)" by fact
  consider "cmp key k = 0" | "cmp key k < 0" "l = GNil" | "cmp key k < 0" "l \<noteq> GNil"
    | "0 < cmp key k" "r = GNil" | "0 < cmp key k" "r \<noteq> GNil" by linarith
  then show ?case
  proof cases
    case 1
    then show ?thesis using n by (simp add: restored_def)
  next
    case 2
    then show ?thesis using restore_left [OF n leaf(1)] leaf(2) by (simp del: g_height.simps g_avl.simps)
  next
    case 3
    then have "0 < g_height l" by (cases l) auto
    then have i: "Suc idx + g_height l \<le> Suc MAX_GTREE_HEIGHT" "idx < MAX_GTREE_HEIGHT" using GNode.prems(3) by auto
    obtain l' up added where l': "g_tree_insert_below cmp key val repl (Suc idx) l = Some (l', up, added)"
      "g_avl l'" "g_height l' = g_height l + of_bool up" "up \<longrightarrow> g_balance l' \<noteq> 0"
      using GNode.IH(1) [OF _ 3(2) i(1)] n by (auto simp: restored_def split: option.splits)
    show ?thesis
    proof (cases up)
      case True
      then show ?thesis using restore_left [OF n l'(2)] l' 3 i(2) by (simp del: g_height.simps g_avl.simps)
    next
      case False
      then show ?thesis using l' 3 i(2) n by (simp add: restored_def)
    qed
  next
    case 4
    then show ?thesis using restore_right [OF n leaf(1)] leaf(2) by (simp del: g_height.simps g_avl.simps)
  next
    case 5
    then have "0 < g_height r" by (cases r) auto
    then have i: "Suc idx + g_height r \<le> Suc MAX_GTREE_HEIGHT" "idx < MAX_GTREE_HEIGHT" using GNode.prems(3) by auto
    obtain r' up added where r': "g_tree_insert_below cmp key val repl (Suc idx) r = Some (r', up, added)"
      "g_avl r'" "g_height r' = g_height r + of_bool up" "up \<longrightarrow> g_balance r' \<noteq> 0"
      using GNode.IH(2) [OF _ 5(2) i(1)] n by (auto simp: restored_def split: option.splits)
    show ?thesis
    proof (cases up)
      case True
      then show ?thesis using restore_right [OF n r'(2)] r' 5 i(2) by (simp del: g_height.simps g_avl.simps)
    next
      case False
      then show ?thesis using r' 5 i(2) n by (simp add: restored_def)
    qed
  qed
qed simp

lemma insert_up: "g_tree_insert_below cmp key val repl idx n = Some (n', up, added) \<Longrightarrow> up \<Longrightarrow> added"
proof (cases n)
  case (GNode l k v b r)
  assume "g_tree_insert_below cmp key val repl idx n = Some (n', up, added)" up
  then show ?thesis unfolding GNode
    by (auto simp: Let_def split: if_splits bind_splits dest!: restore_entries)
qed simp

text \<open>The fewest nodes of trees of two successive heights.\<close>

primrec min_nodes :: "nat \<Rightarrow> nat \<times> nat" where
  "min_nodes 0 = (0, 1)"
| "min_nodes (Suc h) = (case min_nodes h of (a, b) \<Rightarrow> (b, a + b + 1))"

lemma min_nodes_Suc: "fst (min_nodes (Suc h)) = snd (min_nodes h)"
  "snd (min_nodes (Suc h)) = fst (min_nodes h) + snd (min_nodes h) + 1"
  by (simp_all add: case_prod_beta)

primrec min_nodes_from :: "nat \<Rightarrow> nat \<Rightarrow> nat \<Rightarrow> nat" where
  "min_nodes_from 0 a b = a"
| "min_nodes_from (Suc n) a b = min_nodes_from n b (a + b + 1)"

lemma min_nodes_from: "min_nodes_from n (fst (min_nodes h)) (snd (min_nodes h)) = fst (min_nodes (h + n))"
proof (induction n arbitrary: h)
  case (Suc n)
  then show ?case using Suc [of "Suc h"] by (simp add: min_nodes_Suc del: min_nodes.simps)
qed simp

lemma min_nodes_from_numeral:
  "min_nodes_from (numeral k) a b = min_nodes_from (pred_numeral k) b (a + b + 1)"
  by (simp add: numeral_eq_Suc)

lemma min_nodes_mono: "h \<le> h' \<Longrightarrow> fst (min_nodes h) \<le> fst (min_nodes h')"
proof (rule lift_Suc_mono_le [of "\<lambda>h. fst (min_nodes h)"])
  show "fst (min_nodes n) \<le> fst (min_nodes (Suc n))" for n
    by (cases n) (simp_all add: case_prod_beta)
qed

lemma avl_min_nodes: "g_avl n \<Longrightarrow> fst (min_nodes (g_height n)) \<le> length (g_entries n)"
proof (induction n)
  case (GNode l k v b r)
  define h h' where "h = max (g_height l) (g_height r)" and "h' = min (g_height l) (g_height r)"
  then have h: "h \<le> Suc h'" "h' \<le> h" using GNode.prems by auto
  have "fst (min_nodes h) + fst (min_nodes h') = fst (min_nodes (g_height l)) + fst (min_nodes (g_height r))"
    by (simp add: h_def h'_def max_def min_def)
  then have e: "fst (min_nodes h) + fst (min_nodes h') \<le> length (g_entries l) + length (g_entries r)"
    using GNode by simp
  have "fst (min_nodes (Suc h)) \<le> fst (min_nodes h) + fst (min_nodes h') + 1"
  proof (cases h)
    case (Suc h0)
    then have "h0 \<le> h'" using h(1) by simp
    then show ?thesis using Suc min_nodes_mono [of h0 h'] by (simp add: min_nodes_Suc del: min_nodes.simps)
  qed simp
  then show ?case using e by (simp add: h_def del: min_nodes.simps)
qed simp

lemma avl_height:
  assumes "g_avl n" "length (g_entries n) < 433494436"
  shows "g_height n \<le> MAX_GTREE_HEIGHT"
proof (rule ccontr)
  assume "\<not> g_height n \<le> MAX_GTREE_HEIGHT"
  then have "fst (min_nodes 41) \<le> length (g_entries n)"
    using avl_min_nodes [OF assms(1)] min_nodes_mono [of 41 "g_height n"] by (simp add: MAX_GTREE_HEIGHT_def)
  moreover have "min_nodes_from 39 2 4 = 433494436" by (simp add: min_nodes_from_numeral)
  moreover have "min_nodes 2 = (2, 4)" by (simp add: numeral_eq_Suc)
  then have "min_nodes_from 39 2 4 = fst (min_nodes 41)" using min_nodes_from [of 39 2] by simp
  ultimately show False using assms(2) by simp
qed

section \<open>The walk visits the entries in order\<close>

fun walk_list :: "('k \<Rightarrow> 'v \<Rightarrow> 's \<Rightarrow> ('s \<times> bool) option) \<Rightarrow> ('k \<times> 'v) list \<Rightarrow> 's \<Rightarrow> ('s \<times> bool) option" where
  "walk_list func [] s = Some (s, False)"
| "walk_list func ((k, v) # es) s = do {
     (s, stop) \<leftarrow> func k v s;
     if stop then Some (s, True) else walk_list func es s }"

lemma walk_list_append:
  "walk_list func (xs @ ys) s = do {
     (s, stop) \<leftarrow> walk_list func xs s;
     if stop then Some (s, True) else walk_list func ys s }"
proof (induction xs arbitrary: s)
  case (Cons e es)
  then show ?case by (cases e) (auto split: bind_splits)
qed simp

lemma g_tree_walk_entries: "g_tree_walk func n s = walk_list func (g_entries n) s"
  by (induction n arbitrary: s) (auto simp: walk_list_append cong: bind_option_cong if_cong)

lemma g_tree_foreach_entries:
  assumes "\<And>k v s. func k v s = Some (f k s, False)"
  shows "g_tree_foreach tree func s = Some (fold (\<lambda>(k, v). f k) (g_entries (g_root tree)) s)"
proof -
  have "walk_list func es s = Some (fold (\<lambda>(k, v). f k) es s, False)" for es s
    by (induction es arbitrary: s) (auto simp: assms)
  then show ?thesis by (simp add: g_tree_foreach_def g_tree_walk_entries)
qed

section \<open>Entries under a comparison function\<close>

text \<open>What a list of entries becomes when a key is set, as the code does without replacing the key.\<close>

fun set_entry :: "('k \<Rightarrow> 'k \<Rightarrow> int) \<Rightarrow> 'k \<Rightarrow> 'v \<Rightarrow> ('k \<times> 'v) list \<Rightarrow> ('k \<times> 'v) list" where
  "set_entry cmp key val [] = [(key, val)]"
| "set_entry cmp key val ((k, v) # es) =
    (if cmp key k = 0 then (k, val) # es
     else if cmp key k < 0 then (key, val) # (k, v) # es
     else (k, v) # set_entry cmp key val es)"

definition key_sorted :: "('k \<Rightarrow> 'k \<Rightarrow> int) \<Rightarrow> ('k \<times> 'v) list \<Rightarrow> bool" where
  "key_sorted cmp es \<longleftrightarrow> sorted_wrt (\<lambda>a b. cmp a b < 0) (map fst es)"

definition gtree_inv :: "('k \<Rightarrow> 'k \<Rightarrow> int) \<Rightarrow> ('k, 'v) GTree \<Rightarrow> bool" where
  "gtree_inv cmp tree \<longleftrightarrow> g_avl (g_root tree) \<and> key_sorted cmp (g_entries (g_root tree)) \<and>
    g_nnodes tree = of_nat (length (g_entries (g_root tree)))"

lemma gtree_inv_new [simp]: "gtree_inv cmp g_tree_new_full" "gtree_inv cmp (g_tree_remove_all tree)"
  by (simp_all add: gtree_inv_def g_tree_new_full_def g_tree_remove_all_def key_sorted_def)

lemma entries_empty [simp]: "g_entries (g_root g_tree_new_full) = []" "g_entries (g_root (g_tree_remove_all tree)) = []"
  by (simp_all add: g_tree_new_full_def g_tree_remove_all_def)

lemma g_entries_Nil [simp]: "g_entries n = [] \<longleftrightarrow> n = GNil"
  by (cases n) simp_all

text \<open>What the tree asks of the comparison function it is created with.\<close>

locale key_order =
  fixes cmp :: "'k \<Rightarrow> 'k \<Rightarrow> int"
  assumes cmp_eq: "cmp a b = 0 \<longleftrightarrow> a = b"
    and cmp_swap: "cmp a b < 0 \<longleftrightarrow> 0 < cmp b a"
    and cmp_trans: "cmp a b < 0 \<Longrightarrow> cmp b c < 0 \<Longrightarrow> cmp a c < 0"
begin

lemma key_sorted_Cons: "key_sorted cmp ((k, v) # ys) \<longleftrightarrow> (\<forall>y \<in> fst ` set ys. cmp k y < 0) \<and> key_sorted cmp ys"
  by (simp add: key_sorted_def)

lemma key_sorted_append:
  "key_sorted cmp (xs @ (k, v) # ys) \<longleftrightarrow> key_sorted cmp xs \<and> key_sorted cmp ys \<and>
    (\<forall>x \<in> set xs. cmp (fst x) k < 0) \<and> (\<forall>y \<in> set ys. cmp k (fst y) < 0)"
  unfolding key_sorted_def by (auto simp: sorted_wrt_append intro: cmp_trans)

lemma set_entry_less:
  assumes "cmp key k < 0"
  shows "set_entry cmp key val (xs @ (k, v) # ys) = set_entry cmp key val xs @ (k, v) # ys"
  using assms by (induction xs) auto

lemma set_entry_right:
  assumes "\<forall>x \<in> set xs. cmp (fst x) key < 0"
  shows "set_entry cmp key val (xs @ ys) = xs @ set_entry cmp key val ys"
  using assms
proof (induction xs)
  case (Cons x xs)
  obtain k v where x: "x = (k, v)" by fastforce
  then have "0 < cmp key k" using Cons.prems cmp_swap by simp
  then show ?case using Cons x by simp
qed simp

lemma set_entry_node:
  assumes "key_sorted cmp (xs @ (k, v) # ys)"
  shows "set_entry cmp key val (xs @ (k, v) # ys) =
    (if cmp key k = 0 then xs @ (k, val) # ys
     else if cmp key k < 0 then set_entry cmp key val xs @ (k, v) # ys
     else xs @ (k, v) # set_entry cmp key val ys)"
proof -
  have x: "\<forall>x \<in> set xs. cmp (fst x) k < 0" using assms by (simp add: key_sorted_append)
  show ?thesis
  proof (cases "cmp key k < 0")
    case True
    then show ?thesis by (simp add: set_entry_less)
  next
    case False
    then have "\<forall>x \<in> set xs. cmp (fst x) key < 0"
      using x cmp_trans cmp_swap cmp_eq by (metis linorder_neqE_linordered_idom)
    then show ?thesis using False by (simp add: set_entry_right)
  qed
qed

lemma set_set_entry: "fst ` set (set_entry cmp key val es) = insert key (fst ` set es)"
proof (induction es)
  case (Cons e es)
  then show ?case by (cases e) (simp add: cmp_eq insert_commute)
qed simp

lemma key_sorted_set_entry: "key_sorted cmp es \<Longrightarrow> key_sorted cmp (set_entry cmp key val es)"
proof (induction es)
  case (Cons e es)
  obtain k v where e: "e = (k, v)" by fastforce
  have s: "key_sorted cmp es" "\<forall>y \<in> fst ` set es. cmp k y < 0" using Cons.prems e by (auto simp: key_sorted_Cons)
  consider "cmp key k = 0" | "cmp key k < 0" | "cmp k key < 0" using cmp_swap [of k key] by linarith
  then show ?case
  proof cases
    case 3
    then have "\<forall>y \<in> fst ` set (set_entry cmp key val es). cmp k y < 0" using s(2) by (simp add: set_set_entry)
    then show ?thesis using 3 Cons.IH [OF s(1)] cmp_swap [of k key] e by (auto simp: key_sorted_Cons)
  qed (use Cons.prems e cmp_trans in \<open>auto simp: key_sorted_def\<close>)
qed (simp add: key_sorted_def)

lemma map_of_set_entry: "map_of (set_entry cmp key val es) = (map_of es)(key \<mapsto> val)"
  by (induction es) (auto simp: cmp_eq)

lemma length_set_entry:
  "key_sorted cmp es \<Longrightarrow> length (set_entry cmp key val es) = length es + of_bool (key \<notin> fst ` set es)"
proof (induction es)
  case (Cons e es)
  obtain k v where e: "e = (k, v)" by fastforce
  have s: "key_sorted cmp es" "\<forall>y \<in> fst ` set es. cmp k y < 0" using Cons.prems e by (auto simp: key_sorted_Cons)
  have "key \<notin> fst ` set es" if "cmp key k < 0"
  proof
    assume "key \<in> fst ` set es"
    then have "cmp k key < 0" using s(2) by blast
    then show False using that cmp_swap [of k key] by linarith
  qed
  then show ?case using Cons.IH [OF s(1)] e cmp_eq [of key k] by auto
qed simp

lemma find_below_entries:
  "key_sorted cmp (g_entries n) \<Longrightarrow>
    (case g_tree_find_below cmp key n of GNil \<Rightarrow> None | GNode l k v b r \<Rightarrow> Some v) = map_of (g_entries n) key"
proof (induction n)
  case (GNode l k v b r)
  have s: "key_sorted cmp (g_entries l)" "key_sorted cmp (g_entries r)"
    "\<forall>x \<in> fst ` set (g_entries l). cmp x k < 0" "\<forall>y \<in> fst ` set (g_entries r). cmp k y < 0"
    using GNode.prems by (auto simp: key_sorted_append)
  have none: "map_of (g_entries m) key = None" if "key \<notin> fst ` set (g_entries m)" for m
    using that by (simp add: map_of_eq_None_iff)
  consider (eq) "key = k" | (lt) "cmp key k < 0" | (gt) "0 < cmp key k" "cmp k key < 0"
    using cmp_eq [of key k] cmp_swap [of k key] by linarith
  then show ?case
  proof cases
    case eq
    then have "key \<notin> fst ` set (g_entries l)" using s(3) cmp_eq [of k k] by fastforce
    then show ?thesis using eq none [of l] cmp_eq [of k k] by (simp add: map_add_def)
  next
    case lt
    then have "key \<notin> fst ` set (g_entries r)" "key \<noteq> k" using s(4) cmp_swap [of k key] cmp_eq [of k k] by fastforce+
    then show ?thesis using lt none [of r] GNode.IH(1) [OF s(1)] by (simp add: map_add_def split: option.splits)
  next
    case gt
    then have "key \<notin> fst ` set (g_entries l)" "key \<noteq> k" using s(3) cmp_swap [of key k] cmp_eq [of k k] by fastforce+
    then show ?thesis using gt none [of l] GNode.IH(2) [OF s(2)] by (simp add: map_add_def split: option.splits)
  qed
qed simp

lemma insert_below_entries:
  assumes "g_tree_insert_below cmp key val False idx n = Some (n', up, added)" "key_sorted cmp (g_entries n)"
  shows "g_entries n' = set_entry cmp key val (g_entries n) \<and> (added \<longleftrightarrow> key \<notin> fst ` set (g_entries n))"
  using assms
proof (induction n arbitrary: idx n' up added)
  case (GNode l k v b r)
  note node = set_entry_node [OF GNode.prems(2) [simplified]]
  have s: "key_sorted cmp (g_entries l)" "key_sorted cmp (g_entries r)"
    "\<forall>x \<in> fst ` set (g_entries l). cmp x k < 0" "\<forall>y \<in> fst ` set (g_entries r). cmp k y < 0"
    using GNode.prems(2) by (auto simp: key_sorted_append)
  consider (eq) "cmp key k = 0" | (lt) "cmp key k < 0" | (gt) "0 < cmp key k" "cmp k key < 0"
    using cmp_swap [of k key] by linarith
  then show ?case
  proof cases
    case eq
    then show ?thesis using GNode.prems(1) node cmp_eq [of key k] by auto
  next
    case lt
    then have k: "key \<notin> fst ` set (g_entries r)" "key \<noteq> k" using s(4) cmp_swap [of k key] cmp_eq [of k k] by fastforce+
    show ?thesis
    proof (cases "l = GNil")
      case True
      then show ?thesis using GNode.prems(1) node lt k
        by (auto simp: g_tree_node_new_def dest!: restore_entries)
    next
      case False
      then obtain l' lup ladd where l': "g_tree_insert_below cmp key val False (Suc idx) l = Some (l', lup, ladd)"
        "(if lup then g_tree_restore (GNode l' k v (b - 1) r) else Some (GNode l' k v b r, False, ladd)) = Some (n', up, added)"
        using GNode.prems(1) lt by (auto split: bind_splits if_splits)
      then have "g_entries n' = g_entries l' @ (k, v) # g_entries r \<and> added = ladd"
        using l'(2) insert_up [OF l'(1)] by (auto dest!: restore_entries split: if_splits)
      then show ?thesis using GNode.IH(1) [OF l'(1) s(1)] node lt k by auto
    qed
  next
    case gt
    then have k: "key \<notin> fst ` set (g_entries l)" "key \<noteq> k" using s(3) cmp_swap [of key k] cmp_eq [of k k] by fastforce+
    show ?thesis
    proof (cases "r = GNil")
      case True
      then show ?thesis using GNode.prems(1) node gt k
        by (auto simp: g_tree_node_new_def dest!: restore_entries)
    next
      case False
      then obtain r' rup radd where r': "g_tree_insert_below cmp key val False (Suc idx) r = Some (r', rup, radd)"
        "(if rup then g_tree_restore (GNode l k v (b + 1) r') else Some (GNode l k v b r', False, radd)) = Some (n', up, added)"
        using GNode.prems(1) gt by (auto split: bind_splits if_splits)
      then have "g_entries n' = g_entries l @ (k, v) # g_entries r' \<and> added = radd"
        using r'(2) insert_up [OF r'(1)] by (auto dest!: restore_entries split: if_splits)
      then show ?thesis using GNode.IH(2) [OF r'(1) s(2)] node gt k by auto
    qed
  qed
qed simp

lemma insert_ok:
  assumes "gtree_inv cmp tree" "length (g_entries (g_root tree)) < 433494436"
  shows "\<exists>tree'. g_tree_insert cmp tree key val = Some tree' \<and> gtree_inv cmp tree' \<and>
    g_entries (g_root tree') = set_entry cmp key val (g_entries (g_root tree))"
proof (cases "g_root tree = GNil")
  case True
  then show ?thesis using assms(1)
    by (auto simp: g_tree_insert_def g_tree_insert_internal_def gtree_inv_def g_tree_node_new_def key_sorted_def)
next
  case False
  have avl: "g_avl (g_root tree)" and s: "key_sorted cmp (g_entries (g_root tree))"
    using assms(1) by (simp_all add: gtree_inv_def)
  have "restored (g_height (g_root tree)) (g_tree_insert_below cmp key val False 1 (g_root tree))"
    using avl_height [OF avl assms(2)] by (intro insert_below_balanced avl False) simp
  then obtain n up added where n: "g_tree_insert_below cmp key val False 1 (g_root tree) = Some (n, up, added)" "g_avl n"
    by (auto simp: restored_def split: option.splits)
  note e = insert_below_entries [OF n(1) s]
  show ?thesis using assms(1) n False e key_sorted_set_entry [OF s] length_set_entry [OF s, of key val]
    by (simp add: g_tree_insert_def g_tree_insert_internal_def gtree_inv_def)
qed

lemma lookup_ok: "gtree_inv cmp tree \<Longrightarrow> g_tree_lookup cmp tree key = map_of (g_entries (g_root tree)) key"
  unfolding g_tree_lookup_def g_tree_find_node_def by (rule find_below_entries) (simp add: gtree_inv_def)

lemma insert_list_ok:
  assumes "gtree_inv cmp tree" "length (g_entries (g_root tree)) + length ks \<le> 433494436"
  shows "\<exists>tree'. foldM (\<lambda>k t. g_tree_insert cmp t k val) ks tree = Some tree' \<and> gtree_inv cmp tree' \<and>
    fst ` set (g_entries (g_root tree')) = fst ` set (g_entries (g_root tree)) \<union> set ks \<and>
    length (g_entries (g_root tree')) \<le> length (g_entries (g_root tree)) + length ks \<and>
    map_of (g_entries (g_root tree')) = (\<lambda>k. if k \<in> set ks then Some val else map_of (g_entries (g_root tree)) k)"
  using assms
proof (induction ks arbitrary: tree)
  case (Cons k ks)
  have "length (g_entries (g_root tree)) < 433494436" using Cons.prems(2) by simp
  from insert_ok [OF Cons.prems(1) this, of k val] obtain t where t: "g_tree_insert cmp tree k val = Some t"
    "gtree_inv cmp t" "g_entries (g_root t) = set_entry cmp k val (g_entries (g_root tree))" by blast
  have s: "key_sorted cmp (g_entries (g_root tree))" using Cons.prems(1) by (simp add: gtree_inv_def)
  have len: "length (g_entries (g_root t)) \<le> Suc (length (g_entries (g_root tree)))"
    using length_set_entry [OF s, of k val] t(3) by simp
  have "length (g_entries (g_root t)) + length ks \<le> 433494436" using len Cons.prems(2) by simp
  from Cons.IH [OF t(2) this] obtain t' where t': "foldM (\<lambda>k t. g_tree_insert cmp t k val) ks t = Some t'"
    "gtree_inv cmp t'" "fst ` set (g_entries (g_root t')) = fst ` set (g_entries (g_root t)) \<union> set ks"
    "length (g_entries (g_root t')) \<le> length (g_entries (g_root t)) + length ks"
    "map_of (g_entries (g_root t')) = (\<lambda>k. if k \<in> set ks then Some val else map_of (g_entries (g_root t)) k)" by blast
  have "fst ` set (g_entries (g_root t')) = fst ` set (g_entries (g_root tree)) \<union> set (k # ks)"
    using t'(3) t(3) by (auto simp: set_set_entry)
  moreover have "map_of (g_entries (g_root t')) =
      (\<lambda>j. if j \<in> set (k # ks) then Some val else map_of (g_entries (g_root tree)) j)"
    unfolding t'(5) t(3) map_of_set_entry by (rule ext) simp
  ultimately show ?case using t(1) t'(1,2,4) len by (intro exI [of _ t']) simp
qed simp

end

section \<open>Nodes and their number\<close>

lemma g_tree_nnodes_entries:
  assumes "gtree_inv cmp tree" "length (g_entries (g_root tree)) < 2 ^ 31"
  shows "g_tree_nnodes tree = int (length (g_entries (g_root tree)))"
proof -
  have "sint (of_nat n :: u32) = int n" if "n < 2 ^ 31" for n
    using that by (simp add: signed_of_nat signed_take_bit_int_eq_self)
  then show ?thesis using assms by (simp add: g_tree_nnodes_def gtree_inv_def)
qed

end
