(* ===== verification/BSwap.thy ===== *)
theory BSwap
  imports UcPrelude
begin

text \<open>
  Byte order (\<^verbatim>\<open>qemu/include/qemu/bswap.h\<close>): the byte swaps, and the loads and stores of host, little
  and big endian values through unaligned pointers. Memory behind a pointer is the list of its bytes;
  a load reads the front of the list and a store gives the bytes it writes. The host is little-endian,
  so the host order and the little-endian order are the same. The lemmas relate all of them to one
  description: the value whose bytes, from the least significant one, are a given list.
\<close>

section \<open>Swaps\<close>

definition bswap16 :: "u16 \<Rightarrow> u16" where
  "bswap16 x = push_bit 8 (x AND 0x00ff) OR drop_bit 8 (x AND 0xff00)"

definition bswap32 :: "u32 \<Rightarrow> u32" where
  "bswap32 x =
    push_bit 24 (x AND 0x000000ff) OR push_bit 8 (x AND 0x0000ff00) OR
    drop_bit 8 (x AND 0x00ff0000) OR drop_bit 24 (x AND 0xff000000)"

definition bswap64 :: "u64 \<Rightarrow> u64" where
  "bswap64 x =
    push_bit 56 (x AND 0x00000000000000ff) OR push_bit 40 (x AND 0x000000000000ff00) OR
    push_bit 24 (x AND 0x0000000000ff0000) OR push_bit 8 (x AND 0x00000000ff000000) OR
    drop_bit 8 (x AND 0x000000ff00000000) OR drop_bit 24 (x AND 0x0000ff0000000000) OR
    drop_bit 40 (x AND 0x00ff000000000000) OR drop_bit 56 (x AND 0xff00000000000000)"

definition qemu_bswap_len :: "u32 \<Rightarrow> nat \<Rightarrow> u32" where
  "qemu_bswap_len val len = drop_bit (32 - 8 * len) (bswap32 val)"

section \<open>Loads and stores\<close>

definition ldub_p :: "u8 list \<Rightarrow> u8" where
  "ldub_p ptr = ptr ! 0"

definition stb_p :: "u8 \<Rightarrow> u8 list" where
  "stb_p v = [v]"

definition lduw_he_p :: "u8 list \<Rightarrow> u16" where
  "lduw_he_p ptr = ucast (ptr ! 0) OR push_bit 8 (ucast (ptr ! 1))"

definition stw_he_p :: "u16 \<Rightarrow> u8 list" where
  "stw_he_p v = [ucast v, ucast (drop_bit 8 v)]"

definition ldl_he_p :: "u8 list \<Rightarrow> u32" where
  "ldl_he_p ptr =
    ucast (ptr ! 0) OR push_bit 8 (ucast (ptr ! 1)) OR push_bit 16 (ucast (ptr ! 2)) OR
    push_bit 24 (ucast (ptr ! 3))"

definition stl_he_p :: "u32 \<Rightarrow> u8 list" where
  "stl_he_p v = map (\<lambda>i. ucast (drop_bit (8 * i) v)) [0, 1, 2, 3]"

definition ldq_he_p :: "u8 list \<Rightarrow> u64" where
  "ldq_he_p ptr =
    ucast (ptr ! 0) OR push_bit 8 (ucast (ptr ! 1)) OR push_bit 16 (ucast (ptr ! 2)) OR
    push_bit 24 (ucast (ptr ! 3)) OR push_bit 32 (ucast (ptr ! 4)) OR push_bit 40 (ucast (ptr ! 5)) OR
    push_bit 48 (ucast (ptr ! 6)) OR push_bit 56 (ucast (ptr ! 7))"

definition stq_he_p :: "u64 \<Rightarrow> u8 list" where
  "stq_he_p v = map (\<lambda>i. ucast (drop_bit (8 * i) v)) [0, 1, 2, 3, 4, 5, 6, 7]"

definition lduw_le_p :: "u8 list \<Rightarrow> u16" where "lduw_le_p ptr = lduw_he_p ptr"
definition ldl_le_p :: "u8 list \<Rightarrow> u32" where "ldl_le_p ptr = ldl_he_p ptr"
definition ldq_le_p :: "u8 list \<Rightarrow> u64" where "ldq_le_p ptr = ldq_he_p ptr"
definition stw_le_p :: "u16 \<Rightarrow> u8 list" where "stw_le_p v = stw_he_p v"
definition stl_le_p :: "u32 \<Rightarrow> u8 list" where "stl_le_p v = stl_he_p v"
definition stq_le_p :: "u64 \<Rightarrow> u8 list" where "stq_le_p v = stq_he_p v"

definition lduw_be_p :: "u8 list \<Rightarrow> u16" where "lduw_be_p ptr = bswap16 (lduw_he_p ptr)"
definition ldl_be_p :: "u8 list \<Rightarrow> u32" where "ldl_be_p ptr = bswap32 (ldl_he_p ptr)"
definition ldq_be_p :: "u8 list \<Rightarrow> u64" where "ldq_be_p ptr = bswap64 (ldq_he_p ptr)"
definition stw_be_p :: "u16 \<Rightarrow> u8 list" where "stw_be_p v = stw_he_p (bswap16 v)"
definition stl_be_p :: "u32 \<Rightarrow> u8 list" where "stl_be_p v = stl_he_p (bswap32 v)"
definition stq_be_p :: "u64 \<Rightarrow> u8 list" where "stq_be_p v = stq_he_p (bswap64 v)"

text \<open>
  The accesses whose size is only known at run time. Sizes other than 1, 2, 4 and 8 store nothing and
  load zero.
\<close>

definition stn_he_p :: "nat \<Rightarrow> u64 \<Rightarrow> u8 list" where
  "stn_he_p sz v =
    (if sz = 1 then stb_p (ucast v) else if sz = 2 then stw_he_p (ucast v)
     else if sz = 4 then stl_he_p (ucast v) else if sz = 8 then stq_he_p v else [])"

definition ldn_he_p :: "u8 list \<Rightarrow> nat \<Rightarrow> u64" where
  "ldn_he_p ptr sz =
    (if sz = 1 then ucast (ldub_p ptr) else if sz = 2 then ucast (lduw_he_p ptr)
     else if sz = 4 then ucast (ldl_he_p ptr) else if sz = 8 then ldq_he_p ptr else 0)"

definition stn_be_p :: "nat \<Rightarrow> u64 \<Rightarrow> u8 list" where
  "stn_be_p sz v =
    (if sz = 1 then stb_p (ucast v) else if sz = 2 then stw_be_p (ucast v)
     else if sz = 4 then stl_be_p (ucast v) else if sz = 8 then stq_be_p v else [])"

definition ldn_be_p :: "u8 list \<Rightarrow> nat \<Rightarrow> u64" where
  "ldn_be_p ptr sz =
    (if sz = 1 then ucast (ldub_p ptr) else if sz = 2 then ucast (lduw_be_p ptr)
     else if sz = 4 then ucast (ldl_be_p ptr) else if sz = 8 then ldq_be_p ptr else 0)"

section \<open>A swap reverses the bytes\<close>

lemma bit_bswap16: "n < 16 \<Longrightarrow> bit (bswap16 x) n \<longleftrightarrow> bit x (8 * (1 - n div 8) + n mod 8)"
  by (rule all_bits [where m = 16 and P = "\<lambda>n. bit (bswap16 x) n \<longleftrightarrow> bit x (8 * (1 - n div 8) + n mod 8)"])
    (simp_all add: bswap16_def bit_simps upt_16 flip: numeral_2_eq_2)

lemma bit_bswap32: "n < 32 \<Longrightarrow> bit (bswap32 x) n \<longleftrightarrow> bit x (8 * (3 - n div 8) + n mod 8)"
  by (rule all_bits [where m = 32 and P = "\<lambda>n. bit (bswap32 x) n \<longleftrightarrow> bit x (8 * (3 - n div 8) + n mod 8)"])
    (simp_all add: bswap32_def bit_simps upt_32 flip: numeral_2_eq_2)

lemma bit_bswap64: "n < 64 \<Longrightarrow> bit (bswap64 x) n \<longleftrightarrow> bit x (8 * (7 - n div 8) + n mod 8)"
  by (rule all_bits [where m = 64 and P = "\<lambda>n. bit (bswap64 x) n \<longleftrightarrow> bit x (8 * (7 - n div 8) + n mod 8)"])
    (simp_all add: bswap64_def bit_simps upt_64 flip: numeral_2_eq_2)

lemma odd_bswap:
  "odd (bswap16 x) \<longleftrightarrow> bit x 8" "odd (bswap32 y) \<longleftrightarrow> bit y 24" "odd (bswap64 z) \<longleftrightarrow> bit z 56"
  using bit_bswap16 [of 0 x] bit_bswap32 [of 0 y] bit_bswap64 [of 0 z] by (simp_all add: bit_0)

lemma bswap16_bswap16 [simp]: "bswap16 (bswap16 x) = x"
  by (rule bits_eqI) (simp add: bit_bswap16 upt_16 flip: numeral_2_eq_2)

lemma bswap32_bswap32 [simp]: "bswap32 (bswap32 x) = x"
  by (rule bits_eqI) (simp add: bit_bswap32 upt_32 flip: numeral_2_eq_2)

lemma bswap64_bswap64 [simp]: "bswap64 (bswap64 x) = x"
  by (rule bits_eqI) (simp add: bit_bswap64 upt_64 flip: numeral_2_eq_2)

section \<open>Loads and stores are inverse\<close>

definition access_size :: "nat \<Rightarrow> bool" where
  "access_size sz \<longleftrightarrow> sz = 1 \<or> sz = 2 \<or> sz = 4 \<or> sz = 8"

lemma length_stn_he_p: "access_size sz \<Longrightarrow> length (stn_he_p sz v) = sz"
  by (auto simp: access_size_def stn_he_p_def stb_p_def stw_he_p_def stl_he_p_def stq_he_p_def)

lemma length_stn_be_p: "access_size sz \<Longrightarrow> length (stn_be_p sz v) = sz"
  by (auto simp: access_size_def stn_be_p_def stb_p_def stw_be_p_def stl_be_p_def stq_be_p_def
      stw_he_p_def stl_he_p_def stq_he_p_def)

lemma lduw_stw [simp]: "lduw_he_p (stw_he_p v @ bs) = v"
  by (rule bits_eqI) (simp add: lduw_he_p_def stw_he_p_def upt_16 bit_simps)

lemma ldl_stl [simp]: "ldl_he_p (stl_he_p v @ bs) = v"
  by (rule bits_eqI) (simp add: ldl_he_p_def stl_he_p_def upt_32 bit_simps)

lemma ldq_stq [simp]: "ldq_he_p (stq_he_p v @ bs) = v"
  by (rule bits_eqI) (simp add: ldq_he_p_def stq_he_p_def upt_64 bit_simps)

lemma ucast_ucast_take_bit:
  "ucast (ucast (v :: u64) :: u8) = take_bit 8 v" "ucast (ucast v :: u16) = take_bit 16 v"
  "ucast (ucast v :: u32) = take_bit 32 v" "take_bit 64 v = v"
  by (rule bit_word_eqI; simp add: bit_simps; linarith)+

lemma ldn_stn_he_p: "access_size sz \<Longrightarrow> ldn_he_p (stn_he_p sz v @ bs) sz = take_bit (8 * sz) v"
  by (auto simp: access_size_def ldn_he_p_def stn_he_p_def ldub_p_def stb_p_def ucast_ucast_take_bit)

text \<open>Big-endian accesses are host accesses on the reversed bytes.\<close>

lemma stw_be_rev: "stw_be_p v = rev (stw_he_p v)"
  by (simp add: stw_be_p_def stw_he_p_def) (auto intro!: bits_eqI simp: upt_8 bit_simps bit_bswap16 simp flip: numeral_2_eq_2)

lemma stl_be_rev: "stl_be_p v = rev (stl_he_p v)"
  by (simp add: stl_be_p_def stl_he_p_def) (auto intro!: bits_eqI simp: upt_8 bit_simps bit_bswap32 simp flip: numeral_2_eq_2)

lemma stq_be_rev: "stq_be_p v = rev (stq_he_p v)"
  by (simp add: stq_be_p_def stq_he_p_def) (auto intro!: bits_eqI simp: upt_8 bit_simps bit_bswap64 simp flip: numeral_2_eq_2)

lemma stn_be_rev: "access_size sz \<Longrightarrow> stn_be_p sz v = rev (stn_he_p sz v)"
  by (auto simp: access_size_def stn_be_p_def stn_he_p_def stw_be_rev stl_be_rev stq_be_rev stb_p_def)

lemma ldn_stn_be_p: "access_size sz \<Longrightarrow> ldn_be_p (stn_be_p sz v @ bs) sz = take_bit (8 * sz) v"
  by (auto simp: access_size_def stn_be_p_def ldn_be_p_def lduw_be_p_def ldl_be_p_def ldq_be_p_def
      stw_be_p_def stl_be_p_def stq_be_p_def ldub_p_def stb_p_def ucast_ucast_take_bit)

text \<open>
  C37: for the four access sizes, a store followed by a load of the same size gives the low bytes of the
  value back, in host order and in big-endian order; a store writes exactly as many bytes as the size;
  and the big-endian bytes are the host bytes reversed.
\<close>

theorem stn_ldn_round_trip:
  assumes "sz \<in> {1, 2, 4, 8}"
  shows "ldn_he_p (stn_he_p sz v @ bs) sz = take_bit (8 * sz) v \<and>
    ldn_be_p (stn_be_p sz v @ bs) sz = take_bit (8 * sz) v \<and>
    length (stn_he_p sz v) = sz \<and> stn_be_p sz v = rev (stn_he_p sz v)"
proof -
  have "access_size sz" using assms by (auto simp: access_size_def)
  then show ?thesis using ldn_stn_he_p ldn_stn_be_p length_stn_he_p stn_be_rev by blast
qed

theorem stn_ldn_round_trip_witness:
  "ldn_be_p (stn_be_p 4 0x1122334455667788 @ [0, 1]) 4 = 0x55667788"
proof -
  have "ldn_be_p (stn_be_p 4 0x1122334455667788 @ [0, 1]) 4 = take_bit (8 * 4) 0x1122334455667788"
    using stn_ldn_round_trip [of 4 "0x1122334455667788" "[0, 1]"] by blast
  then show ?thesis by simp
qed

end
