(* ===== verification/HostUtils.thy ===== *)
theory HostUtils
  imports BSwap
begin

text \<open>
  The bit helpers of \<^verbatim>\<open>qemu/include/qemu/host-utils.h\<close>: counting and reversing bits, and powers of two.
  Where the sources have a branch for compilers with a builtin and a portable branch, both are modelled
  (the portable one carries the suffix \<^verbatim>\<open>_portable\<close>) and the lemmas show that they agree.
\<close>

section \<open>Counting bits\<close>

text \<open>The compiler builtins: leading zeros, trailing zeros and set bits of a word.\<close>

definition builtin_clz :: "'a::len word \<Rightarrow> nat" where
  "builtin_clz x = length (takeWhile (\<lambda>i. \<not> bit x i) (rev [0 ..< LENGTH('a)]))"

definition builtin_ctz :: "'a::len word \<Rightarrow> nat" where
  "builtin_ctz x = length (takeWhile (\<lambda>i. \<not> bit x i) [0 ..< LENGTH('a)])"

definition builtin_popcount :: "'a::len word \<Rightarrow> nat" where
  "builtin_popcount x = length (filter (bit x) [0 ..< LENGTH('a)])"

definition clz32 :: "u32 \<Rightarrow> nat" where
  "clz32 val = (if val \<noteq> 0 then builtin_clz val else 32)"

definition clz32_portable :: "u32 \<Rightarrow> nat" where
  "clz32_portable val =
    (let (cnt, val) = (if val AND 0xFFFF0000 = 0 then (16, push_bit 16 val) else (0, val));
         (cnt, val) = (if val AND 0xFF000000 = 0 then (cnt + 8, push_bit 8 val) else (cnt, val));
         (cnt, val) = (if val AND 0xF0000000 = 0 then (cnt + 4, push_bit 4 val) else (cnt, val));
         (cnt, val) = (if val AND 0xC0000000 = 0 then (cnt + 2, push_bit 2 val) else (cnt, val));
         (cnt, val) = (if val AND 0x80000000 = 0 then (cnt + 1, push_bit 1 val) else (cnt, val)) in
     if val AND 0x80000000 = 0 then cnt + 1 else cnt)"

definition clo32 :: "u32 \<Rightarrow> nat" where
  "clo32 val = clz32 (NOT val)"

definition clz64 :: "u64 \<Rightarrow> nat" where
  "clz64 val = (if val \<noteq> 0 then builtin_clz val else 64)"

definition clz64_portable :: "u64 \<Rightarrow> nat" where
  "clz64_portable val =
    (let (cnt, val) = (if drop_bit 32 val = 0 then (32, val) else (0, drop_bit 32 val)) in
     cnt + clz32_portable (ucast val))"

definition clo64 :: "u64 \<Rightarrow> nat" where
  "clo64 val = clz64 (NOT val)"

definition ctz32 :: "u32 \<Rightarrow> nat" where
  "ctz32 val = (if val \<noteq> 0 then builtin_ctz val else 32)"

definition ctz32_portable :: "u32 \<Rightarrow> nat" where
  "ctz32_portable val =
    (let (cnt, val) = (if val AND 0x0000FFFF = 0 then (16, drop_bit 16 val) else (0, val));
         (cnt, val) = (if val AND 0x000000FF = 0 then (cnt + 8, drop_bit 8 val) else (cnt, val));
         (cnt, val) = (if val AND 0x0000000F = 0 then (cnt + 4, drop_bit 4 val) else (cnt, val));
         (cnt, val) = (if val AND 0x00000003 = 0 then (cnt + 2, drop_bit 2 val) else (cnt, val));
         (cnt, val) = (if val AND 0x00000001 = 0 then (cnt + 1, drop_bit 1 val) else (cnt, val)) in
     if val AND 0x00000001 = 0 then cnt + 1 else cnt)"

definition cto32 :: "u32 \<Rightarrow> nat" where
  "cto32 val = ctz32 (NOT val)"

definition ctz64 :: "u64 \<Rightarrow> nat" where
  "ctz64 val = (if val \<noteq> 0 then builtin_ctz val else 64)"

definition ctz64_portable :: "u64 \<Rightarrow> nat" where
  "ctz64_portable val =
    (let (cnt, val) = (if (ucast val :: u32) = 0 then (32, drop_bit 32 val) else (0, val)) in
     cnt + ctz32_portable (ucast val))"

definition cto64 :: "u64 \<Rightarrow> nat" where
  "cto64 val = ctz64 (NOT val)"

definition clrsb32 :: "u32 \<Rightarrow> int" where
  "clrsb32 val = int (clz32 (val XOR signed_drop_bit 1 val)) - 1"

definition clrsb64 :: "u64 \<Rightarrow> int" where
  "clrsb64 val = int (clz64 (val XOR signed_drop_bit 1 val)) - 1"

definition ctpop8 :: "u8 \<Rightarrow> nat" where "ctpop8 val = builtin_popcount val"
definition ctpop16 :: "u16 \<Rightarrow> nat" where "ctpop16 val = builtin_popcount val"
definition ctpop32 :: "u32 \<Rightarrow> nat" where "ctpop32 val = builtin_popcount val"
definition ctpop64 :: "u64 \<Rightarrow> nat" where "ctpop64 val = builtin_popcount val"

definition ctpop8_portable :: "u8 \<Rightarrow> nat" where
  "ctpop8_portable val =
    (let val = (val AND 0x55) + (drop_bit 1 val AND 0x55);
         val = (val AND 0x33) + (drop_bit 2 val AND 0x33);
         val = (val AND 0x0f) + (drop_bit 4 val AND 0x0f) in unat val)"

definition ctpop16_portable :: "u16 \<Rightarrow> nat" where
  "ctpop16_portable val =
    (let val = (val AND 0x5555) + (drop_bit 1 val AND 0x5555);
         val = (val AND 0x3333) + (drop_bit 2 val AND 0x3333);
         val = (val AND 0x0f0f) + (drop_bit 4 val AND 0x0f0f);
         val = (val AND 0x00ff) + (drop_bit 8 val AND 0x00ff) in unat val)"

definition ctpop32_portable :: "u32 \<Rightarrow> nat" where
  "ctpop32_portable val =
    (let val = (val AND 0x55555555) + (drop_bit 1 val AND 0x55555555);
         val = (val AND 0x33333333) + (drop_bit 2 val AND 0x33333333);
         val = (val AND 0x0f0f0f0f) + (drop_bit 4 val AND 0x0f0f0f0f);
         val = (val AND 0x00ff00ff) + (drop_bit 8 val AND 0x00ff00ff);
         val = (val AND 0x0000ffff) + (drop_bit 16 val AND 0x0000ffff) in unat val)"

definition ctpop64_portable :: "u64 \<Rightarrow> nat" where
  "ctpop64_portable val =
    (let val = (val AND 0x5555555555555555) + (drop_bit 1 val AND 0x5555555555555555);
         val = (val AND 0x3333333333333333) + (drop_bit 2 val AND 0x3333333333333333);
         val = (val AND 0x0f0f0f0f0f0f0f0f) + (drop_bit 4 val AND 0x0f0f0f0f0f0f0f0f);
         val = (val AND 0x00ff00ff00ff00ff) + (drop_bit 8 val AND 0x00ff00ff00ff00ff);
         val = (val AND 0x0000ffff0000ffff) + (drop_bit 16 val AND 0x0000ffff0000ffff);
         val = (val AND 0x00000000ffffffff) + (drop_bit 32 val AND 0x00000000ffffffff) in unat val)"

section \<open>Reversing bits\<close>

definition revbit8 :: "u8 \<Rightarrow> u8" where
  "revbit8 x =
    (let x = drop_bit 4 (x AND 0xf0) OR push_bit 4 (x AND 0x0f) in
     drop_bit 3 (x AND 0x88) OR drop_bit 1 (x AND 0x44) OR push_bit 1 (x AND 0x22) OR push_bit 3 (x AND 0x11))"

definition revbit16 :: "u16 \<Rightarrow> u16" where
  "revbit16 x =
    (let x = bswap16 x; x = drop_bit 4 (x AND 0xf0f0) OR push_bit 4 (x AND 0x0f0f) in
     drop_bit 3 (x AND 0x8888) OR drop_bit 1 (x AND 0x4444) OR push_bit 1 (x AND 0x2222) OR
     push_bit 3 (x AND 0x1111))"

definition revbit32 :: "u32 \<Rightarrow> u32" where
  "revbit32 x =
    (let x = bswap32 x; x = drop_bit 4 (x AND 0xf0f0f0f0) OR push_bit 4 (x AND 0x0f0f0f0f) in
     drop_bit 3 (x AND 0x88888888) OR drop_bit 1 (x AND 0x44444444) OR push_bit 1 (x AND 0x22222222) OR
     push_bit 3 (x AND 0x11111111))"

definition revbit64 :: "u64 \<Rightarrow> u64" where
  "revbit64 x =
    (let x = bswap64 x;
         x = drop_bit 4 (x AND 0xf0f0f0f0f0f0f0f0) OR push_bit 4 (x AND 0x0f0f0f0f0f0f0f0f) in
     drop_bit 3 (x AND 0x8888888888888888) OR drop_bit 1 (x AND 0x4444444444444444) OR
     push_bit 1 (x AND 0x2222222222222222) OR push_bit 3 (x AND 0x1111111111111111))"

section \<open>Powers of two\<close>

definition is_power_of_2 :: "u64 \<Rightarrow> bool" where
  "is_power_of_2 val = (if val = 0 then False else val AND (val - 1) = 0)"

definition pow2floor :: "u64 \<Rightarrow> u64" where
  "pow2floor val = (if val = 0 then 0 else drop_bit (clz64 val) 0x8000000000000000)"

definition pow2ceil :: "u64 \<Rightarrow> u64" where
  "pow2ceil val =
    (let n = clz64 (val - 1) in
     if n = 0 then (if val = 0 then 1 else 0) else drop_bit (n - 1) 0x8000000000000000)"

definition pow2roundup32 :: "u32 \<Rightarrow> u32" where
  "pow2roundup32 x =
    (let x = x OR drop_bit 1 x; x = x OR drop_bit 2 x; x = x OR drop_bit 4 x; x = x OR drop_bit 8 x;
         x = x OR drop_bit 16 x in x + 1)"

section \<open>The highest and the lowest bit\<close>

lemma word_nonzero_bit: "x \<noteq> 0 \<longleftrightarrow> (\<exists>i < LENGTH('a). bit x i)" for x :: "'a::len word"
  by (metis bit_0_eq bit_imp_le_length bit_word_eqI bot_apply bot_bool_def)

lemma top_bit_exists:
  fixes x :: "'a::len word"
  assumes "x \<noteq> 0"
  shows "\<exists>i < LENGTH('a). bit x i \<and> (\<forall>j > i. \<not> bit x j)"
proof -
  let ?S = "{i. i < LENGTH('a) \<and> bit x i}"
  have "finite ?S" by simp
  moreover have "?S \<noteq> {}" using assms word_nonzero_bit by blast
  ultimately have "Max ?S \<in> ?S" by (rule Max_in)
  moreover have max: "\<forall>j \<in> ?S. j \<le> Max ?S" by simp
  moreover have "\<not> bit x j" if "Max ?S < j" for j
    using max that bit_imp_le_length [of x j] by (metis (mono_tags, lifting) leD mem_Collect_eq)
  ultimately show ?thesis by blast
qed

lemma low_bit_exists:
  fixes x :: "'a::len word"
  assumes "x \<noteq> 0"
  shows "\<exists>i < LENGTH('a). bit x i \<and> (\<forall>j < i. \<not> bit x j)"
proof -
  obtain k where "bit x k" using assms word_nonzero_bit by blast
  then have "bit x (LEAST i. bit x i)" "\<forall>j < (LEAST i. bit x i). \<not> bit x j"
    by (auto intro: LeastI dest: not_less_Least)
  then show ?thesis using bit_imp_le_length by blast
qed

lemma top_bit_bounds:
  fixes x :: "'a::len word"
  assumes "bit x i" "\<forall>j > i. \<not> bit x j"
  shows "2 ^ i \<le> unat x" "unat x < 2 ^ Suc i"
proof -
  have "bit (unat x) i" using assms(1) by (simp add: bit_unsigned_iff)
  then have "drop_bit i (unat x) \<noteq> 0" by (metis bit_0_eq bit_drop_bit_eq bot_apply bot_bool_def comp_apply Nat.add_0_right)
  then show "2 ^ i \<le> unat x" by (metis div_less drop_bit_eq_div not_le)
  have "take_bit (Suc i) (unat x) = unat x"
    using assms(2) by (intro bit_eqI) (auto simp: bit_take_bit_iff bit_unsigned_iff not_less_eq)
  then show "unat x < 2 ^ Suc i" by (metis take_bit_nat_less_exp)
qed

lemma upt_split_at: "i < n \<Longrightarrow> [0 ..< n] = [0 ..< i] @ i # [Suc i ..< n]"
  using upt_add_eq_append [of 0 i "n - i"] by (simp add: upt_conv_Cons)

lemma builtin_clz_top:
  fixes x :: "'a::len word"
  assumes "bit x i" "\<forall>j > i. \<not> bit x j"
  shows "builtin_clz x = LENGTH('a) - 1 - i"
proof -
  have i: "i < LENGTH('a)" using assms(1) by (rule bit_imp_le_length)
  then have "[0 ..< LENGTH('a)] = [0 ..< i] @ i # [Suc i ..< LENGTH('a)]"
    by (rule upt_split_at)
  then have "builtin_clz x = length (takeWhile (\<lambda>i. \<not> bit x i) (rev [Suc i ..< LENGTH('a)] @ i # rev [0 ..< i]))"
    by (simp add: builtin_clz_def)
  also have "\<dots> = length (rev [Suc i ..< LENGTH('a)])"
    using assms by (subst takeWhile_append2) auto
  finally show ?thesis by simp
qed

lemma builtin_ctz_low:
  fixes x :: "'a::len word"
  assumes "bit x i" "\<forall>j < i. \<not> bit x j"
  shows "builtin_ctz x = i"
proof -
  have i: "i < LENGTH('a)" using assms(1) by (rule bit_imp_le_length)
  then have "[0 ..< LENGTH('a)] = [0 ..< i] @ i # [Suc i ..< LENGTH('a)]"
    by (rule upt_split_at)
  then have "builtin_ctz x = length (takeWhile (\<lambda>i. \<not> bit x i) ([0 ..< i] @ i # [Suc i ..< LENGTH('a)]))"
    by (simp add: builtin_ctz_def)
  also have "\<dots> = i" using assms by (subst takeWhile_append2) auto
  finally show ?thesis .
qed

section \<open>The portable searches\<close>

text \<open>
  One step of the search for the leading one: when the upper half of the bits still considered is
  empty, the word moves up by that half. The leading one ends in the upper half, and the count and the
  remaining leading zeros add up as before.
\<close>

lemma clz_step:
  fixes x :: u32
  assumes "0 < k" "2 * k \<le> 32" "drop_bit (32 - 2 * k) x \<noteq> 0"
    and "(cnt', y) = (if drop_bit (32 - k) x = 0 then (cnt + k, push_bit k x) else (cnt, x))"
  shows "drop_bit (32 - k) y \<noteq> 0 \<and> cnt' + builtin_clz y = cnt + builtin_clz x"
proof (cases "drop_bit (32 - k) x = 0")
  case True
  have "x \<noteq> 0" using assms(3) by auto
  then obtain i where i: "i < 32" "bit x i" "\<forall>j > i. \<not> bit x j" using top_bit_exists [of x] by auto
  have "i < 32 - k"
  proof (rule ccontr)
    assume "\<not> i < 32 - k"
    then have "bit (drop_bit (32 - k) x) (i - (32 - k))" using i(2) by (simp add: bit_drop_bit_eq)
    then show False using True by simp
  qed
  moreover have "32 - 2 * k \<le> i"
  proof (rule ccontr)
    assume "\<not> 32 - 2 * k \<le> i"
    then have "drop_bit (32 - 2 * k) x = 0" using i(3) by (intro bit_word_eqI) (simp add: bit_drop_bit_eq)
    then show False using assms(3) by simp
  qed
  ultimately have b: "bit (push_bit k x) (i + k)" "\<forall>j > i + k. \<not> bit (push_bit k x) j"
    using i by (auto simp: bit_push_bit_iff)
  have "drop_bit (32 - k) (push_bit k x) \<noteq> 0"
  proof
    assume "drop_bit (32 - k) (push_bit k x) = 0"
    then have "\<not> bit (drop_bit (32 - k) (push_bit k x)) (i + k - (32 - k))" by simp
    then show False using b(1) \<open>32 - 2 * k \<le> i\<close> assms(2) by (simp add: bit_drop_bit_eq add.commute)
  qed
  moreover have "builtin_clz (push_bit k x) = 31 - (i + k)" "builtin_clz x = 31 - i"
    using builtin_clz_top [OF b] builtin_clz_top [OF i(2,3)] by simp_all
  ultimately show ?thesis using assms(4) True \<open>i < 32 - k\<close> by auto
qed (use assms in auto)

lemma ctz_step:
  fixes x :: u32
  assumes "0 < k" "2 * k \<le> 32" "take_bit (2 * k) x \<noteq> 0"
    and "(cnt', y) = (if take_bit k x = 0 then (cnt + k, drop_bit k x) else (cnt, x))"
  shows "take_bit k y \<noteq> 0 \<and> cnt' + builtin_ctz y = cnt + builtin_ctz x"
proof (cases "take_bit k x = 0")
  case True
  have "x \<noteq> 0" using assms(3) by auto
  then obtain i where i: "i < 32" "bit x i" "\<forall>j < i. \<not> bit x j" using low_bit_exists [of x] by auto
  have "k \<le> i"
  proof (rule ccontr)
    assume "\<not> k \<le> i"
    then have "bit (take_bit k x) i" using i(2) by (simp add: bit_take_bit_iff)
    then show False using True by simp
  qed
  moreover have "i < 2 * k"
  proof (rule ccontr)
    assume "\<not> i < 2 * k"
    then have "take_bit (2 * k) x = 0" using i(3) by (intro bit_word_eqI) (simp add: bit_take_bit_iff)
    then show False using assms(3) by simp
  qed
  ultimately have b: "bit (drop_bit k x) (i - k)" "\<forall>j < i - k. \<not> bit (drop_bit k x) j"
    using i by (auto simp: bit_drop_bit_eq)
  have "take_bit k (drop_bit k x) \<noteq> 0"
  proof
    assume "take_bit k (drop_bit k x) = 0"
    then have "\<not> bit (take_bit k (drop_bit k x)) (i - k)" by simp
    then show False using b(1) \<open>i < 2 * k\<close> \<open>k \<le> i\<close> by (simp add: bit_take_bit_iff)
  qed
  moreover have "builtin_ctz (drop_bit k x) = i - k" "builtin_ctz x = i"
    using builtin_ctz_low [OF b] builtin_ctz_low [OF i(2,3)] by simp_all
  ultimately show ?thesis using assms(4) True \<open>k \<le> i\<close> by auto
qed (use assms in auto)

lemma word32_zero: "x = 0 \<longleftrightarrow> (\<forall>n \<in> set [0 ..< 32]. \<not> bit x n)" for x :: u32
  using word_nonzero_bit [of x] by auto

lemma upper_masks:
  fixes x :: u32
  shows "x AND 0xFFFF0000 = 0 \<longleftrightarrow> drop_bit 16 x = 0" "x AND 0xFF000000 = 0 \<longleftrightarrow> drop_bit 24 x = 0"
    "x AND 0xF0000000 = 0 \<longleftrightarrow> drop_bit 28 x = 0" "x AND 0xC0000000 = 0 \<longleftrightarrow> drop_bit 30 x = 0"
    "x AND 0x80000000 = 0 \<longleftrightarrow> drop_bit 31 x = 0"
  by (simp_all only: word32_zero) (simp_all add: upt_32 bit_simps bit_beyond)

lemma lower_masks:
  fixes x :: u32
  shows "x AND 0x0000FFFF = take_bit 16 x" "x AND 0x000000FF = take_bit 8 x"
    "x AND 0x0000000F = take_bit 4 x" "x AND 0x00000003 = take_bit 2 x" "x AND 0x00000001 = take_bit 1 x"
  by (rule bits_eqI; simp add: upt_32 bit_simps bit_0)+

lemma builtin_clz_0: "drop_bit 31 x \<noteq> 0 \<Longrightarrow> builtin_clz x = 0" for x :: u32
proof -
  assume a: "drop_bit 31 x \<noteq> 0"
  then have "bit x 31" by (simp add: word32_zero upt_32 bit_simps bit_beyond)
  moreover have "\<forall>j > 31. \<not> bit x j" using bit_imp_le_length [of x] by fastforce
  ultimately show ?thesis using builtin_clz_top [of x 31] by simp
qed

lemma builtin_ctz_0: "take_bit 1 x \<noteq> 0 \<Longrightarrow> builtin_ctz x = 0" for x :: u32
proof -
  assume "take_bit 1 x \<noteq> 0"
  then have "bit x 0" by (simp add: word32_zero upt_32 bit_simps bit_0)
  then show ?thesis using builtin_ctz_low [of x 0] by simp
qed

lemma clz32_portable_eq: "clz32_portable x = clz32 x"
proof (cases "x = 0")
  case True
  then show ?thesis by (simp add: clz32_portable_def clz32_def)
next
  case False
  define p1 :: "nat \<times> u32" where "p1 = (if drop_bit 16 x = 0 then (16, push_bit 16 x) else (0, x))"
  define p2 where "p2 = (if drop_bit 24 (snd p1) = 0 then (fst p1 + 8, push_bit 8 (snd p1)) else (fst p1, snd p1))"
  define p3 where "p3 = (if drop_bit 28 (snd p2) = 0 then (fst p2 + 4, push_bit 4 (snd p2)) else (fst p2, snd p2))"
  define p4 where "p4 = (if drop_bit 30 (snd p3) = 0 then (fst p3 + 2, push_bit 2 (snd p3)) else (fst p3, snd p3))"
  define p5 where "p5 = (if drop_bit 31 (snd p4) = 0 then (fst p4 + 1, push_bit 1 (snd p4)) else (fst p4, snd p4))"
  have s1: "drop_bit 16 (snd p1) \<noteq> 0 \<and> fst p1 + builtin_clz (snd p1) = builtin_clz x"
    using clz_step [of 16 x "fst p1" "snd p1" 0] False by (cases "drop_bit 16 x = 0") (simp_all add: p1_def)
  have s2: "drop_bit 24 (snd p2) \<noteq> 0 \<and> fst p2 + builtin_clz (snd p2) = builtin_clz x"
    using clz_step [of 8 "snd p1" "fst p2" "snd p2" "fst p1"] s1 by (simp add: p2_def split: prod.splits)
  have s3: "drop_bit 28 (snd p3) \<noteq> 0 \<and> fst p3 + builtin_clz (snd p3) = builtin_clz x"
    using clz_step [of 4 "snd p2" "fst p3" "snd p3" "fst p2"] s2 by (simp add: p3_def split: prod.splits)
  have s4: "drop_bit 30 (snd p4) \<noteq> 0 \<and> fst p4 + builtin_clz (snd p4) = builtin_clz x"
    using clz_step [of 2 "snd p3" "fst p4" "snd p4" "fst p3"] s3 by (simp add: p4_def split: prod.splits)
  have s5: "drop_bit 31 (snd p5) \<noteq> 0 \<and> fst p5 + builtin_clz (snd p5) = builtin_clz x"
    using clz_step [of 1 "snd p4" "fst p5" "snd p5" "fst p4"] s4 by (simp add: p5_def split: prod.splits)
  have "clz32_portable x = (if drop_bit 31 (snd p5) = 0 then fst p5 + 1 else fst p5)"
    unfolding clz32_portable_def upper_masks Let_def case_prod_beta p5_def p4_def p3_def p2_def p1_def by (rule refl)
  also have "\<dots> = builtin_clz x" using s5 builtin_clz_0 [of "snd p5"] by simp
  finally show ?thesis using False by (simp add: clz32_def)
qed

lemma ctz32_portable_eq: "ctz32_portable x = ctz32 x"
proof (cases "x = 0")
  case True
  then show ?thesis by (simp add: ctz32_portable_def ctz32_def)
next
  case False
  define p1 :: "nat \<times> u32" where "p1 = (if take_bit 16 x = 0 then (16, drop_bit 16 x) else (0, x))"
  define p2 where "p2 = (if take_bit 8 (snd p1) = 0 then (fst p1 + 8, drop_bit 8 (snd p1)) else (fst p1, snd p1))"
  define p3 where "p3 = (if take_bit 4 (snd p2) = 0 then (fst p2 + 4, drop_bit 4 (snd p2)) else (fst p2, snd p2))"
  define p4 where "p4 = (if take_bit 2 (snd p3) = 0 then (fst p3 + 2, drop_bit 2 (snd p3)) else (fst p3, snd p3))"
  define p5 where "p5 = (if take_bit 1 (snd p4) = 0 then (fst p4 + 1, drop_bit 1 (snd p4)) else (fst p4, snd p4))"
  have "take_bit 32 x = x" by (rule bits_eqI) (simp add: bit_take_bit_iff)
  then have s1: "take_bit 16 (snd p1) \<noteq> 0 \<and> fst p1 + builtin_ctz (snd p1) = builtin_ctz x"
    using ctz_step [of 16 x "fst p1" "snd p1" 0] False by (cases "take_bit 16 x = 0") (simp_all add: p1_def)
  have s2: "take_bit 8 (snd p2) \<noteq> 0 \<and> fst p2 + builtin_ctz (snd p2) = builtin_ctz x"
    using ctz_step [of 8 "snd p1" "fst p2" "snd p2" "fst p1"] s1 by (simp add: p2_def split: prod.splits)
  have s3: "take_bit 4 (snd p3) \<noteq> 0 \<and> fst p3 + builtin_ctz (snd p3) = builtin_ctz x"
    using ctz_step [of 4 "snd p2" "fst p3" "snd p3" "fst p2"] s2 by (simp add: p3_def split: prod.splits)
  have s4: "take_bit 2 (snd p4) \<noteq> 0 \<and> fst p4 + builtin_ctz (snd p4) = builtin_ctz x"
    using ctz_step [of 2 "snd p3" "fst p4" "snd p4" "fst p3"] s3 by (simp add: p4_def split: prod.splits)
  have s5: "take_bit 1 (snd p5) \<noteq> 0 \<and> fst p5 + builtin_ctz (snd p5) = builtin_ctz x"
    using ctz_step [of 1 "snd p4" "fst p5" "snd p5" "fst p4"] s4 by (simp add: p5_def split: prod.splits)
  have "ctz32_portable x = (if take_bit 1 (snd p5) = 0 then fst p5 + 1 else fst p5)"
    unfolding ctz32_portable_def lower_masks Let_def case_prod_beta p5_def p4_def p3_def p2_def p1_def by (rule refl)
  also have "\<dots> = builtin_ctz x" using s5 builtin_ctz_0 [of "snd p5"] by simp
  finally show ?thesis using False by (simp add: ctz32_def)
qed

lemma clz64_portable_eq: "clz64_portable x = clz64 x"
proof -
  have top: "clz64 x = 63 - i" if "bit x i" "\<forall>j > i. \<not> bit x j" for i
    using builtin_clz_top [OF that] that by (auto simp: clz64_def)
  have top32: "clz32 y = 31 - i" if "bit y i" "\<forall>j > i. \<not> bit y j" for y i
    using builtin_clz_top [OF that] that by (auto simp: clz32_def)
  show ?thesis
  proof (cases "x = 0")
    case True
    then show ?thesis by (simp add: clz64_portable_def clz64_def clz32_portable_eq clz32_def)
  next
    case False
    then obtain i where i: "i < 64" "bit x i" "\<forall>j > i. \<not> bit x j" using top_bit_exists [of x] by auto
    show ?thesis
    proof (cases "i < 32")
      case True
      then have "drop_bit 32 x = 0" using i(3) by (intro bit_word_eqI) (simp add: bit_drop_bit_eq)
      moreover have "clz32 (ucast x) = 31 - i"
        using i True by (intro top32) (auto simp: bit_ucast_iff)
      ultimately show ?thesis using top [OF i(2,3)] True by (simp add: clz64_portable_def clz32_portable_eq)
    next
      case False
      have "bit (drop_bit 32 x) (i - 32)" using i(2) False by (simp add: bit_drop_bit_eq)
      then have "drop_bit 32 x \<noteq> 0" by auto
      moreover have "clz32 (ucast (drop_bit 32 x)) = 31 - (i - 32)"
        using i False by (intro top32) (auto simp: bit_ucast_iff bit_drop_bit_eq)
      ultimately show ?thesis using top [OF i(2,3)] False i(1) by (simp add: clz64_portable_def clz32_portable_eq)
    qed
  qed
qed

lemma ctz64_portable_eq: "ctz64_portable x = ctz64 x"
proof -
  have low: "ctz64 x = i" if "bit x i" "\<forall>j < i. \<not> bit x j" for i
    using builtin_ctz_low [OF that] that by (auto simp: ctz64_def)
  have low32: "ctz32 y = i" if "bit y i" "\<forall>j < i. \<not> bit y j" for y i
    using builtin_ctz_low [OF that] that by (auto simp: ctz32_def)
  show ?thesis
  proof (cases "x = 0")
    case True
    then show ?thesis by (simp add: ctz64_portable_def ctz64_def ctz32_portable_eq ctz32_def)
  next
    case False
    then obtain i where i: "i < 64" "bit x i" "\<forall>j < i. \<not> bit x j" using low_bit_exists [of x] by auto
    show ?thesis
    proof (cases "i < 32")
      case True
      then have "bit (ucast x :: u32) i" using i by (simp add: bit_ucast_iff)
      then have "(ucast x :: u32) \<noteq> 0" by auto
      moreover have "ctz32 (ucast x) = i"
        using i True by (intro low32) (auto simp: bit_ucast_iff)
      ultimately show ?thesis using low [OF i(2,3)] True by (simp add: ctz64_portable_def ctz32_portable_eq)
    next
      case False
      then have "(ucast x :: u32) = 0" using i(3) by (intro bit_word_eqI) (simp add: bit_ucast_iff)
      moreover have "ctz32 (ucast (drop_bit 32 x)) = i - 32"
        using i False by (intro low32) (auto simp: bit_ucast_iff bit_drop_bit_eq)
      ultimately show ?thesis using low [OF i(2,3)] False by (simp add: ctz64_portable_def ctz32_portable_eq)
    qed
  qed
qed

section \<open>Reversal and powers of two\<close>

lemma bit_revbit8: "n < 8 \<Longrightarrow> bit (revbit8 x) n \<longleftrightarrow> bit x (7 - n)"
  by (rule all_bits [where m = 8 and P = "\<lambda>n. bit (revbit8 x) n \<longleftrightarrow> bit x (7 - n)"])
    (simp_all add: revbit8_def Let_def bit_simps upt_8 bit_0 bit_times_2)

lemma bit_revbit16: "n < 16 \<Longrightarrow> bit (revbit16 x) n \<longleftrightarrow> bit x (15 - n)"
  by (rule all_bits [where m = 16 and P = "\<lambda>n. bit (revbit16 x) n \<longleftrightarrow> bit x (15 - n)"])
    (simp_all add: revbit16_def Let_def bit_simps upt_16 bit_bswap16 odd_bswap bit_0 bit_times_2 flip: numeral_2_eq_2)

lemma bit_revbit32: "n < 32 \<Longrightarrow> bit (revbit32 x) n \<longleftrightarrow> bit x (31 - n)"
  by (rule all_bits [where m = 32 and P = "\<lambda>n. bit (revbit32 x) n \<longleftrightarrow> bit x (31 - n)"])
    (simp_all add: revbit32_def Let_def bit_simps upt_32 bit_bswap32 odd_bswap bit_0 bit_times_2 flip: numeral_2_eq_2)

lemma bit_revbit64: "n < 64 \<Longrightarrow> bit (revbit64 x) n \<longleftrightarrow> bit x (63 - n)"
  by (rule all_bits [where m = 64 and P = "\<lambda>n. bit (revbit64 x) n \<longleftrightarrow> bit x (63 - n)"])
    (simp_all add: revbit64_def Let_def bit_simps upt_64 bit_bswap64 odd_bswap bit_0 bit_times_2 flip: numeral_2_eq_2)

lemma top_power: "k < 64 \<Longrightarrow> drop_bit (63 - k) (0x8000000000000000 :: u64) = 2 ^ k"
  by (rule all_bits [where m = 64 and P = "\<lambda>k. drop_bit (63 - k) (0x8000000000000000 :: u64) = 2 ^ k"])
    (simp_all add: upt_64)

lemma unat_exp_len: "k < LENGTH('a) \<Longrightarrow> unat (2 ^ k :: 'a::len word) = 2 ^ k"
proof -
  assume "k < LENGTH('a)"
  then have "(2 :: nat) ^ k < 2 ^ LENGTH('a)" by simp
  then have "unat (of_nat (2 ^ k) :: 'a word) = 2 ^ k"
    by (subst unsigned_of_nat) (simp add: take_bit_nat_eq_self)
  then show ?thesis by simp
qed

lemma unat_exp: "k < 64 \<Longrightarrow> unat (2 ^ k :: u64) = 2 ^ k"
  by (rule unat_exp_len) simp

lemma clz64_top: "bit x i \<Longrightarrow> \<forall>j > i. \<not> bit x j \<Longrightarrow> clz64 x = 63 - i"
  using builtin_clz_top [of x i] by (auto simp: clz64_def)

lemma pow2floor_bounds:
  assumes "x \<noteq> 0"
  shows "\<exists>k < 64. pow2floor x = 2 ^ k \<and> 2 ^ k \<le> unat x \<and> unat x < 2 ^ Suc k"
proof -
  obtain i where i: "i < 64" "bit x i" "\<forall>j > i. \<not> bit x j" using top_bit_exists [OF assms] by auto
  then have "pow2floor x = 2 ^ i" using assms clz64_top [OF i(2,3)] top_power [OF i(1)] by (simp add: pow2floor_def)
  then show ?thesis using i(1) top_bit_bounds [OF i(2,3)] by blast
qed

lemma pow2ceil_bounds:
  assumes "0 < x" "unat x \<le> 2 ^ 63"
  shows "\<exists>k < 64. pow2ceil x = 2 ^ k \<and> unat x \<le> 2 ^ k \<and> 2 ^ k < 2 * unat x"
proof (cases "x = 1")
  case True
  then have "pow2ceil x = drop_bit (63 - 0) 0x8000000000000000" by (simp add: pow2ceil_def clz64_def)
  then have "pow2ceil x = 2 ^ 0" using top_power [of 0] by simp
  then show ?thesis using True by (intro exI [of _ 0]) simp
next
  case False
  have x: "unat (x - 1) = unat x - 1" using assms(1) by (simp add: unat_minus_one word_gt_0)
  have "x - 1 \<noteq> 0" using False by simp
  then obtain i where i: "i < 64" "bit (x - 1) i" "\<forall>j > i. \<not> bit (x - 1) j" using top_bit_exists by fastforce
  note b = top_bit_bounds [OF i(2,3)]
  have "i \<noteq> 63"
  proof
    assume "i = 63"
    then have "2 ^ 63 \<le> unat x - 1" using b(1) x by simp
    moreover have "0 < unat x" using assms(1) by (simp add: unat_gt_0 word_gt_0)
    ultimately show False using assms(2) by simp
  qed
  then have "clz64 (x - 1) = 63 - i" "63 - i \<noteq> 0" "63 - i - 1 = 63 - Suc i" "Suc i < 64"
    using clz64_top [OF i(2,3)] i(1) by auto
  then have "pow2ceil x = 2 ^ Suc i" using top_power [of "Suc i"] by (simp add: pow2ceil_def Let_def)
  moreover have "unat x \<le> 2 ^ Suc i" "2 ^ Suc i < 2 * unat x" using b x assms(1)
    by (auto simp: unat_gt_0 word_gt_0)
  ultimately show ?thesis using \<open>Suc i < 64\<close> by blast
qed

lemma and_minus_one_iff:
  "x AND (x - 1) = 0 \<longleftrightarrow> x = 0 \<or> (\<exists>k < LENGTH('a). x = 2 ^ k)" for x :: "'a::len word"
proof
  assume z: "x AND (x - 1) = 0"
  show "x = 0 \<or> (\<exists>k < LENGTH('a). x = 2 ^ k)"
  proof (cases "x = 0")
    case False
    then obtain i where i: "i < LENGTH('a)" "bit x i" "\<forall>j > i. \<not> bit x j" using top_bit_exists by blast
    note b = top_bit_bounds [OF i(2,3)]
    have "x = 2 ^ i"
    proof (rule ccontr)
      assume ne: "x \<noteq> 2 ^ i"
      have "unat (2 ^ i :: 'a word) = 2 ^ i" by (rule unat_exp_len [OF i(1)])
      then have "unat x \<noteq> 2 ^ i" using ne by (metis word_unat_eq_iff)
      then have "2 ^ i \<le> unat (x - 1)" "unat (x - 1) < 2 ^ Suc i"
        using b False by (simp_all add: unat_minus_one)
      then have "unat (x - 1) div 2 ^ i = 1" by (simp add: div_nat_eqI)
      then have "bit (unat (x - 1)) i" by (simp add: bit_iff_odd)
      then have "bit (x - 1) i" by (simp add: bit_unsigned_iff)
      then have "bit (x AND (x - 1)) i" using i(2) by (simp add: bit_and_iff)
      then show False using z by simp
    qed
    then show ?thesis using i(1) by blast
  qed simp
next
  assume "x = 0 \<or> (\<exists>k < LENGTH('a). x = 2 ^ k)"
  moreover have "2 ^ k AND mask k = (0 :: 'a word)" for k
    by (rule bit_word_eqI) (auto simp: bit_and_iff bit_exp_iff bit_mask_iff)
  ultimately show "x AND (x - 1) = 0" by (auto simp: mask_eq_decr_exp)
qed

lemma is_power_of_2_iff: "is_power_of_2 x \<longleftrightarrow> (\<exists>k < 64. x = 2 ^ k)"
proof -
  have "(2 :: u64) ^ k \<noteq> 0" if "k < 64" for k
    using unat_exp [OF that] by (metis power_not_zero unat_0 zero_neq_numeral)
  then show ?thesis using and_minus_one_iff [of x] by (auto simp: is_power_of_2_def)
qed

lemma bit_smear:
  "bit (let x = x OR drop_bit 1 x; x = x OR drop_bit 2 x; x = x OR drop_bit 4 x; x = x OR drop_bit 8 x in
     x OR drop_bit 16 x) n \<longleftrightarrow> (\<exists>m \<ge> n. bit x m)" for x :: u32
proof -
  have "(\<exists>m \<ge> n. bit x m) \<longleftrightarrow> (\<exists>j \<in> set [0 ..< 32]. bit x (n + j))"
  proof
    assume "\<exists>m \<ge> n. bit x m"
    then obtain m where m: "n \<le> m" "bit x m" by blast
    then have "m < 32" using bit_imp_le_length [of x m] by simp
    then show "\<exists>j \<in> set [0 ..< 32]. bit x (n + j)" using m by (intro bexI [of _ "m - n"]) auto
  qed (use le_add1 in blast)
  then show ?thesis by (simp add: Let_def bit_simps upt_32) (simp only: ac_simps; blast)
qed

lemma pow2roundup32_top:
  assumes "bit x i" "\<forall>j > i. \<not> bit x j"
  shows "pow2roundup32 x = 2 ^ Suc i"
proof -
  have i: "i < 32" using assms(1) bit_imp_le_length [of x i] by simp
  define y where "y = (let x = x OR drop_bit 1 x; x = x OR drop_bit 2 x; x = x OR drop_bit 4 x;
      x = x OR drop_bit 8 x in x OR drop_bit 16 x)"
  have "y = mask (Suc i)"
  proof (rule bit_word_eqI)
    fix n assume "n < LENGTH(32)"
    have "(\<exists>m \<ge> n. bit x m) \<longleftrightarrow> n \<le> i" using assms by (meson le_less_linear less_le_trans order_refl)
    then show "bit y n \<longleftrightarrow> bit (mask (Suc i) :: u32) n"
      unfolding y_def bit_smear using i by (auto simp: bit_mask_iff less_Suc_eq_le)
  qed
  moreover have "pow2roundup32 x = y + 1" by (simp add: pow2roundup32_def y_def Let_def)
  ultimately show ?thesis by (simp add: mask_eq_decr_exp)
qed

subsection \<open>Counting bits in parallel\<close>

text \<open>
  A word is read as a list of fields of the same width, low field first. One step of the portable
  population count adds neighbouring fields: it doubles the width and keeps the sum of the fields.
\<close>

primrec field_value :: "nat \<Rightarrow> nat list \<Rightarrow> nat" where
  "field_value w [] = 0"
| "field_value w (d # ds) = d + 2 ^ w * field_value w ds"

fun add_pairs :: "nat list \<Rightarrow> nat list" where
  "add_pairs (a # b # ds) = (a + b) # add_pairs ds"
| "add_pairs ds = ds"

primrec even_mask :: "nat \<Rightarrow> nat \<Rightarrow> nat" where
  "even_mask w 0 = 0"
| "even_mask w (Suc n) = mask w + 2 ^ (2 * w) * even_mask w n"

lemma even_mask_numeral:
  "even_mask w (numeral k) = mask w + 2 ^ (2 * w) * even_mask w (pred_numeral k)"
  by (simp add: numeral_eq_Suc)

lemma and_split:
  fixes x p y q :: nat
  assumes "x < 2 ^ k" "p < 2 ^ k"
  shows "(x + 2 ^ k * y) AND (p + 2 ^ k * q) = (x AND p) + 2 ^ k * (y AND q)"
proof -
  have b: "\<not> bit u i" if "u < 2 ^ k" "k \<le> i" for u i :: nat
    using that by (metis bit_take_bit_iff leD take_bit_nat_eq_self)
  have e: "u + 2 ^ k * v = u OR push_bit k v" if "u < 2 ^ k" for u v :: nat
  proof -
    have "\<not> bit u i \<or> \<not> bit (push_bit k v) i" for i
      using b [OF that] by (auto simp: bit_push_bit_iff)
    then show ?thesis by (simp add: disjunctive_add push_bit_eq_mult mult.commute)
  qed
  have le: "x AND p < 2 ^ k" using assms(1)
    by (metis take_bit_and take_bit_nat_eq_self take_bit_nat_less_exp and.left_idem assms(2))
  show ?thesis unfolding e [OF assms(1)] e [OF assms(2)] e [OF le]
    by (rule bit_eqI) (use b assms in \<open>auto simp: bit_simps not_le\<close>)
qed

lemma field_and:
  assumes "c < 2 ^ w"
  shows "(c + 2 ^ w * f) AND even_mask w (Suc n) = c + 2 ^ (2 * w) * (f div 2 ^ w AND even_mask w n)"
proof -
  have p: "(2 :: nat) ^ (2 * w) = 2 ^ w * 2 ^ w" by (simp add: mult_2 power_add)
  have "c + 2 ^ w * (f mod 2 ^ w) < 2 ^ w * Suc (f mod 2 ^ w)" using assms by simp
  also have "\<dots> \<le> 2 ^ (2 * w)" unfolding p by (rule mult_le_mono2) (simp add: Suc_leI)
  finally have lt: "c + 2 ^ w * (f mod 2 ^ w) < 2 ^ (2 * w)" .
  have "f = f mod 2 ^ w + 2 ^ w * (f div 2 ^ w)" by simp
  then have e: "c + 2 ^ w * f = (c + 2 ^ w * (f mod 2 ^ w)) + 2 ^ (2 * w) * (f div 2 ^ w)"
    unfolding p by (metis add.assoc add_mult_distrib2 mult.assoc)
  have m: "mask w < (2 :: nat) ^ (2 * w)"
    by (rule less_le_trans [of _ "2 ^ w"]) (simp_all add: mask_eq_exp_minus_1)
  have "(c + 2 ^ w * (f mod 2 ^ w)) AND mask w = c"
    using assms by (simp flip: take_bit_eq_mask add: take_bit_eq_mod)
  then show ?thesis unfolding e even_mask.simps and_split [OF lt m] by simp
qed

lemma field_value_and:
  assumes "\<forall>d \<in> set ds. d < 2 ^ w" "length ds = 2 * n"
  shows "(field_value w ds AND even_mask w n) + (field_value w ds div 2 ^ w AND even_mask w n) =
    field_value (2 * w) (add_pairs ds)"
  using assms
proof (induction ds arbitrary: n rule: add_pairs.induct)
  case (1 a b ds)
  then obtain m where m: "n = Suc m" "length ds = 2 * m" by (cases n) auto
  have ab: "a < 2 ^ w" "b < 2 ^ w" using "1.prems" by auto
  have "field_value w (a # b # ds) div 2 ^ w = b + 2 ^ w * field_value w ds"
    "(b + 2 ^ w * field_value w ds) div 2 ^ w = field_value w ds" using ab by simp_all
  moreover have "(field_value w ds AND even_mask w m) + (field_value w ds div 2 ^ w AND even_mask w m) =
      field_value (2 * w) (add_pairs ds)" using "1.IH" "1.prems" m(2) by simp
  ultimately show ?case
    unfolding m(1) using field_and [OF ab(1), of "b + 2 ^ w * field_value w ds" m] field_and [OF ab(2), of "field_value w ds" m]
    by (simp del: even_mask.simps flip: add_mult_distrib2)
qed auto

lemma field_value_less:
  "\<forall>d \<in> set ds. d < 2 ^ w \<Longrightarrow> field_value w ds < 2 ^ (w * length ds)"
proof (induction ds)
  case (Cons d ds)
  then have "d + 2 ^ w * field_value w ds < 2 ^ w * Suc (field_value w ds)" by simp
  also have "\<dots> \<le> 2 ^ w * 2 ^ (w * length ds)" using Cons by (intro mult_le_mono2) simp
  finally show ?case by (simp add: power_add)
qed simp

lemma length_add_pairs: "length (add_pairs ds) = (length ds + 1) div 2"
  by (induction ds rule: add_pairs.induct) simp_all

lemma sum_add_pairs: "sum_list (add_pairs ds) = sum_list ds"
  by (induction ds rule: add_pairs.induct) simp_all

lemma add_pairs_le: "\<forall>d \<in> set ds. d \<le> b \<Longrightarrow> \<forall>d \<in> set (add_pairs ds). d \<le> 2 * b"
  by (induction ds rule: add_pairs.induct) fastforce+

lemma popcount_step:
  fixes v :: "'a::len word"
  assumes "unat v = field_value w ds" "\<forall>d \<in> set ds. d \<le> w" "w < 2 ^ w" "2 * w < 2 ^ (2 * w)"
    and "length ds = 2 * n" "2 * w * n = LENGTH('a)" "unat m = even_mask w n"
  shows "unat ((v AND m) + (drop_bit w v AND m)) = field_value (2 * w) (add_pairs ds)"
proof -
  have "\<forall>d \<in> set ds. d < 2 ^ w" using assms(2,3) by (auto intro: le_less_trans)
  moreover have "unat (drop_bit w v) = unat v div 2 ^ w" by (simp only: unat_drop_bit_eq) (rule drop_bit_eq_div)
  ultimately have f: "unat (v AND m) + unat (drop_bit w v AND m) = field_value (2 * w) (add_pairs ds)"
    using field_value_and [of ds w n] assms(1,5,7)
    by (simp only: unsigned_and_eq)
  have "\<forall>d \<in> set (add_pairs ds). d < 2 ^ (2 * w)"
    using add_pairs_le [OF assms(2)] assms(4) by (auto intro: le_less_trans)
  then have "field_value (2 * w) (add_pairs ds) < 2 ^ LENGTH('a)"
    using field_value_less [of "add_pairs ds" "2 * w"] length_add_pairs [of ds] assms(5,6) by simp
  then show ?thesis using f by (simp add: unat_add_lem [THEN iffD1])
qed

definition bit_fields :: "'a::len word \<Rightarrow> nat list" where
  "bit_fields v = map (\<lambda>i. of_bool (bit v i)) [0 ..< LENGTH('a)]"

lemma length_bit_fields [simp]: "length (bit_fields v) = LENGTH('a)" for v :: "'a::len word"
  by (simp add: bit_fields_def)

lemma unat_bit_fields: "unat v = field_value 1 (bit_fields v)" for v :: "'a::len word"
proof -
  have f: "field_value 1 (map of_bool bs) = horner_sum of_bool 2 bs" for bs
    by (induction bs) simp_all
  have "map (bit (unat v)) [0 ..< LENGTH('a)] = map (bit v) [0 ..< LENGTH('a)]"
    by (simp add: bit_unsigned_iff)
  moreover have "take_bit LENGTH('a) (unat v) = unat v" by (simp add: take_bit_nat_eq_self)
  ultimately have "horner_sum of_bool 2 (map (bit v) [0 ..< LENGTH('a)]) = unat v"
    using horner_sum_bit_eq_take_bit [of "unat v" "LENGTH('a)"] by metis
  then show ?thesis using f [of "map (bit v) [0 ..< LENGTH('a)]"] by (simp add: bit_fields_def comp_def)
qed

lemma popcount_bit_fields: "builtin_popcount v = sum_list (bit_fields v)"
proof -
  have "length (filter P xs) = sum_list (map (\<lambda>i. of_bool (P i)) xs)" for P and xs :: "nat list"
    by (induction xs) simp_all
  then show ?thesis by (simp add: builtin_popcount_def bit_fields_def)
qed

text \<open>What the words of the computation hold: fields of width \<open>w\<close> that count the bits of \<open>v\<close>.\<close>

definition bit_counts :: "'a::len word \<Rightarrow> nat \<Rightarrow> 'a word \<Rightarrow> bool" where
  "bit_counts v w x \<longleftrightarrow> (\<exists>ds. unat x = field_value w ds \<and> (\<forall>d \<in> set ds. d \<le> w) \<and>
     w * length ds = LENGTH('a) \<and> sum_list ds = builtin_popcount v)"

lemma bit_counts_start: "bit_counts v 1 v"
  unfolding bit_counts_def
  by (rule exI [of _ "bit_fields v"])
    (use unat_bit_fields [of v] in \<open>auto simp: popcount_bit_fields\<close>, auto simp: bit_fields_def)

lemma bit_counts_step:
  fixes v x :: "'a::len word"
  assumes "bit_counts v w x" "w < 2 ^ w" "2 * w < 2 ^ (2 * w)" "2 * w * n = LENGTH('a)" "0 < w" "unat m = even_mask w n"
  shows "bit_counts v (2 * w) ((x AND m) + (drop_bit w x AND m))"
proof -
  obtain ds where ds: "unat x = field_value w ds" "\<forall>d \<in> set ds. d \<le> w" "w * length ds = LENGTH('a)"
    "sum_list ds = builtin_popcount v" using assms(1) by (auto simp: bit_counts_def)
  have "w * length ds = w * (2 * n)" using ds(3) assms(4) by simp
  then have len: "length ds = 2 * n" using assms(5) by simp
  show ?thesis unfolding bit_counts_def
    using popcount_step [OF ds(1,2) assms(2,3) len assms(4,6)] add_pairs_le [OF ds(2)] ds(4) assms(4) len
    by (intro exI [of _ "add_pairs ds"]) (simp add: sum_add_pairs length_add_pairs)
qed

lemma bit_counts_done: "bit_counts v LENGTH('a) x \<Longrightarrow> unat x = builtin_popcount v" for v :: "'a::len word"
proof -
  assume "bit_counts v LENGTH('a) x"
  then obtain ds where ds: "unat x = field_value LENGTH('a) ds" "length ds = 1" "sum_list ds = builtin_popcount v"
    by (auto simp: bit_counts_def)
  then show ?thesis by (auto simp: length_Suc_conv)
qed

lemma ctpop8_portable_eq: "ctpop8_portable v = ctpop8 v"
proof -
  have m: "even_mask 1 4 = 0x55" "even_mask 2 2 = 0x33"
    "even_mask 4 1 = 0x0f"
    by (simp_all add: even_mask_numeral mask_eq_exp_minus_1)
  note c1 = bit_counts_step [OF bit_counts_start [of v], where m = "0x55" and n = 4, simplified m, simplified]
  note c2 = bit_counts_step [OF c1, where m = "0x33" and n = 2, simplified m, simplified]
  note c3 = bit_counts_step [OF c2, where m = "0x0f" and n = 1, simplified m, simplified]
  show ?thesis using bit_counts_done [of v] c3
    by (simp add: ctpop8_portable_def ctpop8_def Let_def)
qed

lemma ctpop16_portable_eq: "ctpop16_portable v = ctpop16 v"
proof -
  have m: "even_mask 1 8 = 0x5555" "even_mask 2 4 = 0x3333"
    "even_mask 4 2 = 0x0f0f" "even_mask 8 1 = 0x00ff"
    by (simp_all add: even_mask_numeral mask_eq_exp_minus_1)
  note c1 = bit_counts_step [OF bit_counts_start [of v], where m = "0x5555" and n = 8, simplified m, simplified]
  note c2 = bit_counts_step [OF c1, where m = "0x3333" and n = 4, simplified m, simplified]
  note c3 = bit_counts_step [OF c2, where m = "0x0f0f" and n = 2, simplified m, simplified]
  note c4 = bit_counts_step [OF c3, where m = "0x00ff" and n = 1, simplified m, simplified]
  show ?thesis using bit_counts_done [of v] c4
    by (simp add: ctpop16_portable_def ctpop16_def Let_def)
qed

lemma ctpop32_portable_eq: "ctpop32_portable v = ctpop32 v"
proof -
  have m: "even_mask 1 16 = 0x55555555" "even_mask 2 8 = 0x33333333"
    "even_mask 4 4 = 0x0f0f0f0f" "even_mask 8 2 = 0x00ff00ff"
    "even_mask 16 1 = 0x0000ffff"
    by (simp_all add: even_mask_numeral mask_eq_exp_minus_1)
  note c1 = bit_counts_step [OF bit_counts_start [of v], where m = "0x55555555" and n = 16, simplified m, simplified]
  note c2 = bit_counts_step [OF c1, where m = "0x33333333" and n = 8, simplified m, simplified]
  note c3 = bit_counts_step [OF c2, where m = "0x0f0f0f0f" and n = 4, simplified m, simplified]
  note c4 = bit_counts_step [OF c3, where m = "0x00ff00ff" and n = 2, simplified m, simplified]
  note c5 = bit_counts_step [OF c4, where m = "0x0000ffff" and n = 1, simplified m, simplified]
  show ?thesis using bit_counts_done [of v] c5
    by (simp add: ctpop32_portable_def ctpop32_def Let_def)
qed

lemma ctpop64_portable_eq: "ctpop64_portable v = ctpop64 v"
proof -
  have m: "even_mask 1 32 = 0x5555555555555555" "even_mask 2 16 = 0x3333333333333333"
    "even_mask 4 8 = 0x0f0f0f0f0f0f0f0f" "even_mask 8 4 = 0x00ff00ff00ff00ff"
    "even_mask 16 2 = 0x0000ffff0000ffff" "even_mask 32 1 = 0x00000000ffffffff"
    by (simp_all add: even_mask_numeral mask_eq_exp_minus_1)
  note c1 = bit_counts_step [OF bit_counts_start [of v], where m = "0x5555555555555555" and n = 32, simplified m, simplified]
  note c2 = bit_counts_step [OF c1, where m = "0x3333333333333333" and n = 16, simplified m, simplified]
  note c3 = bit_counts_step [OF c2, where m = "0x0f0f0f0f0f0f0f0f" and n = 8, simplified m, simplified]
  note c4 = bit_counts_step [OF c3, where m = "0x00ff00ff00ff00ff" and n = 4, simplified m, simplified]
  note c5 = bit_counts_step [OF c4, where m = "0x0000ffff0000ffff" and n = 2, simplified m, simplified]
  note c6 = bit_counts_step [OF c5, where m = "0x00000000ffffffff" and n = 1, simplified m, simplified]
  show ?thesis using bit_counts_done [of v] c6
    by (simp add: ctpop64_portable_def ctpop64_def Let_def)
qed

lemma pow2roundup32_bounds:
  "\<exists>k \<le> 32. pow2roundup32 y = (if k = 32 then 0 else 2 ^ k) \<and> unat y < 2 ^ k \<and> 2 ^ k \<le> max 1 (2 * unat y)"
proof (cases "y = 0")
  case True
  then show ?thesis by (intro exI [of _ 0]) (simp add: pow2roundup32_def Let_def)
next
  case False
  then obtain i where i: "i < 32" "bit y i" "\<forall>j > i. \<not> bit y j" using top_bit_exists by fastforce
  note b = top_bit_bounds [OF i(2,3)]
  have "pow2roundup32 y = (if Suc i = 32 then 0 else 2 ^ Suc i)"
    using pow2roundup32_top [OF i(2,3)] by (cases "i = 31") simp_all
  then show ?thesis using b i(1) by (intro exI [of _ "Suc i"]) simp
qed

section \<open>Results\<close>

text \<open>
  C34: the portable binary searches for the leading and the trailing one bit count what the compiler
  builtins count, for all inputs including zero, in 32 and 64 bits; and the portable population counts,
  which add neighbouring fields of the word in parallel, count the set bits in all four widths.
\<close>

theorem count_portable_equivalent:
  "clz32_portable x = clz32 x \<and> ctz32_portable x = ctz32 x \<and>
   clz64_portable y = clz64 y \<and> ctz64_portable y = ctz64 y \<and>
   ctpop8_portable a = ctpop8 a \<and> ctpop16_portable b = ctpop16 b \<and>
   ctpop32_portable x = ctpop32 x \<and> ctpop64_portable y = ctpop64 y"
  by (simp add: clz32_portable_eq ctz32_portable_eq clz64_portable_eq ctz64_portable_eq
      ctpop8_portable_eq ctpop16_portable_eq ctpop32_portable_eq ctpop64_portable_eq)

text \<open>
  C35: \<^verbatim>\<open>is_power_of_2\<close> recognises exactly the powers of two; \<^verbatim>\<open>pow2floor\<close> is the greatest power of two not
  above its argument; \<^verbatim>\<open>pow2ceil\<close> is the least power of two not below it, up to two to the 63; and
  \<^verbatim>\<open>pow2roundup32\<close> is the least power of two strictly above its 32-bit argument, wrapping to zero when
  that is two to the 32.
\<close>

theorem pow2_rounding_correct:
  assumes "0 < x" "unat x \<le> 2 ^ 63"
  shows "(is_power_of_2 x \<longleftrightarrow> (\<exists>k < 64. x = 2 ^ k)) \<and>
    (\<exists>k < 64. pow2floor x = 2 ^ k \<and> 2 ^ k \<le> unat x \<and> unat x < 2 ^ Suc k) \<and>
    (\<exists>k < 64. pow2ceil x = 2 ^ k \<and> unat x \<le> 2 ^ k \<and> 2 ^ k < 2 * unat x) \<and>
    (\<exists>k \<le> 32. pow2roundup32 y = (if k = 32 then 0 else 2 ^ k) \<and> unat y < 2 ^ k \<and> 2 ^ k \<le> max 1 (2 * unat y))"
  using is_power_of_2_iff pow2floor_bounds pow2ceil_bounds [OF assms] pow2roundup32_bounds [of y] assms(1)
  by (simp add: word_gt_0)

theorem pow2_rounding_correct_witness:
  "(\<exists>k < 64. pow2ceil 5 = 2 ^ k \<and> 5 \<le> (2 :: nat) ^ k \<and> (2 :: nat) ^ k < 2 * 5) \<and>
   (\<exists>k \<le> 32. pow2roundup32 8 = (if k = 32 then 0 else 2 ^ k) \<and> 8 < (2 :: nat) ^ k \<and> (2 :: nat) ^ k \<le> 16)"
  using pow2_rounding_correct [of 5 8] by simp

text \<open>C36: the bit reversals move bit \<^term>\<open>n\<close> to the mirrored position, for all four widths.\<close>

theorem revbit_mirrors:
  "(\<forall>n \<in> {..<8}. bit (revbit8 a) n = bit a (7 - n)) \<and> (\<forall>n \<in> {..<16}. bit (revbit16 b) n = bit b (15 - n)) \<and>
   (\<forall>n \<in> {..<32}. bit (revbit32 c) n = bit c (31 - n)) \<and> (\<forall>n \<in> {..<64}. bit (revbit64 d) n = bit d (63 - n))"
  by (simp add: bit_revbit8 bit_revbit16 bit_revbit32 bit_revbit64)

theorem revbit_mirrors_witness: "bit (revbit64 1) 63"
  using revbit_mirrors [of 0 0 0 1] by simp

end
