(* ===== verification/Int128.thy ===== *)
theory Int128
  imports UcPrelude
begin

text \<open>
  The two-word 128-bit integers of \<^verbatim>\<open>qemu/include/qemu/int128.h\<close> (the branch compiled without
  \<^verbatim>\<open>CONFIG_INT128\<close>), on which the memory topology computes. Each operation is translated on the
  pair of words with its carries and borrows. The lemmas show that it is the operation on the
  integer the pair stands for, so that the topology may be modelled on \<^typ>\<open>int\<close>.
\<close>

section \<open>Operations\<close>

record Int128 =
  lo :: u64
  hi :: u64

definition int128_make64 :: "u64 \<Rightarrow> Int128" where
  "int128_make64 a = \<lparr>lo = a, hi = 0\<rparr>"

definition int128_make128 :: "u64 \<Rightarrow> u64 \<Rightarrow> Int128" where
  "int128_make128 l h = \<lparr>lo = l, hi = h\<rparr>"

text \<open>\<^verbatim>\<open>int128_get64\<close> asserts that the high word is zero; the failed assertion is \<^const>\<open>None\<close>.\<close>

definition int128_get64 :: "Int128 \<Rightarrow> u64 option" where
  "int128_get64 a = (if hi a = 0 then Some (lo a) else None)"

definition int128_zero :: Int128 where
  "int128_zero = int128_make64 0"

definition int128_one :: Int128 where
  "int128_one = int128_make64 1"

definition int128_2_64 :: Int128 where
  "int128_2_64 = \<lparr>lo = 0, hi = 1\<rparr>"

definition int128_exts64 :: "u64 \<Rightarrow> Int128" where
  "int128_exts64 a = \<lparr>lo = a, hi = (if sint a < 0 then -1 else 0)\<rparr>"

definition int128_and :: "Int128 \<Rightarrow> Int128 \<Rightarrow> Int128" where
  "int128_and a b = \<lparr>lo = lo a AND lo b, hi = hi a AND hi b\<rparr>"

definition int128_rshift :: "Int128 \<Rightarrow> nat \<Rightarrow> Int128" where
  "int128_rshift a n =
    (if n = 0 then a
     else let h = signed_drop_bit (n mod 64) (hi a) in
       if 64 \<le> n then int128_make128 h (signed_drop_bit 63 h)
       else int128_make128 (drop_bit n (lo a) OR push_bit (64 - n) (hi a)) h)"

definition int128_add :: "Int128 \<Rightarrow> Int128 \<Rightarrow> Int128" where
  "int128_add a b =
    (let l = lo a + lo b in
     int128_make128 l (hi a + hi b + (if l < lo a then 1 else 0)))"

definition int128_neg :: "Int128 \<Rightarrow> Int128" where
  "int128_neg a =
    (let l = - lo a in int128_make128 l (NOT (hi a) + (if l = 0 then 1 else 0)))"

definition int128_sub :: "Int128 \<Rightarrow> Int128 \<Rightarrow> Int128" where
  "int128_sub a b =
    int128_make128 (lo a - lo b) (hi a - hi b - (if lo a < lo b then 1 else 0))"

definition int128_nonneg :: "Int128 \<Rightarrow> bool" where
  "int128_nonneg a \<longleftrightarrow> 0 \<le>s hi a"

definition int128_eq :: "Int128 \<Rightarrow> Int128 \<Rightarrow> bool" where
  "int128_eq a b \<longleftrightarrow> lo a = lo b \<and> hi a = hi b"

definition int128_ne :: "Int128 \<Rightarrow> Int128 \<Rightarrow> bool" where
  "int128_ne a b \<longleftrightarrow> \<not> int128_eq a b"

definition int128_ge :: "Int128 \<Rightarrow> Int128 \<Rightarrow> bool" where
  "int128_ge a b \<longleftrightarrow> hi b <s hi a \<or> hi a = hi b \<and> lo b \<le> lo a"

definition int128_lt :: "Int128 \<Rightarrow> Int128 \<Rightarrow> bool" where
  "int128_lt a b \<longleftrightarrow> \<not> int128_ge a b"

definition int128_le :: "Int128 \<Rightarrow> Int128 \<Rightarrow> bool" where
  "int128_le a b \<longleftrightarrow> int128_ge b a"

definition int128_gt :: "Int128 \<Rightarrow> Int128 \<Rightarrow> bool" where
  "int128_gt a b \<longleftrightarrow> \<not> int128_le a b"

definition int128_nz :: "Int128 \<Rightarrow> bool" where
  "int128_nz a \<longleftrightarrow> lo a \<noteq> 0 \<or> hi a \<noteq> 0"

definition int128_min :: "Int128 \<Rightarrow> Int128 \<Rightarrow> Int128" where
  "int128_min a b = (if int128_le a b then a else b)"

definition int128_max :: "Int128 \<Rightarrow> Int128 \<Rightarrow> Int128" where
  "int128_max a b = (if int128_ge a b then a else b)"

section \<open>The integer a pair stands for\<close>

definition int128_val :: "Int128 \<Rightarrow> int" where
  "int128_val a = sint (hi a) * 2 ^ 64 + uint (lo a)"

lemma u64_range: "0 \<le> uint (w :: u64)" "uint (w :: u64) < 2 ^ 64"
  using uint_lt2p [of w] by simp_all

lemma s64_range: "- (2 ^ 63) \<le> sint (w :: u64)" "sint (w :: u64) < 2 ^ 63"
  using sint_range_size [of w] by (simp_all add: word_size)

lemma pair64_range:
  fixes h l :: int
  assumes "- (2 ^ 63) \<le> h" "h < 2 ^ 63" "0 \<le> l" "l < 2 ^ 64"
  shows "- (2 ^ 127) \<le> h * 2 ^ 64 + l" "h * 2 ^ 64 + l < 2 ^ 127"
  using assms by simp_all

lemma pair64_less:
  fixes h l h' l' :: int
  assumes "0 \<le> l" "l' < 2 ^ 64" "h' < h" "0 \<le> l'" "l < 2 ^ 64"
  shows "h' * 2 ^ 64 + l' < h * 2 ^ 64 + l"
  using assms by simp

lemma sign64_carry:
  fixes s u k :: int
  assumes "- (2 ^ 63) \<le> s" "s < 2 ^ 63" "0 \<le> u" "u < 2 ^ 64" "s = u + k * 2 ^ 64"
  shows "k = (if s < 0 then -1 else 0)"
  using assms by (cases "s < 0") simp_all

lemma int128_val_range: "- (2 ^ 127) \<le> int128_val a" "int128_val a < 2 ^ 127"
  unfolding int128_val_def by (rule pair64_range [OF s64_range u64_range])+

lemma int128_val_unique:
  assumes "(int128_val a - x) mod 2 ^ 128 = 0" "- (2 ^ 127) \<le> x" "x < 2 ^ 127"
  shows "int128_val a = x"
proof -
  obtain k where k: "int128_val a - x = 2 ^ 128 * k"
    using assms(1) by (metis dvd_eq_mod_eq_0 dvd_def)
  then have "k < 1" "- 1 < k"
    using int128_val_range [of a] assms(2,3) by simp_all
  then have "k = 0" by simp
  with k show ?thesis by simp
qed

lemma sint_cong_mod: "((sint w :: int) - uint w) mod 2 ^ LENGTH('a) = 0" for w :: "'a :: len word"
proof -
  have "take_bit LENGTH('a) (sint w) = uint w"
    by (rule uint_sint [symmetric])
  then show ?thesis
    by (metis mod_diff_right_eq diff_self mod_0 take_bit_eq_mod)
qed

lemma sint_of_uint_mod: "\<exists>k. (sint (w :: u64) :: int) = uint w + k * 2 ^ 64"
proof -
  have "(2 ^ 64 :: int) dvd sint w - uint w"
    using sint_cong_mod [of w] by (simp add: dvd_eq_mod_eq_0)
  then obtain k where "sint w - uint w = 2 ^ 64 * k" by (auto simp: dvd_def)
  then have "sint w = uint w + k * 2 ^ 64" by simp
  then show ?thesis by blast
qed

lemma uint_add_carry:
  "uint (a + b :: u64) = uint a + uint b - (if a + b < a then 2 ^ 64 else 0)"
  using u64_range [of a] u64_range [of b]
  by (auto simp: uint_plus_if' word_less_def)

lemma uint_sub_borrow:
  "uint (a - b :: u64) = uint a - uint b + (if a < b then 2 ^ 64 else 0)"
  using u64_range [of a] u64_range [of b]
  by (auto simp: uint_sub_if' word_less_def)

lemma int128_val_make128_mod:
  "\<exists>k. int128_val (int128_make128 l h) = uint h * 2 ^ 64 + uint l + k * 2 ^ 128"
proof -
  obtain k where "sint h = uint h + k * 2 ^ 64" using sint_of_uint_mod by blast
  then have "int128_val (int128_make128 l h) = uint h * 2 ^ 64 + uint l + k * 2 ^ 128"
    by (simp add: int128_val_def int128_make128_def algebra_simps)
  then show ?thesis by blast
qed

lemma int128_val_mod:
  "\<exists>k. int128_val a = uint (hi a) * 2 ^ 64 + uint (lo a) + k * 2 ^ 128"
  using int128_val_make128_mod [of "lo a" "hi a"] by (simp add: int128_val_def int128_make128_def)

lemma int128_val_unique_k:
  "\<lbrakk> int128_val a = x + k * 2 ^ 128; - (2 ^ 127) \<le> x; x < 2 ^ 127 \<rbrakk> \<Longrightarrow> int128_val a = x"
  by (rule int128_val_unique) simp_all

section \<open>The operations compute on that integer\<close>

lemma int128_val_make64 [simp]: "int128_val (int128_make64 a) = uint a"
  by (simp add: int128_val_def int128_make64_def)

lemma int128_val_2_64 [simp]: "int128_val int128_2_64 = 2 ^ 64"
  by (simp add: int128_val_def int128_2_64_def)

lemma int128_val_exts64 [simp]: "int128_val (int128_exts64 a) = sint a"
proof -
  obtain k where k: "sint a = uint a + k * 2 ^ 64" using sint_of_uint_mod by blast
  have "k = (if sint a < 0 then -1 else 0)"
    by (rule sign64_carry [OF s64_range u64_range k])
  with k show ?thesis by (auto simp: int128_val_def int128_exts64_def)
qed

lemma int128_val_less: "sint (hi a) < sint (hi b) \<Longrightarrow> int128_val a < int128_val b"
  unfolding int128_val_def by (rule pair64_less) (use u64_range in auto)

lemma sint_inject64: "sint a = sint b \<longleftrightarrow> a = (b :: u64)"
  by (auto intro: signed_word_eqI)

lemma int128_val_inject: "int128_val a = int128_val b \<longleftrightarrow> a = b"
proof
  assume eq: "int128_val a = int128_val b"
  have "sint (hi a) = sint (hi b)"
    using eq int128_val_less [of a b] int128_val_less [of b a] by linarith
  then have h: "hi a = hi b" by (simp only: sint_inject64)
  with eq have "uint (lo a) = uint (lo b)" by (simp add: int128_val_def)
  then have "lo a = lo b" by (simp add: word_uint_eq_iff)
  with h show "a = b" by simp
qed simp

lemma int128_eq_val: "int128_eq a b \<longleftrightarrow> int128_val a = int128_val b"
  by (auto simp: int128_eq_def int128_val_inject)

lemma int128_ge_val: "int128_ge a b \<longleftrightarrow> int128_val b \<le> int128_val a"
proof (cases "sint (hi a) = sint (hi b)")
  case True
  then have "hi a = hi b" by (simp only: sint_inject64)
  then show ?thesis by (simp add: int128_ge_def int128_val_def word_sless_alt word_le_def)
next
  case False
  then have "hi a \<noteq> hi b" by auto
  then have "int128_ge a b \<longleftrightarrow> sint (hi b) < sint (hi a)"
    by (simp add: int128_ge_def word_sless_alt)
  with False show ?thesis
    using int128_val_less [of a b] int128_val_less [of b a] by linarith
qed

lemma int128_le_val: "int128_le a b \<longleftrightarrow> int128_val a \<le> int128_val b"
  by (simp add: int128_le_def int128_ge_val)

lemma int128_lt_val: "int128_lt a b \<longleftrightarrow> int128_val a < int128_val b"
  by (auto simp: int128_lt_def int128_ge_val)

lemma int128_gt_val: "int128_gt a b \<longleftrightarrow> int128_val b < int128_val a"
  by (auto simp: int128_gt_def int128_le_val)

lemma int128_nz_val: "int128_nz a \<longleftrightarrow> int128_val a \<noteq> 0"
  using int128_val_inject [of a int128_zero]
  by (auto simp: int128_nz_def int128_zero_def int128_make64_def int128_val_def)

lemma int128_nonneg_val: "int128_nonneg a \<longleftrightarrow> 0 \<le> int128_val a"
  using u64_range [of "lo a"] int128_val_less [of a int128_zero]
  by (auto simp: int128_nonneg_def word_sle_eq int128_val_def int128_zero_def int128_make64_def
      not_le)

lemma int128_min_val: "int128_val (int128_min a b) = min (int128_val a) (int128_val b)"
  by (simp add: int128_min_def int128_le_val min_def)

lemma int128_max_val: "int128_val (int128_max a b) = max (int128_val a) (int128_val b)"
  by (auto simp: int128_max_def int128_ge_val max_def)

lemma int128_get64_val:
  "int128_get64 a = Some w \<longleftrightarrow> int128_val a = uint w"
proof -
  have "int128_get64 a = Some w \<longleftrightarrow> a = int128_make64 w"
    by (auto simp: int128_get64_def int128_make64_def)
  then show ?thesis by (simp flip: int128_val_inject)
qed

lemma int128_get64_None:
  "int128_get64 a = None \<longleftrightarrow> int128_val a < 0 \<or> 2 ^ 64 \<le> int128_val a"
proof -
  have "(\<exists>w. int128_get64 a = Some w) \<longleftrightarrow> (\<exists>w :: u64. int128_val a = uint w)"
    by (simp add: int128_get64_val)
  also have "\<dots> \<longleftrightarrow> 0 \<le> int128_val a \<and> int128_val a < 2 ^ 64"
  proof
    assume r: "0 \<le> int128_val a \<and> int128_val a < 2 ^ 64"
    then have "int128_val a = uint (word_of_int (int128_val a) :: u64)"
      by (simp add: uint_word_of_int)
    then show "\<exists>w :: u64. int128_val a = uint w" by blast
  next
    assume "\<exists>w :: u64. int128_val a = uint w"
    then show "0 \<le> int128_val a \<and> int128_val a < 2 ^ 64"
      using u64_range by metis
  qed
  finally show ?thesis by (metis not_le option.collapse option.distinct(1))
qed

lemma uint_add_mod64: "\<exists>k. uint (a + b :: u64) = uint a + uint b + k * 2 ^ 64"
  by (rule exI [of _ "if a + b < a then -1 else 0"]) (simp add: uint_add_carry)

lemma uint_sub_mod64: "\<exists>k. uint (a - b :: u64) = uint a - uint b + k * 2 ^ 64"
  by (rule exI [of _ "if a < b then 1 else 0"]) (simp add: uint_sub_borrow)

lemma int128_add_val_mod:
  "\<exists>k. int128_val (int128_add a b) = int128_val a + int128_val b + k * 2 ^ 128"
proof -
  define c :: u64 where "c = (if lo a + lo b < lo a then 1 else 0)"
  obtain k1 where k1: "int128_val (int128_add a b) =
      uint (hi a + hi b + c) * 2 ^ 64 + uint (lo a + lo b) + k1 * 2 ^ 128"
    unfolding int128_add_def Let_def c_def using int128_val_make128_mod by blast
  obtain k2 where k2: "uint (hi a + hi b + c) = uint (hi a + hi b) + uint c + k2 * 2 ^ 64"
    using uint_add_mod64 by blast
  obtain k3 where k3: "uint (hi a + hi b) = uint (hi a) + uint (hi b) + k3 * 2 ^ 64"
    using uint_add_mod64 by blast
  obtain ka kb where ka: "int128_val a = uint (hi a) * 2 ^ 64 + uint (lo a) + ka * 2 ^ 128"
    and kb: "int128_val b = uint (hi b) * 2 ^ 64 + uint (lo b) + kb * 2 ^ 128"
    using int128_val_mod by meson
  have l: "uint (lo a + lo b) + uint c * 2 ^ 64 = uint (lo a) + uint (lo b)"
    by (auto simp: c_def uint_add_carry)
  have "int128_val (int128_add a b) = int128_val a + int128_val b + (k1 + k2 + k3 - ka - kb) * 2 ^ 128"
    using l unfolding k1 k2 k3 ka kb by (simp add: algebra_simps)
  then show ?thesis by blast
qed

lemma int128_sub_val_mod:
  "\<exists>k. int128_val (int128_sub a b) = int128_val a - int128_val b + k * 2 ^ 128"
proof -
  define c :: u64 where "c = (if lo a < lo b then 1 else 0)"
  obtain k1 where k1: "int128_val (int128_sub a b) =
      uint (hi a - hi b - c) * 2 ^ 64 + uint (lo a - lo b) + k1 * 2 ^ 128"
    unfolding int128_sub_def Let_def c_def using int128_val_make128_mod by blast
  obtain k2 where k2: "uint (hi a - hi b - c) = uint (hi a - hi b) - uint c + k2 * 2 ^ 64"
    using uint_sub_mod64 by blast
  obtain k3 where k3: "uint (hi a - hi b) = uint (hi a) - uint (hi b) + k3 * 2 ^ 64"
    using uint_sub_mod64 by blast
  obtain ka kb where ka: "int128_val a = uint (hi a) * 2 ^ 64 + uint (lo a) + ka * 2 ^ 128"
    and kb: "int128_val b = uint (hi b) * 2 ^ 64 + uint (lo b) + kb * 2 ^ 128"
    using int128_val_mod by meson
  have l: "uint (lo a - lo b) - uint c * 2 ^ 64 = uint (lo a) - uint (lo b)"
    by (auto simp: c_def uint_sub_borrow)
  have "int128_val (int128_sub a b) = int128_val a - int128_val b + (k1 + k2 + k3 - ka + kb) * 2 ^ 128"
    using l unfolding k1 k2 k3 ka kb by (simp add: algebra_simps)
  then show ?thesis by blast
qed

lemma int128_add_val:
  assumes "- (2 ^ 127) \<le> int128_val a + int128_val b" "int128_val a + int128_val b < 2 ^ 127"
  shows "int128_val (int128_add a b) = int128_val a + int128_val b"
  using int128_add_val_mod [of a b] int128_val_unique_k [OF _ assms] by blast

lemma int128_sub_val:
  assumes "- (2 ^ 127) \<le> int128_val a - int128_val b" "int128_val a - int128_val b < 2 ^ 127"
  shows "int128_val (int128_sub a b) = int128_val a - int128_val b"
  using int128_sub_val_mod [of a b] int128_val_unique_k [OF _ assms] by blast

lemma int128_neg_sub: "int128_neg a = int128_sub int128_zero a"
  by (cases "lo a = 0")
    (simp_all add: int128_neg_def int128_sub_def int128_zero_def int128_make64_def
      int128_make128_def not_eq_complement word_gt_0)

lemma int128_neg_val:
  "int128_val a \<noteq> - (2 ^ 127) \<Longrightarrow> int128_val (int128_neg a) = - int128_val a"
  using int128_val_range [of a] int128_sub_val [of int128_zero a]
  by (simp add: int128_neg_sub int128_zero_def)

lemma drop_bit_pair64_high:
  fixes h l :: int
  assumes "0 \<le> l" "l < 2 ^ 64"
  shows "(h * 2 ^ 64 + l) div 2 ^ (64 + m) = h div 2 ^ m"
proof -
  have "(h * 2 ^ 64 + l) div 2 ^ (64 + m) = (h * 2 ^ 64 + l) div 2 ^ 64 div 2 ^ m"
    by (simp add: power_add zdiv_zmult2_eq)
  also have "(h * 2 ^ 64 + l) div 2 ^ 64 = h" using assms by simp
  finally show ?thesis .
qed

lemma drop_bit_pair64_low:
  fixes h l :: int
  assumes "0 \<le> l" "l < 2 ^ 64" "n \<le> 64"
  shows "(h * 2 ^ 64 + l) div 2 ^ n = (h div 2 ^ n) * 2 ^ 64 + ((h mod 2 ^ n) * 2 ^ (64 - n) + l div 2 ^ n)"
proof -
  have p: "(2 :: int) ^ 64 = 2 ^ (64 - n) * 2 ^ n" using assms(3) by (simp flip: power_add)
  have "h * 2 ^ 64 + l = l + (h * 2 ^ (64 - n)) * 2 ^ n"
    by (simp only: p mult.assoc add.commute)
  then have "(h * 2 ^ 64 + l) div 2 ^ n = h * 2 ^ (64 - n) + l div 2 ^ n"
    by (metis div_mult_self1 power_not_zero zero_neq_numeral)
  also have "h * 2 ^ (64 - n) = (h div 2 ^ n * 2 ^ n + h mod 2 ^ n) * 2 ^ (64 - n)"
    by (simp only: div_mult_mod_eq)
  also have "\<dots> = (h div 2 ^ n) * 2 ^ 64 + (h mod 2 ^ n) * 2 ^ (64 - n)"
    by (simp only: p algebra_simps)
  finally show ?thesis by simp
qed

lemma uint_shift_or:
  fixes l h :: u64
  assumes n: "0 < n" "n < 64"
  shows "uint (drop_bit n l OR push_bit (64 - n) h) = sint h mod 2 ^ n * 2 ^ (64 - n) + uint l div 2 ^ n"
proof -
  have disj: "\<not> bit (drop_bit n (uint l)) i \<or> \<not> bit (push_bit (64 - n) (take_bit n (uint h))) i"
    for i using n bit_imp_le_length [of l "n + i"] by (auto simp: bit_simps)
  have s: "sint h mod 2 ^ n = take_bit n (uint h)"
    using n by (simp add: uint_sint take_bit_take_bit min_def flip: take_bit_eq_mod)
  have "uint (push_bit (64 - n) h) = push_bit (64 - n) (take_bit n (uint h))"
    using n by (simp add: unsigned_push_bit_eq take_bit_push_bit)
  then have "uint (drop_bit n l OR push_bit (64 - n) h) =
      drop_bit n (uint l) OR push_bit (64 - n) (take_bit n (uint h))"
    by (simp add: unsigned_or_eq unsigned_drop_bit_eq take_bit_int_eq_self [OF u64_range])
  also have "\<dots> = drop_bit n (uint l) + push_bit (64 - n) (take_bit n (uint h))"
    by (rule disjunctive_add [symmetric], rule disj)
  also have "\<dots> = sint h mod 2 ^ n * 2 ^ (64 - n) + uint l div 2 ^ n"
    by (simp add: s push_bit_eq_mult drop_bit_eq_div)
  finally show ?thesis .
qed

lemma signed_drop_bit_63: "signed_drop_bit 63 h = (if sint h < 0 then -1 else 0 :: u64)"
proof (rule signed_word_eqI [where 'a = int])
  have "sint (signed_drop_bit 63 h) = sint h div 2 ^ 63"
    by (simp only: sint_signed_drop_bit_eq drop_bit_eq_div)
  also have "\<dots> = (if sint h < 0 then -1 else 0)"
  proof (cases "sint h < 0")
    case True
    then have "0 \<le> sint h + 2 ^ 63" "sint h + 2 ^ 63 < 2 ^ 63" using s64_range [of h] by simp_all
    then have "(sint h + 2 ^ 63) div 2 ^ 63 = 0" by (rule div_pos_pos_trivial)
    then show ?thesis using True by simp
  next
    case False
    then show ?thesis using s64_range [of h] by (simp add: div_pos_pos_trivial)
  qed
  finally show "sint (signed_drop_bit 63 h) = sint (if sint h < 0 then -1 else 0 :: u64)"
    by (simp add: sint_n1)
qed

lemma int128_rshift_val:
  assumes n: "n < 128"
  shows "int128_val (int128_rshift a n) = int128_val a div 2 ^ n"
proof -
  consider "n = 0" | "0 < n" "n < 64" | "64 \<le> n" by linarith
  then show ?thesis
  proof cases
    case 1 then show ?thesis by (simp add: int128_rshift_def)
  next
    case 2
    then have "int128_val a div 2 ^ n =
        sint (hi a) div 2 ^ n * 2 ^ 64 + (sint (hi a) mod 2 ^ n * 2 ^ (64 - n) + uint (lo a) div 2 ^ n)"
      unfolding int128_val_def by (intro drop_bit_pair64_low u64_range) simp
    moreover have "int128_rshift a n =
        \<lparr>lo = drop_bit n (lo a) OR push_bit (64 - n) (hi a), hi = signed_drop_bit n (hi a)\<rparr>"
      using 2 by (simp add: int128_rshift_def int128_make128_def)
    ultimately show ?thesis
      by (simp only: int128_val_def Int128.select_convs uint_shift_or [OF 2]
          sint_signed_drop_bit_eq drop_bit_eq_div [where 'a = int])
  next
    case 3
    then have nm: "n = 64 + (n - 64)" "n mod 64 = n - 64" using n by (simp_all add: le_mod_geq)
    define h where "h = signed_drop_bit (n - 64) (hi a)"
    have "int128_rshift a n = int128_exts64 h"
      using 3 nm(2)
      by (simp only: int128_rshift_def int128_exts64_def int128_make128_def h_def Let_def
          signed_drop_bit_63 if_True) simp
    then have "int128_val (int128_rshift a n) = int128_val (int128_exts64 h)" by simp
    also have "\<dots> = sint (hi a) div 2 ^ (n - 64)"
      by (simp add: h_def sint_signed_drop_bit_eq drop_bit_eq_div)
    also have "\<dots> = int128_val a div 2 ^ n"
      unfolding int128_val_def
      using drop_bit_pair64_high [OF u64_range, of "sint (hi a)" "lo a" "n - 64"] nm(1) by metis
    finally show ?thesis .
  qed
qed

section \<open>The two-word arithmetic is integer arithmetic\<close>

text \<open>
  C30: \<^verbatim>\<open>int128_add\<close>, \<^verbatim>\<open>int128_sub\<close> and \<^verbatim>\<open>int128_neg\<close>, with their carry and borrow, compute the exact
  result whenever it fits in 128 bits, and the result modulo two to the 128 otherwise; the comparisons,
  minimum and maximum always agree with the integers; and a right shift by less than 128 is a division
  rounding down.
\<close>

theorem int128_operations_exact:
  "(- (2 ^ 127) \<le> int128_val a + int128_val b \<and> int128_val a + int128_val b < 2 ^ 127 \<longrightarrow>
      int128_val (int128_add a b) = int128_val a + int128_val b) \<and>
   (- (2 ^ 127) \<le> int128_val a - int128_val b \<and> int128_val a - int128_val b < 2 ^ 127 \<longrightarrow>
      int128_val (int128_sub a b) = int128_val a - int128_val b) \<and>
   (int128_val a \<noteq> - (2 ^ 127) \<longrightarrow> int128_val (int128_neg a) = - int128_val a) \<and>
   int128_val (int128_add a b) mod 2 ^ 128 = (int128_val a + int128_val b) mod 2 ^ 128 \<and>
   int128_val (int128_sub a b) mod 2 ^ 128 = (int128_val a - int128_val b) mod 2 ^ 128 \<and>
   int128_val (int128_neg a) mod 2 ^ 128 = (- int128_val a) mod 2 ^ 128 \<and>
   (int128_ge a b \<longleftrightarrow> int128_val b \<le> int128_val a) \<and> (int128_eq a b \<longleftrightarrow> int128_val a = int128_val b) \<and>
   int128_val (int128_min a b) = min (int128_val a) (int128_val b) \<and>
   int128_val (int128_max a b) = max (int128_val a) (int128_val b) \<and>
   (n < 128 \<longrightarrow> int128_val (int128_rshift a n) = int128_val a div 2 ^ n)"
proof (intro conjI impI)
  show "int128_val (int128_add a b) mod 2 ^ 128 = (int128_val a + int128_val b) mod 2 ^ 128"
    using int128_add_val_mod [of a b] by (metis mod_mult_self1)
  show sub: "int128_val (int128_sub a b) mod 2 ^ 128 = (int128_val a - int128_val b) mod 2 ^ 128" for a b
    using int128_sub_val_mod [of a b] by (metis mod_mult_self1)
  show "int128_val (int128_neg a) mod 2 ^ 128 = (- int128_val a) mod 2 ^ 128"
    using sub [of int128_zero a] by (simp add: int128_neg_sub int128_zero_def)
qed (simp_all add: int128_add_val int128_sub_val int128_neg_val int128_ge_val int128_eq_val
      int128_min_val int128_max_val int128_rshift_val)

theorem int128_operations_exact_witness:
  "int128_val (int128_add int128_2_64 (int128_make64 5)) = 2 ^ 64 + 5 \<and>
   int128_val (int128_sub (int128_make64 5) int128_2_64) = 5 - 2 ^ 64 \<and>
   int128_val (int128_neg int128_2_64) = - (2 ^ 64) \<and>
   int128_val (int128_rshift int128_2_64 4) = 2 ^ 60"
  using int128_operations_exact [of int128_2_64 "int128_make64 5" 4]
    int128_operations_exact [of "int128_make64 5" int128_2_64 4]
  by simp

end
