(* ===== verification/WideArith.thy ===== *)
theory WideArith
  imports HostUtils Int128
begin

text \<open>
  128-bit multiplication, division and shifts on pairs of 64-bit words
  (\<^verbatim>\<open>qemu/include/qemu/host-utils.h\<close> and \<^verbatim>\<open>qemu/util/host-utils.c\<close>). The functions without a suffix are the
  branch compiled with \<^verbatim>\<open>CONFIG_INT128\<close>, those with the suffix \<^verbatim>\<open>_portable\<close> the branch without it. In-out
  parameters are arguments and components of the result.
\<close>

section \<open>Operations\<close>

text \<open>The halves of the union \<^verbatim>\<open>LL\<close>.\<close>

definition l_low :: "u64 \<Rightarrow> u32" where "l_low x = ucast x"
definition l_high :: "u64 \<Rightarrow> u32" where "l_high x = ucast (drop_bit 32 x)"
definition ll_of :: "u32 \<Rightarrow> u32 \<Rightarrow> u64" where "ll_of h l = push_bit 32 (ucast h) OR ucast l"

text \<open>Results are pairs of the low and the high word.\<close>

definition mulu64 :: "u64 \<Rightarrow> u64 \<Rightarrow> u64 \<times> u64" where
  "mulu64 a b = (let r = uint a * uint b in (word_of_int r, word_of_int (r div 2 ^ 64)))"

definition muls64 :: "u64 \<Rightarrow> u64 \<Rightarrow> u64 \<times> u64" where
  "muls64 a b = (let r = sint a * sint b in (word_of_int r, word_of_int (r div 2 ^ 64)))"

definition mul64_portable :: "u64 \<Rightarrow> u64 \<Rightarrow> u64 \<times> u64" where
  "mul64_portable a b =
    (let rl = ucast (l_low a) * ucast (l_low b) :: u64;
         rm = ucast (l_low a) * ucast (l_high b) :: u64;
         rn = ucast (l_high a) * ucast (l_low b) :: u64;
         rh = ucast (l_high a) * ucast (l_high b) :: u64;
         c = ucast (l_high rl) + ucast (l_low rm) + ucast (l_low rn) :: u64;
         rl = ll_of (ucast c) (l_low rl);
         c = drop_bit 32 c;
         c = c + ucast (l_high rm) + ucast (l_high rn) + ucast (l_low rh);
         rh = ll_of (l_high rh) (ucast c);
         rh = ll_of (l_high rh + ucast (drop_bit 32 c)) (l_low rh) in
     (rl, rh))"

definition mulu64_portable :: "u64 \<Rightarrow> u64 \<Rightarrow> u64 \<times> u64" where
  "mulu64_portable a b = mul64_portable a b"

definition muls64_portable :: "u64 \<Rightarrow> u64 \<Rightarrow> u64 \<times> u64" where
  "muls64_portable a b =
    (let (wl, rh) = mul64_portable a b;
         rh = (if b <s 0 then rh - a else rh);
         rh = (if a <s 0 then rh - b else rh) in
     (wl, rh))"

text \<open>A division by zero of the C language gives \<^const>\<open>None\<close>.\<close>

definition muldiv64 :: "u64 \<Rightarrow> u32 \<Rightarrow> u32 \<Rightarrow> u64 option" where
  "muldiv64 a b c = (if c = 0 then None else Some (word_of_int (uint a * uint b div uint c)))"

definition muldiv64_portable :: "u64 \<Rightarrow> u32 \<Rightarrow> u32 \<Rightarrow> u64 option" where
  "muldiv64_portable a b c =
    (if c = 0 then None
     else
       let rl = ucast (l_low a) * ucast b :: u64;
           rh = ucast (l_high a) * ucast b :: u64;
           rh = rh + drop_bit 32 rl;
           h = ucast (rh div ucast c) :: u32;
           l = ucast ((push_bit 32 (rh mod ucast c) + (rl AND 0xffffffff)) div ucast c) :: u32 in
       Some (ll_of h l))"

text \<open>
  The divisions return the overflow flag and the new values of \<^verbatim>\<open>*plow\<close> and \<^verbatim>\<open>*phigh\<close>: the quotient and the
  remainder.
\<close>

definition divu128 :: "u64 \<Rightarrow> u64 \<Rightarrow> u64 \<Rightarrow> bool \<times> u64 \<times> u64" where
  "divu128 plow phigh divisor =
    (if divisor = 0 then (True, plow, phigh)
     else
       let dividend = uint phigh * 2 ^ 64 + uint plow; r = dividend div uint divisor in
       (2 ^ 64 \<le> r, word_of_int r, word_of_int (dividend mod uint divisor)))"

text \<open>
  One round of the loop of the portable version on \<^verbatim>\<open>dhi\<close> and \<^verbatim>\<open>dlo\<close>.
\<close>

definition divu128_round :: "u64 \<Rightarrow> u64 \<times> u64 \<Rightarrow> u64 \<times> u64" where
  "divu128_round divisor = (\<lambda>(dhi, dlo).
    let carry = drop_bit 63 dhi;
        dhi = push_bit 1 dhi OR drop_bit 63 dlo;
        (dhi, carry) = (if carry \<noteq> 0 \<or> divisor \<le> dhi then (dhi - divisor, 1) else (dhi, 0)) in
    (dhi, push_bit 1 dlo OR carry))"

definition divu128_portable :: "u64 \<Rightarrow> u64 \<Rightarrow> u64 \<Rightarrow> bool \<times> u64 \<times> u64" where
  "divu128_portable plow phigh divisor =
    (if divisor = 0 then (True, plow, phigh)
     else if phigh = 0 then (False, plow div divisor, plow mod divisor)
     else if divisor < phigh then (True, plow, phigh)
     else let (dhi, dlo) = (divu128_round divisor ^^ 64) (phigh, plow) in (False, dlo, dhi))"

text \<open>
  The version of \<^verbatim>\<open>divs128\<close> with a 128-bit type: the low word is a signed 64-bit value there, so it is
  sign-extended before it is joined to the high word. Division in C rounds towards zero.
\<close>

definition tdiv :: "int \<Rightarrow> int \<Rightarrow> int" where
  "tdiv a b = sgn a * sgn b * (\<bar>a\<bar> div \<bar>b\<bar>)"

definition tmod :: "int \<Rightarrow> int \<Rightarrow> int" where
  "tmod a b = a - tdiv a b * b"

definition divs128 :: "u64 \<Rightarrow> u64 \<Rightarrow> u64 \<Rightarrow> bool \<times> u64 \<times> u64" where
  "divs128 plow phigh divisor =
    (if divisor = 0 then (True, plow, phigh)
     else
       let dividend = push_bit 64 (sint phigh) OR sint plow;
           r = tdiv dividend (sint divisor);
           q = word_of_int r in
       (r \<noteq> sint q, q, word_of_int (tmod dividend (sint divisor))))"

definition divs128_portable :: "u64 \<Rightarrow> u64 \<Rightarrow> u64 \<Rightarrow> bool \<times> u64 \<times> u64" where
  "divs128_portable plow phigh divisor =
    (let sgn_dvdnd = phigh <s 0;
         sgn_divsr = divisor <s 0;
         (plow, phigh) =
           (if sgn_dvdnd then
              let plow = NOT plow; phigh = NOT phigh in
              if plow = -1 then (0, phigh + 1) else (plow + 1, phigh)
            else (plow, phigh));
         divisor = (if sgn_divsr then 0 - divisor else divisor);
         (overflow, plow, phigh) = divu128_portable plow phigh divisor;
         plow = (if sgn_dvdnd \<noteq> sgn_divsr then 0 - plow else plow) in
     (overflow \<or> (plow <s 0) \<noteq> (sgn_dvdnd \<noteq> sgn_divsr), plow, phigh))"

definition urshift :: "u64 \<Rightarrow> u64 \<Rightarrow> nat \<Rightarrow> u64 \<times> u64" where
  "urshift plow phigh shift =
    (let shift = shift mod 128 in
     if shift = 0 then (plow, phigh)
     else
       let h = drop_bit (shift mod 64) phigh in
       if 64 \<le> shift then (h, 0)
       else (drop_bit (shift mod 64) plow OR push_bit (64 - shift mod 64) phigh, h))"

definition ulshift :: "u64 \<Rightarrow> u64 \<Rightarrow> nat \<Rightarrow> bool \<Rightarrow> u64 \<times> u64 \<times> bool" where
  "ulshift plow phigh shift overflow =
    (let shift = shift mod 128 in
     if shift = 0 then (plow, phigh, overflow)
     else
       let (low, high) = urshift plow phigh (128 - shift);
           overflow = (if low OR high \<noteq> 0 then True else overflow) in
       if 64 \<le> shift then (0, push_bit (shift mod 64) plow, overflow)
       else (push_bit shift plow,
         drop_bit (64 - shift mod 64) plow OR push_bit (shift mod 64) phigh, overflow))"

section \<open>Halves of a word\<close>

lemma uint32_range: "0 \<le> uint (x :: u32)" "uint (x :: u32) < 2 ^ 32"
  using uint_lt2p [of x] by simp_all

lemma uint64_range: "0 \<le> uint (x :: u64)" "uint (x :: u64) < 2 ^ 64"
  using uint_lt2p [of x] by simp_all

lemma uint_l_low: "uint (l_low x) = uint x mod 2 ^ 32"
  by (simp add: l_low_def unsigned_ucast_eq take_bit_eq_mod)

lemma div32_mod: "uint x div 2 ^ 32 mod 2 ^ 32 = uint x div 2 ^ 32" for x :: u64
proof (rule mod_pos_pos_trivial)
  show "0 \<le> uint x div 2 ^ 32" by (rule pos_imp_zdiv_nonneg_iff [THEN iffD2]) simp_all
  show "uint x div 2 ^ 32 < 2 ^ 32" using uint64_range [of x] by simp
qed

lemma div32_nonneg: "0 \<le> uint x div 2 ^ 32" for x :: u64
  by (rule pos_imp_zdiv_nonneg_iff [THEN iffD2]) simp_all

lemma uint_l_high: "uint (l_high x) = uint x div 2 ^ 32"
proof -
  have "uint x div 2 ^ 32 < 2 ^ 32" using uint64_range [of x] by simp
  moreover have "0 \<le> uint x div 2 ^ 32" by (rule pos_imp_zdiv_nonneg_iff [THEN iffD2]) simp_all
  moreover have "uint (l_high x) = take_bit 32 (drop_bit 32 (uint x))"
    using uint64_range [of x] by (simp only: l_high_def unsigned_ucast_eq unsigned_drop_bit_eq) (simp add: take_bit_int_eq_self)
  ultimately show ?thesis by (simp add: take_bit_eq_mod drop_bit_eq_div)
qed

lemma uint_halves: "uint x = uint (l_high x) * 2 ^ 32 + uint (l_low x)" for x :: u64
  by (simp add: uint_l_low uint_l_high)

lemma uint_ll_of: "uint (ll_of h l) = uint h * 2 ^ 32 + uint l"
proof -
  have "uint h * 2 ^ 32 < 2 ^ 64" using uint32_range [of h] by simp
  moreover have "uint (push_bit 32 (ucast h :: u64)) = take_bit 64 (push_bit 32 (take_bit 64 (uint h)))"
    by (simp only: unsigned_push_bit_eq unsigned_ucast_eq len_num0) simp
  ultimately have "uint (push_bit 32 (ucast h :: u64)) = uint h * 2 ^ 32"
    using uint32_range [of h] by (simp only: push_bit_eq_mult take_bit_eq_mod) simp
  moreover have "uint (ucast l :: u64) = uint l"
    using uint32_range [of l] by (simp add: unsigned_ucast_eq take_bit_eq_mod)
  moreover have "\<not> bit (push_bit 32 (ucast h :: u64)) n \<or> \<not> bit (ucast l :: u64) n" for n
    by (auto simp: bit_simps dest: bit_imp_le_length)
  then have "push_bit 32 (ucast h :: u64) + ucast l = push_bit 32 (ucast h) OR ucast l"
    by (intro disjunctive_add) blast
  moreover have "uint h * 2 ^ 32 + uint l < 2 ^ 64" using uint32_range [of h] uint32_range [of l] by simp
  ultimately show ?thesis using uint32_range [of h] uint32_range [of l]
    unfolding ll_of_def by (simp add: uint_word_ariths flip: \<open>_ + _ = _ OR _\<close>)
qed

lemma uint_mul32: "uint (ucast (a :: u32) * ucast (b :: u32) :: u64) = uint a * uint b"
proof -
  have "uint a * uint b \<le> (2 ^ 32 - 1) * (2 ^ 32 - 1)"
    using uint32_range [of a] uint32_range [of b] by (intro mult_mono) simp_all
  then have "uint a * uint b < 2 ^ 64" by simp
  moreover have "uint (ucast a :: u64) = uint a" "uint (ucast b :: u64) = uint b"
    using uint32_range [of a] uint32_range [of b] by (simp_all add: unsigned_ucast_eq take_bit_eq_mod)
  moreover have "0 \<le> uint a * uint b" by simp
  ultimately show ?thesis by (simp add: uint_word_ariths)
qed

section \<open>Multiplication\<close>

text \<open>The portable product: column sums of the four 32-bit products.\<close>

lemma mul64_columns:
  fixes rl rm rn rh :: int
  defines "c1 \<equiv> rl div 2 ^ 32 + rm mod 2 ^ 32 + rn mod 2 ^ 32"
  defines "c2 \<equiv> c1 div 2 ^ 32 + rm div 2 ^ 32 + rn div 2 ^ 32 + rh mod 2 ^ 32"
  shows "rl + 2 ^ 32 * (rm + rn) + 2 ^ 64 * rh =
      (c1 mod 2 ^ 32) * 2 ^ 32 + rl mod 2 ^ 32 +
      2 ^ 64 * ((rh div 2 ^ 32 + c2 div 2 ^ 32) * 2 ^ 32 + c2 mod 2 ^ 32)"
proof -
  have e: "x = x div 2 ^ 32 * 2 ^ 32 + x mod 2 ^ 32" for x :: int by simp
  have 1: "rl = rl div 2 ^ 32 * 2 ^ 32 + rl mod 2 ^ 32" "rm = rm div 2 ^ 32 * 2 ^ 32 + rm mod 2 ^ 32"
    "rn = rn div 2 ^ 32 * 2 ^ 32 + rn mod 2 ^ 32" "rh = rh div 2 ^ 32 * 2 ^ 32 + rh mod 2 ^ 32"
    "c1 = c1 div 2 ^ 32 * 2 ^ 32 + c1 mod 2 ^ 32" "c2 = c2 div 2 ^ 32 * 2 ^ 32 + c2 mod 2 ^ 32"
    by simp_all
  have lin: "l + 2 ^ 32 * (m + n) + 2 ^ 64 * h = d1 * 2 ^ 32 + tl + 2 ^ 64 * ((qh + k2) * 2 ^ 32 + d2)"
    if "l = ql * 2 ^ 32 + tl" "m = qm * 2 ^ 32 + tm" "n = qn * 2 ^ 32 + tn" "h = qh * 2 ^ 32 + th"
      "ql + tm + tn = k1 * 2 ^ 32 + d1" "k1 + qm + qn + th = k2 * 2 ^ 32 + d2"
    for l m n h ql tl qm tm qn tn qh th k1 d1 k2 d2 :: int
    using that by simp
  have "rl div 2 ^ 32 + rm mod 2 ^ 32 + rn mod 2 ^ 32 = c1"
    "c1 div 2 ^ 32 + rm div 2 ^ 32 + rn div 2 ^ 32 + rh mod 2 ^ 32 = c2"
    by (simp_all only: c1_def c2_def)
  then show ?thesis by (intro lin [OF 1(1-4)]) (erule trans, rule 1)+
qed

lemma uint_ucast32 [simp]: "uint (ucast (x :: u32) :: u64) = uint x"
  using uint32_range [of x] by (simp add: unsigned_ucast_eq take_bit_eq_mod)

lemma uint_ucast_mod: "uint (ucast (x :: u64) :: u32) = uint x mod 2 ^ 32"
  by (simp add: unsigned_ucast_eq take_bit_eq_mod)

lemma uint_drop_bit32: "uint (drop_bit 32 (x :: u64)) = uint x div 2 ^ 32"
proof -
  have "uint (drop_bit 32 x) = drop_bit 32 (uint x)"
    using uint64_range [of x] by (simp only: unsigned_drop_bit_eq) (simp add: take_bit_int_eq_self)
  then show ?thesis by (simp add: drop_bit_eq_div)
qed

lemma uint_add64: "uint a + uint b < 2 ^ 64 \<Longrightarrow> uint (a + b) = uint a + uint b" for a b :: u64
  using uint64_range [of a] uint64_range [of b] by (simp add: uint_word_ariths)

lemma l_low_ll_of [simp]: "l_low (ll_of h l) = l"
  using uint32_range [of l] by (simp add: word_uint_eq_iff uint_l_low uint_ll_of)

lemma l_high_ll_of [simp]: "l_high (ll_of h l) = h"
  using uint32_range [of h] uint32_range [of l] by (simp add: word_uint_eq_iff uint_l_high uint_ll_of)

lemma mul64_portable_exact:
  "(case mul64_portable a b of (wl, wh) \<Rightarrow> uint wl + 2 ^ 64 * uint wh) = uint a * uint b"
proof -
  define rl rm rn rh :: u64 where
    "rl = ucast (l_low a) * ucast (l_low b)" and "rm = ucast (l_low a) * ucast (l_high b)" and
    "rn = ucast (l_high a) * ucast (l_low b)" and "rh = ucast (l_high a) * ucast (l_high b)"
  define c1 :: u64 where "c1 = ucast (l_high rl) + ucast (l_low rm) + ucast (l_low rn)"
  define c2 :: u64 where "c2 = drop_bit 32 c1 + ucast (l_high rm) + ucast (l_high rn) + ucast (l_low rh)"
  have r: "uint rl = uint (l_low a) * uint (l_low b)" "uint rm = uint (l_low a) * uint (l_high b)"
    "uint rn = uint (l_high a) * uint (l_low b)" "uint rh = uint (l_high a) * uint (l_high b)"
    by (simp_all only: rl_def rm_def rn_def rh_def uint_mul32)
  have c1: "uint c1 = uint rl div 2 ^ 32 + uint rm mod 2 ^ 32 + uint rn mod 2 ^ 32"
    using uint32_range(2) [of "l_high rl", unfolded uint_l_high] uint32_range(2) [of "l_low rm", unfolded uint_l_low]
      uint32_range(2) [of "l_low rn", unfolded uint_l_low]
    by (simp add: c1_def uint_add64 uint_l_low uint_l_high)
  have c1lt: "uint c1 div 2 ^ 32 < 2 ^ 32" using uint64_range [of c1] by simp
  have c2: "uint c2 = uint c1 div 2 ^ 32 + uint rm div 2 ^ 32 + uint rn div 2 ^ 32 + uint rh mod 2 ^ 32"
    using uint32_range(2) [of "l_high rm", unfolded uint_l_high] uint32_range(2) [of "l_high rn", unfolded uint_l_high]
      uint32_range(2) [of "l_low rh", unfolded uint_l_low] c1lt
    by (simp add: c2_def uint_add64 uint_drop_bit32 uint_l_low uint_l_high)
  have mul: "mul64_portable a b = (ll_of (ucast c1) (l_low rl), ll_of (l_high rh + ucast (drop_bit 32 c2)) (ucast c2))"
    by (simp add: mul64_portable_def Let_def rl_def rm_def rn_def rh_def c1_def c2_def)
  have "uint a * uint b = (uint (l_high a) * 2 ^ 32 + uint (l_low a)) * (uint (l_high b) * 2 ^ 32 + uint (l_low b))"
    using uint_halves [of a] uint_halves [of b] by simp
  also have "\<dots> = uint rl + 2 ^ 32 * (uint rm + uint rn) + 2 ^ 64 * uint rh"
    unfolding r by (simp add: algebra_simps)
  also have "\<dots> = (uint c1 mod 2 ^ 32) * 2 ^ 32 + uint rl mod 2 ^ 32 +
      2 ^ 64 * ((uint rh div 2 ^ 32 + uint c2 div 2 ^ 32) * 2 ^ 32 + uint c2 mod 2 ^ 32)"
    unfolding c2 c1 by (rule mul64_columns)
  finally have total: "uint a * uint b = \<dots>" .
  have "uint a * uint b \<le> (2 ^ 64 - 1) * (2 ^ 64 - 1)"
    using uint64_range [of a] uint64_range [of b] by (intro mult_mono) simp_all
  moreover have nn: "0 \<le> (uint c1 mod 2 ^ 32) * 2 ^ 32 + uint rl mod 2 ^ 32" "0 \<le> uint c2 mod 2 ^ 32" by simp_all
  ultimately have "2 ^ 64 * ((uint rh div 2 ^ 32 + uint c2 div 2 ^ 32) * 2 ^ 32) < 2 ^ 128"
    using total by simp
  then have "uint rh div 2 ^ 32 + uint c2 div 2 ^ 32 < 2 ^ 32" by simp
  moreover have "uint (ucast (drop_bit 32 c2) :: u32) = uint c2 div 2 ^ 32"
    using div32_mod [of c2] by (simp add: uint_ucast_mod uint_drop_bit32)
  ultimately have "uint (l_high rh + ucast (drop_bit 32 c2)) = uint rh div 2 ^ 32 + uint c2 div 2 ^ 32"
    using div32_nonneg [of rh] div32_nonneg [of c2] by (simp add: uint_word_ariths uint_l_high)
  then show ?thesis unfolding mul total by (simp add: uint_ll_of uint_ucast_mod uint_l_low)
qed

lemma wide_unique:
  fixes wl wh :: u64
  assumes "uint wl + 2 ^ 64 * uint wh = n"
  shows "wl = word_of_int n" "wh = word_of_int (n div 2 ^ 64)"
proof -
  have "n mod 2 ^ 64 = uint wl" "n div 2 ^ 64 = uint wh"
    using assms uint64_range [of wl] by auto
  then show "wl = word_of_int n" "wh = word_of_int (n div 2 ^ 64)"
    by (simp_all add: word_uint_eq_iff uint_word_of_int)
qed

lemma wide_low: "word_of_int (uint l + 2 ^ 64 * k) = l" for l :: u64
  using uint64_range [of l] by (simp only: word_uint_eq_iff uint_word_of_int) (simp add: mod_pos_pos_trivial)

lemma signed_fold:
  "s = u + k * 2 ^ 64 \<Longrightarrow> 0 \<le> u \<Longrightarrow> u < 2 ^ 64 \<Longrightarrow> - (2 ^ 63) \<le> s \<Longrightarrow> s < 2 ^ 63 \<Longrightarrow>
   k = (if s < 0 then - 1 else 0)" for s u k :: int
  by auto

lemma wide_div: "0 \<le> l \<Longrightarrow> l < 2 ^ 64 \<Longrightarrow> (l + 2 ^ 64 * k) div 2 ^ 64 = k" for l k :: int
  by simp

lemma mulu64_portable_eq: "mulu64_portable a b = mulu64 a b"
proof -
  obtain wl wh where m: "mul64_portable a b = (wl, wh)" by fastforce
  have "uint wl + 2 ^ 64 * uint wh = uint a * uint b" using mul64_portable_exact [of a b] m by simp
  from wide_unique [OF this] show ?thesis by (simp only: mulu64_portable_def mulu64_def m Let_def)
qed

lemma sint_minus: "sint x = uint x - (if x <s 0 then 2 ^ 64 else 0)" for x :: u64
proof -
  obtain k where "sint x = uint x + k * 2 ^ 64" using sint_of_uint_mod by blast
  moreover have "k = (if sint x < 0 then -1 else 0)"
    using signed_fold [OF calculation uint64_range s64_range] .
  ultimately show ?thesis by (cases "sint x < 0") (simp_all add: word_sless_alt)
qed

lemma muls64_portable_eq: "muls64_portable a b = muls64 a b"
proof -
  obtain wl wh where m: "mul64_portable a b = (wl, wh)" by fastforce
  have e: "uint wl + 2 ^ 64 * uint wh = uint a * uint b" using mul64_portable_exact [of a b] m by simp
  define ca cb :: int where "ca = (if a <s 0 then 1 else 0)" and "cb = (if b <s 0 then 1 else 0)"
  have s: "sint a * sint b = uint wl + 2 ^ 64 * (uint wh - cb * uint a - ca * uint b + 2 ^ 64 * ca * cb)"
    using e by (auto simp: sint_minus ca_def cb_def algebra_simps)
  have "sint a * sint b div 2 ^ 64 = uint wh - cb * uint a - ca * uint b + 2 ^ 64 * ca * cb"
    unfolding s using uint64_range [of wl] by (intro wide_div)
  moreover have "word_of_int (uint wh - cb * uint a - ca * uint b + 2 ^ 64 * ca * cb) =
      (let rh = (if b <s 0 then wh - a else wh) in if a <s 0 then rh - b else rh)"
    by (simp add: ca_def cb_def)
  moreover have "word_of_int (sint a * sint b) = wl" unfolding s by (rule wide_low)
  ultimately show ?thesis by (simp add: muls64_portable_def muls64_def m Let_def)
qed

lemma div_less_pow: "0 < d \<Longrightarrow> n < c * d \<Longrightarrow> n div d < c" for n d c :: int
proof -
  assume d: "0 < d" and "n < c * d"
  moreover have "d * (n div d) \<le> n" using mult_div_mod_eq [of d n] pos_mod_sign [of d n] d by linarith
  ultimately have "d * (n div d) < d * c" by (simp only: mult.commute [of d c])
  then show ?thesis using d by simp
qed

lemma quotient_columns:
  fixes n h r c :: int
  assumes "0 < c" "n = h * 2 ^ 32 + r" "0 \<le> r" "r < 2 ^ 32" "0 \<le> h"
  shows "n div c = h div c * 2 ^ 32 + (h mod c * 2 ^ 32 + r) div c"
    and "0 \<le> (h mod c * 2 ^ 32 + r) div c" "(h mod c * 2 ^ 32 + r) div c < 2 ^ 32"
proof -
  have "n = (h mod c * 2 ^ 32 + r) + c * (h div c * 2 ^ 32)"
  proof -
    have "h * 2 ^ 32 = (h mod c + c * (h div c)) * 2 ^ 32" by simp
    also have "\<dots> = h mod c * 2 ^ 32 + c * (h div c * 2 ^ 32)" by (simp only: distrib_right mult.assoc)
    finally show ?thesis by (simp only: assms(2) add.assoc add.commute [of r])
  qed
  then show "n div c = h div c * 2 ^ 32 + (h mod c * 2 ^ 32 + r) div c" using assms(1) by simp
  have m: "0 \<le> h mod c" "h mod c < c" using assms(1) by simp_all
  then show "0 \<le> (h mod c * 2 ^ 32 + r) div c" using assms by (simp add: pos_imp_zdiv_nonneg_iff)
  have "h mod c * 2 ^ 32 + r < (h mod c + 1) * 2 ^ 32" using assms(4) by (simp add: algebra_simps)
  also have "\<dots> \<le> c * 2 ^ 32" using m by (intro mult_right_mono) simp_all
  finally have "h mod c * 2 ^ 32 + r < 2 ^ 32 * c" by (simp only: mult.commute [of c])
  then show "(h mod c * 2 ^ 32 + r) div c < 2 ^ 32" using assms(1) by (intro div_less_pow)
qed

lemma muldiv64_portable_eq:
  assumes "c \<noteq> 0" "uint a * uint b div uint c < 2 ^ 64"
  shows "muldiv64_portable a b c = muldiv64 a b c"
proof -
  define rl :: u64 where "rl = ucast (l_low a) * ucast b"
  define rh :: u64 where "rh = ucast (l_high a) * ucast b + drop_bit 32 rl"
  define h l :: u32 where "h = ucast (rh div ucast c)"
    and "l = ucast ((push_bit 32 (rh mod ucast c) + (rl AND 0xffffffff)) div ucast c)"
  have c: "0 < uint c" using assms(1) uint32_range(1) [of c] by (simp add: word_uint_eq_iff order_less_le)
  have rl: "uint rl = uint (l_low a) * uint b" by (simp only: rl_def uint_mul32)
  have "uint (l_high a) * uint b \<le> (2 ^ 32 - 1) * (2 ^ 32 - 1)"
    using uint32_range [of "l_high a"] uint32_range [of b] by (intro mult_mono) simp_all
  moreover have "uint rl div 2 ^ 32 < 2 ^ 32" using uint64_range(2) [of rl] by (intro div_less_pow) simp_all
  ultimately have "uint (l_high a) * uint b + uint rl div 2 ^ 32 < 2 ^ 64" by simp
  then have rh: "uint rh = uint (l_high a) * uint b + uint rl div 2 ^ 32"
    unfolding rh_def by (subst uint_add64) (simp_all only: uint_mul32 uint_drop_bit32)
  have "uint a * uint b = uint (l_high a) * uint b * 2 ^ 32 + uint rl"
    by (subst uint_halves) (simp add: rl algebra_simps)
  also have "\<dots> = uint rh * 2 ^ 32 + uint rl mod 2 ^ 32" by (simp add: rh algebra_simps)
  finally have n: "uint a * uint b = uint rh * 2 ^ 32 + uint rl mod 2 ^ 32" .
  note col = quotient_columns [OF c n _ _ uint64_range(1)]
  have m: "0 \<le> uint rh mod uint c" "uint rh mod uint c < uint c" using c by simp_all
  have low: "uint (rl AND 0xffffffff) = uint rl mod 2 ^ 32"
  proof -
    have "rl AND 0xffffffff = take_bit 32 rl" by (rule bits_eqI) (simp add: upt_64 bit_simps)
    then have "uint (rl AND 0xffffffff) = take_bit 32 (uint rl)" by (simp only: unsigned_take_bit_eq)
    then show ?thesis by (simp only: take_bit_eq_mod)
  qed
  define X :: u64 where "X = push_bit 32 (rh mod ucast c)"
  have "(uint rh mod uint c) * 2 ^ 32 \<le> (2 ^ 32 - 1) * 2 ^ 32" "0 \<le> (uint rh mod uint c) * 2 ^ 32"
    using m uint32_range(2) [of c] by simp_all
  then have lt: "(uint rh mod uint c) * 2 ^ 32 + uint rl mod 2 ^ 32 < 2 ^ 64" "(uint rh mod uint c) * 2 ^ 32 < 2 ^ 64"
    "0 \<le> (uint rh mod uint c) * 2 ^ 32"
    using pos_mod_bound [of "2 ^ 32" "uint rl"] by simp_all
  have "X = (rh mod ucast c) * 2 ^ 32" by (simp only: X_def push_bit_eq_mult)
  then have X: "uint X = (uint rh mod uint c) * 2 ^ 32"
    using lt(2,3) by (simp add: uint_word_ariths uint_mod mod_pos_pos_trivial)
  have "uint (X + (rl AND 0xffffffff)) = uint rh mod uint c * 2 ^ 32 + uint rl mod 2 ^ 32"
    using lt(1) by (subst uint_add64) (simp_all only: X low)
  then have l: "uint l = (uint rh mod uint c * 2 ^ 32 + uint rl mod 2 ^ 32) div uint c"
    using col(2,3) by (simp add: l_def X_def [symmetric] uint_ucast_mod uint_div mod_pos_pos_trivial)
  have hq: "0 \<le> uint rh div uint c" using c by (simp add: pos_imp_zdiv_nonneg_iff)
  have "uint rh div uint c * 2 ^ 32 < 2 ^ 64" using assms(2) col(1,2) by simp
  then have "uint rh div uint c < 2 ^ 32" by simp
  then have h: "uint h = uint rh div uint c"
    using hq by (simp add: h_def uint_ucast_mod uint_div mod_pos_pos_trivial)
  have "uint (ll_of h l) = uint a * uint b div uint c"
    unfolding uint_ll_of l h by (rule col(1) [symmetric]) simp_all
  then have "ll_of h l = word_of_int (uint a * uint b div uint c)" by (metis word_of_int_uint)
  then show ?thesis using assms(1)
    by (simp only: muldiv64_portable_def muldiv64_def Let_def rl_def [symmetric] rh_def [symmetric]
        h_def [symmetric] l_def [symmetric] if_False)
qed

section \<open>Division\<close>

text \<open>
  The state of the loop after \<^term>\<open>k\<close> rounds, for a dividend whose high word is below the divisor: the high
  word is the remainder of the bits consumed so far, and the low word holds the bits still to come above
  the quotient bits found.
\<close>

definition div_state :: "int \<Rightarrow> int \<Rightarrow> int \<Rightarrow> nat \<Rightarrow> int \<times> int" where
  "div_state d h l k =
    (let n = h * 2 ^ k + l div 2 ^ (64 - k) in
     (n mod d, l mod 2 ^ (64 - k) * 2 ^ k + n div d))"

lemma double_mod: "2 * u mod 2 ^ 64 = 2 * (u mod 2 ^ 63)" for u :: int
  using mult_mod_right [of 2 u "2 ^ 63"] by simp

lemma top_bit_iff: "0 \<le> u \<Longrightarrow> u < 2 ^ 64 \<Longrightarrow> u div 2 ^ 63 \<noteq> 0 \<longleftrightarrow> 2 ^ 63 \<le> u" for u :: int
  by (auto simp: zdiv_eq_0_iff)

lemma shift_in_test:
  fixes h b d :: int
  assumes "0 \<le> h" "h < d" "d < 2 ^ 64" "b = 0 \<or> b = 1"
  shows "2 * h mod 2 ^ 64 + b = (2 * h + b) mod 2 ^ 64"
    and "2 ^ 63 \<le> h \<or> d \<le> 2 * h mod 2 ^ 64 + b \<longleftrightarrow> d \<le> 2 * h + b"
proof -
  have m: "2 * h mod 2 ^ 64 = (if 2 ^ 63 \<le> h then 2 * h - 2 ^ 64 else 2 * h)"
  proof (cases "2 ^ 63 \<le> h")
    case True
    have "2 * h mod 2 ^ 64 = (2 * h - 2 ^ 64) mod 2 ^ 64" by simp
    also have "\<dots> = 2 * h - 2 ^ 64" using True assms by (intro mod_pos_pos_trivial) auto
    finally show ?thesis using True by simp
  next
    case False
    then show ?thesis using assms by (simp add: mod_pos_pos_trivial)
  qed
  have "2 * h mod 2 ^ 64 + b < 2 ^ 64" "0 \<le> 2 * h mod 2 ^ 64 + b" using assms(4) double_mod [of h] pos_mod_bound [of "2 ^ 63" h] by auto
  then have "2 * h mod 2 ^ 64 + b = (2 * h mod 2 ^ 64 + b) mod 2 ^ 64" by (simp add: mod_pos_pos_trivial)
  then show "2 * h mod 2 ^ 64 + b = (2 * h + b) mod 2 ^ 64" by (simp add: mod_add_left_eq)
  show "2 ^ 63 \<le> h \<or> d \<le> 2 * h mod 2 ^ 64 + b \<longleftrightarrow> d \<le> 2 * h + b"
    unfolding m using assms by auto
qed

lemma uint_push_bit1: "uint (push_bit 1 x) = 2 * uint x mod 2 ^ 64" for x :: u64
  by (simp add: push_bit_eq_mult uint_word_ariths mult.commute)

lemma uint_drop_bit63: "uint (drop_bit 63 x) = uint x div 2 ^ 63" for x :: u64
proof -
  have "uint (drop_bit 63 x) = drop_bit 63 (uint x)"
    using uint64_range [of x] by (simp only: unsigned_drop_bit_eq) (simp add: take_bit_int_eq_self)
  then show ?thesis by (simp add: drop_bit_eq_div)
qed

lemma top_bit_01: "uint x div 2 ^ 63 = 0 \<or> uint x div 2 ^ 63 = 1" for x :: u64
  using uint64_range [of x] by auto

lemma uint_shift_in:
  fixes x y :: u64
  assumes "uint y = 0 \<or> uint y = 1"
  shows "uint (push_bit 1 x OR y) = 2 * uint x mod 2 ^ 64 + uint y"
proof -
  have "y = 0 \<or> y = 1" using assms by (simp add: word_uint_eq_iff)
  then have "push_bit 1 x + y = push_bit 1 x OR y"
    by (intro disjunctive_add) (auto simp: bit_simps bit_times_2)
  moreover have "2 * uint x mod 2 ^ 64 + uint y < 2 ^ 64"
    using double_mod [of "uint x"] pos_mod_bound [of "2 ^ 63" "uint x"] assms by auto
  moreover have "uint (push_bit 1 x + y) = (2 * uint x mod 2 ^ 64 + uint y) mod 2 ^ 64"
    using uint_word_ariths(1) [of "push_bit 1 x" y] by (simp only: uint_push_bit1) simp
  moreover have "0 \<le> 2 * uint x mod 2 ^ 64 + uint y" by simp
  ultimately show ?thesis by (simp only: mod_pos_pos_trivial)
qed

lemma quot01:
  fixes t d :: int
  assumes "0 \<le> t" "t < 2 * d"
  shows "t div d = (if d \<le> t then 1 else 0)" "t mod d = (if d \<le> t then t - d else t)"
proof -
  have "t div d = 1" "t mod d = t - d" if "d \<le> t"
    using that assms by (auto intro!: int_div_pos_eq [of _ _ _ "t - d"] int_mod_pos_eq [of _ _ 1])
  then show "t div d = (if d \<le> t then 1 else 0)" "t mod d = (if d \<le> t then t - d else t)"
    using assms by auto
qed

lemma divu128_round_uint:
  fixes d dhi dlo :: u64
  assumes "uint dhi < uint d"
  defines "t \<equiv> 2 * uint dhi + uint dlo div 2 ^ 63"
  shows "divu128_round d (dhi, dlo) = (x, y) \<Longrightarrow>
    uint x = t mod uint d \<and> uint y = uint dlo mod 2 ^ 63 * 2 + t div uint d"
proof -
  assume r: "divu128_round d (dhi, dlo) = (x, y)"
  define dhi' where "dhi' = push_bit 1 dhi OR drop_bit 63 dlo"
  have b: "uint dlo div 2 ^ 63 = 0 \<or> uint dlo div 2 ^ 63 = 1" by (rule top_bit_01)
  have t: "0 \<le> t" "t < 2 * uint d" using assms(1) b uint64_range(1) [of dhi] by (auto simp: t_def)
  have "uint dhi' = 2 * uint dhi mod 2 ^ 64 + uint dlo div 2 ^ 63"
    unfolding dhi'_def using b by (subst uint_shift_in) (simp_all only: uint_drop_bit63)
  moreover have "drop_bit 63 dhi \<noteq> 0 \<longleftrightarrow> 2 ^ 63 \<le> uint dhi"
    using top_bit_iff [OF uint64_range [of dhi]] by (simp only: word_uint_eq_iff uint_drop_bit63 unsigned_0 not_not)
  ultimately have c: "drop_bit 63 dhi \<noteq> 0 \<or> d \<le> dhi' \<longleftrightarrow> uint d \<le> t"
    and h: "uint dhi' = t mod 2 ^ 64"
    using shift_in_test [OF uint64_range(1) assms(1) uint64_range(2) b] by (simp_all only: t_def word_le_def)
  have x: "x = (if uint d \<le> t then dhi' - d else dhi')"
    and y: "y = push_bit 1 dlo OR (if uint d \<le> t then 1 else 0)"
    using r unfolding divu128_round_def Let_def prod.case dhi'_def [symmetric] c
    by (cases "uint d \<le> t"; simp only: if_True if_False prod.case Pair_inject; simp)+
  have q: "t div uint d = (if uint d \<le> t then 1 else 0)" "t mod uint d = (if uint d \<le> t then t - uint d else t)"
    by (rule quot01 [OF t])+
  have "uint y = 2 * uint dlo mod 2 ^ 64 + t div uint d"
    unfolding y q by (subst uint_shift_in) auto
  moreover have "2 * uint dlo mod 2 ^ 64 = uint dlo mod 2 ^ 63 * 2" by (simp only: double_mod)
  moreover have "uint x = t mod uint d"
  proof (cases "uint d \<le> t")
    case True
    then have "uint x = (t - uint d) mod 2 ^ 64" by (simp add: x h uint_word_ariths mod_diff_left_eq)
    also have "\<dots> = t - uint d" using True t uint64_range [of d] by (intro mod_pos_pos_trivial) auto
    finally show ?thesis using True q by simp
  next
    case False
    then have "t < 2 ^ 64" using uint64_range [of d] by linarith
    then show ?thesis using False q t by (simp add: x h mod_pos_pos_trivial)
  qed
  ultimately show ?thesis by simp
qed

text \<open>One more bit of the dividend, on integers.\<close>


lemma div_state_step:
  fixes d h l :: int
  assumes "0 \<le> h" "h < d" "0 \<le> l" "k < 64" "l < 2 ^ 64"
    and "div_state d h l k = (u, v)"
  defines "t \<equiv> 2 * u + v div 2 ^ 63"
  shows "div_state d h l (Suc k) = (t mod d, v mod 2 ^ 63 * 2 + t div d)"
proof -
  define j where "j = 63 - k"
  have j: "64 - k = Suc j" "64 - Suc k = j" using assms(4) by (simp_all add: j_def)
  have "(2 :: int) ^ 63 = 2 ^ (k + j)" using assms(4) by (simp add: j_def)
  then have p: "(2 :: int) ^ 63 = 2 ^ k * 2 ^ j" by (simp only: power_add)
  define n q a where "n = h * 2 ^ k + l div 2 ^ Suc j" and "q = n div d" and "a = l mod 2 ^ Suc j"
  have uv: "u = n mod d" "v = a * 2 ^ k + q"
    using assms(6) by (simp_all add: div_state_def j n_def q_def a_def Let_def)
  have "(2 :: int) ^ 64 = 2 ^ k * 2 ^ Suc j" using p by (simp add: mult.commute)
  then have l: "l div 2 ^ Suc j < 2 ^ k" using assms(5) by (intro div_less_pow) (simp_all only: zero_less_power zero_less_numeral)
  have "n < d * 2 ^ k"
  proof -
    have "n < (h + 1) * 2 ^ k" using l by (simp add: n_def algebra_simps)
    also have "\<dots> \<le> d * 2 ^ k" using assms(2) by (intro mult_right_mono) simp_all
    finally show ?thesis .
  qed
  then have q: "0 \<le> q" "q < 2 ^ k"
    using assms(1-3) by (auto simp: q_def n_def mult.commute intro!: div_less_pow pos_imp_zdiv_nonneg_iff [THEN iffD2] add_nonneg_nonneg)
  have b: "v div 2 ^ 63 = a div 2 ^ j"
  proof -
    have "v div 2 ^ 63 = v div 2 ^ k div 2 ^ j" unfolding p by (rule zdiv_zmult2_eq) simp
    also have "v div 2 ^ k = a" using q by (simp add: uv(2))
    finally show ?thesis .
  qed
  have m: "v mod 2 ^ 63 = (l mod 2 ^ j) * 2 ^ k + q"
  proof -
    have "v mod 2 ^ 63 = 2 ^ k * (v div 2 ^ k mod 2 ^ j) + v mod 2 ^ k" unfolding p by (rule zmod_zmult2_eq) simp
    moreover have "v div 2 ^ k = a" "v mod 2 ^ k = q" using q by (simp_all add: uv(2))
    moreover have "a mod 2 ^ j = l mod 2 ^ j" unfolding a_def by (rule mod_mod_cancel) simp
    ultimately show ?thesis by simp
  qed
  have n': "h * 2 ^ Suc k + l div 2 ^ j = 2 * n + a div 2 ^ j"
  proof -
    have e: "2 ^ j * (2 * (l div 2 ^ Suc j)) = 2 ^ Suc j * (l div 2 ^ Suc j)" by simp
    have "l = a + 2 ^ j * (2 * (l div 2 ^ Suc j))" by (simp only: a_def e mod_mult_div_eq)
    then have "l div 2 ^ j = (a + 2 ^ j * (2 * (l div 2 ^ Suc j))) div 2 ^ j" by simp
    then have "l div 2 ^ j = a div 2 ^ j + 2 * (l div 2 ^ Suc j)" by (simp only: div_mult_self2) simp
    then show ?thesis by (simp add: n_def algebra_simps)
  qed
  have "n = d * q + u" by (simp add: q_def uv(1))
  then have n2: "h * 2 ^ Suc k + l div 2 ^ j = d * (2 * q) + t" by (simp only: n' t_def b) (simp add: algebra_simps)
  have "(h * 2 ^ Suc k + l div 2 ^ j) mod d = t mod d" unfolding n2 by simp
  moreover have "(h * 2 ^ Suc k + l div 2 ^ j) div d = 2 * q + t div d"
    unfolding n2 using assms(1,2) by simp
  ultimately show ?thesis unfolding div_state_def Let_def j m by (simp add: algebra_simps)
qed

lemma divu128_rounds:
  fixes d dhi dlo :: u64
  assumes "uint dhi < uint d" "k \<le> 64" "(divu128_round d ^^ k) (dhi, dlo) = (x, y)"
  shows "(uint x, uint y) = div_state (uint d) (uint dhi) (uint dlo) k"
  using assms(2,3)
proof (induction k arbitrary: x y)
  case 0
  then show ?case using assms(1) uint64_range [of dlo] uint64_range [of dhi]
    by (simp add: div_state_def Let_def mod_pos_pos_trivial div_pos_pos_trivial)
next
  case (Suc k)
  obtain u v where uv: "(divu128_round d ^^ k) (dhi, dlo) = (u, v)" by fastforce
  then have xy: "divu128_round d (u, v) = (x, y)" using Suc.prems by simp
  have IH: "(uint u, uint v) = div_state (uint d) (uint dhi) (uint dlo) k" using Suc uv by simp
  have "k < 64" using Suc.prems by simp
  note step = div_state_step [OF uint64_range(1) assms(1) uint64_range(1) \<open>k < 64\<close> uint64_range(2) IH [symmetric]]
  have "n mod uint d < uint d" for n using assms(1) uint64_range(1) [of dhi] by (intro pos_mod_bound) linarith
  then have "uint u < uint d" using IH by (simp add: div_state_def Let_def)
  from divu128_round_uint [OF this xy] show ?case by (simp add: step)
qed

lemma divu128_portable_exact:
  assumes "phigh < divisor"
  shows "divu128_portable plow phigh divisor = divu128 plow phigh divisor"
    and "\<not> fst (divu128 plow phigh divisor)"
proof -
  let ?n = "uint phigh * 2 ^ 64 + uint plow" and ?d = "uint divisor"
  have h: "uint phigh < ?d" using assms by (simp add: word_less_def)
  then have d: "0 < ?d" using uint64_range(1) [of phigh] by linarith
  then have dz: "divisor \<noteq> 0" by auto
  have "?n < 2 ^ 64 * ?d"
  proof -
    have "?n < (uint phigh + 1) * 2 ^ 64" using uint64_range(2) [of plow] by (simp add: algebra_simps)
    also have "\<dots> \<le> ?d * 2 ^ 64" using h by (intro mult_right_mono) simp_all
    finally show ?thesis by (simp add: mult.commute)
  qed
  then have q: "?n div ?d < 2 ^ 64" using d by (intro div_less_pow) simp_all
  then show "\<not> fst (divu128 plow phigh divisor)" using dz by (simp add: divu128_def Let_def)
  show "divu128_portable plow phigh divisor = divu128 plow phigh divisor"
  proof (cases "phigh = 0")
    case True
    then show ?thesis using dz q by (simp add: divu128_portable_def divu128_def Let_def word_div_def word_mod_def)
  next
    case False
    obtain x y where xy: "(divu128_round divisor ^^ 64) (phigh, plow) = (x, y)" by fastforce
    have "uint x = ?n mod ?d" "uint y = ?n div ?d"
      using divu128_rounds [OF h _ xy] by (simp_all add: div_state_def Let_def)
    then have "x = word_of_int (?n mod ?d)" "y = word_of_int (?n div ?d)" by (metis word_of_int_uint)+
    then show ?thesis using False dz assms q xy by (simp add: divu128_portable_def divu128_def Let_def)
  qed
qed

lemma divu128_values:
  fixes plow phigh divisor :: u64
  assumes "phigh < divisor"
  defines "n \<equiv> uint phigh * 2 ^ 64 + uint plow"
  shows "uint (fst (snd (divu128 plow phigh divisor))) = n div uint divisor"
    and "uint (snd (snd (divu128 plow phigh divisor))) = n mod uint divisor"
proof -
  have h: "uint phigh < uint divisor" using assms(1) by (simp add: word_less_def)
  then have d: "0 < uint divisor" using uint64_range(1) [of phigh] by linarith
  then have dz: "divisor \<noteq> 0" by auto
  have "\<not> fst (divu128 plow phigh divisor)" by (rule divu128_portable_exact(2) [OF assms(1)])
  then have q: "n div uint divisor < 2 ^ 64" using dz by (simp add: divu128_def Let_def n_def)
  have "0 \<le> n div uint divisor" using d by (simp add: n_def pos_imp_zdiv_nonneg_iff)
  with q show "uint (fst (snd (divu128 plow phigh divisor))) = n div uint divisor"
    using dz by (simp add: divu128_def Let_def n_def uint_word_of_int mod_pos_pos_trivial)
  have "n mod uint divisor < 2 ^ 64" "0 \<le> n mod uint divisor"
    using d uint64_range(2) [of divisor] pos_mod_bound [OF d, of n] pos_mod_sign [OF d, of n] by linarith+
  then show "uint (snd (snd (divu128 plow phigh divisor))) = n mod uint divisor"
    using dz by (simp add: divu128_def Let_def n_def uint_word_of_int mod_pos_pos_trivial)
qed

section \<open>Shifts\<close>

text \<open>The 128-bit word that a pair of a low and a high word stands for.\<close>

definition pair128 :: "u64 \<Rightarrow> u64 \<Rightarrow> 128 word" where
  "pair128 l h = push_bit 64 (ucast h) OR ucast l"

lemma bit_pair128: "bit (pair128 l h) n \<longleftrightarrow> (if n < 64 then bit l n else bit h (n - 64))"
  by (auto simp: pair128_def bit_simps bit_beyond dest: bit_imp_le_length)

lemma urshift_exact:
  "urshift l h s = (l', h') \<Longrightarrow> pair128 l' h' = drop_bit (s mod 128) (pair128 l h)"
proof -
  assume r: "urshift l h s = (l', h')"
  define k where "k = s mod 128"
  have k: "k < 128" by (simp add: k_def)
  consider "k = 0" | "0 < k" "k < 64" | "64 \<le> k" by linarith
  then show ?thesis
  proof cases
    case 1
    then show ?thesis using r by (simp add: urshift_def k_def)
  next
    case 2
    then have lh: "l' = drop_bit k l OR push_bit (64 - k) h" "h' = drop_bit k h"
      using r by (simp_all add: urshift_def Let_def k_def [symmetric])
    show ?thesis unfolding lh k_def [symmetric] using 2
      by (intro bit_word_eqI) (auto simp: bit_pair128 bit_simps add.commute dest: bit_imp_le_length intro: arg_cong [where f = "bit h"])
  next
    case 3
    then have "k mod 64 = k - 64" using k by (simp add: mod_if)
    with 3 have lh: "l' = drop_bit (k - 64) h" "h' = 0"
      using r by (simp_all add: urshift_def Let_def k_def [symmetric])
    show ?thesis unfolding lh k_def [symmetric] using 3
      by (intro bit_word_eqI) (auto simp: bit_pair128 bit_simps bit_beyond)
  qed
qed

lemma pair128_zero: "pair128 l h = 0 \<longleftrightarrow> l OR h = 0"
proof
  assume "pair128 l h = 0"
  then have b: "\<not> bit (pair128 l h) n" for n by simp
  have "\<not> bit l n \<and> \<not> bit h n" if "n < 64" for n
    using b [of n] b [of "n + 64"] that by (simp add: bit_pair128)
  then show "l OR h = 0" by (intro bit_word_eqI) (simp add: bit_or_iff)
next
  assume "l OR h = 0"
  then have "\<not> bit (l OR h) n" for n by simp
  then show "pair128 l h = 0" by (intro bit_word_eqI) (auto simp: bit_pair128 bit_or_iff)
qed

lemma ulshift_exact:
  assumes "ulshift l h s ov = (l', h', ov')"
  shows "pair128 l' h' = push_bit (s mod 128) (pair128 l h) \<and>
    (ov' \<longleftrightarrow> ov \<or> drop_bit (128 - s mod 128) (pair128 l h) \<noteq> 0)"
proof -
  define k where "k = s mod 128"
  have k: "k < 128" by (simp add: k_def)
  obtain lw hg where u: "urshift l h (128 - k) = (lw, hg)" by fastforce
  show ?thesis
  proof (cases "k = 0")
    case True
    have "drop_bit 128 (pair128 l h) = 0" by (rule bit_word_eqI) (simp add: bit_drop_bit_eq bit_beyond)
    then show ?thesis using True assms by (simp add: ulshift_def k_def)
  next
    case False
    then have "128 - k < 128" using k by simp
    then have "(128 - k) mod 128 = 128 - k" by simp
    then have out: "lw OR hg \<noteq> 0 \<longleftrightarrow> drop_bit (128 - k) (pair128 l h) \<noteq> 0"
      using urshift_exact [OF u] pair128_zero [of lw hg] by simp
    show ?thesis
    proof (cases "64 \<le> k")
      case True
      then have "k mod 64 = k - 64" using k by (simp add: mod_if)
      with True have lh: "l' = 0" "h' = push_bit (k - 64) l" "ov' \<longleftrightarrow> lw OR hg \<noteq> 0 \<or> ov"
        using assms False u by (auto simp: ulshift_def Let_def k_def [symmetric] split: if_splits)
      have "pair128 l' h' = push_bit k (pair128 l h)"
        unfolding lh using True k by (intro bit_word_eqI) (auto simp: bit_pair128 bit_simps bit_beyond)
      then show ?thesis using lh(3) out by (auto simp: k_def)
    next
      case nk: False
      with False have lh: "l' = push_bit k l" "h' = drop_bit (64 - k) l OR push_bit k h" "ov' \<longleftrightarrow> lw OR hg \<noteq> 0 \<or> ov"
        using assms u by (auto simp: ulshift_def Let_def k_def [symmetric] split: if_splits)
      have "pair128 l' h' = push_bit k (pair128 l h)"
        unfolding lh using nk False
        by (intro bit_word_eqI) (auto simp: bit_pair128 bit_simps bit_beyond add.commute dest: bit_imp_le_length)
      then show ?thesis using lh(3) out by (auto simp: k_def)
    qed
  qed
qed

section \<open>Results\<close>

text \<open>
  C32: the portable multiplications, built from four 32-bit products with explicit carries, give the same
  128-bit product as the versions on a 128-bit type, unsigned and signed.
\<close>

theorem mul_portable_equivalent:
  "mulu64_portable a b = mulu64 a b \<and> muls64_portable a b = muls64 a b"
  using mulu64_portable_eq muls64_portable_eq by blast

text \<open>
  C31: when the high word is below the divisor, the shift-and-subtract loop of the portable \<^verbatim>\<open>divu128\<close>
  reports no overflow and leaves the exact quotient in the low and the exact remainder in the high word;
  the version on a 128-bit type does the same.
\<close>

theorem divu128_portable_correct:
  assumes "phigh < divisor"
  shows "\<exists>q r. divu128_portable plow phigh divisor = (False, q, r) \<and>
    divu128 plow phigh divisor = (False, q, r) \<and>
    uint q = (uint phigh * 2 ^ 64 + uint plow) div uint divisor \<and>
    uint r = (uint phigh * 2 ^ 64 + uint plow) mod uint divisor"
proof -
  obtain ov q r where d: "divu128 plow phigh divisor = (ov, q, r)" by (metis surj_pair)
  have "\<not> ov" using divu128_portable_exact(2) [OF assms, of plow] d by simp
  moreover have "divu128_portable plow phigh divisor = (ov, q, r)" using divu128_portable_exact(1) [OF assms] d by simp
  moreover have "uint q = (uint phigh * 2 ^ 64 + uint plow) div uint divisor \<and>
    uint r = (uint phigh * 2 ^ 64 + uint plow) mod uint divisor"
    using divu128_values [OF assms, of plow] d by simp
  ultimately show ?thesis using d by simp
qed

theorem divu128_portable_correct_witness:
  "\<exists>q r. divu128_portable 5 1 3 = (False, q, r) \<and> uint q = 6148914691236517207 \<and> uint r = 0"
  using divu128_portable_correct [of 1 3 5] by auto

text \<open>
  C33: the 128-bit shifts on pairs of words are the shifts of the 128-bit word by the amount modulo 128,
  and a left shift sets the overflow flag exactly when a one bit is shifted out.
\<close>

theorem shifts128_exact:
  "(case urshift l h s of (l', h') \<Rightarrow> pair128 l' h' = drop_bit (s mod 128) (pair128 l h)) \<and>
   (case ulshift l h s ov of (l', h', ov') \<Rightarrow> pair128 l' h' = push_bit (s mod 128) (pair128 l h) \<and>
     (ov' \<longleftrightarrow> ov \<or> drop_bit (128 - s mod 128) (pair128 l h) \<noteq> 0))"
  using urshift_exact ulshift_exact by (simp split: prod.splits)

theorem shifts128_exact_witness:
  "pair128 (fst (urshift 0 1 64)) (snd (urshift 0 1 64)) = drop_bit (64 mod 128) (pair128 0 1) \<and>
   (snd (snd (ulshift 0 1 64 False)) \<longleftrightarrow> False \<or> drop_bit (128 - 64 mod 128) (pair128 0 1) \<noteq> 0)"
  using shifts128_exact [where l = 0 and h = 1 and s = 64 and ov = False] unfolding case_prod_beta by blast

text \<open>
  With the high word equal to the divisor the quotient does not fit in 64 bits. The version on a 128-bit
  type reports it, the portable one does not.
\<close>

theorem divu128_portable_misses_overflow:
  "d \<noteq> 0 \<Longrightarrow> fst (divu128 l d d) \<and> \<not> fst (divu128_portable l d d)"
proof -
  assume dz: "d \<noteq> 0"
  then have d: "0 < uint d" using uint64_range(1) [of d] by (simp add: word_uint_eq_iff order_less_le)
  have "2 ^ 64 = (uint d * 2 ^ 64) div uint d" using d by simp
  also have "\<dots> \<le> (uint d * 2 ^ 64 + uint l) div uint d" using d uint64_range(1) [of l] by (intro zdiv_mono1) simp_all
  finally have "fst (divu128 l d d)" using dz by (simp add: divu128_def Let_def)
  then show ?thesis using dz by (simp add: divu128_portable_def split: prod.splits)
qed

text \<open>
  The signed divisions: minus one divided by two is flagged as an overflow by the portable version, and
  the version on a 128-bit type takes the dividend \<^term>\<open>2 ^ 64 - 1 :: int\<close> for minus one.
\<close>

theorem divs128_portable_spurious_overflow:
  "divs128_portable (- 1) (- 1) 2 = (True, 0, 1) \<and> divs128 (- 1) (- 1) 2 = (False, 0, - 1)"
  by (simp add: divs128_portable_def divs128_def divu128_portable_def tdiv_def tmod_def Let_def word_sless_alt)

theorem divs128_sign_extends_low_word:
  "divs128 (- 1) 0 1 = (False, - 1, 0)"
  by (simp add: divs128_def tdiv_def tmod_def Let_def)

end
