(* ===== verification/UcRange.thy ===== *)
theory UcRange
  imports UcPrelude
begin

text \<open>
  Inclusive 64-bit address ranges (\<^verbatim>\<open>qemu/include/qemu/range.h\<close>) and the sorted list of ranges of
  \<^verbatim>\<open>qemu/util/range.c\<close>. A failed \<^verbatim>\<open>assert\<close> is the result \<^const>\<open>None\<close>. The lemmas read a range as the
  set of addresses it contains and show that the operations compute on that set, and that
  inserting into a range list keeps it sorted with gaps and adds exactly the new addresses.
\<close>

section \<open>Ranges\<close>

record Range =
  lob :: u64
  upb :: u64

definition range_invariant :: "Range \<Rightarrow> bool" where
  "range_invariant r \<longleftrightarrow> lob r \<le> upb r \<or> lob r = upb r + 1"

definition range_empty :: Range where
  "range_empty = \<lparr>lob = 1, upb = 0\<rparr>"

definition range_is_empty :: "Range \<Rightarrow> bool option" where
  "range_is_empty r = (if range_invariant r then Some (upb r < lob r) else None)"

definition range_contains :: "Range \<Rightarrow> u64 \<Rightarrow> bool" where
  "range_contains r val \<longleftrightarrow> lob r \<le> val \<and> val \<le> upb r"

definition range_make_empty :: "Range \<Rightarrow> Range option" where
  "range_make_empty r = do {
     e \<leftarrow> range_is_empty range_empty;
     if e then Some range_empty else None }"

definition range_set_bounds :: "Range \<Rightarrow> u64 \<Rightarrow> u64 \<Rightarrow> Range option" where
  "range_set_bounds r l u =
    (let r = r\<lparr>lob := l, upb := u\<rparr> in do {
       e \<leftarrow> range_is_empty r;
       if e then None else Some r })"

definition range_set_bounds1 :: "Range \<Rightarrow> u64 \<Rightarrow> u64 \<Rightarrow> Range option" where
  "range_set_bounds1 r l upb_plus1 =
    (let r = (if l = 0 \<and> upb_plus1 = 0 then range_empty else r\<lparr>lob := l, upb := upb_plus1 - 1\<rparr>) in
     if range_invariant r then Some r else None)"

definition range_lob :: "Range \<Rightarrow> u64 option" where
  "range_lob r = do { e \<leftarrow> range_is_empty r; if e then None else Some (lob r) }"

definition range_upb :: "Range \<Rightarrow> u64 option" where
  "range_upb r = do { e \<leftarrow> range_is_empty r; if e then None else Some (upb r) }"

text \<open>\<^verbatim>\<open>range_init\<close> returns \<^verbatim>\<open>-ERANGE\<close> (\<^const>\<open>False\<close> here) and leaves the range untouched on overflow.\<close>

definition range_init :: "Range \<Rightarrow> u64 \<Rightarrow> u64 \<Rightarrow> (bool \<times> Range) option" where
  "range_init r l sz =
    (if l + sz < l then Some (False, r)
     else let r = r\<lparr>lob := l, upb := l + sz - 1\<rparr> in
       if range_invariant r then Some (True, r) else None)"

definition range_init_nofail :: "Range \<Rightarrow> u64 \<Rightarrow> u64 \<Rightarrow> Range option" where
  "range_init_nofail r l sz =
    (let r = r\<lparr>lob := l, upb := l + sz - 1\<rparr> in
     if range_invariant r then Some r else None)"

definition range_size :: "Range \<Rightarrow> u64" where
  "range_size r = upb r - lob r + 1"

definition range_overlaps_range :: "Range \<Rightarrow> Range \<Rightarrow> bool option" where
  "range_overlaps_range r1 r2 = do {
     e1 \<leftarrow> range_is_empty r1;
     if e1 then Some False else do {
       e2 \<leftarrow> range_is_empty r2;
       if e2 then Some False else Some (\<not> (upb r2 < lob r1 \<or> upb r1 < lob r2)) } }"

definition range_contains_range :: "Range \<Rightarrow> Range \<Rightarrow> bool option" where
  "range_contains_range r1 r2 = do {
     e1 \<leftarrow> range_is_empty r1;
     if e1 then Some False else do {
       e2 \<leftarrow> range_is_empty r2;
       if e2 then Some False else Some (lob r1 \<le> lob r2 \<and> upb r2 \<le> upb r1) } }"

definition range_extend :: "Range \<Rightarrow> Range \<Rightarrow> Range option" where
  "range_extend r extend_by = do {
     e \<leftarrow> range_is_empty extend_by;
     if e then Some r else do {
       e \<leftarrow> range_is_empty r;
       if e then Some extend_by else
         let r = (if lob extend_by < lob r then r\<lparr>lob := lob extend_by\<rparr> else r);
             r = (if upb r < upb extend_by then r\<lparr>upb := upb extend_by\<rparr> else r) in
         if range_invariant r then Some r else None } }"

definition range_get_last :: "u64 \<Rightarrow> u64 \<Rightarrow> u64" where
  "range_get_last offset len = offset + len - 1"

definition range_covers_byte :: "u64 \<Rightarrow> u64 \<Rightarrow> u64 \<Rightarrow> bool" where
  "range_covers_byte offset len byte \<longleftrightarrow> offset \<le> byte \<and> byte \<le> range_get_last offset len"

definition ranges_overlap :: "u64 \<Rightarrow> u64 \<Rightarrow> u64 \<Rightarrow> u64 \<Rightarrow> bool" where
  "ranges_overlap first1 len1 first2 len2 \<longleftrightarrow>
    (let last1 = range_get_last first1 len1; last2 = range_get_last first2 len2 in
     \<not> (last2 < first1 \<or> last1 < first2))"

section \<open>Sorted lists of ranges\<close>

definition range_compare :: "Range \<Rightarrow> Range \<Rightarrow> int option" where
  "range_compare a b = do {
     ea \<leftarrow> range_is_empty a;
     if ea then None else do {
       eb \<leftarrow> range_is_empty b;
       if eb then None
       else if lob b \<noteq> 0 \<and> upb a < lob b - 1 then Some (-1)
       else if lob a \<noteq> 0 \<and> upb b < lob a - 1 then Some 1
       else Some 0 } }"

text \<open>The loop that merges the list elements after the one \<^verbatim>\<open>data\<close> was merged into.\<close>

fun range_list_merge :: "Range \<Rightarrow> Range list \<Rightarrow> Range list option" where
  "range_list_merge r [] = Some [r]"
| "range_list_merge r (n # ns) = do {
     c \<leftarrow> range_compare r n;
     if c = 0 then do { r \<leftarrow> range_extend r n; range_list_merge r ns }
     else Some (r # n # ns) }"

fun range_list_place :: "Range list \<Rightarrow> Range \<Rightarrow> Range list option" where
  "range_list_place [] data = Some [data]"
| "range_list_place (l # ls) data = do {
     c \<leftarrow> range_compare l data;
     if c < 0 then do { ls \<leftarrow> range_list_place ls data; Some (l # ls) }
     else if 0 < c then Some (data # l # ls)
     else do { l \<leftarrow> range_extend l data; range_list_merge l ls } }"

definition range_list_insert :: "Range list \<Rightarrow> Range \<Rightarrow> Range list option" where
  "range_list_insert ls data = do {
     e \<leftarrow> range_is_empty data;
     if e then None else range_list_place ls data }"

section \<open>Ranges as sets of addresses\<close>

definition range_set :: "Range \<Rightarrow> u64 set" where
  "range_set r = {v. range_contains r v}"

lemma range_set_interval: "range_set r = {lob r .. upb r}"
  by (auto simp: range_set_def range_contains_def)

lemma range_is_empty_set:
  "range_invariant r \<Longrightarrow> range_is_empty r = Some (range_set r = {})"
  by (auto simp: range_is_empty_def range_set_interval not_le)

lemma range_nonempty [simp]: "lob r \<le> upb r \<Longrightarrow> range_is_empty r = Some False"
  by (auto simp: range_is_empty_def range_invariant_def)

lemma range_set_bounds1_set:
  assumes "l \<le> u - 1 \<or> (l = 0 \<and> u = 0)"
  shows "\<exists>r'. range_set_bounds1 r l u = Some r' \<and>
    range_set r' = (if l = 0 \<and> u = 0 then {} else {l .. u - 1})"
  using assms
  by (auto simp: range_set_bounds1_def range_invariant_def range_empty_def range_set_interval)

lemma range_overlaps_range_set:
  assumes "range_invariant r1" "range_invariant r2"
  shows "range_overlaps_range r1 r2 = Some (range_set r1 \<inter> range_set r2 \<noteq> {})"
  using assms
  by (auto simp: range_overlaps_range_def range_is_empty_def range_set_interval not_less not_le
      Int_atLeastAtMost)

lemma range_contains_range_set:
  assumes "range_invariant r1" "range_invariant r2"
  shows "range_contains_range r1 r2 =
    Some (range_set r1 \<noteq> {} \<and> range_set r2 \<noteq> {} \<and> range_set r2 \<subseteq> range_set r1)"
  using assms
  by (auto simp: range_contains_range_def range_is_empty_def range_set_interval not_less)

lemma range_extend_hull:
  assumes "lob a \<le> upb a" "lob b \<le> upb b"
  shows "range_extend a b = Some (a\<lparr>lob := min (lob a) (lob b), upb := max (upb a) (upb b)\<rparr>)"
  using assms
  by (auto simp: range_extend_def range_invariant_def min_def max_def Let_def)

section \<open>Range lists\<close>

definition apart :: "Range \<Rightarrow> Range \<Rightarrow> bool" where
  "apart a b \<longleftrightarrow> unat (upb a) + 1 < unat (lob b)"

definition range_list_wf :: "Range list \<Rightarrow> bool" where
  "range_list_wf rs \<longleftrightarrow> (\<forall>r \<in> set rs. lob r \<le> upb r) \<and> sorted_wrt apart rs"

definition range_list_set :: "Range list \<Rightarrow> u64 set" where
  "range_list_set rs = (\<Union>r \<in> set rs. range_set r)"

lemma gap_unat: "(b \<noteq> 0 \<and> (a :: u64) < b - 1) \<longleftrightarrow> unat a + 1 < unat b"
  by (cases "b = 0") (auto simp: word_less_nat_alt unat_minus_one unat_gt_0)

lemma range_compare_apart:
  assumes "lob a \<le> upb a" "lob b \<le> upb b"
  shows "range_compare a b = Some (if apart a b then -1 else if apart b a then 1 else 0)"
  using assms by (simp add: range_compare_def gap_unat apart_def)

lemma touching_union:
  assumes "lob a \<le> upb a" "lob b \<le> upb b" "\<not> apart a b" "\<not> apart b a"
  shows "{min (lob a) (lob b) .. max (upb a) (upb b)} = range_set a \<union> range_set b"
  using assms unfolding range_set_interval apart_def
  by (auto simp: min_def max_def word_le_nat_alt split: if_splits)

lemma merge_wf:
  assumes "lob r \<le> upb r" "range_list_wf ns" "\<forall>n \<in> set ns. lob r \<le> lob n"
  shows "\<exists>rs. range_list_merge r ns = Some rs \<and> range_list_wf rs \<and>
    range_list_set rs = range_set r \<union> range_list_set ns \<and> (\<forall>x \<in> set rs. lob r \<le> lob x)"
  using assms
proof (induction r ns rule: range_list_merge.induct)
  case (1 r)
  then show ?case by (simp add: range_list_wf_def range_list_set_def)
next
  case (2 r n ns)
  have n: "lob n \<le> upb n" and ns: "range_list_wf ns" and an: "\<forall>x \<in> set ns. apart n x"
    using "2.prems" by (auto simp: range_list_wf_def)
  show ?case
  proof (cases "apart r n")
    case True
    then have "\<forall>x \<in> set ns. apart r x"
      using an n by (fastforce simp: apart_def word_le_nat_alt)
    with True "2.prems" n show ?thesis
      by (auto simp: range_compare_apart range_list_wf_def range_list_set_def)
  next
    case False
    have "\<not> apart n r" using "2.prems"(1,3) n by (auto simp: apart_def word_le_nat_alt)
    note touch = False this
    define r' where "r' = r\<lparr>lob := min (lob r) (lob n), upb := max (upb r) (upb n)\<rparr>"
    have l: "lob r' = lob r" using "2.prems"(3) by (simp add: r'_def min_def)
    have u: "range_set r' = range_set r \<union> range_set n"
      using touching_union [OF "2.prems"(1) n touch] by (simp add: r'_def range_set_interval)
    have "lob r' \<le> upb r'" using "2.prems"(1) l by (auto simp: r'_def le_max_iff_disj)
    moreover have "\<forall>x \<in> set ns. lob r' \<le> lob x" using l "2.prems"(3) by simp
    moreover have ext: "range_extend r n = Some r'"
      unfolding r'_def by (rule range_extend_hull [OF "2.prems"(1) n])
    ultimately obtain rs where "range_list_merge r' ns = Some rs" "range_list_wf rs"
      "range_list_set rs = range_set r' \<union> range_list_set ns" "\<forall>x \<in> set rs. lob r' \<le> lob x"
      using "2.IH" [of 0 r'] ns by (auto simp: range_compare_apart touch "2.prems"(1) n)
    then show ?thesis
      using "2.prems"(1) n touch l u ext
      by (auto simp: range_compare_apart range_list_set_def)
  qed
qed

lemma place_wf:
  assumes "lob d \<le> upb d" "range_list_wf ls"
  shows "\<exists>rs. range_list_place ls d = Some rs \<and> range_list_wf rs \<and>
    range_list_set rs = range_set d \<union> range_list_set ls \<and>
    (\<forall>x \<in> set rs. \<exists>y \<in> set (d # ls). lob y \<le> lob x)"
  using assms(2)
proof (induction ls)
  case Nil
  then show ?case using assms(1) by (simp add: range_list_wf_def range_list_set_def)
next
  case (Cons l ls)
  have l: "lob l \<le> upb l" and ls: "range_list_wf ls" and al: "\<forall>x \<in> set ls. apart l x"
    using Cons.prems by (auto simp: range_list_wf_def)
  consider "apart l d" | "\<not> apart l d" "apart d l" | "\<not> apart l d" "\<not> apart d l" by blast
  then show ?case
  proof cases
    case 1
    obtain rs where rs: "range_list_place ls d = Some rs" "range_list_wf rs"
      "range_list_set rs = range_set d \<union> range_list_set ls"
      "\<forall>x \<in> set rs. \<exists>y \<in> set (d # ls). lob y \<le> lob x"
      using Cons.IH [OF ls] by blast
    have "\<forall>x \<in> set rs. apart l x"
      using rs(4) al 1 by (fastforce simp: apart_def word_le_nat_alt)
    with rs l have "range_list_wf (l # rs)" by (simp add: range_list_wf_def)
    with rs 1 l assms(1) show ?thesis
      by (auto simp: range_compare_apart range_list_set_def)
  next
    case 2
    then have "\<forall>x \<in> set ls. apart d x" using al l by (fastforce simp: apart_def word_le_nat_alt)
    with 2 l ls al assms(1) show ?thesis
      by (auto simp: range_compare_apart range_list_wf_def range_list_set_def)
  next
    case 3
    define r where "r = l\<lparr>lob := min (lob l) (lob d), upb := max (upb l) (upb d)\<rparr>"
    have ext: "range_extend l d = Some r" unfolding r_def by (rule range_extend_hull [OF l assms(1)])
    have "lob r \<le> upb r" using l assms(1) by (auto simp: r_def le_max_iff_disj min_le_iff_disj)
    moreover have "\<forall>x \<in> set ls. lob l \<le> lob x"
      using al l by (fastforce simp: apart_def word_le_nat_alt)
    then have "\<forall>x \<in> set ls. lob r \<le> lob x" by (auto simp: r_def min_le_iff_disj)
    ultimately obtain rs where rs: "range_list_merge r ls = Some rs" "range_list_wf rs"
      "range_list_set rs = range_set r \<union> range_list_set ls" "\<forall>x \<in> set rs. lob r \<le> lob x"
      using merge_wf ls by blast
    have "range_set r = range_set l \<union> range_set d"
      using touching_union [OF l assms(1) 3] by (simp add: r_def range_set_interval)
    moreover have "\<forall>x \<in> set rs. lob l \<le> lob x \<or> lob d \<le> lob x"
      using rs(4) by (auto simp: r_def min_le_iff_disj)
    ultimately show ?thesis
      using rs 3 l assms(1) ext by (auto simp: range_compare_apart range_list_set_def)
  qed
qed

section \<open>Insertion into a range list\<close>

text \<open>
  C28: inserting a non-empty range into a well-formed range list (non-empty ranges, sorted, with a
  gap between neighbours) returns a well-formed list that contains exactly the old addresses and
  the new ones, without an assertion failing.
\<close>

theorem range_list_insert_correct:
  assumes "lob d \<le> upb d" "range_list_wf ls"
  shows "\<exists>rs. range_list_insert ls d = Some rs \<and> range_list_wf rs \<and>
    range_list_set rs = range_set d \<union> range_list_set ls"
  using place_wf [OF assms] assms(1) by (auto simp: range_list_insert_def)

theorem range_list_insert_correct_witness:
  "\<exists>rs. range_list_insert [\<lparr>lob = 0, upb = 9\<rparr>, \<lparr>lob = 20, upb = 29\<rparr>] \<lparr>lob = 10, upb = 19\<rparr> = Some rs \<and>
     range_list_wf rs \<and> range_list_set rs = range_set \<lparr>lob = 10, upb = 19\<rparr> \<union>
       range_list_set [\<lparr>lob = 0, upb = 9\<rparr>, \<lparr>lob = 20, upb = 29\<rparr>]"
  by (rule range_list_insert_correct) (simp_all add: range_list_wf_def apart_def)

end
