(* ===== verification/MemRegion.thy ===== *)
theory MemRegion
  imports Int128
begin

text \<open>
  The memory regions of \<^verbatim>\<open>qemu/include/exec/memory.h\<close> and the address ranges of
  \<^verbatim>\<open>qemu/softmmu/memory.c\<close>. A pointer to a region is a natural number, and a store maps the live
  pointers to their regions. An \<^verbatim>\<open>Int128\<close> is the integer it stands for (theory \<^verbatim>\<open>Int128\<close> shows
  that the two-word operations compute on that integer).
\<close>

section \<open>Regions\<close>

type_synonym mr_ptr = nat
type_synonym rb_ptr = nat

record mmio_cbs =
  cb_read :: "nat option"
  cb_user_data_read :: nat
  cb_write :: "nat option"
  cb_user_data_write :: nat

text \<open>
  The tables of operations: \<^verbatim>\<open>unassigned_mem_ops\<close> of \<^verbatim>\<open>softmmu/memory.c\<close>, the one that \<^verbatim>\<open>memory_map_io\<close>
  fills in for a client's callbacks, and \<^verbatim>\<open>unassigned_io_ops\<close> of \<^verbatim>\<open>exec.c\<close>.
\<close>

datatype mr_ops = unassigned_mem_ops | mmio_ops | unassigned_io_ops

datatype device_endian = DEVICE_NATIVE_ENDIAN | DEVICE_BIG_ENDIAN | DEVICE_LITTLE_ENDIAN

record MemoryRegionOps =
  endianness :: device_endian
  valid_min_access_size :: nat
  valid_max_access_size :: nat
  valid_unaligned :: bool
  valid_accepts :: "bool option"
  impl_min_access_size :: nat
  impl_max_access_size :: nat
  impl_unaligned :: bool

definition ops_zero :: MemoryRegionOps where
  "ops_zero = \<lparr>endianness = DEVICE_NATIVE_ENDIAN, valid_min_access_size = 0, valid_max_access_size = 0,
     valid_unaligned = False, valid_accepts = None, impl_min_access_size = 0, impl_max_access_size = 0,
     impl_unaligned = False\<rparr>"

definition ops_table :: "mr_ops \<Rightarrow> MemoryRegionOps" where
  "ops_table ops =
    (case ops of
       unassigned_mem_ops \<Rightarrow> ops_zero\<lparr>valid_accepts := Some False, endianness := DEVICE_NATIVE_ENDIAN\<rparr>
     | mmio_ops \<Rightarrow> ops_zero\<lparr>endianness := DEVICE_NATIVE_ENDIAN\<rparr>
     | unassigned_io_ops \<Rightarrow> ops_zero\<lparr>endianness := DEVICE_NATIVE_ENDIAN\<rparr>)"

datatype mr_destructor =
    memory_region_destructor_none
  | memory_region_destructor_ram
  | mmio_region_destructor_uc

record MemoryRegion =
  mr_ram :: bool
  mr_readonly :: bool
  mr_ram_block :: "rb_ptr option"
  mr_ops :: mr_ops
  mr_opaque :: "mmio_cbs option"
  mr_container :: "mr_ptr option"
  mr_size :: int
  mr_addr :: u64
  mr_destructor :: mr_destructor
  mr_terminates :: bool
  mr_enabled :: bool
  mr_subregions :: "mr_ptr list"
  mr_perms :: u32
  mr_end :: u64

type_synonym mr_store = "mr_ptr \<rightharpoonup> MemoryRegion"

text \<open>The zeroed region that \<^verbatim>\<open>memset\<close> leaves before the fields are set.\<close>

definition mr_zero :: MemoryRegion where
  "mr_zero = \<lparr>mr_ram = False, mr_readonly = False, mr_ram_block = None, mr_ops = unassigned_mem_ops,
     mr_opaque = None, mr_container = None, mr_size = 0, mr_addr = 0,
     mr_destructor = memory_region_destructor_none, mr_terminates = False, mr_enabled = False,
     mr_subregions = [], mr_perms = 0, mr_end = 0\<rparr>"

definition memory_region_init :: "u64 \<Rightarrow> MemoryRegion" where
  "memory_region_init sz =
    mr_zero\<lparr>mr_ops := unassigned_mem_ops, mr_enabled := True,
      mr_destructor := memory_region_destructor_none, mr_subregions := [],
      mr_size := (if sz = -1 then 2 ^ 64 else uint sz)\<rparr>"

definition memory_region_init_io :: "mr_ops option \<Rightarrow> mmio_cbs option \<Rightarrow> u64 \<Rightarrow> MemoryRegion" where
  "memory_region_init_io ops opaque sz =
    (memory_region_init sz)\<lparr>mr_ops := (case ops of Some ops \<Rightarrow> ops | None \<Rightarrow> unassigned_mem_ops),
      mr_opaque := opaque, mr_terminates := True\<rparr>"

definition memory_region_size :: "MemoryRegion \<Rightarrow> u64" where
  "memory_region_size mr = (if mr_size mr = 2 ^ 64 then -1 else word_of_int (mr_size mr))"

section \<open>Address ranges\<close>

record AddrRange =
  ar_start :: int
  ar_size :: int

definition addrrange_make :: "int \<Rightarrow> int \<Rightarrow> AddrRange" where
  "addrrange_make s n = \<lparr>ar_start = s, ar_size = n\<rparr>"

definition addrrange_equal :: "AddrRange \<Rightarrow> AddrRange \<Rightarrow> bool" where
  "addrrange_equal r1 r2 \<longleftrightarrow> ar_start r1 = ar_start r2 \<and> ar_size r1 = ar_size r2"

definition addrrange_end :: "AddrRange \<Rightarrow> int" where
  "addrrange_end r = ar_start r + ar_size r"

definition addrrange_contains :: "AddrRange \<Rightarrow> int \<Rightarrow> bool" where
  "addrrange_contains r a \<longleftrightarrow> ar_start r \<le> a \<and> a < addrrange_end r"

definition addrrange_intersects :: "AddrRange \<Rightarrow> AddrRange \<Rightarrow> bool" where
  "addrrange_intersects r1 r2 \<longleftrightarrow>
    addrrange_contains r1 (ar_start r2) \<or> addrrange_contains r2 (ar_start r1)"

definition addrrange_intersection :: "AddrRange \<Rightarrow> AddrRange \<Rightarrow> AddrRange" where
  "addrrange_intersection r1 r2 =
    (let s = max (ar_start r1) (ar_start r2); e = min (addrrange_end r1) (addrrange_end r2) in
     addrrange_make s (e - s))"

text \<open>\<^verbatim>\<open>int128_get64\<close> on the integer: \<^const>\<open>None\<close> is its failed assertion.\<close>

definition get64 :: "int \<Rightarrow> u64 option" where
  "get64 x = (if 0 \<le> x \<and> x < 2 ^ 64 then Some (word_of_int x) else None)"

lemma get64_int128: "get64 (int128_val a) = int128_get64 a"
proof (cases "int128_get64 a")
  case None
  then have "\<not> (0 \<le> int128_val a \<and> int128_val a < 2 ^ 64)" by (simp only: int128_get64_None) linarith
  then show ?thesis using None by (auto simp: get64_def)
next
  case (Some w)
  then have "int128_val a = uint w" by (simp add: int128_get64_val)
  with Some show ?thesis using u64_range [of w] by (simp add: get64_def)
qed

lemma get64_Some: "0 \<le> x \<Longrightarrow> x < 2 ^ 64 \<Longrightarrow> get64 x = Some (word_of_int x)"
  by (simp add: get64_def)

lemma addrrange_intersects_iff:
  "0 < ar_size r1 \<Longrightarrow> 0 < ar_size r2 \<Longrightarrow>
   addrrange_intersects r1 r2 \<longleftrightarrow> (\<exists>a. addrrange_contains r1 a \<and> addrrange_contains r2 a)"
  by (auto simp: addrrange_intersects_def addrrange_contains_def addrrange_end_def)

lemma addrrange_intersection_contains:
  "addrrange_contains (addrrange_intersection r1 r2) a \<longleftrightarrow>
   addrrange_contains r1 a \<and> addrrange_contains r2 a"
  by (auto simp: addrrange_intersection_def addrrange_contains_def addrrange_end_def
      addrrange_make_def Let_def)

lemma addrrange_intersection_pos:
  "0 < ar_size r1 \<Longrightarrow> 0 < ar_size r2 \<Longrightarrow> addrrange_intersects r1 r2 \<Longrightarrow>
   0 < ar_size (addrrange_intersection r1 r2)"
  by (auto simp: addrrange_intersection_def addrrange_intersects_def addrrange_contains_def
      addrrange_end_def addrrange_make_def Let_def)

end
