(* ===== verification/FlatView.thy ===== *)
theory FlatView
  imports MemRegion
begin

text \<open>
  Rendering of the region tree into a flat view (\<^verbatim>\<open>qemu/softmmu/memory.c\<close>). A flat view is the
  array of its ranges, here a list. \<^verbatim>\<open>render_memory_region\<close> walks the tree with a bound on its
  depth (the pointers of a store could form a cycle, on which the C recursion would not end);
  \<^const>\<open>None\<close> is a tree deeper than the bound, a dangling pointer or a failed assertion of
  \<^verbatim>\<open>int128_get64\<close>. The lemmas show that a rendered view is sorted and free of overlaps, and that
  looking an address up in it gives what resolving the address in the tree gives: earlier
  subregions win over later ones and over the region itself.
\<close>

section \<open>Ranges of a view\<close>

record FlatRange =
  fr_mr :: mr_ptr
  fr_offset_in_region :: u64
  fr_addr :: AddrRange
  fr_readonly :: bool

type_synonym ranges = "FlatRange list"

record MemoryRegionSection =
  sec_mr :: mr_ptr
  sec_offset_within_region :: u64
  sec_size :: int
  sec_offset_within_address_space :: u64
  sec_readonly :: bool

definition section_from_flat_range :: "FlatRange \<Rightarrow> MemoryRegionSection option" where
  "section_from_flat_range fr =
    (case get64 (ar_start (fr_addr fr)) of
       None \<Rightarrow> None
     | Some s \<Rightarrow> Some \<lparr>sec_mr = fr_mr fr, sec_offset_within_region = fr_offset_in_region fr,
         sec_size = ar_size (fr_addr fr), sec_offset_within_address_space = s,
         sec_readonly = fr_readonly fr\<rparr>)"

definition flatrange_equal :: "FlatRange \<Rightarrow> FlatRange \<Rightarrow> bool" where
  "flatrange_equal a b \<longleftrightarrow>
    fr_mr a = fr_mr b \<and> addrrange_equal (fr_addr a) (fr_addr b) \<and>
    fr_offset_in_region a = fr_offset_in_region b \<and> fr_readonly a = fr_readonly b"

definition can_merge :: "FlatRange \<Rightarrow> FlatRange \<Rightarrow> bool" where
  "can_merge r1 r2 \<longleftrightarrow>
    addrrange_end (fr_addr r1) = ar_start (fr_addr r2) \<and> fr_mr r1 = fr_mr r2 \<and>
    uint (fr_offset_in_region r1) + ar_size (fr_addr r1) = uint (fr_offset_in_region r2) \<and>
    fr_readonly r1 = fr_readonly r2"

text \<open>
  The inner loop of \<^verbatim>\<open>flatview_simplify\<close>: \<^term>\<open>cur\<close> is \<^verbatim>\<open>ranges[i]\<close>, which grows, \<^term>\<open>prev\<close> is
  \<^verbatim>\<open>ranges[j-1]\<close> and the list is \<^verbatim>\<open>ranges[j..]\<close>.
\<close>

fun flatview_merge_run :: "FlatRange \<Rightarrow> FlatRange \<Rightarrow> ranges \<Rightarrow> FlatRange \<times> ranges" where
  "flatview_merge_run cur prev [] = (cur, [])"
| "flatview_merge_run cur prev (r # rs) =
    (if can_merge prev r
     then flatview_merge_run
       (cur\<lparr>fr_addr := (fr_addr cur)\<lparr>ar_size := ar_size (fr_addr cur) + ar_size (fr_addr r)\<rparr>\<rparr>) r rs
     else (cur, r # rs))"

lemma flatview_merge_run_length: "length (snd (flatview_merge_run cur prev rs)) \<le> length rs"
  by (induction cur prev rs rule: flatview_merge_run.induct) auto

function flatview_simplify :: "ranges \<Rightarrow> ranges" where
  "flatview_simplify [] = []"
| "flatview_simplify (r # rs) =
    (let (r', rest) = flatview_merge_run r r rs in r' # flatview_simplify rest)"
  by pat_completeness auto
termination
  by (relation "measure length")
    (auto simp: less_Suc_eq_le, metis flatview_merge_run_length snd_conv)

section \<open>Rendering\<close>

definition mk_range :: "mr_ptr \<Rightarrow> bool \<Rightarrow> int \<Rightarrow> int \<Rightarrow> u64 \<Rightarrow> FlatRange" where
  "mk_range mr ro base n off =
    \<lparr>fr_mr = mr, fr_offset_in_region = off, fr_addr = addrrange_make base n, fr_readonly = ro\<rparr>"

text \<open>
  The loop that renders a region into the gaps of the view, over \<^verbatim>\<open>ranges[i..]\<close> (the ranges
  before index \<^verbatim>\<open>i\<close> are not touched again), and the insertion after it. \<^verbatim>\<open>flatview_insert\<close> at
  \<^verbatim>\<open>i\<close> followed by \<^verbatim>\<open>++i\<close> puts the new range in front of the one the loop looks at.
\<close>

fun render_gaps :: "mr_ptr \<Rightarrow> bool \<Rightarrow> ranges \<Rightarrow> int \<Rightarrow> u64 \<Rightarrow> int \<Rightarrow> ranges option" where
  "render_gaps mr ro [] base off remain =
    Some (if remain \<noteq> 0 then [mk_range mr ro base remain off] else [])"
| "render_gaps mr ro (r # rs) base off remain =
    (if remain = 0 then Some (r # rs)
     else if addrrange_end (fr_addr r) \<le> base
     then do { rs' \<leftarrow> render_gaps mr ro rs base off remain; Some (r # rs') }
     else do {
       (pre, base, off, remain) \<leftarrow>
         (if base < ar_start (fr_addr r) then do {
            let now = min remain (ar_start (fr_addr r) - base);
            n \<leftarrow> get64 now;
            Some ([mk_range mr ro base now off], base + now, off + n, remain - now) }
          else Some ([], base, off, remain));
       let now = min (base + remain) (addrrange_end (fr_addr r)) - base;
       n \<leftarrow> get64 now;
       rs' \<leftarrow> render_gaps mr ro rs (base + now) (off + n) (remain - now);
       Some (pre @ r # rs') })"

fun render_memory_region ::
  "nat \<Rightarrow> mr_store \<Rightarrow> mr_ptr \<Rightarrow> int \<Rightarrow> AddrRange \<Rightarrow> bool \<Rightarrow> ranges \<Rightarrow> ranges option" where
  "render_memory_region 0 st p base clip ro view = None"
| "render_memory_region (Suc d) st p base clip ro view =
    (case st p of None \<Rightarrow> None | Some mr \<Rightarrow>
      if \<not> mr_enabled mr then Some view
      else
        let base = base + uint (mr_addr mr);
            ro = (ro \<or> mr_readonly mr);
            tmp = addrrange_make base (mr_size mr) in
        if \<not> addrrange_intersects tmp clip then Some view
        else
          let clip = addrrange_intersection tmp clip in
          do {
            view \<leftarrow> foldM (\<lambda>s view. render_memory_region d st s base clip ro view)
              (mr_subregions mr) view;
            if \<not> mr_terminates mr then Some view
            else do {
              off \<leftarrow> get64 (ar_start clip - base);
              render_gaps p ro view (ar_start clip) off (ar_size clip) } })"

text \<open>\<^verbatim>\<open>memory_region_get_flatview_root\<close>: the result \<^term>\<open>Some None\<close> is the C result \<^verbatim>\<open>NULL\<close>.\<close>

fun flatview_root_child :: "mr_store \<Rightarrow> MemoryRegion \<Rightarrow> mr_ptr list \<Rightarrow> nat \<Rightarrow> mr_ptr option \<Rightarrow>
    (nat \<times> mr_ptr option) option" where
  "flatview_root_child st mr [] found nxt = Some (found, nxt)"
| "flatview_root_child st mr (c # cs) found nxt =
    (case st c of None \<Rightarrow> None | Some child \<Rightarrow>
      if mr_enabled child then
        if 1 < Suc found then Some (Suc found, None)
        else flatview_root_child st mr cs (Suc found)
          (if mr_addr child = 0 \<and> mr_size child \<le> mr_size mr then Some c else nxt)
      else flatview_root_child st mr cs found nxt)"

partial_function (option) memory_region_get_flatview_root ::
  "mr_store \<Rightarrow> mr_ptr \<Rightarrow> mr_ptr option option" where
  [code]: "memory_region_get_flatview_root st p =
    (case st p of None \<Rightarrow> None | Some mr \<Rightarrow>
      if mr_enabled mr then
        if \<not> mr_terminates mr then
          (case flatview_root_child st mr (mr_subregions mr) 0 None of
             None \<Rightarrow> None
           | Some (found, nxt) \<Rightarrow>
               if found = 0 then Some None
               else (case nxt of Some q \<Rightarrow> memory_region_get_flatview_root st q | None \<Rightarrow> Some (Some p)))
        else Some (Some p)
      else Some None)"

text \<open>
  \<^verbatim>\<open>generate_memory_topology\<close> up to the dispatch tree: the rendered and simplified ranges.
\<close>

definition generate_ranges :: "nat \<Rightarrow> mr_store \<Rightarrow> mr_ptr option \<Rightarrow> ranges option" where
  "generate_ranges d st mr = do {
     view \<leftarrow> (case mr of
       Some p \<Rightarrow> render_memory_region d st p 0 (addrrange_make 0 (2 ^ 64)) False []
     | None \<Rightarrow> Some []);
     Some (flatview_simplify view) }"

section \<open>Views as maps from addresses\<close>

text \<open>What an access at an address meets: the region, the offset in it and the read-only flag.\<close>

type_synonym flat_entry = "mr_ptr \<times> u64 \<times> bool"

definition fr_covers :: "FlatRange \<Rightarrow> int \<Rightarrow> bool" where
  "fr_covers r a \<longleftrightarrow> addrrange_contains (fr_addr r) a"

definition fr_entry :: "FlatRange \<Rightarrow> int \<Rightarrow> flat_entry" where
  "fr_entry r a =
    (fr_mr r, fr_offset_in_region r + word_of_int (a - ar_start (fr_addr r)), fr_readonly r)"

fun fv_lookup :: "ranges \<Rightarrow> int \<Rightarrow> flat_entry option" where
  "fv_lookup [] a = None"
| "fv_lookup (r # rs) a = (if fr_covers r a then Some (fr_entry r a) else fv_lookup rs a)"

definition fr_before :: "FlatRange \<Rightarrow> FlatRange \<Rightarrow> bool" where
  "fr_before r s \<longleftrightarrow> addrrange_end (fr_addr r) \<le> ar_start (fr_addr s)"

definition fv_wf :: "ranges \<Rightarrow> bool" where
  "fv_wf rs \<longleftrightarrow> (\<forall>r \<in> set rs. 0 < ar_size (fr_addr r)) \<and> sorted_wrt fr_before rs"

definition fv_above :: "int \<Rightarrow> ranges \<Rightarrow> bool" where
  "fv_above b rs \<longleftrightarrow> (\<forall>r \<in> set rs. b \<le> ar_start (fr_addr r))"

definition orelse :: "'a option \<Rightarrow> 'a option \<Rightarrow> 'a option" where
  "orelse x y = (case x of Some v \<Rightarrow> Some v | None \<Rightarrow> y)"

lemma orelse_simps [simp]: "orelse None y = y" "orelse (Some v) y = Some v" "orelse x None = x"
  by (auto simp: orelse_def split: option.splits)

lemma orelse_assoc: "orelse (orelse x y) z = orelse x (orelse y z)"
  by (auto simp: orelse_def split: option.splits)

lemma fv_wf_Nil [simp]: "fv_wf []"
  by (simp add: fv_wf_def)

lemma fv_wf_Cons:
  "fv_wf (r # rs) \<longleftrightarrow> 0 < ar_size (fr_addr r) \<and> fv_above (addrrange_end (fr_addr r)) rs \<and> fv_wf rs"
  by (auto simp: fv_wf_def fv_above_def fr_before_def)

lemma fv_above_simps [simp]:
  "fv_above b []" "fv_above b (r # rs) \<longleftrightarrow> b \<le> ar_start (fr_addr r) \<and> fv_above b rs"
  by (simp_all add: fv_above_def)

lemma fv_above_mono: "fv_above b rs \<Longrightarrow> c \<le> b \<Longrightarrow> fv_above c rs"
  by (auto simp: fv_above_def)

lemma fv_lookup_above: "fv_above b rs \<Longrightarrow> a < b \<Longrightarrow> fv_lookup rs a = None"
  by (induction rs) (auto simp: fr_covers_def addrrange_contains_def)

lemma addrrange_make_simps [simp]:
  "ar_start (addrrange_make s n) = s" "ar_size (addrrange_make s n) = n"
  "addrrange_end (addrrange_make s n) = s + n"
  by (simp_all add: addrrange_make_def addrrange_end_def)

lemma mk_range_simps [simp]:
  "fr_addr (mk_range mr ro base n off) = addrrange_make base n"
  "fr_covers (mk_range mr ro base n off) a \<longleftrightarrow> base \<le> a \<and> a < base + n"
  "fr_entry (mk_range mr ro base n off) a = (mr, off + word_of_int (a - base), ro)"
  by (simp_all add: mk_range_def fr_covers_def fr_entry_def addrrange_contains_def)

section \<open>Filling the gaps\<close>

text \<open>The entry the rendered region itself gives an address.\<close>

definition own_entry :: "mr_ptr \<Rightarrow> bool \<Rightarrow> int \<Rightarrow> u64 \<Rightarrow> int \<Rightarrow> int \<Rightarrow> flat_entry option" where
  "own_entry mr ro base off remain a =
    (if base \<le> a \<and> a < base + remain then Some (mr, off + word_of_int (a - base), ro) else None)"

lemma own_entry_0 [simp]: "own_entry mr ro base off 0 a = None"
  by (simp add: own_entry_def)

lemma own_entry_split:
  assumes "0 \<le> now" "now \<le> remain"
  shows "own_entry mr ro base off remain a =
    (if a < base + now then own_entry mr ro base off now a
     else own_entry mr ro (base + now) (off + word_of_int now) (remain - now) a)"
  using assms by (auto simp: own_entry_def algebra_simps)

definition gaps_spec ::
  "mr_ptr \<Rightarrow> bool \<Rightarrow> ranges \<Rightarrow> int \<Rightarrow> u64 \<Rightarrow> int \<Rightarrow> ranges \<Rightarrow> bool" where
  "gaps_spec mr ro rs base off remain rs' \<longleftrightarrow>
    fv_wf rs' \<and> (\<forall>b. remain = 0 \<or> b \<le> base \<longrightarrow> fv_above b rs \<longrightarrow> fv_above b rs') \<and>
    (\<forall>a. fv_lookup rs' a = orelse (fv_lookup rs a) (own_entry mr ro base off remain a))"

text \<open>Skipping a range that ends before the part still to render.\<close>

lemma gaps_spec_skip:
  assumes "fv_wf (r # rs)" "gaps_spec mr ro rs base off remain rs'" "addrrange_end (fr_addr r) \<le> base"
  shows "gaps_spec mr ro (r # rs) base off remain (r # rs')"
  using assms
  by (auto simp: gaps_spec_def fv_wf_Cons)

text \<open>Stepping over a range that the part still to render meets.\<close>

lemma gaps_spec_over:
  assumes wf: "fv_wf (r # rs)" and s: "ar_start (fr_addr r) \<le> base \<or> remain = 0" and r: "0 \<le> remain"
    and b: "base < addrrange_end (fr_addr r)"
    and now: "now = min (base + remain) (addrrange_end (fr_addr r)) - base"
    and g: "gaps_spec mr ro rs (base + now) (off + word_of_int now) (remain - now) rs'"
  shows "gaps_spec mr ro (r # rs) base off remain (r # rs')"
proof -
  have n: "0 \<le> now" "now \<le> remain" using now r b by auto
  have cov: "fr_covers r a" if "base \<le> a" "a < base + now" for a
    using that s now by (auto simp: fr_covers_def addrrange_contains_def)
  have "remain - now = 0 \<or> addrrange_end (fr_addr r) \<le> base + now" using now by auto
  then have above: "fv_above (addrrange_end (fr_addr r)) rs'"
    using g wf by (simp only: gaps_spec_def fv_wf_Cons)
  have "fv_lookup (r # rs') a =
      orelse (fv_lookup (r # rs) a) (own_entry mr ro base off remain a)" for a
  proof (cases "fr_covers r a")
    case False
    then have "a < base \<or> base + now \<le> a" using cov [of a] by linarith
    then have "own_entry mr ro base off remain a =
        own_entry mr ro (base + now) (off + word_of_int now) (remain - now) a"
      using n by (auto simp: own_entry_split [OF n] own_entry_def)
    with False g show ?thesis by (simp add: gaps_spec_def)
  qed simp
  moreover have "fv_above b (r # rs')" if "remain = 0 \<or> b \<le> base" "fv_above b (r # rs)" for b
    using that above wf by (auto elim: fv_above_mono simp: addrrange_end_def fv_wf_Cons)
  ultimately show ?thesis
    using g wf above by (auto simp: gaps_spec_def fv_wf_Cons)
qed

text \<open>Rendering a piece in front of the next range.\<close>

lemma gaps_spec_front:
  assumes g: "gaps_spec mr ro rs (base + now) (off + word_of_int now) (remain - now) rs'"
    and n: "0 < now" "now \<le> remain" and above: "fv_above (base + now) rs"
  shows "gaps_spec mr ro rs base off remain (mk_range mr ro base now off # rs')"
proof -
  have above': "fv_above (base + now) rs'" using g above by (auto simp: gaps_spec_def)
  have "fv_lookup (mk_range mr ro base now off # rs') a =
      orelse (fv_lookup rs a) (own_entry mr ro base off remain a)" for a
  proof (cases "a < base + now")
    case True
    then show ?thesis
      using n fv_lookup_above [OF above True] fv_lookup_above [OF above' True]
      by (auto simp: own_entry_def)
  next
    case False
    then show ?thesis using g n by (simp add: gaps_spec_def own_entry_split [of now remain])
  qed
  with g above' n show ?thesis
    by (auto simp: gaps_spec_def fv_wf_Cons elim: fv_above_mono)
qed

lemma render_gaps_spec:
  assumes "fv_wf rs" "0 \<le> remain" "remain < 2 ^ 64"
  shows "\<exists>rs'. render_gaps mr ro rs base off remain = Some rs' \<and> gaps_spec mr ro rs base off remain rs'"
  using assms
proof (induction rs arbitrary: base off remain)
  case Nil
  then show ?case by (auto simp: gaps_spec_def own_entry_def fv_wf_Cons)
next
  case (Cons r rs)
  have wf: "fv_wf rs" using Cons.prems by (simp add: fv_wf_Cons)
  have over: "\<exists>rs'. (let now = min (base + remain) (addrrange_end (fr_addr r)) - base in do {
       n \<leftarrow> get64 now;
       rs' \<leftarrow> render_gaps mr ro rs (base + now) (off + n) (remain - now);
       Some (r # rs') }) = Some (r # rs') \<and> gaps_spec mr ro (r # rs) base off remain (r # rs')"
    if h: "0 \<le> remain" "remain < 2 ^ 64" "ar_start (fr_addr r) \<le> base \<or> remain = 0"
      "base < addrrange_end (fr_addr r)" for base off remain
  proof -
    define now where "now = min (base + remain) (addrrange_end (fr_addr r)) - base"
    have n: "0 \<le> now" "now \<le> remain" "now < 2 ^ 64" using h by (auto simp: now_def)
    obtain rs' where rs': "render_gaps mr ro rs (base + now) (off + word_of_int now) (remain - now) = Some rs'"
      "gaps_spec mr ro rs (base + now) (off + word_of_int now) (remain - now) rs'"
      using Cons.IH [OF wf, of "remain - now" "base + now" "off + word_of_int now"] n h by auto
    show ?thesis
      using rs'(1) gaps_spec_over [OF Cons.prems(1) h(3,1,4) now_def rs'(2)]
      by (auto simp: get64_Some [OF n(1,3)] simp flip: now_def)
  qed
  consider "remain = 0" | "remain \<noteq> 0" "addrrange_end (fr_addr r) \<le> base"
    | "remain \<noteq> 0" "base < addrrange_end (fr_addr r)" "ar_start (fr_addr r) \<le> base"
    | "remain \<noteq> 0" "base < addrrange_end (fr_addr r)" "base < ar_start (fr_addr r)" by linarith
  then show ?case
  proof cases
    case 1
    then show ?thesis using Cons.prems by (auto simp: gaps_spec_def)
  next
    case 2
    then show ?thesis
      using Cons.IH [OF wf Cons.prems(2,3), of base off] gaps_spec_skip [OF Cons.prems(1) _ 2(2)]
      by auto
  next
    case 3
    then show ?thesis using over [of remain base off] Cons.prems by (auto simp: Let_def)
  next
    case 4
    define now where "now = min remain (ar_start (fr_addr r) - base)"
    have n: "0 < now" "now \<le> remain" "0 \<le> now" "now < 2 ^ 64" using 4 Cons.prems by (auto simp: now_def)
    have above: "fv_above (base + now) (r # rs)"
      using Cons.prems(1) by (auto simp: fv_wf_Cons now_def addrrange_end_def elim: fv_above_mono)
    obtain rs' where rs': "(let now' = min (base + now + (remain - now)) (addrrange_end (fr_addr r)) - (base + now) in do {
         n \<leftarrow> get64 now';
         rs' \<leftarrow> render_gaps mr ro rs (base + now + now') (off + word_of_int now + n) (remain - now - now');
         Some (r # rs') }) = Some (r # rs')"
      "gaps_spec mr ro (r # rs) (base + now) (off + word_of_int now) (remain - now) (r # rs')"
      using over [of "remain - now" "base + now" "off + word_of_int now"] n 4 Cons.prems(1,3)
      by (auto simp: now_def addrrange_end_def fv_wf_Cons min_def split: if_splits)
    show ?thesis
      using rs'(1) gaps_spec_front [OF rs'(2) n(1,2) above] 4
      by (auto simp: get64_Some [OF n(3,4)] Let_def simp flip: now_def split: bind_splits)
  qed
qed

section \<open>Resolving an address in the region tree\<close>

text \<open>
  The specification of the rendering. An address inside an enabled region (and inside the clip of
  its ancestors) goes to the first subregion that resolves it, and otherwise to the region itself
  when it terminates.
\<close>

fun first_some :: "('a \<Rightarrow> 'b option) \<Rightarrow> 'a list \<Rightarrow> 'b option" where
  "first_some f [] = None"
| "first_some f (x # xs) = orelse (f x) (first_some f xs)"

lemma first_some_cong [fundef_cong]:
  "\<lbrakk> xs = ys; \<And>x. x \<in> set ys \<Longrightarrow> f x = g x \<rbrakk> \<Longrightarrow> first_some f xs = first_some g ys"
  by (induction xs arbitrary: ys) auto

fun resolve :: "nat \<Rightarrow> mr_store \<Rightarrow> mr_ptr \<Rightarrow> int \<Rightarrow> AddrRange \<Rightarrow> bool \<Rightarrow> int \<Rightarrow> flat_entry option" where
  "resolve 0 st p base clip ro a = None"
| "resolve (Suc d) st p base clip ro a =
    (case st p of None \<Rightarrow> None | Some mr \<Rightarrow>
      let base = base + uint (mr_addr mr); ro = (ro \<or> mr_readonly mr);
          tmp = addrrange_make base (mr_size mr) in
      if mr_enabled mr \<and> addrrange_contains tmp a \<and> addrrange_contains clip a
      then orelse
        (first_some (\<lambda>s. resolve d st s base (addrrange_intersection tmp clip) ro a) (mr_subregions mr))
        (if mr_terminates mr then Some (p, word_of_int (a - base), ro) else None)
      else None)"

text \<open>A tree of live regions of depth at most \<^term>\<open>d\<close> whose terminating regions fit in 64 bits.\<close>

fun tree_wf :: "nat \<Rightarrow> mr_store \<Rightarrow> mr_ptr \<Rightarrow> bool" where
  "tree_wf 0 st p = False"
| "tree_wf (Suc d) st p =
    (case st p of None \<Rightarrow> False | Some mr \<Rightarrow>
      0 < mr_size mr \<and> (mr_terminates mr \<longrightarrow> mr_size mr < 2 ^ 64) \<and>
      list_all (\<lambda>s. tree_wf d st s) (mr_subregions mr))"

lemma resolve_outside: "\<not> addrrange_contains clip a \<Longrightarrow> resolve d st p base clip ro a = None"
  by (cases d) (auto split: option.splits simp: Let_def)

lemma first_some_None: "(\<And>x. x \<in> set xs \<Longrightarrow> f x = None) \<Longrightarrow> first_some f xs = None"
  by (induction xs) auto

lemma render_subregions_lookup:
  assumes "\<And>s view. \<lbrakk> s \<in> set ss; fv_wf view \<rbrakk> \<Longrightarrow>
      \<exists>view'. f s view = Some view' \<and> fv_wf view' \<and> (\<forall>a. fv_lookup view' a = orelse (fv_lookup view a) (g s a))"
    and "fv_wf view"
  shows "\<exists>view'. foldM f ss view = Some view' \<and> fv_wf view' \<and>
    (\<forall>a. fv_lookup view' a = orelse (fv_lookup view a) (first_some (\<lambda>s. g s a) ss))"
  using assms
proof (induction ss arbitrary: view)
  case (Cons s ss)
  obtain v where v: "f s view = Some v" "fv_wf v"
    "\<forall>a. fv_lookup v a = orelse (fv_lookup view a) (g s a)"
    using Cons.prems by (meson list.set_intros(1))
  obtain v' where "foldM f ss v = Some v'" "fv_wf v'"
    "\<forall>a. fv_lookup v' a = orelse (fv_lookup v a) (first_some (\<lambda>s. g s a) ss)"
    using Cons.IH [OF _ v(2)] Cons.prems(1) by (meson list.set_intros(2))
  with v show ?case by (simp add: orelse_assoc)
qed simp

lemma render_memory_region_lookup:
  assumes "tree_wf d st p" "fv_wf view" "0 < ar_size clip"
  shows "\<exists>view'. render_memory_region d st p base clip ro view = Some view' \<and> fv_wf view' \<and>
    (\<forall>a. fv_lookup view' a = orelse (fv_lookup view a) (resolve d st p base clip ro a))"
  using assms
proof (induction d arbitrary: p base clip ro view)
  case (Suc d)
  obtain mr where mr: "st p = Some mr" "0 < mr_size mr" "mr_terminates mr \<Longrightarrow> mr_size mr < 2 ^ 64"
    "\<forall>s \<in> set (mr_subregions mr). tree_wf d st s"
    using Suc.prems(1) by (auto split: option.splits simp: list_all_iff)
  define b where "b = base + uint (mr_addr mr)"
  define ro' where "ro' = (ro \<or> mr_readonly mr)"
  define tmp where "tmp = addrrange_make b (mr_size mr)"
  define c where "c = addrrange_intersection tmp clip"
  show ?case
  proof (cases "mr_enabled mr \<and> addrrange_intersects tmp clip")
    case False
    then have "resolve (Suc d) st p base clip ro a = None" for a
      using addrrange_intersects_iff [of tmp clip] Suc.prems(3) mr
      by (auto simp: Let_def tmp_def b_def)
    moreover have "render_memory_region (Suc d) st p base clip ro view = Some view"
      using False mr(1) by (auto simp: Let_def tmp_def b_def)
    ultimately show ?thesis using Suc.prems(2) by simp
  next
    case True
    have cpos: "0 < ar_size c"
      using True Suc.prems(3) mr(2) addrrange_intersection_pos [of tmp clip] by (simp add: c_def tmp_def)
    obtain v where v: "foldM (\<lambda>s view. render_memory_region d st s b c ro' view) (mr_subregions mr) view = Some v"
      "fv_wf v" "\<forall>a. fv_lookup v a =
        orelse (fv_lookup view a) (first_some (\<lambda>s. resolve d st s b c ro' a) (mr_subregions mr))"
      using render_subregions_lookup [of "mr_subregions mr"
          "\<lambda>s view. render_memory_region d st s b c ro' view" "\<lambda>s a. resolve d st s b c ro' a" view]
        Suc.IH mr(4) cpos Suc.prems(2) by blast
    have inside: "addrrange_contains tmp a \<and> addrrange_contains clip a \<longleftrightarrow> addrrange_contains c a" for a
      by (simp add: c_def addrrange_intersection_contains)
    have subs: "first_some (\<lambda>s. resolve d st s b c ro' a) (mr_subregions mr) = None"
      if "\<not> addrrange_contains c a" for a
      using that by (intro first_some_None) (simp add: resolve_outside)
    have res: "resolve (Suc d) st p base clip ro a =
        orelse (first_some (\<lambda>s. resolve d st s b c ro' a) (mr_subregions mr))
          (if mr_terminates mr \<and> addrrange_contains c a then Some (p, word_of_int (a - b), ro') else None)"
      for a using True mr(1) subs [of a] inside [of a]
      by (auto simp: Let_def simp flip: b_def ro'_def tmp_def c_def)
    have ren: "render_memory_region (Suc d) st p base clip ro view =
        (if \<not> mr_terminates mr then Some v
         else do { off \<leftarrow> get64 (ar_start c - b); render_gaps p ro' v (ar_start c) off (ar_size c) })"
      using True mr(1) v(1) by (simp add: Let_def flip: b_def ro'_def tmp_def c_def)
    show ?thesis
    proof (cases "mr_terminates mr")
      case False
      then show ?thesis using ren res v(2,3) by simp
    next
      case t: True
      have cb: "b \<le> ar_start c" "ar_start c + ar_size c \<le> b + mr_size mr"
        by (auto simp: c_def tmp_def addrrange_intersection_def Let_def)
      then have r: "0 \<le> ar_start c - b" "ar_start c - b < 2 ^ 64" "0 \<le> ar_size c" "ar_size c < 2 ^ 64"
        using cpos mr(3) [OF t] by linarith+
      obtain v' where v': "render_gaps p ro' v (ar_start c) (word_of_int (ar_start c - b)) (ar_size c) = Some v'"
        "gaps_spec p ro' v (ar_start c) (word_of_int (ar_start c - b)) (ar_size c) v'"
        using render_gaps_spec [OF v(2) r(3,4)] by blast
      have "own_entry p ro' (ar_start c) (word_of_int (ar_start c - b)) (ar_size c) a =
          (if addrrange_contains c a then Some (p, word_of_int (a - b), ro') else None)" for a
        by (simp add: own_entry_def addrrange_contains_def addrrange_end_def algebra_simps)
      then show ?thesis
        using v' ren t v(3) res get64_Some [OF r(1,2)] by (simp add: gaps_spec_def orelse_assoc)
    qed
  qed
qed simp

section \<open>Merging adjacent ranges\<close>

text \<open>\<^term>\<open>cur\<close> extends \<^term>\<open>prev\<close> to the left inside the same region.\<close>

definition extends_to :: "FlatRange \<Rightarrow> FlatRange \<Rightarrow> bool" where
  "extends_to cur prev \<longleftrightarrow>
    fr_mr cur = fr_mr prev \<and> fr_readonly cur = fr_readonly prev \<and> 0 < ar_size (fr_addr cur) \<and>
    addrrange_end (fr_addr cur) = addrrange_end (fr_addr prev) \<and>
    uint (fr_offset_in_region prev) - uint (fr_offset_in_region cur) =
      ar_start (fr_addr prev) - ar_start (fr_addr cur)"

lemma extends_to_refl: "0 < ar_size (fr_addr r) \<Longrightarrow> extends_to r r"
  by (simp add: extends_to_def)

lemma extends_to_can_merge: "extends_to cur prev \<Longrightarrow> can_merge cur r \<longleftrightarrow> can_merge prev r"
  by (auto simp: extends_to_def can_merge_def addrrange_end_def)

text \<open>The inner loop keeps the map, the order and the start, and stops at an unmergeable range.\<close>

lemma flatview_merge_run_lookup:
  assumes "extends_to cur prev" "fv_wf (cur # rs)" "flatview_merge_run cur prev rs = (cur', rest)"
  shows "fv_wf (cur' # rest) \<and> ar_start (fr_addr cur') = ar_start (fr_addr cur) \<and>
    (\<forall>a. fv_lookup (cur' # rest) a = fv_lookup (cur # rs) a) \<and>
    (rest \<noteq> [] \<longrightarrow> \<not> can_merge cur' (hd rest))"
  using assms
proof (induction cur prev rs rule: flatview_merge_run.induct)
  case (2 cur prev r rs)
  show ?case
  proof (cases "can_merge prev r")
    case True
    define cur2 where
      "cur2 = cur\<lparr>fr_addr := (fr_addr cur)\<lparr>ar_size := ar_size (fr_addr cur) + ar_size (fr_addr r)\<rparr>\<rparr>"
    have m: "can_merge cur r" using True "2.prems"(1) by (simp add: extends_to_can_merge)
    have ex: "extends_to cur2 r"
      using m "2.prems"(2) by (auto simp: extends_to_def can_merge_def cur2_def addrrange_end_def fv_wf_Cons)
    have "addrrange_end (fr_addr cur2) = addrrange_end (fr_addr r)"
      using m by (auto simp: cur2_def can_merge_def addrrange_end_def)
    then have wf: "fv_wf (cur2 # rs)"
      using "2.prems"(2) by (auto simp: fv_wf_Cons cur2_def)
    have off: "fr_offset_in_region r = fr_offset_in_region cur + word_of_int (ar_size (fr_addr cur))"
      using m by (simp add: can_merge_def) (metis of_int_add word_of_int_uint)
    have "fv_lookup (cur2 # rs) a = fv_lookup (cur # r # rs) a" for a
    proof -
      have "ar_start (fr_addr r) = ar_start (fr_addr cur) + ar_size (fr_addr cur)"
        "fr_mr r = fr_mr cur" "fr_readonly r = fr_readonly cur"
        using m by (auto simp: can_merge_def addrrange_end_def)
      with off "2.prems"(2) show ?thesis
        by (auto simp: cur2_def fr_covers_def fr_entry_def addrrange_contains_def addrrange_end_def
            fv_wf_Cons algebra_simps)
    qed
    moreover have "flatview_merge_run cur2 r rs = (cur', rest)"
      using "2.prems"(3) True by (simp add: cur2_def)
    moreover have "ar_start (fr_addr cur2) = ar_start (fr_addr cur)" by (simp add: cur2_def)
    ultimately show ?thesis
      using "2.IH" [OF True, folded cur2_def, OF ex wf] by simp
  next
    case False
    then show ?thesis using "2.prems" by (auto simp: extends_to_can_merge)
  qed
qed auto

lemma flatview_simplify_lookup:
  assumes "fv_wf rs"
  shows "fv_wf (flatview_simplify rs) \<and> (\<forall>b. fv_above b rs \<longrightarrow> fv_above b (flatview_simplify rs)) \<and>
    (\<forall>a. fv_lookup (flatview_simplify rs) a = fv_lookup rs a)"
  using assms
proof (induction rs rule: flatview_simplify.induct)
  case (2 r rs)
  obtain r' rest where run: "flatview_merge_run r r rs = (r', rest)" by fastforce
  have r: "extends_to r r" using "2.prems" by (simp add: extends_to_refl fv_wf_Cons)
  have *: "fv_wf (r' # rest)" "ar_start (fr_addr r') = ar_start (fr_addr r)"
    "\<forall>a. fv_lookup (r' # rest) a = fv_lookup (r # rs) a"
    using flatview_merge_run_lookup [OF r "2.prems" run] by auto
  have IH: "fv_wf (flatview_simplify rest)"
    "\<forall>b. fv_above b rest \<longrightarrow> fv_above b (flatview_simplify rest)"
    "\<forall>a. fv_lookup (flatview_simplify rest) a = fv_lookup rest a"
    using "2.IH" [OF run [symmetric]] *(1) by (auto simp: fv_wf_Cons)
  have "fv_above b (r' # flatview_simplify rest)" if "b \<le> ar_start (fr_addr r)" for b
  proof -
    have "b \<le> addrrange_end (fr_addr r')" using that * by (simp add: addrrange_end_def fv_wf_Cons)
    then have "fv_above b rest" using *(1) fv_above_mono by (auto simp: fv_wf_Cons)
    then show ?thesis using that *(2) IH(2) by simp
  qed
  moreover have "fv_lookup (r' # flatview_simplify rest) a = fv_lookup (r # rs) a" for a
  proof -
    have "fv_lookup (r' # flatview_simplify rest) a = fv_lookup (r' # rest) a" using IH(3) by simp
    then show ?thesis using *(3) by metis
  qed
  moreover have "flatview_simplify (r # rs) = r' # flatview_simplify rest" by (simp add: run)
  ultimately show ?case
    using *(1) IH(1,2) by (simp only: fv_wf_Cons fv_above_simps simp_thms) blast
qed simp

text \<open>No two neighbours of a simplified view can be merged any more.\<close>

fun no_merge :: "ranges \<Rightarrow> bool" where
  "no_merge (r # s # rs) \<longleftrightarrow> \<not> can_merge r s \<and> no_merge (s # rs)"
| "no_merge rs \<longleftrightarrow> True"

lemma flatview_simplify_hd:
  "rs = r # rs' \<Longrightarrow> \<exists>r' rest. flatview_simplify rs = r' # rest \<and>
    ar_start (fr_addr r') = ar_start (fr_addr r) \<and> fr_mr r' = fr_mr r \<and>
    fr_offset_in_region r' = fr_offset_in_region r \<and> fr_readonly r' = fr_readonly r"
proof -
  have *: "ar_start (fr_addr (fst (flatview_merge_run cur prev rs))) = ar_start (fr_addr cur) \<and>
    fr_mr (fst (flatview_merge_run cur prev rs)) = fr_mr cur \<and>
    fr_offset_in_region (fst (flatview_merge_run cur prev rs)) = fr_offset_in_region cur \<and>
    fr_readonly (fst (flatview_merge_run cur prev rs)) = fr_readonly cur" for cur prev rs
    by (induction cur prev rs rule: flatview_merge_run.induct) auto
  assume "rs = r # rs'"
  then show ?thesis using * [of r r rs'] by (auto split: prod.splits)
qed

lemma flatview_simplify_no_merge:
  assumes "fv_wf rs"
  shows "no_merge (flatview_simplify rs)"
  using assms
proof (induction rs rule: flatview_simplify.induct)
  case (2 r rs)
  obtain r' rest where run: "flatview_merge_run r r rs = (r', rest)" by fastforce
  have r: "extends_to r r" using "2.prems" by (simp add: extends_to_refl fv_wf_Cons)
  have *: "fv_wf (r' # rest)" "rest \<noteq> [] \<longrightarrow> \<not> can_merge r' (hd rest)"
    using flatview_merge_run_lookup [OF r "2.prems" run] by auto
  have IH: "no_merge (flatview_simplify rest)"
    using "2.IH" [OF run [symmetric]] *(1) by (auto simp: fv_wf_Cons)
  show ?case
  proof (cases rest)
    case (Cons s ss)
    then show ?thesis
      using flatview_simplify_hd [OF Cons] IH *(2) by (auto simp: run can_merge_def)
  qed (simp add: run)
qed simp

section \<open>The rendered topology\<close>

lemma generate_ranges_lookup:
  assumes "tree_wf d st p"
  shows "\<exists>view. generate_ranges d st (Some p) = Some view \<and> fv_wf view \<and> no_merge view \<and>
    (\<forall>a. fv_lookup view a = resolve d st p 0 (addrrange_make 0 (2 ^ 64)) False a)"
proof -
  obtain v where "render_memory_region d st p 0 (addrrange_make 0 (2 ^ 64)) False [] = Some v" "fv_wf v"
    "\<forall>a. fv_lookup v a = resolve d st p 0 (addrrange_make 0 (2 ^ 64)) False a"
    using render_memory_region_lookup [OF assms, of "[]" "addrrange_make 0 (2 ^ 64)" 0 False] by auto
  then show ?thesis
    using flatview_simplify_lookup flatview_simplify_no_merge by (simp add: generate_ranges_def)
qed

section \<open>Telling the listeners\<close>

text \<open>
  \<^verbatim>\<open>address_space_update_topology_pass\<close> compares the old and the new view and calls the listeners;
  the model returns the calls in order.
\<close>

datatype listener_call = region_del FlatRange | region_nop FlatRange | region_add FlatRange

text \<open>Building the section for a callback asserts that the range starts in 64 bits.\<close>

definition listener_update_region :: "(FlatRange \<Rightarrow> listener_call) \<Rightarrow> FlatRange \<Rightarrow> listener_call option" where
  "listener_update_region callback fr =
    (case section_from_flat_range fr of None \<Rightarrow> None | Some mrs \<Rightarrow> Some (callback fr))"

definition update_then :: "(FlatRange \<Rightarrow> listener_call) \<Rightarrow> FlatRange \<Rightarrow> listener_call list option \<Rightarrow>
    listener_call list option" where
  "update_then callback fr rest = do { c \<leftarrow> listener_update_region callback fr; cs \<leftarrow> rest; Some (c # cs) }"

fun address_space_update_topology_pass :: "ranges \<Rightarrow> ranges \<Rightarrow> bool \<Rightarrow> listener_call list option" where
  "address_space_update_topology_pass [] [] adding = Some []"
| "address_space_update_topology_pass (frold # old) [] adding =
    (if \<not> adding then update_then region_del frold else id) (address_space_update_topology_pass old [] adding)"
| "address_space_update_topology_pass [] (frnew # new) adding =
    (if adding then update_then region_add frnew else id) (address_space_update_topology_pass [] new adding)"
| "address_space_update_topology_pass (frold # old) (frnew # new) adding =
    (if ar_start (fr_addr frold) < ar_start (fr_addr frnew) \<or>
        ar_start (fr_addr frold) = ar_start (fr_addr frnew) \<and> \<not> flatrange_equal frold frnew
     then (if \<not> adding then update_then region_del frold else id)
       (address_space_update_topology_pass old (frnew # new) adding)
     else if flatrange_equal frold frnew
     then (if adding then update_then region_nop frnew else id) (address_space_update_topology_pass old new adding)
     else (if adding then update_then region_add frnew else id)
       (address_space_update_topology_pass (frold # old) new adding))"

definition listener_updates :: "(FlatRange \<Rightarrow> listener_call) \<Rightarrow> ranges \<Rightarrow> listener_call list option" where
  "listener_updates f rs = (if \<forall>r \<in> set rs. section_from_flat_range r \<noteq> None then Some (map f rs) else None)"

lemma listener_updates_simps [simp]:
  "listener_updates f [] = Some []" "listener_updates f (r # rs) = update_then f r (listener_updates f rs)"
  by (auto simp: listener_updates_def update_then_def listener_update_region_def split: option.splits)

lemma update_then_cong: "f r = g r \<Longrightarrow> update_then f r = update_then g r"
  by (rule ext) (auto simp: update_then_def listener_update_region_def split: option.splits)

lemma listener_updates_cong: "(\<And>r. r \<in> set rs \<Longrightarrow> f r = g r) \<Longrightarrow> listener_updates f rs = listener_updates g rs"
  by (simp add: listener_updates_def)

lemma flatrange_equal_iff: "flatrange_equal a b \<longleftrightarrow> a = b"
  by (cases a; cases b) (auto simp: flatrange_equal_def addrrange_equal_def)

lemma fv_wf_start_less: "fv_wf (r # rs) \<Longrightarrow> s \<in> set rs \<Longrightarrow> ar_start (fr_addr r) < ar_start (fr_addr s)"
  by (fastforce simp: fv_wf_Cons fv_above_def addrrange_end_def)

lemma topology_pass_del:
  assumes "fv_wf old" "fv_wf new"
  shows "address_space_update_topology_pass old new False =
    listener_updates region_del (filter (\<lambda>r. r \<notin> set new) old)"
  using assms
proof (induction old new "False" rule: address_space_update_topology_pass.induct)
  case (4 frold old frnew new)
  have o: "fv_wf old" and n: "fv_wf new" using "4.prems" by (auto simp: fv_wf_Cons)
  note less = fv_wf_start_less [OF "4.prems"(1)] fv_wf_start_less [OF "4.prems"(2)]
  consider (lt) "ar_start (fr_addr frold) < ar_start (fr_addr frnew) \<or>
      ar_start (fr_addr frold) = ar_start (fr_addr frnew) \<and> frold \<noteq> frnew"
    | (eq) "frold = frnew" | (gt) "ar_start (fr_addr frnew) < ar_start (fr_addr frold)" by fastforce
  then show ?case
  proof cases
    case lt
    then have "frold \<notin> set (frnew # new)" using less(2) by fastforce
    with lt show ?thesis using "4.hyps"(1) o "4.prems"(2) by (simp add: flatrange_equal_iff)
  next
    case eq
    then have "filter (\<lambda>r. r \<notin> set (frnew # new)) old = filter (\<lambda>r. r \<notin> set new) old"
      using less(1) by (intro filter_cong) auto
    with eq show ?thesis using "4.hyps"(2) o n by (simp add: flatrange_equal_iff)
  next
    case gt
    then have "filter (\<lambda>r. r \<notin> set (frnew # new)) (frold # old) = filter (\<lambda>r. r \<notin> set new) (frold # old)"
      using less(1) by (intro filter_cong) fastforce+
    with gt show ?thesis using "4.hyps"(3) n "4.prems"(1) by (auto simp: flatrange_equal_iff)
  qed
qed (auto simp: fv_wf_Cons)

lemma topology_pass_add:
  assumes "fv_wf old" "fv_wf new"
  shows "address_space_update_topology_pass old new True =
    listener_updates (\<lambda>r. if r \<in> set old then region_nop r else region_add r) new"
  using assms
proof (induction old new "True" rule: address_space_update_topology_pass.induct)
  case (4 frold old frnew new)
  have o: "fv_wf old" and n: "fv_wf new" using "4.prems" by (auto simp: fv_wf_Cons)
  note less = fv_wf_start_less [OF "4.prems"(1)] fv_wf_start_less [OF "4.prems"(2)]
  consider (lt) "ar_start (fr_addr frold) < ar_start (fr_addr frnew) \<or>
      ar_start (fr_addr frold) = ar_start (fr_addr frnew) \<and> frold \<noteq> frnew"
    | (eq) "frold = frnew" | (gt) "ar_start (fr_addr frnew) < ar_start (fr_addr frold)" by fastforce
  then show ?case
  proof cases
    case lt
    then have "frold \<notin> set (frnew # new)" using less(2) by fastforce
    then have "listener_updates (\<lambda>r. if r \<in> set (frold # old) then region_nop r else region_add r) (frnew # new) =
        listener_updates (\<lambda>r. if r \<in> set old then region_nop r else region_add r) (frnew # new)"
      by (intro listener_updates_cong) auto
    with lt show ?thesis using "4.hyps"(1) o "4.prems"(2) by (simp add: flatrange_equal_iff)
  next
    case eq
    then have "listener_updates (\<lambda>r. if r \<in> set (frold # old) then region_nop r else region_add r) new =
        listener_updates (\<lambda>r. if r \<in> set old then region_nop r else region_add r) new"
      using less(2) by (intro listener_updates_cong) fastforce
    moreover have "update_then (\<lambda>r. if r \<in> set (frold # old) then region_nop r else region_add r) frnew =
        update_then region_nop frnew" using eq by (intro update_then_cong) simp
    ultimately show ?thesis using eq "4.hyps"(2) o n by (simp add: flatrange_equal_iff)
  next
    case gt
    then have "frnew \<notin> set (frold # old)" using less(1) by fastforce
    then have "update_then (\<lambda>r. if r \<in> set (frold # old) then region_nop r else region_add r) frnew =
        update_then region_add frnew" by (intro update_then_cong) simp
    with gt show ?thesis using "4.hyps"(3) n "4.prems"(1) by (auto simp: flatrange_equal_iff)
  qed
qed (auto simp: fv_wf_Cons intro: fun_cong [OF update_then_cong])

section \<open>Correctness of the flat view\<close>

text \<open>
  C17: for a tree of live regions within the depth bound, \<^verbatim>\<open>generate_memory_topology\<close> renders ranges
  that are sorted, disjoint and fully merged, and looking an address up in them gives exactly the
  region, offset and read-only flag that resolving the address in the tree gives.
\<close>

theorem generate_ranges_resolves:
  assumes "tree_wf d st p"
  shows "\<exists>view. generate_ranges d st (Some p) = Some view \<and> fv_wf view \<and> no_merge view \<and>
    (\<forall>a. fv_lookup view a = resolve d st p 0 (addrrange_make 0 (2 ^ 64)) False a)"
  by (rule generate_ranges_lookup [OF assms])

definition demo_store :: mr_store where
  "demo_store = [0 \<mapsto> (memory_region_init (-1))\<lparr>mr_subregions := [1, 2]\<rparr>,
     1 \<mapsto> (memory_region_init 4096)\<lparr>mr_terminates := True, mr_addr := 4096\<rparr>,
     2 \<mapsto> (memory_region_init 8192)\<lparr>mr_terminates := True, mr_readonly := True\<rparr>]"

theorem generate_ranges_resolves_witness:
  "\<exists>view. generate_ranges (Suc (Suc 0)) demo_store (Some 0) = Some view \<and> fv_wf view \<and>
     fv_lookup view 4097 = Some (1, 1, False) \<and> fv_lookup view 5 = Some (2, 5, True) \<and>
     fv_lookup view 8192 = None"
proof -
  have "tree_wf (Suc (Suc 0)) demo_store 0"
    by (simp add: demo_store_def memory_region_init_def mr_zero_def)
  then obtain view where v: "generate_ranges (Suc (Suc 0)) demo_store (Some 0) = Some view" "fv_wf view"
    "\<forall>a. fv_lookup view a = resolve (Suc (Suc 0)) demo_store 0 0 (addrrange_make 0 (2 ^ 64)) False a"
    using generate_ranges_resolves by blast
  then show ?thesis
    by (simp add: demo_store_def memory_region_init_def mr_zero_def Let_def
        addrrange_contains_def addrrange_intersection_def)
qed

text \<open>
  C27: between two well-formed views, the removal pass tells the listeners exactly the ranges that
  only the old view has, and the adding pass exactly the ranges of the new view, as unchanged where
  the old view has them too, each in ascending order. A pass aborts exactly when one of the ranges
  it would tell starts outside 64 bits.
\<close>

theorem topology_passes_difference:
  assumes "fv_wf old" "fv_wf new"
  shows "address_space_update_topology_pass old new False =
      (if \<forall>r \<in> set old - set new. ar_start (fr_addr r) \<in> {0 ..< 2 ^ 64}
       then Some (map region_del (filter (\<lambda>r. r \<notin> set new) old)) else None) \<and>
    address_space_update_topology_pass old new True =
      (if \<forall>r \<in> set new. ar_start (fr_addr r) \<in> {0 ..< 2 ^ 64}
       then Some (map (\<lambda>r. if r \<in> set old then region_nop r else region_add r) new) else None)"
proof -
  have "section_from_flat_range r \<noteq> None \<longleftrightarrow> ar_start (fr_addr r) \<in> {0 ..< 2 ^ 64}" for r
    by (auto simp: section_from_flat_range_def get64_def split: if_splits)
  then show ?thesis
    using topology_pass_del [OF assms] topology_pass_add [OF assms] by (auto simp: listener_updates_def)
qed

theorem topology_passes_difference_witness:
  "address_space_update_topology_pass [mk_range 1 False 0 10 0, mk_range 2 False 10 10 0]
     [mk_range 2 False 10 10 0, mk_range 3 False 20 10 0] True =
   Some [region_nop (mk_range 2 False 10 10 0), region_add (mk_range 3 False 20 10 0)]"
  using topology_passes_difference [of "[mk_range 1 False 0 10 0, mk_range 2 False 10 10 0]"
      "[mk_range 2 False 10 10 0, mk_range 3 False 20 10 0]"]
  by (simp add: fv_wf_def fr_before_def mk_range_def addrrange_make_def addrrange_end_def)

end
