(* ===== verification/PhysMap.thy ===== *)
theory PhysMap
  imports FlatView
begin

text \<open>
  The dispatch tree of \<^verbatim>\<open>qemu/exec.c\<close>: a radix tree over page numbers with nine bits per level whose
  leaves are indices into an array of sections. The tree lives in an array of nodes, and an entry
  holds a node index or a section index. \<^term>\<open>bits\<close> is \<^verbatim>\<open>TARGET_PAGE_BITS\<close>. Page numbers are natural
  numbers: they and their sums stay below \<^term>\<open>2 ^ 64\<close>. The arrays are lists; a
  failed assertion is \<^const>\<open>None\<close>.
\<close>

section \<open>Entries, nodes and sections\<close>

record PhysPageEntry =
  pe_skip :: nat
  pe_ptr :: nat

type_synonym Node = "PhysPageEntry list"

definition P_L2_BITS :: nat where "P_L2_BITS = 9"

definition P_L2_SIZE :: nat where "P_L2_SIZE = 2 ^ P_L2_BITS"

definition P_L2_LEVELS :: "nat \<Rightarrow> nat" where
  "P_L2_LEVELS bits = (64 - bits - 1) div P_L2_BITS + 1"

definition PHYS_MAP_NODE_NIL :: nat where "PHYS_MAP_NODE_NIL = 2 ^ 26 - 1"

definition PHYS_SECTION_UNASSIGNED :: nat where "PHYS_SECTION_UNASSIGNED = 0"

text \<open>What a section of the dispatch points to: \<^verbatim>\<open>io_mem_unassigned\<close>, a region or a subpage.\<close>

datatype section_mr = SecUnassigned | SecRegion mr_ptr | SecSubpage nat

record DispatchSection =
  ds_mr :: section_mr
  ds_offset_within_region :: u64
  ds_size :: int
  ds_offset_within_address_space :: u64
  ds_readonly :: bool

record subpage_t =
  sp_base :: u64
  sp_sub_section :: "nat list"

record AddressSpaceDispatch =
  mru_section :: "nat option"
  phys_map :: PhysPageEntry
  nodes :: "Node list"
  sections :: "DispatchSection list"
  subpages :: "subpage_t list"

section \<open>Building the tree\<close>

text \<open>
  The capacity of the node array and the engine's \<^verbatim>\<open>alloc_hint\<close> after \<^verbatim>\<open>phys_map_node_reserve\<close>. The
  other definitions leave the capacity out; theory \<^verbatim>\<open>Dispatch\<close> shows that the reservation is enough.
\<close>

definition phys_map_node_reserve :: "nat \<Rightarrow> nat \<Rightarrow> nat \<Rightarrow> nat \<Rightarrow> nat \<times> nat" where
  "phys_map_node_reserve alloc_hint nodes_nb_alloc nodes_nb n =
    (if nodes_nb_alloc < nodes_nb + n
     then let alloc = max alloc_hint (nodes_nb + n) in (alloc, alloc)
     else (nodes_nb_alloc, alloc_hint))"

definition phys_map_node_alloc :: "Node list \<Rightarrow> bool \<Rightarrow> Node list \<times> nat" where
  "phys_map_node_alloc ns leaf =
    (let e = \<lparr>pe_skip = (if leaf then 0 else 1),
              pe_ptr = (if leaf then PHYS_SECTION_UNASSIGNED else PHYS_MAP_NODE_NIL)\<rparr> in
     (ns @ [replicate P_L2_SIZE e], length ns))"

definition node_store :: "Node list \<Rightarrow> nat \<Rightarrow> nat \<Rightarrow> PhysPageEntry \<Rightarrow> Node list" where
  "node_store ns n i e = ns[n := (ns ! n)[i := e]]"

text \<open>
  \<^verbatim>\<open>phys_page_set_level\<close> works through a pointer to an entry; the model takes the entry and returns
  it updated, and the loop stores it back into the node it came from. \<^term>\<open>index\<close> and \<^term>\<open>nb\<close> are
  in-out parameters. At level 0 a step is one page, so the recursive call is never reached there.
\<close>

definition ensure_node :: "Node list \<Rightarrow> PhysPageEntry \<Rightarrow> nat \<Rightarrow> Node list \<times> PhysPageEntry" where
  "ensure_node ns lp level =
    (if pe_skip lp \<noteq> 0 \<and> pe_ptr lp = PHYS_MAP_NODE_NIL
     then let (ns, r) = phys_map_node_alloc ns (level = 0) in (ns, lp\<lparr>pe_ptr := r\<rparr>)
     else (ns, lp))"

function phys_page_set_level ::
  "Node list \<Rightarrow> PhysPageEntry \<Rightarrow> nat \<Rightarrow> nat \<Rightarrow> nat \<Rightarrow> nat \<Rightarrow> Node list \<times> PhysPageEntry \<times> nat \<times> nat"
and phys_page_set_loop ::
  "Node list \<Rightarrow> nat \<Rightarrow> nat \<Rightarrow> nat \<Rightarrow> nat \<Rightarrow> nat \<Rightarrow> nat \<Rightarrow> Node list \<times> nat \<times> nat" where
  "phys_page_set_level ns lp index nb leaf level =
    (let (ns, lp) = ensure_node ns lp level;
       (ns, index, nb) = phys_page_set_loop ns (pe_ptr lp)
         ((index div P_L2_SIZE ^ level) mod P_L2_SIZE) index nb leaf level in
     (ns, lp, index, nb))"
| "phys_page_set_loop ns p i index nb leaf level =
    (let step = P_L2_SIZE ^ level in
     if nb \<noteq> 0 \<and> i < P_L2_SIZE then
       if index mod step = 0 \<and> step \<le> nb
       then phys_page_set_loop (node_store ns p i \<lparr>pe_skip = 0, pe_ptr = leaf\<rparr>) p (Suc i)
         (index + step) (nb - step) leaf level
       else (case level of
           0 \<Rightarrow> (ns, index, nb)
         | Suc l \<Rightarrow>
             let (ns, lp, index, nb) = phys_page_set_level ns (ns ! p ! i) index nb leaf l in
             phys_page_set_loop (node_store ns p i lp) p (Suc i) index nb leaf level)
     else (ns, index, nb))"
  by pat_completeness auto
termination
  by (relation "measures [
      \<lambda>x. case x of Inl (_, _, _, _, _, level) \<Rightarrow> 2 * level + 1 | Inr (_, _, _, _, _, _, level) \<Rightarrow> 2 * level,
      \<lambda>x. case x of Inl _ \<Rightarrow> 0 | Inr (_, _, i, _, _, _, _) \<Rightarrow> P_L2_SIZE - i]") auto

declare phys_page_set_level.simps [simp del] phys_page_set_loop.simps [simp del]

definition phys_page_set :: "nat \<Rightarrow> AddressSpaceDispatch \<Rightarrow> nat \<Rightarrow> nat \<Rightarrow> nat \<Rightarrow> AddressSpaceDispatch" where
  "phys_page_set bits d index nb leaf =
    (let (ns, lp, _, _) = phys_page_set_level (nodes d) (phys_map d) index nb leaf (P_L2_LEVELS bits - 1) in
     d\<lparr>nodes := ns, phys_map := lp\<rparr>)"

text \<open>
  \<^verbatim>\<open>phys_map_node_alloc\<close> asserts that a node number stays below \<^const>\<open>PHYS_MAP_NODE_NIL\<close>: \<^const>\<open>None\<close> is the
  failed assertion.
\<close>

definition phys_page_set_checked ::
  "nat \<Rightarrow> AddressSpaceDispatch \<Rightarrow> nat \<Rightarrow> nat \<Rightarrow> nat \<Rightarrow> AddressSpaceDispatch option" where
  "phys_page_set_checked bits d index nb leaf =
    (let d = phys_page_set bits d index nb leaf in
     if length (nodes d) \<le> PHYS_MAP_NODE_NIL then Some d else None)"

section \<open>Lookup\<close>

definition section_covers_addr :: "DispatchSection \<Rightarrow> u64 \<Rightarrow> bool" where
  "section_covers_addr s a \<longleftrightarrow>
    ds_size s div 2 ^ 64 \<noteq> 0 \<or>
    (ds_offset_within_address_space s \<le> a \<and>
     a \<le> ds_offset_within_address_space s + word_of_int (ds_size s mod 2 ^ 64) - 1)"

text \<open>The walk of \<^verbatim>\<open>phys_page_find\<close>; \<^term>\<open>Inl\<close> is the early return at a nil entry.\<close>

function phys_page_walk :: "Node list \<Rightarrow> nat \<Rightarrow> PhysPageEntry \<Rightarrow> nat \<Rightarrow> unit + PhysPageEntry" where
  "phys_page_walk ns index lp i =
    (if pe_skip lp \<noteq> 0 \<and> pe_skip lp \<le> i then
       let i = i - pe_skip lp in
       if pe_ptr lp = PHYS_MAP_NODE_NIL then Inl ()
       else phys_page_walk ns index (ns ! pe_ptr lp ! ((index div P_L2_SIZE ^ i) mod P_L2_SIZE)) i
     else Inr lp)"
  by pat_completeness auto
termination by (relation "measure (\<lambda>(_, _, _, i). i)") auto

declare phys_page_walk.simps [simp del]

definition phys_page_find :: "nat \<Rightarrow> AddressSpaceDispatch \<Rightarrow> u64 \<Rightarrow> nat" where
  "phys_page_find bits d addr =
    (case phys_page_walk (nodes d) (unat addr div 2 ^ bits) (phys_map d)
        (P_L2_LEVELS bits) of
       Inl _ \<Rightarrow> PHYS_SECTION_UNASSIGNED
     | Inr lp \<Rightarrow>
         if section_covers_addr (sections d ! pe_ptr lp) addr then pe_ptr lp
         else PHYS_SECTION_UNASSIGNED)"

section \<open>Compaction\<close>

text \<open>
  \<^verbatim>\<open>phys_page_compact\<close>, with a bound on the depth of the tree and the entry returned as above.
\<close>

fun phys_page_compact :: "nat \<Rightarrow> nat \<Rightarrow> Node list \<Rightarrow> PhysPageEntry \<Rightarrow> Node list \<times> PhysPageEntry" where
  "phys_page_compact bits 0 ns lp = (ns, lp)"
| "phys_page_compact bits (Suc depth) ns lp =
    (if pe_ptr lp = PHYS_MAP_NODE_NIL then (ns, lp)
     else
       let p = pe_ptr lp;
           (ns, valid_ptr, valid) = fold
             (\<lambda>i (ns, valid_ptr, valid).
               if pe_ptr (ns ! p ! i) = PHYS_MAP_NODE_NIL then (ns, valid_ptr, valid)
               else if pe_skip (ns ! p ! i) \<noteq> 0
               then let (ns, e) = phys_page_compact bits depth ns (ns ! p ! i) in
                 (node_store ns p i e, i, valid + 1)
               else (ns, i, valid + 1))
             [0 ..< P_L2_SIZE] (ns, P_L2_SIZE, 0 :: nat) in
       if valid \<noteq> 1 then (ns, lp)
       else
         let c = ns ! p ! valid_ptr in
         if 2 ^ 6 \<le> P_L2_LEVELS bits \<and> 2 ^ 6 \<le> pe_skip lp + pe_skip c then (ns, lp)
         else (ns, lp\<lparr>pe_ptr := pe_ptr c, pe_skip := (if pe_skip c = 0 then 0 else pe_skip lp + pe_skip c)\<rparr>))"

definition address_space_dispatch_compact :: "nat \<Rightarrow> AddressSpaceDispatch \<Rightarrow> AddressSpaceDispatch" where
  "address_space_dispatch_compact bits d =
    (if pe_skip (phys_map d) \<noteq> 0
     then let (ns, lp) = phys_page_compact bits (P_L2_LEVELS bits) (nodes d) (phys_map d) in
       d\<lparr>nodes := ns, phys_map := lp\<rparr>
     else d)"

section \<open>Registering sections\<close>

text \<open>The number of the new section is returned as a \<^verbatim>\<open>uint16_t\<close>.\<close>

definition phys_section_add ::
  "nat \<Rightarrow> AddressSpaceDispatch \<Rightarrow> DispatchSection \<Rightarrow> (AddressSpaceDispatch \<times> nat) option" where
  "phys_section_add bits d s =
    (if length (sections d) < 2 ^ bits
     then Some (d\<lparr>sections := sections d @ [s]\<rparr>, length (sections d) mod 2 ^ 16) else None)"

definition target_page_offset :: "nat \<Rightarrow> u64 \<Rightarrow> u64" where
  "target_page_offset bits a = take_bit bits a"

definition target_page_base :: "nat \<Rightarrow> u64 \<Rightarrow> u64" where
  "target_page_base bits a = a - take_bit bits a"

definition subpage_init :: "nat \<Rightarrow> u64 \<Rightarrow> subpage_t" where
  "subpage_init bits base =
    \<lparr>sp_base = base, sp_sub_section = replicate (2 ^ bits) PHYS_SECTION_UNASSIGNED\<rparr>"

definition subpage_register :: "nat \<Rightarrow> subpage_t \<Rightarrow> u32 \<Rightarrow> u32 \<Rightarrow> nat \<Rightarrow> subpage_t" where
  "subpage_register bits sp s e sec =
    (if 2 ^ bits \<le> unat s \<or> 2 ^ bits \<le> unat e then sp
     else sp\<lparr>sp_sub_section :=
       map (\<lambda>i. if unat s \<le> i \<and> i \<le> unat e then sec else sp_sub_section sp ! i)
         [0 ..< length (sp_sub_section sp)]\<rparr>)"

definition register_subpage ::
  "nat \<Rightarrow> AddressSpaceDispatch \<Rightarrow> DispatchSection \<Rightarrow> AddressSpaceDispatch option" where
  "register_subpage bits d s =
    (let base = target_page_base bits (ds_offset_within_address_space s);
         existing = sections d ! phys_page_find bits d base in
     do {
       (d, k) \<leftarrow> (case ds_mr existing of
           SecSubpage k \<Rightarrow> Some (d, k)
         | SecRegion _ \<Rightarrow> None
         | SecUnassigned \<Rightarrow> do {
             let k = length (subpages d);
             let d = d\<lparr>subpages := subpages d @ [subpage_init bits base]\<rparr>;
             (d, n) \<leftarrow> phys_section_add bits d
               \<lparr>ds_mr = SecSubpage k, ds_offset_within_region = 0, ds_size = 2 ^ bits,
                ds_offset_within_address_space = base, ds_readonly = False\<rparr>;
             d \<leftarrow> phys_page_set_checked bits d (unat base div 2 ^ bits) 1 n;
             Some (d, k) });
       let start = target_page_offset bits (ds_offset_within_address_space s);
       sz \<leftarrow> get64 (ds_size s);
       let last = start + sz - 1;
       (d, n) \<leftarrow> phys_section_add bits d s;
       Some (d\<lparr>subpages := (subpages d)[k :=
         subpage_register bits (subpages d ! k) (ucast start) (ucast last) n]\<rparr>) })"

definition register_multipage ::
  "nat \<Rightarrow> AddressSpaceDispatch \<Rightarrow> DispatchSection \<Rightarrow> AddressSpaceDispatch option" where
  "register_multipage bits d s = do {
     (d, section_index) \<leftarrow> phys_section_add bits d s;
     num_pages \<leftarrow> get64 (ds_size s div 2 ^ bits);
     if num_pages = 0 then None
     else phys_page_set_checked bits d (unat (ds_offset_within_address_space s) div 2 ^ bits)
       (unat num_pages) section_index }"

text \<open>Cutting \<^term>\<open>n\<close> bytes off the front of a section.\<close>

definition section_advance :: "DispatchSection \<Rightarrow> int \<Rightarrow> DispatchSection option" where
  "section_advance s n = do {
     w \<leftarrow> get64 n;
     Some (s\<lparr>ds_size := ds_size s - n,
       ds_offset_within_address_space := ds_offset_within_address_space s + w,
       ds_offset_within_region := ds_offset_within_region s + w\<rparr>) }"

definition register_rest ::
  "nat \<Rightarrow> AddressSpaceDispatch \<Rightarrow> DispatchSection \<Rightarrow> AddressSpaceDispatch option" where
  "register_rest bits d remain =
    (if 2 ^ bits \<le> ds_size remain then do {
       let now = remain\<lparr>ds_size := ds_size remain - ds_size remain mod 2 ^ bits\<rparr>;
       d \<leftarrow> register_multipage bits d now;
       if ds_size remain = ds_size now then Some d
       else do {
         remain \<leftarrow> section_advance remain (ds_size now);
         register_subpage bits d remain } }
     else register_subpage bits d remain)"

definition flatview_add_to_dispatch ::
  "nat \<Rightarrow> AddressSpaceDispatch \<Rightarrow> DispatchSection \<Rightarrow> AddressSpaceDispatch option" where
  "flatview_add_to_dispatch bits d s =
    (if target_page_offset bits (ds_offset_within_address_space s) \<noteq> 0 then do {
       let left = (2 ^ bits - unat (target_page_offset bits (ds_offset_within_address_space s)));
       let now = s\<lparr>ds_size := min (int left) (ds_size s)\<rparr>;
       d \<leftarrow> register_subpage bits d now;
       if ds_size s = ds_size now then Some d
       else do {
         remain \<leftarrow> section_advance s (ds_size now);
         register_rest bits d remain } }
     else register_rest bits d s)"

definition address_space_dispatch_new :: "nat \<Rightarrow> AddressSpaceDispatch" where
  "address_space_dispatch_new bits =
    \<lparr>mru_section = None, phys_map = \<lparr>pe_skip = 1, pe_ptr = PHYS_MAP_NODE_NIL\<rparr>, nodes = [],
     sections = [\<lparr>ds_mr = SecUnassigned, ds_offset_within_region = 0, ds_size = 2 ^ 64,
       ds_offset_within_address_space = 0, ds_readonly = False\<rparr>],
     subpages = []\<rparr>"

definition dispatch_section :: "MemoryRegionSection \<Rightarrow> DispatchSection" where
  "dispatch_section s =
    \<lparr>ds_mr = SecRegion (sec_mr s), ds_offset_within_region = sec_offset_within_region s,
     ds_size = sec_size s, ds_offset_within_address_space = sec_offset_within_address_space s,
     ds_readonly = sec_readonly s\<rparr>"

text \<open>The part of \<^verbatim>\<open>generate_memory_topology\<close> after the ranges are known.\<close>

definition generate_dispatch :: "nat \<Rightarrow> ranges \<Rightarrow> AddressSpaceDispatch option" where
  "generate_dispatch bits view = do {
     d \<leftarrow> foldM (\<lambda>fr d. do {
         s \<leftarrow> section_from_flat_range fr;
         flatview_add_to_dispatch bits d (dispatch_section s) })
       view (address_space_dispatch_new bits);
     Some (address_space_dispatch_compact bits d) }"

text \<open>
  \<^verbatim>\<open>address_space_lookup_region\<close>, with its cache of the last section found. The result is the index
  of the section.
\<close>

definition address_space_lookup_region ::
  "nat \<Rightarrow> AddressSpaceDispatch \<Rightarrow> u64 \<Rightarrow> bool \<Rightarrow> nat \<times> AddressSpaceDispatch" where
  "address_space_lookup_region bits d addr resolve_subpage =
    (let (n, d) =
       (case mru_section d of
          Some m \<Rightarrow>
            if m = PHYS_SECTION_UNASSIGNED \<or> \<not> section_covers_addr (sections d ! m) addr
            then let n = phys_page_find bits d addr in (n, d\<lparr>mru_section := Some n\<rparr>)
            else (m, d)
        | None \<Rightarrow> let n = phys_page_find bits d addr in (n, d\<lparr>mru_section := Some n\<rparr>)) in
     case ds_mr (sections d ! n) of
       SecSubpage k \<Rightarrow>
         ((if resolve_subpage
           then sp_sub_section (subpages d ! k) ! unat (target_page_offset bits addr) else n), d)
     | _ \<Rightarrow> (n, d))"

section \<open>The tree as a map from page numbers\<close>

lemma P_L2_SIZE_gt [simp]: "0 < P_L2_SIZE" "Suc 0 < P_L2_SIZE" "P_L2_SIZE \<noteq> 0"
  by (simp_all add: P_L2_SIZE_def P_L2_BITS_def)

text \<open>
  An entry of height \<^term>\<open>h\<close> covers \<^term>\<open>P_L2_SIZE ^ h\<close> pages. \<^verbatim>\<open>nodes_of\<close> collects the nodes below an
  entry, \<^verbatim>\<open>tree\<close> says that they form a tree, and \<^verbatim>\<open>leaf_sec\<close> is the section index the entry gives a
  page. A big leaf is a leaf that covers more than one page.
\<close>

definition internal :: "PhysPageEntry \<Rightarrow> bool" where
  "internal e \<longleftrightarrow> pe_skip e \<noteq> 0 \<and> pe_ptr e \<noteq> PHYS_MAP_NODE_NIL"

definition slot :: "nat \<Rightarrow> nat \<Rightarrow> nat" where
  "slot h idx = (idx div P_L2_SIZE ^ h) mod P_L2_SIZE"

fun nodes_of :: "nat \<Rightarrow> Node list \<Rightarrow> PhysPageEntry \<Rightarrow> nat set" where
  "nodes_of 0 ns e = {}"
| "nodes_of (Suc h) ns e =
    (if internal e then insert (pe_ptr e) (\<Union>i \<in> {..<P_L2_SIZE}. nodes_of h ns (ns ! pe_ptr e ! i)) else {})"

fun tree :: "nat \<Rightarrow> Node list \<Rightarrow> PhysPageEntry \<Rightarrow> bool" where
  "tree 0 ns e \<longleftrightarrow> pe_skip e = 0"
| "tree (Suc h) ns e \<longleftrightarrow> pe_skip e \<le> 1 \<and>
    (internal e \<longrightarrow>
       pe_ptr e < length ns \<and> length (ns ! pe_ptr e) = P_L2_SIZE \<and>
       (\<forall>i < P_L2_SIZE. tree h ns (ns ! pe_ptr e ! i) \<and> pe_ptr e \<notin> nodes_of h ns (ns ! pe_ptr e ! i)) \<and>
       (\<forall>i < P_L2_SIZE. \<forall>j < P_L2_SIZE. i \<noteq> j \<longrightarrow>
          nodes_of h ns (ns ! pe_ptr e ! i) \<inter> nodes_of h ns (ns ! pe_ptr e ! j) = {}))"

fun leaf_sec :: "nat \<Rightarrow> Node list \<Rightarrow> PhysPageEntry \<Rightarrow> nat \<Rightarrow> nat" where
  "leaf_sec 0 ns e idx = pe_ptr e"
| "leaf_sec (Suc h) ns e idx =
    (if pe_skip e = 0 then pe_ptr e
     else if pe_ptr e = PHYS_MAP_NODE_NIL then PHYS_SECTION_UNASSIGNED
     else leaf_sec h ns (ns ! pe_ptr e ! slot h idx) idx)"

fun big_leaf :: "nat \<Rightarrow> Node list \<Rightarrow> PhysPageEntry \<Rightarrow> nat \<Rightarrow> bool" where
  "big_leaf 0 ns e idx \<longleftrightarrow> False"
| "big_leaf (Suc h) ns e idx \<longleftrightarrow>
    pe_skip e = 0 \<or> pe_ptr e \<noteq> PHYS_MAP_NODE_NIL \<and> big_leaf h ns (ns ! pe_ptr e ! slot h idx) idx"

lemma slot_less [simp]: "slot h idx < P_L2_SIZE"
  by (simp add: slot_def)

lemma nodes_of_bound: "tree h ns e \<Longrightarrow> nodes_of h ns e \<subseteq> {..<length ns}"
proof (induction h arbitrary: e)
  case (Suc h)
  then have "nodes_of h ns (ns ! pe_ptr e ! i) \<subseteq> {..<length ns}" if "internal e" "i < P_L2_SIZE" for i
    using that by simp
  with Suc.prems show ?case by (cases "internal e") auto
qed simp

text \<open>Two node arrays that agree below an entry give it the same tree.\<close>

lemma nodes_of_frame:
  "(\<And>n. n \<in> nodes_of h ns e \<Longrightarrow> ns' ! n = ns ! n) \<Longrightarrow> nodes_of h ns' e = nodes_of h ns e"
proof (induction h arbitrary: e)
  case (Suc h)
  show ?case
  proof (cases "internal e")
    case True
    then have "ns' ! pe_ptr e = ns ! pe_ptr e" using Suc.prems by simp
    moreover have "nodes_of h ns' (ns ! pe_ptr e ! i) = nodes_of h ns (ns ! pe_ptr e ! i)"
      if "i < P_L2_SIZE" for i
      using that True by (intro Suc.IH Suc.prems) auto
    ultimately show ?thesis using True by simp
  qed simp
qed simp

lemma tree_frame:
  assumes "\<And>n. n \<in> nodes_of h ns e \<Longrightarrow> ns' ! n = ns ! n" "length ns \<le> length ns'" "tree h ns e"
  shows "tree h ns' e"
  using assms
proof (induction h arbitrary: e)
  case (Suc h)
  show ?case
  proof (cases "internal e")
    case True
    then have p: "ns' ! pe_ptr e = ns ! pe_ptr e" using Suc.prems by simp
    have sub: "ns' ! n = ns ! n" if "i < P_L2_SIZE" "n \<in> nodes_of h ns (ns ! pe_ptr e ! i)" for i n
      using that True by (intro Suc.prems(1)) auto
    have "nodes_of h ns' (ns ! pe_ptr e ! i) = nodes_of h ns (ns ! pe_ptr e ! i)"
      if "i < P_L2_SIZE" for i
      using that by (intro nodes_of_frame sub)
    moreover have "tree h ns' (ns ! pe_ptr e ! i)" if "i < P_L2_SIZE" for i
      using that Suc.prems(2,3) True by (intro Suc.IH sub) auto
    ultimately show ?thesis using Suc.prems(2,3) True p by auto
  qed (use Suc.prems in simp)
qed simp

lemma leaf_sec_frame:
  "(\<And>n. n \<in> nodes_of h ns e \<Longrightarrow> ns' ! n = ns ! n) \<Longrightarrow> leaf_sec h ns' e idx = leaf_sec h ns e idx"
proof (induction h arbitrary: e)
  case (Suc h)
  show ?case
  proof (cases "internal e")
    case True
    then have p: "ns' ! pe_ptr e = ns ! pe_ptr e" using Suc.prems by simp
    have "leaf_sec h ns' (ns ! pe_ptr e ! slot h idx) idx = leaf_sec h ns (ns ! pe_ptr e ! slot h idx) idx"
      using True slot_less [of h idx] by (intro Suc.IH Suc.prems) auto
    with p show ?thesis by simp
  qed (auto simp: internal_def)
qed simp

lemma big_leaf_frame:
  "(\<And>n. n \<in> nodes_of h ns e \<Longrightarrow> ns' ! n = ns ! n) \<Longrightarrow> big_leaf h ns' e idx = big_leaf h ns e idx"
proof (induction h arbitrary: e)
  case (Suc h)
  show ?case
  proof (cases "internal e")
    case True
    then have p: "ns' ! pe_ptr e = ns ! pe_ptr e" using Suc.prems by simp
    have "big_leaf h ns' (ns ! pe_ptr e ! slot h idx) idx = big_leaf h ns (ns ! pe_ptr e ! slot h idx) idx"
      using True slot_less [of h idx] by (intro Suc.IH Suc.prems) auto
    with p show ?thesis by simp
  qed (auto simp: internal_def)
qed simp

section \<open>Setting a range of pages\<close>

text \<open>
  What a step on the entry \<^term>\<open>e\<close> of height \<^term>\<open>h\<close> may do: it works below \<^term>\<open>e\<close> and in fresh nodes.
\<close>

definition confined :: "nat \<Rightarrow> Node list \<Rightarrow> PhysPageEntry \<Rightarrow> Node list \<Rightarrow> PhysPageEntry \<Rightarrow> bool" where
  "confined h ns e ns' e' \<longleftrightarrow>
    length ns \<le> length ns' \<and> tree h ns' e' \<and>
    nodes_of h ns' e' \<subseteq> nodes_of h ns e \<union> {length ns ..< length ns'} \<and>
    (\<forall>n < length ns. n \<notin> nodes_of h ns e \<longrightarrow> ns' ! n = ns ! n)"

lemma node_store_simps [simp]:
  "length (node_store ns p i e) = length ns"
  "n \<noteq> p \<Longrightarrow> node_store ns p i e ! n = ns ! n"
  "p < length ns \<Longrightarrow> node_store ns p i e ! p = (ns ! p)[i := e]"
  by (simp_all add: node_store_def)

lemma disjoint_grow:
  fixes n :: nat
  assumes "A' \<subseteq> A \<union> N" "B' \<subseteq> B \<union> M" "A \<inter> B = {}" "A \<subseteq> {..<n}" "B \<subseteq> {..<n}"
    "N \<subseteq> {n..}" "M \<subseteq> {n..}" "N \<inter> M = {}"
  shows "A' \<inter> B' = {}"
  using assms by fastforce

text \<open>Storing the entry that a confined step on slot \<^term>\<open>i\<close> returned.\<close>

lemma slot_update:
  assumes t: "tree (Suc h) ns e" and int: "internal e" and i: "i < P_L2_SIZE"
    and c: "confined h ns (ns ! pe_ptr e ! i) ns1 ei"
  defines "ns2 \<equiv> node_store ns1 (pe_ptr e) i ei"
  shows "confined (Suc h) ns e ns2 e"
    and "leaf_sec (Suc h) ns2 e idx =
      (if slot h idx = i then leaf_sec h ns1 ei idx else leaf_sec (Suc h) ns e idx)"
    and "big_leaf (Suc h) ns2 e idx =
      (if slot h idx = i then big_leaf h ns1 ei idx else big_leaf (Suc h) ns e idx)"
    and "ns2 ! pe_ptr e = (ns ! pe_ptr e)[i := ei]"
proof -
  let ?p = "pe_ptr e" and ?s = "\<lambda>j. ns ! pe_ptr e ! j"
  have len: "length ns \<le> length ns1" and t1: "tree h ns1 ei"
    and new: "nodes_of h ns1 ei \<subseteq> nodes_of h ns (?s i) \<union> {length ns ..< length ns1}"
    and keep: "\<And>n. n < length ns \<Longrightarrow> n \<notin> nodes_of h ns (?s i) \<Longrightarrow> ns1 ! n = ns ! n"
    using c by (auto simp: confined_def)
  have p: "?p < length ns" "length (ns ! ?p) = P_L2_SIZE"
    and sub: "\<And>j. j < P_L2_SIZE \<Longrightarrow> tree h ns (?s j)" "\<And>j. j < P_L2_SIZE \<Longrightarrow> ?p \<notin> nodes_of h ns (?s j)"
    and disj: "\<And>j k. j < P_L2_SIZE \<Longrightarrow> k < P_L2_SIZE \<Longrightarrow> j \<noteq> k \<Longrightarrow>
      nodes_of h ns (?s j) \<inter> nodes_of h ns (?s k) = {}"
    using t int by auto
  have p1: "ns1 ! ?p = ns ! ?p" using keep p(1) sub(2) i by simp
  show n2: "ns2 ! ?p = (ns ! ?p)[i := ei]" using p len p1 by (simp add: ns2_def)
  have len2: "length ns2 = length ns1" by (simp add: ns2_def)
  have other2: "ns2 ! n = ns1 ! n" if "n \<noteq> ?p" for n using that by (simp add: ns2_def)
  have pnew: "?p \<notin> nodes_of h ns1 ei" using new sub(2) [OF i] p(1) by auto
  have ei: "nodes_of h ns2 ei = nodes_of h ns1 ei" "tree h ns2 ei"
    "leaf_sec h ns2 ei idx = leaf_sec h ns1 ei idx" "big_leaf h ns2 ei idx = big_leaf h ns1 ei idx"
    using pnew t1 len2 other2
    by (metis nodes_of_frame, metis tree_frame order_refl, metis leaf_sec_frame, metis big_leaf_frame)
  have fr: "ns2 ! n = ns ! n" if "j < P_L2_SIZE" "j \<noteq> i" "n \<in> nodes_of h ns (?s j)" for j n
  proof -
    have "n < length ns" using that nodes_of_bound [OF sub(1)] by blast
    moreover have "n \<notin> nodes_of h ns (?s i)" using that disj i by blast
    moreover have "n \<noteq> ?p" using that sub(2) by blast
    ultimately show ?thesis using other2 keep by simp
  qed
  have sj: "nodes_of h ns2 (?s j) = nodes_of h ns (?s j)" "tree h ns2 (?s j)"
    "leaf_sec h ns2 (?s j) idx = leaf_sec h ns (?s j) idx"
    "big_leaf h ns2 (?s j) idx = big_leaf h ns (?s j) idx"
    if "j < P_L2_SIZE" "j \<noteq> i" for j
    using that fr sub(1) len len2
    by (metis nodes_of_frame, metis tree_frame, metis leaf_sec_frame, metis big_leaf_frame)
  have slotj: "ns2 ! ?p ! j = (if j = i then ei else ?s j)" if "j < P_L2_SIZE" for j
    using that n2 p(2) by simp
  show "leaf_sec (Suc h) ns2 e idx =
      (if slot h idx = i then leaf_sec h ns1 ei idx else leaf_sec (Suc h) ns e idx)"
    using int slotj [of "slot h idx"] ei sj [of "slot h idx"] by (simp add: internal_def)
  show "big_leaf (Suc h) ns2 e idx =
      (if slot h idx = i then big_leaf h ns1 ei idx else big_leaf (Suc h) ns e idx)"
    using int slotj [of "slot h idx"] ei sj [of "slot h idx"] by (simp add: internal_def)
  have below: "nodes_of h ns2 (ns2 ! ?p ! j) \<subseteq>
      nodes_of h ns (?s j) \<union> (if j = i then {length ns ..< length ns1} else {})" if "j < P_L2_SIZE" for j
    using that slotj ei(1) sj(1) new by (cases "j = i") simp_all
  have "tree (Suc h) ns2 e"
  proof -
    have "nodes_of h ns2 (ns2 ! ?p ! j) \<inter> nodes_of h ns2 (ns2 ! ?p ! k) = {}"
      if "j < P_L2_SIZE" "k < P_L2_SIZE" "j \<noteq> k" for j k
      using that by (intro disjoint_grow [OF below [of j] below [of k] disj [of j k]
            nodes_of_bound [OF sub(1), of j] nodes_of_bound [OF sub(1), of k]]) auto
    moreover have "?p \<notin> nodes_of h ns2 (ns2 ! ?p ! j)" if "j < P_L2_SIZE" for j
      using below [OF that] sub(2) [OF that] p(1) by (auto split: if_splits)
    moreover have "tree h ns2 (ns2 ! ?p ! j)" if "j < P_L2_SIZE" for j
      using that slotj ei(2) sj(2) by simp
    ultimately show ?thesis using t p n2 len len2 by simp
  qed
  moreover have "nodes_of (Suc h) ns2 e \<subseteq> nodes_of (Suc h) ns e \<union> {length ns ..< length ns2}"
  proof -
    have "nodes_of h ns2 (ns2 ! ?p ! j) \<subseteq> nodes_of h ns (?s j) \<union> {length ns ..< length ns1}"
      if "j < P_L2_SIZE" for j using below [OF that] by (auto split: if_splits)
    then show ?thesis using int len2 by fastforce
  qed
  moreover have "ns2 ! n = ns ! n" if "n < length ns" "n \<notin> nodes_of (Suc h) ns e" for n
    using that int i other2 keep by auto
  ultimately show "confined (Suc h) ns e ns2 e" using len len2 by (simp add: confined_def)
qed

lemma confined_refl: "tree h ns e \<Longrightarrow> confined h ns e ns e"
  by (simp add: confined_def)

lemma confined_trans:
  assumes "confined h ns e ns1 e1" "confined h ns1 e1 ns2 e2"
  shows "confined h ns e ns2 e2"
proof -
  have "ns2 ! n = ns ! n" if "n < length ns" "n \<notin> nodes_of h ns e" for n
  proof -
    have "n \<notin> nodes_of h ns1 e1" "n < length ns1" using assms(1) that by (auto simp: confined_def)
    then show ?thesis using assms that by (simp add: confined_def)
  qed
  moreover have "nodes_of h ns2 e2 \<subseteq> nodes_of h ns e \<union> {length ns ..< length ns2}"
    using assms unfolding confined_def by fastforce
  ultimately show ?thesis using assms by (simp add: confined_def)
qed

text \<open>A leaf stored into a slot.\<close>

lemma confined_leaf: "confined h ns e ns \<lparr>pe_skip = 0, pe_ptr = s\<rparr>"
  by (cases h) (auto simp: confined_def internal_def)

text \<open>The pages a call on an entry of height \<^term>\<open>h\<close> sets: up to the end of the entry's span.\<close>

definition advance :: "nat \<Rightarrow> nat \<Rightarrow> nat \<Rightarrow> nat" where
  "advance h index nb = min nb (P_L2_SIZE ^ h - index mod P_L2_SIZE ^ h)"

definition set_spec ::
  "nat \<Rightarrow> Node list \<Rightarrow> PhysPageEntry \<Rightarrow> nat \<Rightarrow> nat \<Rightarrow> nat \<Rightarrow> Node list \<Rightarrow> PhysPageEntry \<Rightarrow> nat \<Rightarrow> bool" where
  "set_spec h ns e index k leaf ns' e' span \<longleftrightarrow>
    confined h ns e ns' e' \<and>
    (\<forall>idx. idx div P_L2_SIZE ^ h = span \<longrightarrow>
       leaf_sec h ns' e' idx = (if index \<le> idx \<and> idx < index + k then leaf else leaf_sec h ns e idx) \<and>
       (\<not> (index \<le> idx \<and> idx < index + k) \<longrightarrow> big_leaf h ns' e' idx = big_leaf h ns e idx))"

lemma mod_slot: "index mod P_L2_SIZE ^ Suc l = slot l index * P_L2_SIZE ^ l + index mod P_L2_SIZE ^ l"
  by (simp only: slot_def power_Suc2 mod_mult2_eq) (simp add: mult.commute)

lemma div_slot: "idx div P_L2_SIZE ^ l = idx div P_L2_SIZE ^ Suc l * P_L2_SIZE + slot l idx"
  by (simp only: slot_def power_Suc2 div_mult2_eq div_mult_mod_eq)

lemma round_up_sum: "m < b \<Longrightarrow> i = q * b + m \<Longrightarrow> i + (b - m) = (q + 1) * b" for b :: nat
  by simp

lemma round_up: "0 < b \<Longrightarrow> index + (b - index mod b) = (index div b + 1) * b" for b :: nat
  by (rule round_up_sum) simp_all

lemma span_last:
  fixes x :: nat
  assumes "r < b" "b + y \<le> x" "nb - min nb (b - r) = 0 \<or> x = b + y"
  shows "min nb (x - (y + r)) = min nb (b - r)"
  using assms by (auto simp: min_def split: if_splits)

lemma span_next:
  fixes x :: nat
  assumes "r < b" "b + y \<le> x" "nb - min nb (b - r) \<noteq> 0"
  shows "min nb (x - (y + r)) = (b - r) + min (nb - (b - r)) (x - (b + y))"
proof -
  obtain c where c: "b = r + c" using assms(1) less_imp_add_positive by blast
  obtain z where z: "x = b + y + z" using assms(2) le_Suc_ex by blast
  have "c < nb" using assms(3) c by (simp add: min_def split: if_splits)
  then show ?thesis unfolding z c by (simp add: min_def) arith
qed

lemma in_advance:
  assumes "index \<le> idx" "idx < index + advance h index nb"
  shows "idx div P_L2_SIZE ^ h = index div P_L2_SIZE ^ h"
proof -
  let ?b = "P_L2_SIZE ^ h"
  have "idx < index + (?b - index mod ?b)" using assms by (simp add: advance_def)
  also have "\<dots> = (index div ?b + 1) * ?b"
    by (rule round_up) simp
  finally have "idx div ?b < index div ?b + 1" by (simp add: less_mult_imp_div_less)
  moreover have "index div ?b \<le> idx div ?b" using assms(1) by (rule div_le_mono)
  ultimately show ?thesis by simp
qed

text \<open>Moving to the next slot of the same node.\<close>

lemma advance_next:
  assumes "nb - advance l index nb \<noteq> 0" "Suc (slot l index) < P_L2_SIZE"
  defines "k1 \<equiv> advance l index nb"
  shows "slot l (index + k1) = Suc (slot l index)"
    and "(index + k1) div P_L2_SIZE ^ Suc l = index div P_L2_SIZE ^ Suc l"
    and "advance (Suc l) index nb = k1 + advance (Suc l) (index + k1) (nb - k1)"
proof -
  let ?b = "P_L2_SIZE ^ l"
  have k1: "k1 = ?b - index mod ?b" using assms by (auto simp: advance_def min_def)
  have lt: "index mod ?b < ?b" by simp
  have e: "index + k1 = (index div ?b + 1) * ?b"
    unfolding k1 by (rule round_up) simp
  have q: "(index + k1) div ?b = index div ?b + 1" using e by simp
  have "(index div ?b + 1) mod P_L2_SIZE = Suc (slot l index)"
    using assms(2) by (simp add: slot_def mod_Suc)
  then show s: "slot l (index + k1) = Suc (slot l index)" by (simp add: slot_def q)
  have "(index + k1) div P_L2_SIZE ^ Suc l * P_L2_SIZE = index div P_L2_SIZE ^ Suc l * P_L2_SIZE"
    using q s div_slot [of "index + k1" l] div_slot [of index l] by simp
  then show "(index + k1) div P_L2_SIZE ^ Suc l = index div P_L2_SIZE ^ Suc l" by simp
  have m: "(index + k1) mod P_L2_SIZE ^ Suc l = Suc (slot l index) * ?b"
    using e s by (simp only: mod_slot) simp
  have "Suc (slot l index) * ?b \<le> P_L2_SIZE * ?b" using assms(2) by (intro mult_right_mono) auto
  then have "?b + slot l index * ?b \<le> P_L2_SIZE ^ Suc l" by simp
  from span_next [OF lt this, of nb]
  show "advance (Suc l) index nb = k1 + advance (Suc l) (index + k1) (nb - k1)"
    using assms(1) unfolding advance_def m mod_slot [of index l] by (simp add: k1)
qed

lemma advance_last:
  assumes "nb - advance l index nb = 0 \<or> Suc (slot l index) = P_L2_SIZE"
  shows "advance (Suc l) index nb = advance l index nb"
proof -
  let ?b = "P_L2_SIZE ^ l"
  have "Suc (slot l index) * ?b \<le> P_L2_SIZE * ?b" using Suc_leI [OF slot_less [of l index]]
    by (intro mult_right_mono) auto
  then have le: "?b + slot l index * ?b \<le> P_L2_SIZE ^ Suc l" by simp
  have "nb - advance l index nb = 0 \<or> P_L2_SIZE ^ Suc l = ?b + slot l index * ?b"
    using assms by (metis mult_Suc power_Suc)
  with span_last [OF mod_less_divisor [of ?b index] le, of nb] show ?thesis
    unfolding advance_def mod_slot by simp
qed

text \<open>Unfolding the two functions one step at a time.\<close>

definition slot_step ::
  "Node list \<Rightarrow> nat \<Rightarrow> nat \<Rightarrow> nat \<Rightarrow> nat \<Rightarrow> nat \<Rightarrow> nat \<Rightarrow> Node list \<times> PhysPageEntry \<times> nat \<times> nat" where
  "slot_step ns p i index nb leaf l =
    (if index mod P_L2_SIZE ^ l = 0 \<and> P_L2_SIZE ^ l \<le> nb
     then (ns, \<lparr>pe_skip = 0, pe_ptr = leaf\<rparr>, index + P_L2_SIZE ^ l, nb - P_L2_SIZE ^ l)
     else phys_page_set_level ns (ns ! p ! i) index nb leaf (l - 1))"

lemma set_loop_step:
  assumes "nb \<noteq> 0" "i < P_L2_SIZE" "slot_step ns p i index nb leaf l = (ns1, ei, index1, nb1)"
  shows "phys_page_set_loop ns p i index nb leaf l =
    phys_page_set_loop (node_store ns1 p i ei) p (Suc i) index1 nb1 leaf l"
proof (cases "index mod P_L2_SIZE ^ l = 0 \<and> P_L2_SIZE ^ l \<le> nb")
  case True
  then show ?thesis using assms
    by (subst phys_page_set_loop.simps) (auto simp: slot_step_def Let_def)
next
  case False
  then obtain l' where "l = Suc l'" using assms(1) by (cases l) auto
  then show ?thesis using assms False
    by (subst phys_page_set_loop.simps) (auto simp: slot_step_def Let_def)
qed

lemma set_loop_done: "nb = 0 \<or> P_L2_SIZE \<le> i \<Longrightarrow> phys_page_set_loop ns p i index nb leaf l = (ns, index, nb)"
  by (subst phys_page_set_loop.simps) auto

lemma set_loop_mono:
  assumes "\<And>l' ns lp index nb leaf. l = Suc l' \<Longrightarrow>
    length ns \<le> length (fst (phys_page_set_level ns lp index nb leaf l'))"
  shows "length ns \<le> length (fst (phys_page_set_loop ns p i index nb leaf l))"
proof (induction "P_L2_SIZE - i" arbitrary: ns i index nb)
  case 0
  then show ?case by (simp add: set_loop_done)
next
  case (Suc k)
  show ?case
  proof (cases "nb = 0")
    case False
    obtain ns1 ei index1 nb1 where s: "slot_step ns p i index nb leaf l = (ns1, ei, index1, nb1)"
      by (metis prod_cases4)
    have "length ns \<le> length ns1"
    proof (cases "index mod P_L2_SIZE ^ l = 0 \<and> P_L2_SIZE ^ l \<le> nb")
      case f: False
      then obtain l' where "l = Suc l'" using False by (cases l) auto
      then show ?thesis using s f assms [of l' ns "ns ! p ! i" index nb leaf] by (auto simp: slot_step_def)
    qed (use s in \<open>auto simp: slot_step_def\<close>)
    moreover have "length (node_store ns1 p i ei) \<le>
        length (fst (phys_page_set_loop (node_store ns1 p i ei) p (Suc i) index1 nb1 leaf l))"
      using Suc.hyps(2) by (intro Suc.hyps(1)) simp
    ultimately show ?thesis using set_loop_step [OF False _ s] Suc.hyps(2) by simp
  qed (simp add: set_loop_done)
qed

lemma ensure_node_mono: "length ns \<le> length (fst (ensure_node ns lp l))"
  by (simp add: ensure_node_def phys_map_node_alloc_def Let_def)

lemma set_level_unfold:
  "ensure_node ns lp l = (ns1, lp1) \<Longrightarrow>
   phys_page_set_loop ns1 (pe_ptr lp1) (slot l index) index nb leaf l = (ns2, index2, nb2) \<Longrightarrow>
   phys_page_set_level ns lp index nb leaf l = (ns2, lp1, index2, nb2)"
  by (subst phys_page_set_level.simps) (simp add: slot_def)

lemma set_level_mono_step:
  assumes "\<And>l' ns lp index nb leaf. l = Suc l' \<Longrightarrow>
    length ns \<le> length (fst (phys_page_set_level ns lp index nb leaf l'))"
  shows "length ns \<le> length (fst (phys_page_set_level ns lp index nb leaf l))"
proof -
  obtain ns1 lp1 where e: "ensure_node ns lp l = (ns1, lp1)" by fastforce
  obtain ns2 i2 nb2 where l: "phys_page_set_loop ns1 (pe_ptr lp1) (slot l index) index nb leaf l = (ns2, i2, nb2)"
    by (rule prod_cases3)
  have "length ns \<le> length ns1" using ensure_node_mono [of ns lp l] e by simp
  also have "length ns1 \<le> length (fst (phys_page_set_loop ns1 (pe_ptr lp1) (slot l index) index nb leaf l))"
    by (rule set_loop_mono) (rule assms)
  also have "\<dots> = length ns2" using l by simp
  finally show ?thesis using set_level_unfold [OF e l] by simp
qed

lemma set_level_mono: "length ns \<le> length (fst (phys_page_set_level ns lp index nb leaf l))"
proof (induction l arbitrary: ns lp index nb leaf)
  case 0
  show ?case by (rule set_level_mono_step) simp
next
  case (Suc l)
  show ?case by (rule set_level_mono_step) (use Suc in simp)
qed

lemma set_loop_mono': "length ns \<le> length (fst (phys_page_set_loop ns p i index nb leaf l))"
  by (rule set_loop_mono) (rule set_level_mono)

definition level_ok :: "nat \<Rightarrow> bool" where
  "level_ok l \<longleftrightarrow> (\<forall>ns lp index nb leaf ns' lp' index' nb'.
     phys_page_set_level ns lp index nb leaf l = (ns', lp', index', nb') \<longrightarrow>
     tree (Suc l) ns lp \<longrightarrow> 0 < nb \<longrightarrow> length ns' \<le> PHYS_MAP_NODE_NIL \<longrightarrow>
     (\<forall>idx. idx div P_L2_SIZE ^ Suc l = index div P_L2_SIZE ^ Suc l \<longrightarrow> index \<le> idx \<longrightarrow>
        idx < index + nb \<longrightarrow> \<not> big_leaf (Suc l) ns lp idx) \<longrightarrow>
     index' = index + advance (Suc l) index nb \<and> nb' = nb - advance (Suc l) index nb \<and>
     set_spec (Suc l) ns lp index (advance (Suc l) index nb) leaf ns' lp' (index div P_L2_SIZE ^ Suc l))"

lemma level_okD:
  assumes "level_ok l" "phys_page_set_level ns lp index nb leaf l = (ns', lp', index', nb')"
    "tree (Suc l) ns lp" "0 < nb" "length ns' \<le> PHYS_MAP_NODE_NIL"
    "\<And>idx. \<lbrakk> idx div P_L2_SIZE ^ Suc l = index div P_L2_SIZE ^ Suc l; index \<le> idx; idx < index + nb \<rbrakk> \<Longrightarrow>
      \<not> big_leaf (Suc l) ns lp idx"
  shows "index' = index + advance (Suc l) index nb \<and> nb' = nb - advance (Suc l) index nb \<and>
    set_spec (Suc l) ns lp index (advance (Suc l) index nb) leaf ns' lp' (index div P_L2_SIZE ^ Suc l)"
  using assms unfolding level_ok_def by blast

text \<open>One slot: either the whole slot becomes a leaf, or the call one level down fills it.\<close>

lemma set_slot:
  assumes ok: "\<And>l'. l = Suc l' \<Longrightarrow> level_ok l'"
    and t: "tree (Suc l) ns e" "internal e" and nb: "0 < nb"
    and free: "\<And>idx. \<lbrakk> idx div P_L2_SIZE ^ l = index div P_L2_SIZE ^ l; index \<le> idx; idx < index + nb \<rbrakk> \<Longrightarrow>
      \<not> big_leaf l ns (ns ! pe_ptr e ! slot l index) idx"
    and step: "slot_step ns (pe_ptr e) (slot l index) index nb leaf l = (ns1, ei, index1, nb1)"
    and len: "length ns1 \<le> PHYS_MAP_NODE_NIL"
  shows "index1 = index + advance l index nb \<and> nb1 = nb - advance l index nb \<and>
    set_spec l ns (ns ! pe_ptr e ! slot l index) index (advance l index nb) leaf ns1 ei (index div P_L2_SIZE ^ l)"
proof (cases "index mod P_L2_SIZE ^ l = 0 \<and> P_L2_SIZE ^ l \<le> nb")
  case True
  then have a: "advance l index nb = P_L2_SIZE ^ l" by (simp add: advance_def)
  have in_span: "index \<le> idx \<and> idx < index + P_L2_SIZE ^ l"
    if "idx div P_L2_SIZE ^ l = index div P_L2_SIZE ^ l" for idx
  proof -
    have "index = index div P_L2_SIZE ^ l * P_L2_SIZE ^ l" using True by auto
    then have "idx = index + idx mod P_L2_SIZE ^ l" using that by (metis div_mult_mod_eq)
    moreover have "idx mod P_L2_SIZE ^ l < P_L2_SIZE ^ l" by simp
    ultimately show ?thesis by linarith
  qed
  have "leaf_sec l ns \<lparr>pe_skip = 0, pe_ptr = leaf\<rparr> idx = leaf" for idx by (cases l) auto
  with True step a in_span show ?thesis
    by (auto simp: set_spec_def confined_leaf slot_step_def)
next
  case False
  have "l \<noteq> 0" using False nb by (cases l) auto
  then obtain l' where l: "l = Suc l'" by (cases l) auto
  have "tree l ns (ns ! pe_ptr e ! slot l index)" using t by simp
  moreover have "slot_step ns (pe_ptr e) (slot l index) index nb leaf l =
      phys_page_set_level ns (ns ! pe_ptr e ! slot l index) index nb leaf (l - 1)"
    unfolding slot_step_def by (rule if_not_P [OF False])
  then have "phys_page_set_level ns (ns ! pe_ptr e ! slot l index) index nb leaf l' = (ns1, ei, index1, nb1)"
    using step l by simp
  ultimately show ?thesis
    using level_okD [OF ok [OF l] _ _ nb len] free unfolding l by blast
qed

text \<open>
  The loop over the slots of one node, which ends at the end of the node or of the range.
\<close>

lemma set_loop_spec:
  assumes ok: "\<And>l'. l = Suc l' \<Longrightarrow> level_ok l'"
    and "tree (Suc l) ns e" "internal e" "i = slot l index"
    and "\<And>idx. \<lbrakk> idx div P_L2_SIZE ^ Suc l = index div P_L2_SIZE ^ Suc l; index \<le> idx; idx < index + nb \<rbrakk> \<Longrightarrow>
      \<not> big_leaf (Suc l) ns e idx"
    and "phys_page_set_loop ns (pe_ptr e) i index nb leaf l = (ns', index', nb')"
    and len: "length ns' \<le> PHYS_MAP_NODE_NIL"
  shows "index' = index + advance (Suc l) index nb \<and> nb' = nb - advance (Suc l) index nb \<and>
    set_spec (Suc l) ns e index (advance (Suc l) index nb) leaf ns' e (index div P_L2_SIZE ^ Suc l)"
  using assms(2-6)
proof (induction "P_L2_SIZE - i" arbitrary: ns i index nb)
  case 0
  then show ?case using slot_less [of l index] by linarith
next
  case (Suc k)
  note t = Suc.prems(1) and int = Suc.prems(2) and i = Suc.prems(3) and free = Suc.prems(4)
  show ?case
  proof (cases "nb = 0")
    case True
    then have "ns' = ns \<and> index' = index \<and> nb' = nb" using Suc.prems(5) by (simp add: set_loop_done)
    with True t show ?thesis by (simp add: advance_def set_spec_def confined_refl)
  next
    case nb: False
    obtain ns1 ei index1 nb1 where s: "slot_step ns (pe_ptr e) i index nb leaf l = (ns1, ei, index1, nb1)"
      by (metis prod_cases4)
    define ns2 where "ns2 = node_store ns1 (pe_ptr e) i ei"
    have i_less: "i < P_L2_SIZE" using i by simp
    have rest: "phys_page_set_loop ns2 (pe_ptr e) (Suc i) index1 nb1 leaf l = (ns', index', nb')"
      using Suc.prems(5) set_loop_step [OF nb i_less s] by (simp add: ns2_def)
    have len1: "length ns1 \<le> PHYS_MAP_NODE_NIL"
      using set_loop_mono' [of ns2 "pe_ptr e" "Suc i" index1 nb1 leaf l] rest len by (simp add: ns2_def)
    have low: "\<not> big_leaf l ns (ns ! pe_ptr e ! slot l index) idx"
      if "idx div P_L2_SIZE ^ l = index div P_L2_SIZE ^ l" "index \<le> idx" "idx < index + nb" for idx
    proof -
      have "idx div P_L2_SIZE ^ Suc l = index div P_L2_SIZE ^ Suc l" "slot l idx = slot l index"
        using that(1) by (simp_all only: power_Suc2 div_mult2_eq slot_def)
      then show ?thesis using free [of idx] that int by (auto simp: internal_def)
    qed
    define k1 where "k1 = advance l index nb"
    have st: "index1 = index + k1" "nb1 = nb - k1"
      "set_spec l ns (ns ! pe_ptr e ! i) index k1 leaf ns1 ei (index div P_L2_SIZE ^ l)"
      using set_slot [OF ok t int _ low s [unfolded i] len1] nb unfolding k1_def i by simp_all
    have c: "confined l ns (ns ! pe_ptr e ! i) ns1 ei" using st(3) by (simp add: set_spec_def)
    note up = slot_update [OF t int i_less c, folded ns2_def]
    have one: "set_spec (Suc l) ns e index k1 leaf ns2 e (index div P_L2_SIZE ^ Suc l)"
    proof -
      have same: "idx div P_L2_SIZE ^ l = index div P_L2_SIZE ^ l"
        if "idx div P_L2_SIZE ^ Suc l = index div P_L2_SIZE ^ Suc l" "slot l idx = i" for idx
        using that i div_slot [of idx l] div_slot [of index l] by simp
      have out: "\<not> (index \<le> idx \<and> idx < index + k1)" if "slot l idx \<noteq> i" for idx
        using that in_advance [of index idx l nb] i by (auto simp: slot_def k1_def)
      have int': "pe_skip e \<noteq> 0" "pe_ptr e \<noteq> PHYS_MAP_NODE_NIL" using int by (auto simp: internal_def)
      show ?thesis
        using up(1) st(3) same out int' unfolding set_spec_def up(2,3) by auto
    qed
    show ?thesis
    proof (cases "nb1 \<noteq> 0 \<and> Suc i < P_L2_SIZE")
      case False
      then have "ns' = ns2 \<and> index' = index1 \<and> nb' = nb1"
        using rest by (subst (asm) set_loop_done) auto
      moreover have "advance (Suc l) index nb = k1"
        using False st(2) advance_last [of nb l index] i Suc_leI [OF i_less] unfolding k1_def by auto
      ultimately show ?thesis using one st by simp
    next
      case True
      have n: "slot l index1 = Suc i" "index1 div P_L2_SIZE ^ Suc l = index div P_L2_SIZE ^ Suc l"
        "advance (Suc l) index nb = k1 + advance (Suc l) index1 nb1"
        using advance_next [of nb l index] True i st(1,2) unfolding k1_def by auto
      have t2: "tree (Suc l) ns2 e" using up(1) by (simp add: confined_def)
      have free2: "\<not> big_leaf (Suc l) ns2 e idx"
        if "idx div P_L2_SIZE ^ Suc l = index1 div P_L2_SIZE ^ Suc l" "index1 \<le> idx" "idx < index1 + nb1" for idx
      proof -
        have "index \<le> idx" "idx < index + nb" "\<not> idx < index + k1" using that st True by auto
        then show ?thesis using one that(1) n(2) free [of idx] by (auto simp: set_spec_def)
      qed
      define k2 where "k2 = advance (Suc l) index1 nb1"
      have two: "index' = index1 + k2" "nb' = nb1 - k2"
        "set_spec (Suc l) ns2 e index1 k2 leaf ns' e (index div P_L2_SIZE ^ Suc l)"
        using Suc.hyps(1) [OF _ t2 int n(1) [symmetric] free2 rest] Suc.hyps(2) n(2) unfolding k2_def by auto
      have "set_spec (Suc l) ns e index (k1 + k2) leaf ns' e (index div P_L2_SIZE ^ Suc l)"
        using one two(3) confined_trans st(1) unfolding set_spec_def by auto
      then show ?thesis using two st n(3) k2_def by auto
    qed
  qed
qed

lemma ensure_node_spec:
  assumes t: "tree (Suc l) ns lp" and skip: "pe_skip lp \<noteq> 0" and e: "ensure_node ns lp l = (ns1, lp1)"
    and len: "length ns1 \<le> PHYS_MAP_NODE_NIL"
  shows "internal lp1" "confined (Suc l) ns lp ns1 lp1"
    "leaf_sec (Suc l) ns1 lp1 idx = leaf_sec (Suc l) ns lp idx"
    "big_leaf (Suc l) ns1 lp1 idx = big_leaf (Suc l) ns lp idx"
proof -
  let ?f = "\<lparr>pe_skip = (if l = 0 then 0 else 1),
    pe_ptr = (if l = 0 then PHYS_SECTION_UNASSIGNED else PHYS_MAP_NODE_NIL)\<rparr>"
  have fresh: "nodes_of l ns' ?f = {}" "tree l ns' ?f" "leaf_sec l ns' ?f idx = PHYS_SECTION_UNASSIGNED"
    "\<not> big_leaf l ns' ?f idx" for ns'
    by (cases l; simp add: internal_def)+
  have "internal lp1 \<and> confined (Suc l) ns lp ns1 lp1 \<and>
    leaf_sec (Suc l) ns1 lp1 idx = leaf_sec (Suc l) ns lp idx \<and>
    big_leaf (Suc l) ns1 lp1 idx = big_leaf (Suc l) ns lp idx"
  proof (cases "pe_ptr lp = PHYS_MAP_NODE_NIL")
    case True
    have n: "ns1 = ns @ [replicate P_L2_SIZE ?f]" "lp1 = lp\<lparr>pe_ptr := length ns\<rparr>"
      using e True skip by (simp_all add: ensure_node_def phys_map_node_alloc_def Let_def)
    have int: "internal lp1" using n len skip by (simp add: internal_def)
    have "tree (Suc l) ns1 lp1"
      using t n fresh by (simp add: nth_append)
    moreover have "nodes_of (Suc l) ns1 lp1 \<subseteq> {length ns}"
      using n fresh by (auto simp: nth_append)
    moreover have "length ns1 = Suc (length ns)" "\<forall>m < length ns. ns1 ! m = ns ! m"
      using n by (simp_all add: nth_append)
    ultimately have "confined (Suc l) ns lp ns1 lp1"
      by (auto simp: confined_def simp del: nodes_of.simps tree.simps)
    moreover have "ns1 ! pe_ptr lp1 ! j = ?f" if "j < P_L2_SIZE" for j using n that by (simp add: nth_append)
    then have "leaf_sec (Suc l) ns1 lp1 idx = leaf_sec (Suc l) ns lp idx"
      "big_leaf (Suc l) ns1 lp1 idx = big_leaf (Suc l) ns lp idx"
      using int n(2) True skip fresh by (simp_all add: internal_def)
    ultimately show ?thesis using int by blast
  next
    case False
    then have "ns1 = ns" "lp1 = lp" using e by (auto simp: ensure_node_def)
    with False skip t show ?thesis by (simp add: internal_def confined_refl)
  qed
  then show "internal lp1" "confined (Suc l) ns lp ns1 lp1"
    "leaf_sec (Suc l) ns1 lp1 idx = leaf_sec (Suc l) ns lp idx"
    "big_leaf (Suc l) ns1 lp1 idx = big_leaf (Suc l) ns lp idx" by auto
qed

lemma level_ok_step:
  assumes "\<And>l'. l = Suc l' \<Longrightarrow> level_ok l'"
  shows "level_ok l"
  unfolding level_ok_def
proof (intro allI impI)
  fix ns lp index nb leaf ns' lp' index' nb'
  assume r: "phys_page_set_level ns lp index nb leaf l = (ns', lp', index', nb')"
    and t: "tree (Suc l) ns lp" and nb: "0 < nb" and len: "length ns' \<le> PHYS_MAP_NODE_NIL"
    and free: "\<forall>idx. idx div P_L2_SIZE ^ Suc l = index div P_L2_SIZE ^ Suc l \<longrightarrow> index \<le> idx \<longrightarrow>
        idx < index + nb \<longrightarrow> \<not> big_leaf (Suc l) ns lp idx"
  have skip: "pe_skip lp \<noteq> 0" using free nb by auto
  obtain ns1 lp1 where e: "ensure_node ns lp l = (ns1, lp1)" by fastforce
  obtain ns2 i2 nb2 where lo: "phys_page_set_loop ns1 (pe_ptr lp1) (slot l index) index nb leaf l = (ns2, i2, nb2)"
    by (rule prod_cases3)
  have eq: "ns' = ns2" "lp' = lp1" "index' = i2" "nb' = nb2" using r set_level_unfold [OF e lo] by auto
  have len1: "length ns1 \<le> PHYS_MAP_NODE_NIL"
    using set_loop_mono' [of ns1 "pe_ptr lp1" "slot l index" index nb leaf l] lo len eq by simp
  note en = ensure_node_spec [OF t skip e len1]
  have t1: "tree (Suc l) ns1 lp1" using en(2) by (simp add: confined_def)
  have "index' = index + advance (Suc l) index nb \<and> nb' = nb - advance (Suc l) index nb \<and>
    set_spec (Suc l) ns1 lp1 index (advance (Suc l) index nb) leaf ns' lp1 (index div P_L2_SIZE ^ Suc l)"
    unfolding eq
    by (rule set_loop_spec [OF assms t1 en(1) refl _ lo])
      (use en(4) free len eq in \<open>auto simp del: big_leaf.simps\<close>)
  then show "index' = index + advance (Suc l) index nb \<and> nb' = nb - advance (Suc l) index nb \<and>
    set_spec (Suc l) ns lp index (advance (Suc l) index nb) leaf ns' lp' (index div P_L2_SIZE ^ Suc l)"
    using confined_trans [OF en(2)] en(3,4) unfolding set_spec_def eq by simp
qed

lemma level_ok_all: "level_ok l"
proof (induction l)
  case 0
  show ?case by (rule level_ok_step) simp
next
  case (Suc l)
  show ?case by (rule level_ok_step) (use Suc in simp)
qed

text \<open>Setting a range of free pages of the whole tree.\<close>

lemma phys_page_set_spec:
  assumes t: "tree (P_L2_LEVELS bits) (nodes d) (phys_map d)" and nb: "0 < nb"
    and span: "index + nb \<le> P_L2_SIZE ^ P_L2_LEVELS bits"
    and free: "\<And>idx. \<lbrakk> index \<le> idx; idx < index + nb \<rbrakk> \<Longrightarrow>
      \<not> big_leaf (P_L2_LEVELS bits) (nodes d) (phys_map d) idx"
    and len: "length (nodes (phys_page_set bits d index nb leaf)) \<le> PHYS_MAP_NODE_NIL"
  defines "d' \<equiv> phys_page_set bits d index nb leaf"
  shows "set_spec (P_L2_LEVELS bits) (nodes d) (phys_map d) index nb leaf (nodes d') (phys_map d') 0"
    and "sections d' = sections d" "subpages d' = subpages d" "mru_section d' = mru_section d"
proof -
  let ?L = "P_L2_LEVELS bits"
  obtain l where L: "?L = Suc l" by (simp add: P_L2_LEVELS_def)
  obtain ns lp i2 n2 where r: "phys_page_set_level (nodes d) (phys_map d) index nb leaf l = (ns, lp, i2, n2)"
    by (rule prod_cases4)
  have d': "d' = d\<lparr>nodes := ns, phys_map := lp\<rparr>"
    using r L by (simp add: d'_def phys_page_set_def)
  then show "sections d' = sections d" "subpages d' = subpages d" "mru_section d' = mru_section d"
    by simp_all
  have z: "idx div P_L2_SIZE ^ Suc l = 0" if "idx < index + nb" for idx
    using that span L by (simp del: power_Suc)
  have adv: "advance (Suc l) index nb = nb" using span nb z [of index] L
    by (simp add: advance_def min_def del: power_Suc)
  have "length ns \<le> PHYS_MAP_NODE_NIL" using len d' by (simp add: d'_def)
  from level_okD [OF level_ok_all r _ nb this]
  show "set_spec ?L (nodes d) (phys_map d) index nb leaf (nodes d') (phys_map d') 0"
    using t free z [of index] nb d' adv unfolding L by (simp del: power_Suc)
qed

text \<open>The walk of \<^verbatim>\<open>phys_page_find\<close> in a tree that has not been compacted.\<close>

lemma phys_page_walk_tree:
  assumes "tree h ns lp"
  shows "(case phys_page_walk ns idx lp h of Inl _ \<Rightarrow> PHYS_SECTION_UNASSIGNED | Inr e \<Rightarrow> pe_ptr e) =
    leaf_sec h ns lp idx"
  using assms
proof (induction h arbitrary: lp)
  case 0
  then show ?case by (simp add: phys_page_walk.simps)
next
  case (Suc h)
  show ?case
  proof (cases "pe_skip lp = 0 \<or> pe_ptr lp = PHYS_MAP_NODE_NIL")
    case True
    with Suc.prems show ?thesis by (subst phys_page_walk.simps) auto
  next
    case False
    then have "internal lp" "pe_skip lp = 1" using Suc.prems by (auto simp: internal_def)
    then have "tree h ns (ns ! pe_ptr lp ! slot h idx)" using Suc.prems by simp
    from Suc.IH [OF this] show ?thesis
      using False \<open>pe_skip lp = 1\<close> by (subst phys_page_walk.simps) (simp add: slot_def Let_def)
  qed
qed

lemma phys_page_find_tree:
  assumes "tree (P_L2_LEVELS bits) (nodes d) (phys_map d)"
  shows "phys_page_find bits d addr =
    (let s = leaf_sec (P_L2_LEVELS bits) (nodes d) (phys_map d) (unat addr div 2 ^ bits) in
     if section_covers_addr (sections d ! s) addr then s else PHYS_SECTION_UNASSIGNED)"
  using phys_page_walk_tree [OF assms, of "unat addr div 2 ^ bits"]
  by (auto simp: phys_page_find_def Let_def split: sum.splits)

section \<open>Finding what was set\<close>

lemma page_in_span:
  assumes "bits < 64"
  shows "unat (addr :: u64) div 2 ^ bits < P_L2_SIZE ^ P_L2_LEVELS bits"
proof -
  have "64 - bits \<le> 9 * P_L2_LEVELS bits"
    using assms by (simp add: P_L2_LEVELS_def P_L2_BITS_def)
  then have "(2 :: nat) ^ (64 - bits) \<le> 2 ^ (9 * P_L2_LEVELS bits)" by (intro power_increasing) simp_all
  moreover have "unat addr div 2 ^ bits < 2 ^ (64 - bits)"
    using unat64_lt [of addr] assms
    by (intro less_mult_imp_div_less) (simp only: power_add [symmetric] le_add_diff_inverse2)
  ultimately show ?thesis by (simp add: P_L2_SIZE_def P_L2_BITS_def power_mult)
qed

text \<open>
  C26: setting a range of pages that no multi-page leaf occupies makes \<^verbatim>\<open>phys_page_find\<close> return the new
  section for the addresses of those pages that the section covers, and leaves the result for every
  other page as it was.
\<close>

theorem phys_page_set_find:
  assumes "tree (P_L2_LEVELS bits) (nodes d) (phys_map d)" "0 < nb" "bits < 64"
    and "index + nb \<le> P_L2_SIZE ^ P_L2_LEVELS bits"
    and "\<And>idx. \<lbrakk> index \<le> idx; idx < index + nb \<rbrakk> \<Longrightarrow>
      \<not> big_leaf (P_L2_LEVELS bits) (nodes d) (phys_map d) idx"
    and "length (nodes (phys_page_set bits d index nb leaf)) \<le> PHYS_MAP_NODE_NIL"
  shows "phys_page_find bits (phys_page_set bits d index nb leaf) addr =
    (if index \<le> unat addr div 2 ^ bits \<and> unat addr div 2 ^ bits < index + nb
     then if section_covers_addr (sections d ! leaf) addr then leaf else PHYS_SECTION_UNASSIGNED
     else phys_page_find bits d addr)"
proof -
  note s = phys_page_set_spec [OF assms(1,2,4-6)]
  have "tree (P_L2_LEVELS bits) (nodes (phys_page_set bits d index nb leaf))
      (phys_map (phys_page_set bits d index nb leaf))"
    using s(1) by (simp add: set_spec_def confined_def)
  moreover have "unat addr div 2 ^ bits div P_L2_SIZE ^ P_L2_LEVELS bits = 0"
    using page_in_span [OF assms(3), of addr] by simp
  ultimately show ?thesis
    using s(1) by (auto simp: phys_page_find_tree s(2) assms(1) set_spec_def Let_def)
qed

definition demo_dispatch :: AddressSpaceDispatch where
  "demo_dispatch = (address_space_dispatch_new 60)\<lparr>sections := [
     \<lparr>ds_mr = SecUnassigned, ds_offset_within_region = 0, ds_size = 2 ^ 64,
      ds_offset_within_address_space = 0, ds_readonly = False\<rparr>,
     \<lparr>ds_mr = SecRegion 7, ds_offset_within_region = 0, ds_size = 2 ^ 60,
      ds_offset_within_address_space = 2 ^ 60, ds_readonly = False\<rparr>]\<rparr>"

theorem phys_page_set_find_witness:
  "phys_page_find 60 (phys_page_set 60 demo_dispatch 1 1 1) (2 ^ 60 + 5) = 1"
proof -
  have L: "P_L2_LEVELS 60 = Suc 0" by (simp add: P_L2_LEVELS_def P_L2_BITS_def)
  have S: "P_L2_SIZE = 512" by (simp add: P_L2_SIZE_def P_L2_BITS_def)
  have e: "phys_map demo_dispatch = \<lparr>pe_skip = 1, pe_ptr = PHYS_MAP_NODE_NIL\<rparr>" "nodes demo_dispatch = []"
    by (simp_all add: demo_dispatch_def address_space_dispatch_new_def)
  have "length (nodes (phys_page_set 60 demo_dispatch 1 1 1)) \<le> PHYS_MAP_NODE_NIL"
    by (simp add: phys_page_set_def L e phys_page_set_level.simps phys_page_set_loop.simps ensure_node_def
        phys_map_node_alloc_def S PHYS_MAP_NODE_NIL_def Let_def)
  then have "phys_page_find 60 (phys_page_set 60 demo_dispatch 1 1 1) (2 ^ 60 + 5) =
    (if 1 \<le> unat (2 ^ 60 + 5 :: u64) div 2 ^ 60 \<and> unat (2 ^ 60 + 5 :: u64) div 2 ^ 60 < 1 + 1
     then if section_covers_addr (sections demo_dispatch ! 1) (2 ^ 60 + 5) then 1 else PHYS_SECTION_UNASSIGNED
     else phys_page_find 60 demo_dispatch (2 ^ 60 + 5))"
    by (intro phys_page_set_find) (simp_all add: L e S internal_def)
  then show ?thesis by (simp add: section_covers_addr_def demo_dispatch_def)
qed

end
