(* ===== verification/Dispatch.thy ===== *)
theory Dispatch
  imports PhysMap
begin

text \<open>
  The dispatch of a flat view is right: the number of nodes that \<^verbatim>\<open>phys_page_set\<close> allocates, the tree
  that \<^verbatim>\<open>flatview_add_to_dispatch\<close> builds for a view of whole pages, its compaction, and the lookup with
  its cache of the last section.
\<close>

section \<open>The nodes one call of phys_page_set allocates\<close>

text \<open>
  A range that starts or ends with the span of the entry needs one node per level, any other at most
  two below the first.
\<close>

definition level_cost :: "nat \<Rightarrow> nat \<Rightarrow> nat \<Rightarrow> nat" where
  "level_cost l index nb =
    (if index mod P_L2_SIZE ^ Suc l = 0 \<or> P_L2_SIZE ^ Suc l \<le> index mod P_L2_SIZE ^ Suc l + nb
     then Suc l else Suc (2 * l))"

definition loop_cost :: "nat \<Rightarrow> nat \<Rightarrow> nat \<Rightarrow> nat" where
  "loop_cost l index nb =
    (if index mod P_L2_SIZE ^ l = 0
     then if P_L2_SIZE ^ Suc l \<le> index mod P_L2_SIZE ^ Suc l + nb then 0 else l
     else if P_L2_SIZE ^ Suc l \<le> index mod P_L2_SIZE ^ Suc l + nb then l else 2 * l)"

definition level_bounded :: "nat \<Rightarrow> bool" where
  "level_bounded l \<longleftrightarrow> (\<forall>ns lp index nb leaf ns' lp' index' nb'.
     phys_page_set_level ns lp index nb leaf l = (ns', lp', index', nb') \<longrightarrow> 0 < nb \<longrightarrow>
     index' = index + advance (Suc l) index nb \<and> nb' = nb - advance (Suc l) index nb \<and>
     length ns' \<le> length ns + level_cost l index nb)"

lemma loop_cost_le: "loop_cost l index nb \<le> level_cost l index nb - 1" "0 < level_cost l index nb"
proof -
  have "index mod P_L2_SIZE ^ l = 0" if "index mod P_L2_SIZE ^ Suc l = 0"
    using that mod_slot [of index l] by simp
  then show "loop_cost l index nb \<le> level_cost l index nb - 1" "0 < level_cost l index nb"
    by (auto simp: loop_cost_def level_cost_def simp del: power_Suc)
qed

text \<open>One slot of the loop and what is left for the slots after it.\<close>

lemma slot_below: "i < P_L2_SIZE \<Longrightarrow> r + nb < b \<Longrightarrow> i * b + r + nb < P_L2_SIZE * b"
proof -
  assume a: "i < P_L2_SIZE" "r + nb < b"
  have "Suc i * b \<le> P_L2_SIZE * b" using a(1) by (intro mult_right_mono) auto
  then show ?thesis using a(2) by simp
qed

lemma slot_bounded:
  assumes ok: "\<And>l'. l = Suc l' \<Longrightarrow> level_bounded l'" and nb: "0 < nb"
    and step: "slot_step ns p i index nb leaf l = (ns1, ei, index1, nb1)"
  shows "index1 = index + advance l index nb" "nb1 = nb - advance l index nb"
    and "length ns1 \<le> length ns +
      (if index mod P_L2_SIZE ^ l = 0 then if P_L2_SIZE ^ l \<le> nb then 0 else l
       else if P_L2_SIZE ^ l \<le> index mod P_L2_SIZE ^ l + nb then l else 2 * l)"
proof -
  let ?b = "P_L2_SIZE ^ l"
  have "index1 = index + advance l index nb \<and> nb1 = nb - advance l index nb \<and>
    length ns1 \<le> length ns +
      (if index mod ?b = 0 then if ?b \<le> nb then 0 else l
       else if ?b \<le> index mod ?b + nb then l else 2 * l)"
  proof (cases "index mod ?b = 0 \<and> ?b \<le> nb")
    case True
    then show ?thesis using step by (auto simp: slot_step_def advance_def)
  next
    case False
    have "l \<noteq> 0" using False nb by (cases l) auto
    then obtain l' where l: "l = Suc l'" by (cases l) auto
    have "phys_page_set_level ns (ns ! p ! i) index nb leaf l' = (ns1, ei, index1, nb1)"
      using step False l unfolding slot_step_def by (simp only: if_not_P if_False diff_Suc_1)
    with ok [OF l] nb have "index1 = index + advance l index nb \<and> nb1 = nb - advance l index nb \<and>
        length ns1 \<le> length ns + level_cost l' index nb"
      unfolding level_bounded_def l by blast
    moreover have "level_cost l' index nb \<le>
        (if index mod ?b = 0 then l else if ?b \<le> index mod ?b + nb then l else 2 * l)"
      using l by (simp add: level_cost_def del: power_Suc)
    ultimately show ?thesis using False by (auto split: if_splits)
  qed
  then show "index1 = index + advance l index nb" "nb1 = nb - advance l index nb"
    "length ns1 \<le> length ns +
      (if index mod ?b = 0 then if ?b \<le> nb then 0 else l
       else if ?b \<le> index mod ?b + nb then l else 2 * l)" by blast+
qed

lemma next_slot:
  assumes "nb - advance l index nb \<noteq> 0" "Suc (slot l index) < P_L2_SIZE"
  defines "k \<equiv> advance l index nb"
  shows "(index + k) mod P_L2_SIZE ^ l = 0"
    and "(index + k) mod P_L2_SIZE ^ Suc l + (nb - k) = index mod P_L2_SIZE ^ Suc l + nb"
    and "P_L2_SIZE ^ l \<le> index mod P_L2_SIZE ^ l + nb"
proof -
  let ?b = "P_L2_SIZE ^ l"
  have k: "k = ?b - index mod ?b" using assms by (auto simp: advance_def min_def)
  have kn: "k \<le> nb" by (simp add: k_def advance_def)
  have lt: "index mod ?b < ?b" by simp
  have e: "index + k = (index div ?b + 1) * ?b" unfolding k by (rule round_up) simp
  then show z: "(index + k) mod ?b = 0" by simp
  show "?b \<le> index mod ?b + nb" using k kn lt by linarith
  have "slot l (index + k) = Suc (slot l index)" using advance_next(1) assms by blast
  then have "(index + k) mod P_L2_SIZE ^ Suc l = ?b + slot l index * ?b"
    using z by (simp only: mod_slot) simp
  then show "(index + k) mod P_L2_SIZE ^ Suc l + (nb - k) = index mod P_L2_SIZE ^ Suc l + nb"
    using mod_slot [of index l] k kn lt by linarith
qed

lemma loop_bounded:
  assumes ok: "\<And>l'. l = Suc l' \<Longrightarrow> level_bounded l'" and "i = slot l index"
    and "phys_page_set_loop ns p i index nb leaf l = (ns', index', nb')"
  shows "index' = index + advance (Suc l) index nb \<and> nb' = nb - advance (Suc l) index nb \<and>
    length ns' \<le> length ns + loop_cost l index nb"
  using assms(2,3)
proof (induction "P_L2_SIZE - i" arbitrary: ns i index nb)
  case 0
  then show ?case using slot_less [of l index] by linarith
next
  case (Suc k)
  let ?b = "P_L2_SIZE ^ l"
  note i = Suc.prems(1)
  show ?case
  proof (cases "nb = 0")
    case True
    then show ?thesis using Suc.prems(2) by (auto simp: set_loop_done advance_def)
  next
    case nb: False
    obtain ns1 ei index1 nb1 where s: "slot_step ns p i index nb leaf l = (ns1, ei, index1, nb1)"
      by (metis prod_cases4)
    have i_less: "i < P_L2_SIZE" using i by simp
    have rest: "phys_page_set_loop (node_store ns1 p i ei) p (Suc i) index1 nb1 leaf l = (ns', index', nb')"
      using Suc.prems(2) set_loop_step [OF nb i_less s] by simp
    have nb0: "0 < nb" using nb by simp
    have sb: "index1 = index + advance l index nb" "nb1 = nb - advance l index nb"
      "length ns1 \<le> length ns +
        (if index mod ?b = 0 then if ?b \<le> nb then 0 else l
         else if ?b \<le> index mod ?b + nb then l else 2 * l)"
      by (rule slot_bounded [OF _ nb0 s], rule ok, assumption)+
    have below: "\<not> P_L2_SIZE ^ Suc l \<le> index mod P_L2_SIZE ^ Suc l + nb" if "index mod ?b + nb < ?b"
      using slot_below [OF i_less that] i mod_slot [of index l] by simp
    show ?thesis
    proof (cases "nb1 \<noteq> 0 \<and> Suc i < P_L2_SIZE")
      case False
      then have "ns' = node_store ns1 p i ei \<and> index' = index1 \<and> nb' = nb1"
        using rest by (subst (asm) set_loop_done) auto
      moreover have "advance (Suc l) index nb = advance l index nb"
        using False sb(2) advance_last [of nb l index] i Suc_leI [OF i_less] by auto
      moreover have "length ns1 \<le> length ns + loop_cost l index nb"
        using sb(3) below by (auto simp: loop_cost_def simp del: power_Suc split: if_splits)
      ultimately show ?thesis using sb(1,2) by simp
    next
      case True
      then have c: "nb - advance l index nb \<noteq> 0" "Suc (slot l index) < P_L2_SIZE" using sb(2) i by auto
      note nx = next_slot [OF c, folded sb(1,2)] and an = advance_next [OF c, folded sb(1,2)]
      have IH: "index' = index1 + advance (Suc l) index1 nb1 \<and> nb' = nb1 - advance (Suc l) index1 nb1 \<and>
          length ns' \<le> length (node_store ns1 p i ei) + loop_cost l index1 nb1"
        by (rule Suc.hyps(1) [OF _ _ rest]) (use Suc.hyps(2) an(1) i in auto)
      have "loop_cost l index1 nb1 =
          (if P_L2_SIZE ^ Suc l \<le> index mod P_L2_SIZE ^ Suc l + nb then 0 else l)"
        unfolding loop_cost_def nx(1,2) by simp
      moreover have "length ns1 \<le> length ns + (if index mod ?b = 0 then 0 else l)"
        using sb(3) nx(3) by (auto split: if_splits)
      ultimately have "length ns' \<le> length ns + loop_cost l index nb"
        using IH by (auto simp: loop_cost_def simp del: power_Suc split: if_splits)
      then show ?thesis using IH an(3) sb(1,2) by simp
    qed
  qed
qed

lemma level_bounded_all: "level_bounded l"
proof (induction l rule: less_induct)
  case (less l)
  show ?case unfolding level_bounded_def
  proof (intro allI impI)
    fix ns lp index nb leaf ns' lp' index' nb'
    assume r: "phys_page_set_level ns lp index nb leaf l = (ns', lp', index', nb')"
    obtain ns1 lp1 where e: "ensure_node ns lp l = (ns1, lp1)" by fastforce
    obtain ns2 i2 nb2 where lo: "phys_page_set_loop ns1 (pe_ptr lp1) (slot l index) index nb leaf l = (ns2, i2, nb2)"
      by (rule prod_cases3)
    have eq: "ns' = ns2" "index' = i2" "nb' = nb2" using r set_level_unfold [OF e lo] by auto
    have "length ns1 \<le> Suc (length ns)"
      using e by (auto simp: ensure_node_def phys_map_node_alloc_def Let_def split: if_splits)
    moreover have "i2 = index + advance (Suc l) index nb \<and> nb2 = nb - advance (Suc l) index nb \<and>
        length ns2 \<le> length ns1 + loop_cost l index nb"
      by (rule loop_bounded [OF _ refl lo]) (simp add: less.IH)
    ultimately show "index' = index + advance (Suc l) index nb \<and> nb' = nb - advance (Suc l) index nb \<and>
        length ns' \<le> length ns + level_cost l index nb"
      using loop_cost_le [of l index nb] unfolding eq by auto
  qed
qed

lemma phys_page_set_nodes:
  assumes "0 < nb"
  shows "length (nodes (phys_page_set bits d index nb leaf)) \<le> length (nodes d) + 2 * P_L2_LEVELS bits - 1"
proof -
  obtain l where L: "P_L2_LEVELS bits = Suc l" by (simp add: P_L2_LEVELS_def)
  obtain ns lp i2 n2 where r: "phys_page_set_level (nodes d) (phys_map d) index nb leaf l = (ns, lp, i2, n2)"
    by (rule prod_cases4)
  then have "length ns \<le> length (nodes d) + level_cost l index nb"
    using level_bounded_all [of l] assms unfolding level_bounded_def by blast
  moreover have "level_cost l index nb \<le> Suc (2 * l)" by (simp add: level_cost_def)
  ultimately show ?thesis using r L by (simp add: phys_page_set_def)
qed

section \<open>Compaction\<close>

text \<open>A page number matters to an entry only modulo its span.\<close>

lemma slot_mod: "slot h idx = idx mod P_L2_SIZE ^ Suc h div P_L2_SIZE ^ h"
  by (simp only: mod_slot) simp

lemma leaf_sec_mod:
  "idx mod P_L2_SIZE ^ h = idx' mod P_L2_SIZE ^ h \<Longrightarrow> leaf_sec h ns e idx = leaf_sec h ns e idx'"
proof (induction h arbitrary: e)
  case (Suc h)
  have "slot h idx = slot h idx'" using Suc.prems by (simp only: slot_mod)
  moreover have "idx mod P_L2_SIZE ^ h = idx' mod P_L2_SIZE ^ h"
    using Suc.prems by (metis mod_mod_cancel le_imp_power_dvd Suc_n_not_le_n nat_le_linear)
  ultimately show ?case using Suc.IH by simp
qed simp

text \<open>The page of slot \<^term>\<open>j\<close> that looks like \<^term>\<open>idx\<close> from inside the slot.\<close>

lemma slot_page:
  assumes "j < P_L2_SIZE"
  shows "\<exists>idx'. slot h idx' = j \<and> (\<forall>ns e. leaf_sec h ns e idx' = leaf_sec h ns e idx)"
proof (intro exI conjI allI)
  let ?b = "P_L2_SIZE ^ h"
  show "slot h (j * ?b + idx mod ?b) = j" using assms by (simp add: slot_def)
  show "leaf_sec h ns e (j * ?b + idx mod ?b) = leaf_sec h ns e idx" for ns e
    by (rule leaf_sec_mod) simp
qed

text \<open>
  \<^verbatim>\<open>compact_ok\<close>: the walk from the compacted entry \<^term>\<open>e'\<close> gives each page the section it had, or, where
  the page had none, possibly that of another page below the entry.
\<close>

definition walk_sec :: "Node list \<Rightarrow> PhysPageEntry \<Rightarrow> nat \<Rightarrow> nat \<Rightarrow> nat" where
  "walk_sec ns e h idx =
    (case phys_page_walk ns idx e h of Inl _ \<Rightarrow> PHYS_SECTION_UNASSIGNED | Inr lp \<Rightarrow> pe_ptr lp)"

definition compact_ok :: "nat \<Rightarrow> Node list \<Rightarrow> PhysPageEntry \<Rightarrow> Node list \<Rightarrow> PhysPageEntry \<Rightarrow> bool" where
  "compact_ok h ns e nsf e' \<longleftrightarrow> pe_skip e' \<le> h \<and>
    (\<forall>idx. walk_sec nsf e' h idx = leaf_sec h ns e idx \<or>
       leaf_sec h ns e idx = PHYS_SECTION_UNASSIGNED \<and>
       (\<exists>idx'. leaf_sec h ns e idx' = walk_sec nsf e' h idx))"

definition compact_spec :: "nat \<Rightarrow> Node list \<Rightarrow> PhysPageEntry \<Rightarrow> Node list \<Rightarrow> PhysPageEntry \<Rightarrow> bool" where
  "compact_spec h ns e ns' e' \<longleftrightarrow> length ns' = length ns \<and>
    (\<forall>n. n \<notin> nodes_of h ns e \<longrightarrow> ns' ! n = ns ! n) \<and>
    (\<forall>nsf. (\<forall>n \<in> nodes_of h ns e. nsf ! n = ns' ! n) \<longrightarrow> compact_ok h ns e nsf e')"

lemma walk_sec_leaf [simp]: "pe_skip e = 0 \<Longrightarrow> walk_sec ns e h idx = pe_ptr e"
  by (simp add: walk_sec_def phys_page_walk.simps)

lemma walk_sec_nil:
  "pe_skip e \<noteq> 0 \<Longrightarrow> pe_skip e \<le> h \<Longrightarrow> pe_ptr e = PHYS_MAP_NODE_NIL \<Longrightarrow>
   walk_sec ns e h idx = PHYS_SECTION_UNASSIGNED"
  by (simp add: walk_sec_def phys_page_walk.simps)

lemma walk_sec_node:
  "pe_skip e \<noteq> 0 \<Longrightarrow> pe_skip e \<le> h \<Longrightarrow> pe_ptr e \<noteq> PHYS_MAP_NODE_NIL \<Longrightarrow>
   walk_sec ns e h idx = walk_sec ns (ns ! pe_ptr e ! slot (h - pe_skip e) idx) (h - pe_skip e) idx"
  unfolding walk_sec_def by (subst phys_page_walk.simps) (simp add: slot_def Let_def)

lemma compact_ok_self:
  assumes "tree h ns e" "\<not> internal e"
  shows "compact_ok h ns e nsf e"
proof (cases "pe_skip e = 0")
  case True
  then show ?thesis by (cases h) (auto simp: compact_ok_def)
next
  case False
  then have "pe_ptr e = PHYS_MAP_NODE_NIL" "0 < h" using assms by (cases h; auto simp: internal_def)+
  with False assms show ?thesis by (cases h) (auto simp: compact_ok_def walk_sec_nil)
qed

definition compact_step ::
  "nat \<Rightarrow> nat \<Rightarrow> nat \<Rightarrow> nat \<Rightarrow> Node list \<times> nat \<times> nat \<Rightarrow> Node list \<times> nat \<times> nat" where
  "compact_step bits depth p = (\<lambda>i (ns, valid_ptr, valid).
     if pe_ptr (ns ! p ! i) = PHYS_MAP_NODE_NIL then (ns, valid_ptr, valid)
     else if pe_skip (ns ! p ! i) \<noteq> 0
     then let (ns, e) = phys_page_compact bits depth ns (ns ! p ! i) in
       (node_store ns p i e, i, valid + 1)
     else (ns, i, valid + 1))"

text \<open>The state of the loop over the slots of the node \<^term>\<open>p\<close> after the first \<^term>\<open>m\<close> of them.\<close>

definition compact_inv :: "nat \<Rightarrow> Node list \<Rightarrow> nat \<Rightarrow> nat \<Rightarrow> Node list \<times> nat \<times> nat \<Rightarrow> bool" where
  "compact_inv h ns p m = (\<lambda>(ns', valid_ptr, valid).
     length ns' = length ns \<and> length (ns' ! p) = P_L2_SIZE \<and>
     (\<forall>n. n \<noteq> p \<longrightarrow> (\<forall>j < m. n \<notin> nodes_of h ns (ns ! p ! j)) \<longrightarrow> ns' ! n = ns ! n) \<and>
     (\<forall>j. m \<le> j \<longrightarrow> j < P_L2_SIZE \<longrightarrow> ns' ! p ! j = ns ! p ! j) \<and>
     (\<forall>j < m. \<forall>nsf. (\<forall>n \<in> nodes_of h ns (ns ! p ! j). nsf ! n = ns' ! n) \<longrightarrow>
        compact_ok h ns (ns ! p ! j) nsf (ns' ! p ! j)) \<and>
     valid = card {j. j < m \<and> pe_ptr (ns ! p ! j) \<noteq> PHYS_MAP_NODE_NIL} \<and>
     (0 < valid \<longrightarrow> valid_ptr < m \<and> pe_ptr (ns ! p ! valid_ptr) \<noteq> PHYS_MAP_NODE_NIL))"

lemma compact_invI:
  assumes "length ns' = length ns" "length (ns' ! p) = P_L2_SIZE"
    and "\<And>n. n \<noteq> p \<Longrightarrow> (\<And>j. j < m \<Longrightarrow> n \<notin> nodes_of h ns (ns ! p ! j)) \<Longrightarrow> ns' ! n = ns ! n"
    and "\<And>j. m \<le> j \<Longrightarrow> j < P_L2_SIZE \<Longrightarrow> ns' ! p ! j = ns ! p ! j"
    and "\<And>j nsf. j < m \<Longrightarrow> \<forall>n \<in> nodes_of h ns (ns ! p ! j). nsf ! n = ns' ! n \<Longrightarrow>
      compact_ok h ns (ns ! p ! j) nsf (ns' ! p ! j)"
    and "valid = card {j. j < m \<and> pe_ptr (ns ! p ! j) \<noteq> PHYS_MAP_NODE_NIL}"
    and "valid_ptr < m \<and> pe_ptr (ns ! p ! valid_ptr) \<noteq> PHYS_MAP_NODE_NIL"
  shows "compact_inv h ns p m (ns', valid_ptr, valid)"
  unfolding compact_inv_def prod.case
  by (intro conjI allI impI) (use assms in simp_all)

lemma card_valid_Suc:
  "card {j. j < Suc m \<and> P j} = card {j. j < m \<and> P j} + (if P m then 1 else 0)"
proof -
  have "{j. j < Suc m \<and> P j} = (if P m then insert m else id) {j. j < m \<and> P j}"
    by (auto simp: less_Suc_eq)
  then show ?thesis by simp
qed

lemma compact_inv_skip:
  assumes inv: "compact_inv h ns p m (ns', vp, v)" and m: "m < P_L2_SIZE"
    and ok: "\<And>nsf. compact_ok h ns (ns ! p ! m) nsf (ns ! p ! m)"
  shows "compact_inv h ns p (Suc m)
    (if pe_ptr (ns ! p ! m) = PHYS_MAP_NODE_NIL then (ns', vp, v) else (ns', m, v + 1))"
proof -
  have "ns' ! p ! m = ns ! p ! m" using inv m by (simp add: compact_inv_def)
  then have "compact_ok h ns (ns ! p ! j) nsf (ns' ! p ! j)"
    if "j < Suc m" "\<forall>n \<in> nodes_of h ns (ns ! p ! j). nsf ! n = ns' ! n" for j nsf
    using that inv ok by (cases "j = m") (auto simp: compact_inv_def)
  then show ?thesis using inv by (auto simp: compact_inv_def card_valid_Suc less_SucI)
qed

definition compact_level :: "nat \<Rightarrow> nat \<Rightarrow> bool" where
  "compact_level bits h \<longleftrightarrow> (\<forall>ns e ns' e'.
     phys_page_compact bits h ns e = (ns', e') \<longrightarrow> tree h ns e \<longrightarrow> pe_skip e \<noteq> 0 \<longrightarrow>
     (\<forall>idx. leaf_sec h ns e idx \<noteq> PHYS_MAP_NODE_NIL) \<longrightarrow> compact_spec h ns e ns' e')"

lemma compact_levelD:
  "compact_level bits h \<Longrightarrow> phys_page_compact bits h ns e = (ns', e') \<Longrightarrow> tree h ns e \<Longrightarrow> pe_skip e \<noteq> 0 \<Longrightarrow>
   (\<And>idx. leaf_sec h ns e idx \<noteq> PHYS_MAP_NODE_NIL) \<Longrightarrow> compact_spec h ns e ns' e'"
  unfolding compact_level_def by blast

lemma compact_okD:
  "compact_ok h ns e nsf e' \<Longrightarrow>
   walk_sec nsf e' h idx = leaf_sec h ns e idx \<or> leaf_sec h ns e idx = PHYS_SECTION_UNASSIGNED"
  "compact_ok h ns e nsf e' \<Longrightarrow> \<exists>idx'. leaf_sec h ns e idx' = walk_sec nsf e' h idx"
  unfolding compact_ok_def by metis+

lemma compact_okI:
  "pe_skip e' \<le> h \<Longrightarrow>
   (\<And>idx. walk_sec nsf e' h idx = leaf_sec h ns e idx \<or> leaf_sec h ns e idx = PHYS_SECTION_UNASSIGNED) \<Longrightarrow>
   (\<And>idx. \<exists>idx'. leaf_sec h ns e idx' = walk_sec nsf e' h idx) \<Longrightarrow> compact_ok h ns e nsf e'"
  unfolding compact_ok_def by blast

lemma compact_inv_node:
  assumes lev: "compact_level bits h" and t: "tree (Suc h) ns e" "internal e" and m: "m < P_L2_SIZE"
    and inv: "compact_inv h ns (pe_ptr e) m (ns', vp, v)" and c: "internal (ns ! pe_ptr e ! m)"
    and nil: "\<And>idx. leaf_sec h ns (ns ! pe_ptr e ! m) idx \<noteq> PHYS_MAP_NODE_NIL"
    and r: "phys_page_compact bits h ns' (ns ! pe_ptr e ! m) = (ns1, e1)"
  shows "compact_inv h ns (pe_ptr e) (Suc m) (node_store ns1 (pe_ptr e) m e1, m, v + 1)"
proof -
  let ?p = "pe_ptr e" and ?s = "\<lambda>j. ns ! pe_ptr e ! j"
  let ?N = "\<lambda>j. nodes_of h ns (?s j)"
  have p: "?p < length ns" and disj: "\<And>j k. j < P_L2_SIZE \<Longrightarrow> k < P_L2_SIZE \<Longrightarrow> j \<noteq> k \<Longrightarrow> ?N j \<inter> ?N k = {}"
    and sub: "\<And>j. j < P_L2_SIZE \<Longrightarrow> tree h ns (?s j)" "\<And>j. j < P_L2_SIZE \<Longrightarrow> ?p \<notin> ?N j"
    using t by auto
  have I: "length ns' = length ns" "length (ns' ! ?p) = P_L2_SIZE"
    "\<And>n. n \<noteq> ?p \<Longrightarrow> (\<And>j. j < m \<Longrightarrow> n \<notin> ?N j) \<Longrightarrow> ns' ! n = ns ! n"
    "\<And>j. m \<le> j \<Longrightarrow> j < P_L2_SIZE \<Longrightarrow> ns' ! ?p ! j = ?s j"
    "\<And>j nsf. j < m \<Longrightarrow> (\<forall>n \<in> ?N j. nsf ! n = ns' ! n) \<Longrightarrow> compact_ok h ns (?s j) nsf (ns' ! ?p ! j)"
    "v = card {j. j < m \<and> pe_ptr (?s j) \<noteq> PHYS_MAP_NODE_NIL}"
    using inv by (simp_all add: compact_inv_def)
  have same: "ns' ! n = ns ! n" if "n \<in> ?N m" for n
  proof (rule I(3))
    show "n \<noteq> ?p" using that sub(2) [OF m] by blast
    show "n \<notin> ?N j" if "j < m" for j using disj [of j m] that \<open>n \<in> ?N m\<close> m by auto
  qed
  have N: "nodes_of h ns' (?s m) = ?N m" by (rule nodes_of_frame) (rule same)
  have L: "leaf_sec h ns' (?s m) idx = leaf_sec h ns (?s m) idx" for idx
    by (rule leaf_sec_frame) (rule same)
  have T: "tree h ns' (?s m)" by (rule tree_frame [OF same _ sub(1) [OF m]]) (simp_all add: I(1))
  have "compact_spec h ns' (?s m) ns1 e1"
    by (rule compact_levelD [OF lev r T]) (use L nil c in \<open>simp_all add: internal_def\<close>)
  then have C: "length ns1 = length ns'" "\<And>n. n \<notin> ?N m \<Longrightarrow> ns1 ! n = ns' ! n"
    "\<And>nsf. (\<forall>n \<in> ?N m. nsf ! n = ns1 ! n) \<Longrightarrow> compact_ok h ns (?s m) nsf e1"
    by (auto simp: compact_spec_def compact_ok_def N L)
  define ns2 where "ns2 = node_store ns1 ?p m e1"
  have len: "?p < length ns1" using p C(1) I(1) by simp
  have p1: "ns1 ! ?p = ns' ! ?p" using C(2) sub(2) m by blast
  have n2: "ns2 ! ?p = (ns' ! ?p)[m := e1]" "\<And>n. n \<noteq> ?p \<Longrightarrow> ns2 ! n = ns1 ! n" "length ns2 = length ns"
    using len p1 C(1) I(1) by (simp_all add: ns2_def)
  have ok: "compact_ok h ns (?s j) nsf (ns2 ! ?p ! j)"
    if j: "j < Suc m" and f: "\<forall>n \<in> ?N j. nsf ! n = ns2 ! n" for j nsf
  proof -
    have pj: "n \<noteq> ?p" if "n \<in> ?N j" for n using that sub(2) [of j] j m by auto
    show ?thesis
    proof (cases "j = m")
      case True
      then have "compact_ok h ns (?s m) nsf e1" using f n2(2) pj by (intro C(3)) auto
      with True n2(1) I(2) m show ?thesis by simp
    next
      case False
      then have "ns1 ! n = ns' ! n" if "n \<in> ?N j" for n
        using disj [of j m] that j m by (intro C(2)) auto
      then have "compact_ok h ns (?s j) nsf (ns' ! ?p ! j)" using False j f n2(2) pj by (intro I(5)) auto
      with False n2(1) show ?thesis by simp
    qed
  qed
  have "compact_inv h ns ?p (Suc m) (ns2, m, v + 1)"
  proof (rule compact_invI [OF n2(3)])
    show "length (ns2 ! ?p) = P_L2_SIZE" using n2(1) I(2) by simp
    show "ns2 ! n = ns ! n" if "n \<noteq> ?p" "\<And>j. j < Suc m \<Longrightarrow> n \<notin> ?N j" for n
      using n2(2) [OF that(1)] C(2) [OF that(2) [OF lessI]] I(3) [OF that(1) that(2) [OF less_SucI]] by simp
    show "ns2 ! ?p ! j = ?s j" if "Suc m \<le> j" "j < P_L2_SIZE" for j
      using that n2(1) I(4) by simp
    show "v + 1 = card {j. j < Suc m \<and> pe_ptr (?s j) \<noteq> PHYS_MAP_NODE_NIL}"
      "m < Suc m \<and> pe_ptr (?s m) \<noteq> PHYS_MAP_NODE_NIL"
      using I(6) c by (simp_all add: card_valid_Suc internal_def)
  qed (rule ok)
  then show ?thesis by (simp only: ns2_def)
qed

lemma compact_inv_fold:
  assumes lev: "compact_level bits h" and t: "tree (Suc h) ns e" "internal e"
    and nil: "\<And>j idx. j < P_L2_SIZE \<Longrightarrow> leaf_sec h ns (ns ! pe_ptr e ! j) idx \<noteq> PHYS_MAP_NODE_NIL"
    and m: "m \<le> P_L2_SIZE"
  shows "compact_inv h ns (pe_ptr e) m (fold (compact_step bits h (pe_ptr e)) [0 ..< m] (ns, P_L2_SIZE, 0))"
  using m
proof (induction m)
  case 0
  then show ?case using t by (simp add: compact_inv_def)
next
  case (Suc m)
  let ?p = "pe_ptr e"
  obtain ns' vp v where s: "fold (compact_step bits h ?p) [0 ..< m] (ns, P_L2_SIZE, 0) = (ns', vp, v)"
    by (rule prod_cases3)
  have inv: "compact_inv h ns ?p m (ns', vp, v)" and m: "m < P_L2_SIZE" using Suc s by auto
  have e: "ns' ! ?p ! m = ns ! ?p ! m" using inv m by (simp add: compact_inv_def)
  have st: "fold (compact_step bits h ?p) [0 ..< Suc m] (ns, P_L2_SIZE, 0) =
      compact_step bits h ?p m (ns', vp, v)" using s by simp
  show ?case
  proof (cases "internal (ns ! ?p ! m)")
    case True
    obtain ns1 e1 where r: "phys_page_compact bits h ns' (ns ! ?p ! m) = (ns1, e1)" by fastforce
    from compact_inv_node [OF lev t m inv True nil [OF m] r] show ?thesis
      using True r e unfolding st by (simp add: compact_step_def internal_def)
  next
    case False
    have "tree h ns (ns ! ?p ! m)" using t m by simp
    from compact_inv_skip [OF inv m compact_ok_self [OF this False]] show ?thesis
      using False e unfolding st by (auto simp: compact_step_def internal_def)
  qed
qed

lemma compact_ok_lift:
  assumes c: "compact_ok h ns (ns ! pe_ptr e ! j) nsf c" and e: "internal e" and j: "j < P_L2_SIZE"
    and slots: "\<And>idx. slot h idx = j \<or> leaf_sec (Suc h) ns e idx = PHYS_SECTION_UNASSIGNED"
    and skip: "pe_skip e' \<le> Suc h" and walk: "\<And>idx. walk_sec nsf e' (Suc h) idx = walk_sec nsf c h idx"
  shows "compact_ok (Suc h) ns e nsf e'"
proof -
  have low: "leaf_sec (Suc h) ns e idx = leaf_sec h ns (ns ! pe_ptr e ! j) idx" if "slot h idx = j" for idx
    using that e by (simp add: internal_def)
  have ex: "\<exists>idx'. leaf_sec (Suc h) ns e idx' = walk_sec nsf c h idx" for idx
  proof -
    obtain i where i: "leaf_sec h ns (ns ! pe_ptr e ! j) i = walk_sec nsf c h idx"
      using compact_okD(2) [OF c] by blast
    obtain i' where i': "slot h i' = j" "\<forall>ns e. leaf_sec h ns e i' = leaf_sec h ns e i"
      using slot_page [OF j] by blast
    have "leaf_sec (Suc h) ns e i' = walk_sec nsf c h idx" by (simp only: low [OF i'(1)] i'(2) [rule_format] i)
    then show ?thesis by blast
  qed
  show ?thesis
  proof (rule compact_okI)
    show "walk_sec nsf e' (Suc h) idx = leaf_sec (Suc h) ns e idx \<or>
        leaf_sec (Suc h) ns e idx = PHYS_SECTION_UNASSIGNED" for idx
    proof (cases "slot h idx = j")
      case True
      then show ?thesis using compact_okD(1) [OF c, of idx] by (simp only: walk low)
    qed (use slots in blast)
    show "\<exists>idx'. leaf_sec (Suc h) ns e idx' = walk_sec nsf e' (Suc h) idx" for idx
      using ex [of idx] by (simp only: walk)
  qed (rule skip)
qed

lemma compact_children:
  assumes t: "tree (Suc h) ns e" "internal e"
    and inv: "compact_inv h ns (pe_ptr e) P_L2_SIZE (ns', vp, v)"
  shows "length ns' = length ns" "n \<notin> nodes_of (Suc h) ns e \<Longrightarrow> ns' ! n = ns ! n"
    and "\<forall>n \<in> nodes_of (Suc h) ns e. nsf ! n = ns' ! n \<Longrightarrow> j < P_L2_SIZE \<Longrightarrow>
      compact_ok h ns (ns ! pe_ptr e ! j) nsf (nsf ! pe_ptr e ! j)"
    and "v = 1 \<Longrightarrow> vp < P_L2_SIZE \<and>
      (\<forall>j < P_L2_SIZE. j \<noteq> vp \<longrightarrow> pe_ptr (ns ! pe_ptr e ! j) = PHYS_MAP_NODE_NIL)"
proof -
  let ?P = "\<lambda>j. pe_ptr (ns ! pe_ptr e ! j) \<noteq> PHYS_MAP_NODE_NIL"
  show "length ns' = length ns" using inv by (simp add: compact_inv_def)
  show "ns' ! n = ns ! n" if "n \<notin> nodes_of (Suc h) ns e"
    using that inv t(2) by (simp add: compact_inv_def)
  show "compact_ok h ns (ns ! pe_ptr e ! j) nsf (nsf ! pe_ptr e ! j)"
    if f: "\<forall>n \<in> nodes_of (Suc h) ns e. nsf ! n = ns' ! n" and j: "j < P_L2_SIZE"
  proof -
    have "\<forall>n \<in> nodes_of h ns (ns ! pe_ptr e ! j). nsf ! n = ns' ! n" "nsf ! pe_ptr e = ns' ! pe_ptr e"
      using f t(2) j by auto
    then show ?thesis using inv j by (simp add: compact_inv_def)
  qed
  show "vp < P_L2_SIZE \<and> (\<forall>j < P_L2_SIZE. j \<noteq> vp \<longrightarrow> pe_ptr (ns ! pe_ptr e ! j) = PHYS_MAP_NODE_NIL)"
    if "v = 1"
  proof -
    have c: "card {j. j < P_L2_SIZE \<and> ?P j} = 1" and vp: "vp < P_L2_SIZE" "?P vp"
      using inv that by (simp_all add: compact_inv_def)
    from c obtain x where x: "{j. j < P_L2_SIZE \<and> ?P j} = {x}" by (rule card_1_singletonE)
    have all: "j = x" if "j < P_L2_SIZE" "?P j" for j
    proof -
      have "j \<in> {j. j < P_L2_SIZE \<and> ?P j}" using that by simp
      then show ?thesis unfolding x by simp
    qed
    show ?thesis using vp(1) all [OF vp] all by metis
  qed
qed

lemma compact_level_Suc:
  assumes lev: "compact_level bits h"
  shows "compact_level bits (Suc h)"
  unfolding compact_level_def
proof (intro allI impI)
  fix ns e ns' e'
  assume r: "phys_page_compact bits (Suc h) ns e = (ns', e')" and t: "tree (Suc h) ns e"
    and skip: "pe_skip e \<noteq> 0" and nil: "\<forall>idx. leaf_sec (Suc h) ns e idx \<noteq> PHYS_MAP_NODE_NIL"
  show "compact_spec (Suc h) ns e ns' e'"
  proof (cases "internal e")
    case False
    then have "ns' = ns" "e' = e" using r skip by (auto simp: internal_def)
    then show ?thesis using compact_ok_self [OF t False] by (simp add: compact_spec_def)
  next
    case int: True
    let ?s = "\<lambda>j. ns ! pe_ptr e ! j"
    have ptr: "pe_ptr e \<noteq> PHYS_MAP_NODE_NIL" and one: "pe_skip e = 1" using int t by (auto simp: internal_def)
    have nilj: "leaf_sec h ns (?s j) idx \<noteq> PHYS_MAP_NODE_NIL" if j: "j < P_L2_SIZE" for j idx
    proof -
      obtain i where "slot h i = j" "\<forall>ns e. leaf_sec h ns e i = leaf_sec h ns e idx"
        using slot_page [OF j] by blast
      with nil [rule_format, of i] ptr skip show ?thesis by simp
    qed
    obtain ns1 vp v where f: "fold (compact_step bits h (pe_ptr e)) [0 ..< P_L2_SIZE] (ns, P_L2_SIZE, 0) =
        (ns1, vp, v)" by (rule prod_cases3)
    have inv: "compact_inv h ns (pe_ptr e) P_L2_SIZE (ns1, vp, v)"
      unfolding f [symmetric] by (rule compact_inv_fold [OF lev t int]) (simp_all add: nilj)
    note C = compact_children [OF t int inv]
    define c where "c = ns1 ! pe_ptr e ! vp"
    have res: "ns' = ns1" "e' = e \<or> v = 1 \<and> e' = e\<lparr>pe_ptr := pe_ptr c,
        pe_skip := (if pe_skip c = 0 then 0 else pe_skip e + pe_skip c)\<rparr>"
      using r f ptr by (auto simp: compact_step_def [abs_def] c_def Let_def split: if_splits)
    have "compact_ok (Suc h) ns e nsf e'" if fr: "\<forall>n \<in> nodes_of (Suc h) ns e. nsf ! n = ns1 ! n" for nsf
      using res(2)
    proof (elim disjE conjE)
      assume e': "e' = e"
      show ?thesis
      proof (rule compact_okI)
        fix idx
        have ok: "compact_ok h ns (?s (slot h idx)) nsf (nsf ! pe_ptr e ! slot h idx)"
          using C(3) [OF fr] by simp
        have w: "walk_sec nsf e' (Suc h) idx = walk_sec nsf (nsf ! pe_ptr e ! slot h idx) h idx"
          using walk_sec_node [of e "Suc h" nsf idx] ptr one e' by simp
        have l: "leaf_sec (Suc h) ns e idx = leaf_sec h ns (?s (slot h idx)) idx" using ptr one by simp
        show "walk_sec nsf e' (Suc h) idx = leaf_sec (Suc h) ns e idx \<or>
            leaf_sec (Suc h) ns e idx = PHYS_SECTION_UNASSIGNED"
          unfolding w l by (rule compact_okD(1) [OF ok])
        obtain i where i: "leaf_sec h ns (?s (slot h idx)) i = walk_sec nsf e' (Suc h) idx"
          unfolding w using compact_okD(2) [OF ok] by blast
        obtain i' where i': "slot h i' = slot h idx" "\<forall>ns e. leaf_sec h ns e i' = leaf_sec h ns e i"
          using slot_page [OF slot_less] by blast
        have "leaf_sec (Suc h) ns e i' = walk_sec nsf e' (Suc h) idx" using i i' ptr one by simp
        then show "\<exists>idx'. leaf_sec (Suc h) ns e idx' = walk_sec nsf e' (Suc h) idx" by blast
      qed (simp add: e' one)
    next
      assume v: "v = 1" and e': "e' = e\<lparr>pe_ptr := pe_ptr c,
        pe_skip := (if pe_skip c = 0 then 0 else pe_skip e + pe_skip c)\<rparr>"
      have vp: "vp < P_L2_SIZE" and others: "\<And>j. j < P_L2_SIZE \<Longrightarrow> j \<noteq> vp \<Longrightarrow> pe_ptr (?s j) = PHYS_MAP_NODE_NIL"
        using C(4) [OF v] by auto
      have c: "nsf ! pe_ptr e ! vp = c" using fr int by (simp add: c_def)
      have ok: "compact_ok h ns (?s vp) nsf c" using C(3) [OF fr vp] c by simp
      show ?thesis
      proof (rule compact_ok_lift [OF ok int vp])
        show "slot h idx = vp \<or> leaf_sec (Suc h) ns e idx = PHYS_SECTION_UNASSIGNED" for idx
        proof (cases "slot h idx = vp")
          case False
          then have "pe_ptr (?s (slot h idx)) = PHYS_MAP_NODE_NIL" using others by simp
          then show ?thesis using nilj [OF slot_less, of h idx idx] ptr one by (cases h) auto
        qed simp
        have sc: "pe_skip c \<le> h" using ok by (simp add: compact_ok_def)
        then show "pe_skip e' \<le> Suc h" using e' one by simp
        show "walk_sec nsf e' (Suc h) idx = walk_sec nsf c h idx" for idx
        proof (cases "pe_skip c = 0")
          case False
          then have "phys_page_walk nsf idx e' (Suc h) = phys_page_walk nsf idx c h"
            using e' one sc by (subst (1 2) phys_page_walk.simps) (simp add: Let_def)
          then show ?thesis by (simp add: walk_sec_def)
        qed (simp add: e')
      qed
    qed
    then show ?thesis using C(1,2) res(1) by (simp add: compact_spec_def)
  qed
qed

lemma compact_level_all: "compact_level bits h"
proof (induction h)
  case 0
  show ?case by (simp add: compact_level_def)
qed (rule compact_level_Suc)

section \<open>The sections of a view of whole pages\<close>

definition page_view :: "nat \<Rightarrow> ranges \<Rightarrow> bool" where
  "page_view bits view \<longleftrightarrow> fv_wf view \<and>
    (\<forall>r \<in> set view. 0 \<le> ar_start (fr_addr r) \<and> addrrange_end (fr_addr r) \<le> 2 ^ 64 \<and>
       2 ^ bits dvd ar_start (fr_addr r) \<and> 2 ^ bits dvd ar_size (fr_addr r))"

definition fr_section :: "FlatRange \<Rightarrow> DispatchSection" where
  "fr_section r =
    \<lparr>ds_mr = SecRegion (fr_mr r), ds_offset_within_region = fr_offset_in_region r,
     ds_size = ar_size (fr_addr r), ds_offset_within_address_space = word_of_int (ar_start (fr_addr r)),
     ds_readonly = fr_readonly r\<rparr>"

text \<open>The number of the section of an address: 0 where the view has no range.\<close>

fun view_index :: "ranges \<Rightarrow> int \<Rightarrow> nat" where
  "view_index [] a = PHYS_SECTION_UNASSIGNED"
| "view_index (r # rs) a =
    (if fr_covers r a then 1
     else let k = view_index rs a in if k = PHYS_SECTION_UNASSIGNED then k else Suc k)"

lemma view_index_append:
  "view_index (rs @ [r]) a =
    (if view_index rs a \<noteq> PHYS_SECTION_UNASSIGNED then view_index rs a
     else if fr_covers r a then Suc (length rs) else PHYS_SECTION_UNASSIGNED)"
  by (induction rs) (auto simp: PHYS_SECTION_UNASSIGNED_def Let_def)

lemma view_index_le: "view_index view a \<le> length view"
  by (induction view) (auto simp: PHYS_SECTION_UNASSIGNED_def Let_def)

lemma view_index_Suc:
  "view_index view a = Suc j \<Longrightarrow>
   j < length view \<and> fr_covers (view ! j) a \<and> fv_lookup view a = Some (fr_entry (view ! j) a)"
proof (induction view arbitrary: j)
  case (Cons r rs)
  show ?case
  proof (cases "fr_covers r a")
    case False
    then obtain k where "view_index rs a = Suc k" "j = Suc k"
      using Cons.prems by (auto simp: PHYS_SECTION_UNASSIGNED_def Let_def gr0_conv_Suc split: if_splits)
    with Cons.IH False show ?thesis by simp
  qed (use Cons.prems in simp)
qed (simp add: PHYS_SECTION_UNASSIGNED_def)

lemma view_index_0: "view_index view a = PHYS_SECTION_UNASSIGNED \<longleftrightarrow> fv_lookup view a = None"
  by (induction view) (auto simp: PHYS_SECTION_UNASSIGNED_def Let_def)

lemma fv_wf_disjoint:
  assumes "fv_wf view" "i < length view" "j < length view" "fr_covers (view ! i) a" "fr_covers (view ! j) a"
  shows "i = j"
proof -
  have "\<not> (k < l \<and> l < length view \<and> fr_covers (view ! k) a \<and> fr_covers (view ! l) a)" for k l
    using assms(1) sorted_wrt_nth_less [of fr_before view k l]
    by (auto simp: fv_wf_def fr_before_def fr_covers_def addrrange_contains_def)
  then show ?thesis using assms by (metis linorder_neqE_nat)
qed

lemma view_index_covers:
  assumes "fv_wf view" "j < length view" "fr_covers (view ! j) a"
  shows "view_index view a = Suc j"
proof (cases "view_index view a")
  case 0
  have "fv_lookup view a \<noteq> None" using assms(2,3)
    by (induction view arbitrary: j) (auto simp: less_Suc_eq_0_disj fr_entry_def)
  with 0 view_index_0 [of view a] show ?thesis by (simp add: PHYS_SECTION_UNASSIGNED_def)
next
  case (Suc k)
  from view_index_Suc [OF this] fv_wf_disjoint [OF assms(1), of k j a] assms Suc show ?thesis by simp
qed

lemma page_viewD:
  assumes "page_view bits view" "r \<in> set view"
  shows "0 < ar_size (fr_addr r)" "0 \<le> ar_start (fr_addr r)" "ar_start (fr_addr r) + ar_size (fr_addr r) \<le> 2 ^ 64"
    "2 ^ bits dvd ar_start (fr_addr r)" "2 ^ bits dvd ar_size (fr_addr r)"
  using assms by (auto simp: page_view_def fv_wf_def addrrange_end_def)

lemma section_from_page_range:
  assumes "page_view bits view" "r \<in> set view"
  shows "section_from_flat_range r = Some s \<Longrightarrow> dispatch_section s = fr_section r"
    and "section_from_flat_range r \<noteq> None"
  using page_viewD [OF assms]
  by (auto simp: section_from_flat_range_def get64_def dispatch_section_def fr_section_def)

lemma section_covers_range:
  assumes "page_view bits view" "r \<in> set view"
  shows "section_covers_addr (fr_section r) a \<longleftrightarrow> fr_covers r (uint a)"
proof -
  let ?s = "ar_start (fr_addr r)" and ?n = "ar_size (fr_addr r)"
  note r = page_viewD [OF assms]
  have a: "uint a < 2 ^ 64" "0 \<le> uint a" using u64_range [of a] by auto
  show ?thesis
  proof (cases "?n = 2 ^ 64")
    case True
    then have "?s = 0" using r by linarith
    then show ?thesis using True a
      by (simp add: section_covers_addr_def fr_section_def fr_covers_def addrrange_contains_def addrrange_end_def)
  next
    case False
    then have n: "?n < 2 ^ 64" and s: "?s < 2 ^ 64" using r by linarith+
    have last: "uint (word_of_int ?s + word_of_int ?n - 1 :: u64) = ?s + ?n - 1"
    proof -
      have "word_of_int ?s + word_of_int ?n - 1 = (word_of_int (?s + ?n - 1) :: u64)" by simp
      moreover have "(?s + ?n - 1) mod 2 ^ 64 = ?s + ?n - 1" using r by (intro mod_pos_pos_trivial) linarith+
      ultimately show ?thesis by (simp only: uint_word_of_int) simp
    qed
    have st: "uint (word_of_int ?s :: u64) = ?s" using s r(2) by (simp add: uint_word_of_int)
    have "?n div 2 ^ 64 = 0" "?n mod 2 ^ 64 = ?n" using n r(1) by simp_all
    then have "section_covers_addr (fr_section r) a \<longleftrightarrow>
        uint (word_of_int ?s :: u64) \<le> uint a \<and> uint a \<le> uint (word_of_int ?s + word_of_int ?n - 1 :: u64)"
      by (simp add: section_covers_addr_def fr_section_def word_le_def)
    also have "\<dots> \<longleftrightarrow> ?s \<le> uint a \<and> uint a < ?s + ?n" unfolding last st by linarith
    finally show ?thesis by (simp add: fr_covers_def addrrange_contains_def addrrange_end_def)
  qed
qed

text \<open>A range of whole pages covers an address when it covers the start of its page.\<close>

lemma aligned_le_iff: "0 < b \<Longrightarrow> b dvd s \<Longrightarrow> s \<le> a \<longleftrightarrow> s \<le> a div b * b" for a b s :: int
proof -
  assume b: "0 < b" and "b dvd s"
  then obtain k where k: "s = k * b" by (metis dvdE mult.commute)
  have "a div b * b \<le> a" using b by (simp add: minus_mod_eq_div_mult [symmetric])
  moreover have "k \<le> a div b" if "k * b \<le> a" using zdiv_mono1 [OF that b] b by simp
  moreover have "k * b \<le> a div b * b" if "k \<le> a div b" using that b by (intro mult_right_mono) auto
  ultimately show ?thesis unfolding k by (meson order_trans)
qed

lemma fr_covers_page:
  assumes "page_view bits view" "r \<in> set view"
  shows "fr_covers r a \<longleftrightarrow> fr_covers r (a div 2 ^ bits * 2 ^ bits)"
proof -
  note r = page_viewD [OF assms]
  have "2 ^ bits dvd ar_start (fr_addr r) + ar_size (fr_addr r)" using r by simp
  then show ?thesis
    using aligned_le_iff [of "2 ^ bits" "ar_start (fr_addr r)" a]
      aligned_le_iff [of "2 ^ bits" "ar_start (fr_addr r) + ar_size (fr_addr r)" a] r(4)
    by (simp add: fr_covers_def addrrange_contains_def addrrange_end_def linorder_not_le [symmetric])
qed

lemma view_index_page:
  assumes "page_view bits view"
  shows "view_index view a = view_index view (a div 2 ^ bits * 2 ^ bits)"
proof -
  have "view_index rs a = view_index rs (a div 2 ^ bits * 2 ^ bits)" if "set rs \<subseteq> set view" for rs
    using that fr_covers_page [OF assms, of _ a] by (induction rs) auto
  then show ?thesis by simp
qed

section \<open>Building the dispatch\<close>

text \<open>The dispatch after the ranges \<^term>\<open>rs\<close> of a view have been added.\<close>

definition built :: "nat \<Rightarrow> ranges \<Rightarrow> AddressSpaceDispatch \<Rightarrow> bool" where
  "built bits rs d \<longleftrightarrow>
    sections d = sections (address_space_dispatch_new bits) @ map fr_section rs \<and> subpages d = [] \<and>
    mru_section d = None \<and> tree (P_L2_LEVELS bits) (nodes d) (phys_map d) \<and>
    length (nodes d) \<le> length rs * (2 * P_L2_LEVELS bits) \<and>
    (\<forall>idx < P_L2_SIZE ^ P_L2_LEVELS bits.
       leaf_sec (P_L2_LEVELS bits) (nodes d) (phys_map d) idx = view_index rs (int idx * 2 ^ bits) \<and>
       (big_leaf (P_L2_LEVELS bits) (nodes d) (phys_map d) idx \<longrightarrow>
          view_index rs (int idx * 2 ^ bits) \<noteq> PHYS_SECTION_UNASSIGNED))"

lemma built_new: "built bits [] (address_space_dispatch_new bits)"
proof -
  obtain l where "P_L2_LEVELS bits = Suc l" by (simp add: P_L2_LEVELS_def)
  then show ?thesis by (simp add: built_def address_space_dispatch_new_def internal_def)
qed

lemma P_L2_LEVELS_le: "P_L2_LEVELS bits \<le> 8"
  by (simp add: P_L2_LEVELS_def P_L2_BITS_def)

lemma flatview_add_page_range:
  assumes v: "page_view bits view" "r \<in> set view" and bits: "0 < bits" "bits < 64"
    and room: "length (sections d) < 2 ^ bits" "length (sections d) < 2 ^ 16"
  shows "flatview_add_to_dispatch bits d (fr_section r) =
    phys_page_set_checked bits (d\<lparr>sections := sections d @ [fr_section r]\<rparr>)
      (nat (ar_start (fr_addr r) div 2 ^ bits)) (nat (ar_size (fr_addr r) div 2 ^ bits)) (length (sections d))"
proof -
  let ?s = "ar_start (fr_addr r)" and ?n = "ar_size (fr_addr r)"
  note r = page_viewD [OF v]
  have s: "?s < 2 ^ 64" using r by linarith
  have us: "uint (word_of_int ?s :: u64) = ?s" using s r(2) by (simp add: uint_word_of_int)
  have "uint (take_bit bits (word_of_int ?s :: u64)) = take_bit bits (uint (word_of_int ?s :: u64))"
    by (rule unsigned_take_bit_eq)
  also have "\<dots> = 0" unfolding us using r(4) by (simp add: take_bit_eq_mod)
  finally have off: "take_bit bits (word_of_int ?s :: u64) = 0" by (simp only: unsigned_eq_0_iff)
  have b: "(2 :: int) ^ 1 \<le> 2 ^ bits" using bits(1) by (intro power_increasing) auto
  have n0: "2 ^ bits \<le> ?n" using r(1,5) by (rule zdvd_imp_le [rotated])
  have n1: "0 < ?n div 2 ^ bits" using n0 r(5) by (simp add: pos_imp_zdiv_pos_iff)
  have "?n div 2 ^ bits \<le> 2 ^ 64 div 2 ^ bits" using r by (intro zdiv_mono1) auto
  also have "\<dots> \<le> 2 ^ 64 div 2 ^ 1" using b by (intro zdiv_mono2) auto
  also have "\<dots> < 2 ^ 64" by simp
  finally have n2: "?n div 2 ^ bits < 2 ^ 64" .
  have g: "get64 (?n div 2 ^ bits) = Some (word_of_int (?n div 2 ^ bits))" using n1 n2 by (simp add: get64_def)
  have un: "uint (word_of_int (?n div 2 ^ bits) :: u64) = ?n div 2 ^ bits"
    using n1 n2 by (simp add: uint_word_of_int)
  then have nz: "(word_of_int (?n div 2 ^ bits) :: u64) \<noteq> 0" using n1 by (metis less_irrefl unsigned_0)
  have nat_n: "unat (word_of_int (?n div 2 ^ bits) :: u64) = nat (?n div 2 ^ bits)"
    by (simp only: unat_eq_nat_uint un)
  have nat_s: "unat (word_of_int ?s :: u64) div 2 ^ bits = nat (?s div 2 ^ bits)"
    using r(2) by (simp only: unat_eq_nat_uint us) (simp add: nat_div_distrib nat_power_eq)
  have m: "?n mod 2 ^ bits = 0" using r(5) by simp
  show ?thesis
    using room off n0 m g nz
    by (simp add: flatview_add_to_dispatch_def target_page_offset_def fr_section_def register_rest_def
        register_multipage_def phys_section_add_def nat_n nat_s)
qed

lemma page_range:
  assumes v: "page_view bits view" "r \<in> set view" and bits: "bits < 64"
  defines "i \<equiv> nat (ar_start (fr_addr r) div 2 ^ bits)" and "k \<equiv> nat (ar_size (fr_addr r) div 2 ^ bits)"
  shows "0 < k" "i + k \<le> P_L2_SIZE ^ P_L2_LEVELS bits"
    and "i \<le> idx \<and> idx < i + k \<longleftrightarrow> fr_covers r (int idx * 2 ^ bits)"
proof -
  let ?b = "2 ^ bits :: int"
  note r = page_viewD [OF v]
  obtain s n where s: "ar_start (fr_addr r) = s * ?b" and n: "ar_size (fr_addr r) = n * ?b"
    using r(4,5) by (metis dvdE mult.commute)
  have pos: "0 \<le> s" "0 < n" using r(1,2) s n by (simp_all add: zero_le_mult_iff zero_less_mult_iff)
  have ik: "int i = s" "int k = n" using pos by (simp_all add: i_def k_def s n)
  show "0 < k" using ik pos by simp
  have "(s + n) * ?b \<le> 2 ^ (64 - bits) * ?b"
    using r(3) bits by (simp add: s n distrib_right power_add [symmetric])
  then have "int (i + k) \<le> 2 ^ (64 - bits)" using ik by simp
  then have "i + k \<le> 2 ^ (64 - bits)" by (metis of_nat_le_iff of_nat_numeral of_nat_power)
  also have "\<dots> \<le> 2 ^ (9 * P_L2_LEVELS bits)"
    using bits by (intro power_increasing) (simp_all add: P_L2_LEVELS_def P_L2_BITS_def)
  finally show "i + k \<le> P_L2_SIZE ^ P_L2_LEVELS bits" by (simp add: P_L2_SIZE_def P_L2_BITS_def power_mult)
  have "fr_covers r (int idx * ?b) \<longleftrightarrow> s * ?b \<le> int idx * ?b \<and> int idx * ?b < (s + n) * ?b"
    by (simp add: fr_covers_def addrrange_contains_def addrrange_end_def s n distrib_right)
  then show "i \<le> idx \<and> idx < i + k \<longleftrightarrow> fr_covers r (int idx * ?b)" using ik by auto
qed

lemma fv_wf_last_disjoint:
  assumes "fv_wf (rs @ [r])" "fr_covers r a"
  shows "view_index rs a = PHYS_SECTION_UNASSIGNED"
proof (cases "view_index rs a")
  case (Suc j)
  from view_index_Suc [OF this] fv_wf_disjoint [OF assms(1), of j "length rs" a] assms(2)
  show ?thesis by (simp add: nth_append)
qed (simp add: PHYS_SECTION_UNASSIGNED_def)

lemma built_step:
  assumes v: "page_view bits view" "view = rs @ r # rest" and bits: "0 < bits" "bits < 64"
    and room: "length view < 2 ^ bits" "length view < 2 ^ 16"
    and d: "built bits rs d"
  obtains d' where "flatview_add_to_dispatch bits d (fr_section r) = Some d'" "built bits (rs @ [r]) d'"
proof
  let ?L = "P_L2_LEVELS bits" and ?S = "P_L2_SIZE ^ P_L2_LEVELS bits"
  define i where "i = nat (ar_start (fr_addr r) div 2 ^ bits)"
  define k where "k = nat (ar_size (fr_addr r) div 2 ^ bits)"
  define d0 where "d0 = d\<lparr>sections := sections d @ [fr_section r]\<rparr>"
  define d' where "d' = phys_page_set bits d0 i k (length (sections d))"
  have rv: "r \<in> set view" and wf: "fv_wf (rs @ [r])"
    using v by (auto simp: page_view_def fv_wf_def sorted_wrt_append)
  note pr = page_range [OF v(1) rv bits(2), folded i_def k_def]
  have B: "sections d = sections (address_space_dispatch_new bits) @ map fr_section rs"
    "tree ?L (nodes d) (phys_map d)" "length (nodes d) \<le> length rs * (2 * ?L)"
    "subpages d = []" "mru_section d = None"
    "\<And>idx. idx < ?S \<Longrightarrow> leaf_sec ?L (nodes d) (phys_map d) idx = view_index rs (int idx * 2 ^ bits)"
    "\<And>idx. idx < ?S \<Longrightarrow> big_leaf ?L (nodes d) (phys_map d) idx \<Longrightarrow>
      view_index rs (int idx * 2 ^ bits) \<noteq> PHYS_SECTION_UNASSIGNED"
    using d by (auto simp: built_def)
  have len: "length (sections d) = Suc (length rs)" using B(1) by (simp add: address_space_dispatch_new_def)
  have n: "length (nodes d') \<le> Suc (length rs) * (2 * ?L)"
    using phys_page_set_nodes [OF pr(1), of bits d0 i "length (sections d)"] B(3) by (simp add: d'_def d0_def)
  also have "\<dots> \<le> length view * 16"
    using v(2) P_L2_LEVELS_le [of bits] by (intro mult_le_mono) simp_all
  finally have nil: "length (nodes d') \<le> PHYS_MAP_NODE_NIL" using room(2) by (simp add: PHYS_MAP_NODE_NIL_def)
  show "flatview_add_to_dispatch bits d (fr_section r) = Some d'"
    using flatview_add_page_range [OF v(1) rv bits, of d] len room v(2) nil
    by (simp add: phys_page_set_checked_def d'_def d0_def i_def k_def Let_def)
  have free: "\<not> big_leaf ?L (nodes d0) (phys_map d0) idx" if "i \<le> idx" "idx < i + k" for idx
    using that pr(2,3) B(7) [of idx] fv_wf_last_disjoint [OF wf, of "int idx * 2 ^ bits"]
    by (auto simp: d0_def)
  have t0: "tree ?L (nodes d0) (phys_map d0)" using B(2) by (simp add: d0_def)
  note sp = phys_page_set_spec [OF t0 pr(1,2) free nil [unfolded d'_def], folded d'_def]
  have leaf: "leaf_sec ?L (nodes d') (phys_map d') idx =
      (if i \<le> idx \<and> idx < i + k then Suc (length rs) else leaf_sec ?L (nodes d) (phys_map d) idx) \<and>
      (\<not> (i \<le> idx \<and> idx < i + k) \<longrightarrow>
        big_leaf ?L (nodes d') (phys_map d') idx = big_leaf ?L (nodes d) (phys_map d) idx)" if "idx < ?S" for idx
    using sp(1) that len by (simp add: set_spec_def d0_def)
  have "leaf_sec ?L (nodes d') (phys_map d') idx = view_index (rs @ [r]) (int idx * 2 ^ bits) \<and>
      (big_leaf ?L (nodes d') (phys_map d') idx \<longrightarrow>
        view_index (rs @ [r]) (int idx * 2 ^ bits) \<noteq> PHYS_SECTION_UNASSIGNED)" if x: "idx < ?S" for idx
  proof (cases "i \<le> idx \<and> idx < i + k")
    case True
    then have c: "fr_covers r (int idx * 2 ^ bits)" using pr(3) by simp
    show ?thesis using leaf [OF x] True fv_wf_last_disjoint [OF wf c] c
      by (simp add: view_index_append PHYS_SECTION_UNASSIGNED_def)
  next
    case False
    then have "\<not> fr_covers r (int idx * 2 ^ bits)" using pr(3) by simp
    then show ?thesis using leaf [OF x] False B(6,7) [OF x] by (auto simp: view_index_append)
  qed
  then show "built bits (rs @ [r]) d'"
    using sp B(1,4,5) n unfolding built_def by (simp add: set_spec_def confined_def d0_def)
qed

lemma built_all:
  assumes v: "page_view bits view" and bits: "0 < bits" "bits < 64"
    and room: "length view < 2 ^ bits" "length view < 2 ^ 16"
    and "view = rs @ rest" "built bits rs d"
  shows "\<exists>d'. foldM (\<lambda>fr d. do {
         s \<leftarrow> section_from_flat_range fr;
         flatview_add_to_dispatch bits d (dispatch_section s) }) rest d = Some d' \<and> built bits view d'"
  using assms(6,7)
proof (induction rest arbitrary: rs d)
  case (Cons r rest)
  obtain d1 where d1: "flatview_add_to_dispatch bits d (fr_section r) = Some d1" "built bits (rs @ [r]) d1"
    by (rule built_step [OF v Cons.prems(1) bits room Cons.prems(2)])
  have "r \<in> set view" using Cons.prems(1) by simp
  from section_from_page_range [OF v this]
  obtain s where "section_from_flat_range r = Some s" "dispatch_section s = fr_section r" by blast
  with Cons.IH [of "rs @ [r]" d1] Cons.prems(1) d1 show ?case by simp
qed simp

section \<open>Looking up in the dispatch\<close>

text \<open>A dispatch that answers for the view, whatever section it has cached.\<close>

definition dispatch_ok :: "nat \<Rightarrow> ranges \<Rightarrow> AddressSpaceDispatch \<Rightarrow> bool" where
  "dispatch_ok bits view d \<longleftrightarrow>
    sections d = sections (address_space_dispatch_new bits) @ map fr_section view \<and> subpages d = [] \<and>
    (\<forall>m. mru_section d = Some m \<longrightarrow> m \<le> length view) \<and>
    (\<forall>addr. phys_page_find bits d addr = view_index view (uint addr))"

lemma dispatch_section_nth:
  assumes "sections d = sections (address_space_dispatch_new bits) @ map fr_section view" "j < length view"
  shows "sections d ! Suc j = fr_section (view ! j)"
  using assms by (simp add: address_space_dispatch_new_def)

lemma page_start: "int (unat (addr :: u64) div 2 ^ bits) * 2 ^ bits = uint addr div 2 ^ bits * 2 ^ bits"
  by (simp add: zdiv_int)

lemma built_find:
  assumes v: "page_view bits view" and bits: "bits < 64" and d: "built bits view d"
    and w: "\<And>idx. idx < P_L2_SIZE ^ P_L2_LEVELS bits \<Longrightarrow>
      walk_sec (nodes d') (phys_map d') (P_L2_LEVELS bits) idx = view_index view (int idx * 2 ^ bits) \<or>
      view_index view (int idx * 2 ^ bits) = PHYS_SECTION_UNASSIGNED \<and>
      walk_sec (nodes d') (phys_map d') (P_L2_LEVELS bits) idx \<le> length view"
    and s: "sections d' = sections d"
  shows "phys_page_find bits d' addr = view_index view (uint addr)"
proof -
  let ?i = "unat addr div 2 ^ bits"
  let ?w = "walk_sec (nodes d') (phys_map d') (P_L2_LEVELS bits) ?i"
  have f: "phys_page_find bits d' addr =
      (if section_covers_addr (sections d' ! ?w) addr then ?w else PHYS_SECTION_UNASSIGNED) \<or>
      phys_page_find bits d' addr = PHYS_SECTION_UNASSIGNED \<and> ?w = PHYS_SECTION_UNASSIGNED"
    by (auto simp: phys_page_find_def walk_sec_def split: sum.splits)
  have vi: "view_index view (int ?i * 2 ^ bits) = view_index view (uint addr)"
    using view_index_page [OF v, of "uint addr"] by (simp only: page_start)
  have cov: "section_covers_addr (sections d' ! Suc j) addr \<longleftrightarrow> fr_covers (view ! j) (uint addr)"
    if "j < length view" for j
    using section_covers_range [OF v, of "view ! j" addr] that s d dispatch_section_nth [of d' bits view j]
    by (simp add: built_def)
  from w [OF page_in_span [OF bits], of addr]
  have w': "?w = view_index view (uint addr) \<or>
      view_index view (uint addr) = PHYS_SECTION_UNASSIGNED \<and> ?w \<le> length view"
    by (simp only: vi)
  show ?thesis
  proof (cases ?w)
    case 0
    then show ?thesis using f w' by (auto simp: PHYS_SECTION_UNASSIGNED_def)
  next
    case (Suc j)
    then have j: "j < length view" using w' view_index_le [of view "uint addr"] by auto
    have f': "phys_page_find bits d' addr =
        (if fr_covers (view ! j) (uint addr) then Suc j else PHYS_SECTION_UNASSIGNED)"
      using f cov [OF j] Suc by (simp add: PHYS_SECTION_UNASSIGNED_def)
    show ?thesis
    proof (cases "fr_covers (view ! j) (uint addr)")
      case True
      then show ?thesis using f' view_index_covers [OF _ j] v by (simp add: page_view_def)
    next
      case False
      then have "view_index view (uint addr) \<noteq> Suc j" using view_index_Suc by blast
      then show ?thesis using f' False w' Suc by simp
    qed
  qed
qed

lemma leaf_sec_any:
  "\<exists>idx' < P_L2_SIZE ^ h. leaf_sec h ns e idx' = leaf_sec h ns e idx"
  using leaf_sec_mod [of "idx mod P_L2_SIZE ^ h" h idx] by (intro exI [of _ "idx mod P_L2_SIZE ^ h"]) simp

lemma dispatch_compact_ok:
  assumes v: "page_view bits view" and bits: "bits < 64" and d: "built bits view d"
    and room: "length view < PHYS_MAP_NODE_NIL"
  shows "dispatch_ok bits view (address_space_dispatch_compact bits d)"
proof -
  let ?L = "P_L2_LEVELS bits" and ?S = "P_L2_SIZE ^ P_L2_LEVELS bits"
  let ?d = "address_space_dispatch_compact bits d"
  have t: "tree ?L (nodes d) (phys_map d)" using d by (simp add: built_def)
  have leaf: "leaf_sec ?L (nodes d) (phys_map d) idx = view_index view (int idx * 2 ^ bits)" if "idx < ?S" for idx
    using that d by (simp add: built_def)
  have le: "leaf_sec ?L (nodes d) (phys_map d) idx \<le> length view" for idx
    using leaf_sec_any [of ?L "nodes d" "phys_map d" idx] leaf view_index_le by metis
  have same: "sections ?d = sections d" "subpages ?d = subpages d" "mru_section ?d = mru_section d"
    by (auto simp: address_space_dispatch_compact_def split: prod.splits)
  have "walk_sec (nodes ?d) (phys_map ?d) ?L idx = view_index view (int idx * 2 ^ bits) \<or>
      view_index view (int idx * 2 ^ bits) = PHYS_SECTION_UNASSIGNED \<and>
      walk_sec (nodes ?d) (phys_map ?d) ?L idx \<le> length view" if idx: "idx < ?S" for idx
  proof (cases "pe_skip (phys_map d) = 0")
    case True
    then have "?d = d" by (simp add: address_space_dispatch_compact_def)
    then show ?thesis using phys_page_walk_tree [OF t, of idx] leaf [OF idx] by (simp add: walk_sec_def)
  next
    case False
    obtain ns e where r: "phys_page_compact bits ?L (nodes d) (phys_map d) = (ns, e)" by fastforce
    have "leaf_sec ?L (nodes d) (phys_map d) i \<noteq> PHYS_MAP_NODE_NIL" for i using le [of i] room by simp
    from compact_levelD [OF compact_level_all r t False this]
    have ok: "compact_ok ?L (nodes d) (phys_map d) ns e" by (simp add: compact_spec_def)
    have d': "nodes ?d = ns" "phys_map ?d = e" using False r by (simp_all add: address_space_dispatch_compact_def)
    show ?thesis unfolding d' using compact_okD [OF ok, of idx] leaf [OF idx] le by metis
  qed
  then have "phys_page_find bits ?d addr = view_index view (uint addr)" for addr
    by (rule built_find [OF v bits d _ same(1)])
  then show ?thesis using d same by (simp add: dispatch_ok_def built_def)
qed

lemma generate_dispatch_ok:
  assumes "page_view bits view" "0 < bits" "bits < 64" "length view < 2 ^ bits"
    "length view < 2 ^ 16"
  shows "\<exists>d. generate_dispatch bits view = Some d \<and> dispatch_ok bits view d \<and> mru_section d = None"
proof -
  obtain d where d: "foldM (\<lambda>fr d. do {
         s \<leftarrow> section_from_flat_range fr;
         flatview_add_to_dispatch bits d (dispatch_section s) }) view (address_space_dispatch_new bits) = Some d"
    "built bits view d"
    using built_all [OF assms _ built_new, of view] by auto
  have "length view < PHYS_MAP_NODE_NIL" using assms(5) by (simp add: PHYS_MAP_NODE_NIL_def)
  from dispatch_compact_ok [OF assms(1,3) d(2) this] d show ?thesis
    by (auto simp: generate_dispatch_def built_def address_space_dispatch_compact_def split: prod.splits)
qed

lemma find_mru: "phys_page_find bits (d\<lparr>mru_section := m\<rparr>) addr = phys_page_find bits d addr"
  by (simp add: phys_page_find_def cong: sum.case_cong)

lemma dispatch_ok_mru: "dispatch_ok bits view d \<Longrightarrow> m \<le> length view \<Longrightarrow> dispatch_ok bits view (d\<lparr>mru_section := Some m\<rparr>)"
  by (simp add: dispatch_ok_def find_mru)

lemma dispatch_lookup:
  assumes v: "page_view bits view" and d: "dispatch_ok bits view d"
  shows "address_space_lookup_region bits d addr resolve_subpage =
    (view_index view (uint addr), d\<lparr>mru_section := Some (view_index view (uint addr))\<rparr>)"
proof -
  let ?n = "view_index view (uint addr)"
  have secs: "sections d = sections (address_space_dispatch_new bits) @ map fr_section view"
    and find: "phys_page_find bits d addr = ?n" using d by (auto simp: dispatch_ok_def)
  have nosub: "ds_mr (sections d ! n) \<noteq> SecSubpage k" if "n \<le> length view" for n k
  proof (cases n)
    case (Suc j)
    then show ?thesis using that dispatch_section_nth [OF secs, of j] by (simp add: fr_section_def)
  qed (simp add: secs address_space_dispatch_new_def)
  have hit: "m = ?n" if m: "mru_section d = Some m" "m \<noteq> PHYS_SECTION_UNASSIGNED"
    "section_covers_addr (sections d ! m) addr" for m
  proof -
    have "m \<le> length view" using d m(1) by (simp add: dispatch_ok_def)
    then obtain j where j: "m = Suc j" "j < length view" using m(2) by (cases m) (auto simp: PHYS_SECTION_UNASSIGNED_def)
    then have "fr_covers (view ! j) (uint addr)"
      using m(3) section_covers_range [OF v, of "view ! j" addr] dispatch_section_nth [OF secs, of j] by simp
    then show ?thesis using view_index_covers [OF _ j(2)] v j(1) by (simp add: page_view_def)
  qed
  have "(case mru_section d of
          Some m \<Rightarrow>
            if m = PHYS_SECTION_UNASSIGNED \<or> \<not> section_covers_addr (sections d ! m) addr
            then let n = phys_page_find bits d addr in (n, d\<lparr>mru_section := Some n\<rparr>)
            else (m, d)
        | None \<Rightarrow> let n = phys_page_find bits d addr in (n, d\<lparr>mru_section := Some n\<rparr>)) =
      (?n, d\<lparr>mru_section := Some ?n\<rparr>)"
    using find hit by (cases "mru_section d") (auto simp: Let_def)
  then show ?thesis using nosub [OF view_index_le [of view "uint addr"]]
    by (auto simp: address_space_lookup_region_def split: section_mr.splits)
qed

section \<open>Properties\<close>

text \<open>
  C18: the dispatch of a view of whole pages with fewer ranges than a page has bytes, which the code
  asserts, and fewer than 65536, the range of its 16-bit section numbers, exists and resolves each
  address as the view does, whichever section it has cached: an address that no range covers gives the unassigned section, and
  any other a section with the range's region and permission whose offsets translate the address.
\<close>

theorem dispatch_resolves:
  assumes "page_view bits view" "0 < bits" "bits < 64" "length view < 2 ^ bits" "length view < 2 ^ 16"
  shows "\<exists>d. generate_dispatch bits view = Some d \<and>
    (\<forall>addr m resolve_subpage. m \<le> length view \<longrightarrow>
      (let n = fst (address_space_lookup_region bits (d\<lparr>mru_section := Some m\<rparr>) addr resolve_subpage);
           s = sections d ! n in
       case fv_lookup view (uint addr) of
         None \<Rightarrow> n = PHYS_SECTION_UNASSIGNED
       | Some (mr, offset, readonly) \<Rightarrow>
           ds_mr s = SecRegion mr \<and> ds_readonly s = readonly \<and>
           ds_offset_within_region s + (addr - ds_offset_within_address_space s) = offset))"
proof -
  obtain d where d: "generate_dispatch bits view = Some d" "dispatch_ok bits view d"
    using generate_dispatch_ok [of bits view] assms by auto
  have "let n = fst (address_space_lookup_region bits (d\<lparr>mru_section := Some m\<rparr>) addr rs); s = sections d ! n in
       case fv_lookup view (uint addr) of
         None \<Rightarrow> n = PHYS_SECTION_UNASSIGNED
       | Some (mr, offset, readonly) \<Rightarrow>
           ds_mr s = SecRegion mr \<and> ds_readonly s = readonly \<and>
           ds_offset_within_region s + (addr - ds_offset_within_address_space s) = offset"
    if m: "m \<le> length view" for addr m rs
  proof -
    have l: "fst (address_space_lookup_region bits (d\<lparr>mru_section := Some m\<rparr>) addr rs) = view_index view (uint addr)"
      using dispatch_lookup [OF assms(1) dispatch_ok_mru [OF d(2) m]] by simp
    show ?thesis
    proof (cases "view_index view (uint addr)")
      case 0
      then have "fv_lookup view (uint addr) = None"
        using view_index_0 [of view "uint addr"] by (simp add: PHYS_SECTION_UNASSIGNED_def)
      then show ?thesis using l 0 by (simp add: PHYS_SECTION_UNASSIGNED_def)
    next
      case (Suc j)
      note e = view_index_Suc [OF Suc]
      have "sections d ! Suc j = fr_section (view ! j)"
        using d(2) e by (intro dispatch_section_nth [of d bits]) (simp_all add: dispatch_ok_def)
      then show ?thesis using l Suc e by (simp add: fr_entry_def fr_section_def)
    qed
  qed
  with d(1) show ?thesis by blast
qed

definition demo_view :: ranges where
  "demo_view = [\<lparr>fr_mr = 7, fr_offset_in_region = 0, fr_addr = addrrange_make 4096 8192, fr_readonly = True\<rparr>]"

theorem dispatch_resolves_witness:
  "\<exists>d. generate_dispatch 12 demo_view = Some d \<and>
    ds_mr (sections d ! fst (address_space_lookup_region 12 (d\<lparr>mru_section := Some 0\<rparr>) 8196 True)) = SecRegion 7"
proof -
  have "page_view 12 demo_view"
    by (simp add: page_view_def fv_wf_def demo_view_def addrrange_make_def addrrange_end_def)
  then obtain d where d: "generate_dispatch 12 demo_view = Some d"
    and r: "\<forall>addr m resolve_subpage. m \<le> length demo_view \<longrightarrow>
      (let n = fst (address_space_lookup_region 12 (d\<lparr>mru_section := Some m\<rparr>) addr resolve_subpage);
           s = sections d ! n in
       case fv_lookup demo_view (uint addr) of
         None \<Rightarrow> n = PHYS_SECTION_UNASSIGNED
       | Some (mr, offset, readonly) \<Rightarrow>
           ds_mr s = SecRegion mr \<and> ds_readonly s = readonly \<and>
           ds_offset_within_region s + (addr - ds_offset_within_address_space s) = offset)"
    using dispatch_resolves [of 12 demo_view] by (auto simp: demo_view_def)
  have "fv_lookup demo_view (uint (8196 :: u64)) = Some (7, 4100, True)"
    by (simp add: demo_view_def fr_covers_def addrrange_contains_def addrrange_end_def addrrange_make_def fr_entry_def)
  with r [rule_format, of 0 8196 True] d show ?thesis by (simp add: Let_def)
qed

text \<open>
  C23: the nodes that \<^verbatim>\<open>phys_page_set\<close> reserves before it fills a range are enough for every range: the
  array is never written beyond its capacity, however the tree looks.
\<close>

theorem node_reservation_suffices:
  assumes "0 < nb"
  shows "length (nodes (phys_page_set bits d index nb leaf)) \<le>
    fst (phys_map_node_reserve alloc_hint nodes_nb_alloc (length (nodes d)) (3 * P_L2_LEVELS bits))"
  using phys_page_set_nodes [OF assms, of bits d index leaf]
  by (auto simp: phys_map_node_reserve_def Let_def)

theorem node_reservation_suffices_witness:
  "length (nodes (phys_page_set 12 (address_space_dispatch_new 12) 5 1000 1)) \<le> 18"
  using node_reservation_suffices [of 1000 12 "address_space_dispatch_new 12" 5 1 0 0]
  by (simp add: phys_map_node_reserve_def address_space_dispatch_new_def P_L2_LEVELS_def P_L2_BITS_def)

end
