(* ===== verification/UcState.thy ===== *)
theory UcState
  imports PhysMap UcList GTree
begin

text \<open>
  The engine state. \<^verbatim>\<open>uc_struct\<close> (\<^verbatim>\<open>include/uc_priv.h\<close>) is a record: the fields of the memory system
  that \<^verbatim>\<open>uc.c\<close>, \<^verbatim>\<open>qemu/softmmu/memory.c\<close> and \<^verbatim>\<open>qemu/exec.c\<close> share, the hook tables, and the fields that
  drive emulation. Heap objects live in stores indexed by pointers. The part of the CPU that the
  target code owns (registers, TLB, translated blocks) is the type parameter \<^typ>\<open>'c\<close>. The function
  pointers of \<^verbatim>\<open>uc_struct\<close> and everything the host decides (allocation, callbacks) are the record
  \<^verbatim>\<open>uc_env\<close>, which the operations take as an argument.
\<close>

section \<open>Error codes and constants\<close>

datatype uc_err =
    UC_ERR_OK | UC_ERR_NOMEM | UC_ERR_ARCH | UC_ERR_HANDLE | UC_ERR_MODE | UC_ERR_VERSION
  | UC_ERR_READ_UNMAPPED | UC_ERR_WRITE_UNMAPPED | UC_ERR_FETCH_UNMAPPED | UC_ERR_HOOK
  | UC_ERR_INSN_INVALID | UC_ERR_MAP | UC_ERR_WRITE_PROT | UC_ERR_READ_PROT | UC_ERR_FETCH_PROT
  | UC_ERR_ARG | UC_ERR_READ_UNALIGNED | UC_ERR_WRITE_UNALIGNED | UC_ERR_FETCH_UNALIGNED
  | UC_ERR_HOOK_EXIST | UC_ERR_RESOURCE | UC_ERR_EXCEPTION

definition UC_PROT_NONE :: u32 where "UC_PROT_NONE = 0"
definition UC_PROT_READ :: u32 where "UC_PROT_READ = 1"
definition UC_PROT_WRITE :: u32 where "UC_PROT_WRITE = 2"
definition UC_PROT_EXEC :: u32 where "UC_PROT_EXEC = 4"
definition UC_PROT_ALL :: u32 where "UC_PROT_ALL = 7"

definition RAM_PREALLOC :: u32 where "RAM_PREALLOC = 1"

definition MEM_BLOCK_INCR :: nat where "MEM_BLOCK_INCR = 32"

definition UC_MAX_NESTED_LEVEL :: nat where "UC_MAX_NESTED_LEVEL = 64"

text \<open>
  The array \<^verbatim>\<open>uc->mapped_blocks\<close>: not allocated yet, allocated, or freed by a \<^verbatim>\<open>g_realloc\<close> that failed
  (\<^verbatim>\<open>glib_compat/gmem.c\<close> frees the old memory then, and \<^verbatim>\<open>uc.c\<close> keeps the pointer).
\<close>

datatype table_memory = TableNull | TableLive | TableFreed

text \<open>The bound on the depth of the region tree: the system memory and the regions mapped in it.\<close>

definition topology_depth :: nat where "topology_depth = 2"

section \<open>Objects of the memory system\<close>

record RAMBlock =
  rb_mr :: mr_ptr
  rb_host :: "nat option"
  rb_offset :: u64
  rb_used_length :: u64
  rb_max_length :: u64
  rb_flags :: u32
  rb_page_size :: u64

record FlatView =
  fv_root :: "mr_ptr option"
  fv_ranges :: ranges
  fv_dispatch :: AddressSpaceDispatch

text \<open>\<^verbatim>\<open>TargetPageBits\<close>: the page size of a target that chooses it at run time.\<close>

record TargetPageBits =
  tp_decided :: bool
  tp_bits :: nat
  tp_mask :: u64

record AddressSpace =
  as_root :: "mr_ptr option"
  as_current_map :: "FlatView option"

section \<open>The CPU\<close>

text \<open>The fields of \<^verbatim>\<open>CPUState\<close> (\<^verbatim>\<open>qemu/include/hw/core/cpu.h\<close>) that the generic code drives.\<close>

record 'c CPUState =
  cpu_created :: bool
  cpu_stop :: bool
  cpu_stopped :: bool
  cpu_halted :: bool
  cpu_exit_request :: bool
  cpu_tcg_exit_req :: bool
  cpu_icount_decr_high :: u16
  cpu_exception_index :: int
  cpu_interrupt_request :: u32
  cpu_arch :: 'c

section \<open>Hooks\<close>

type_synonym hook_ptr = nat

record HookedRegion =
  hr_start :: u64
  hr_length :: u64

record hook =
  h_type :: u32
  h_insn :: u32
  h_refs :: int
  h_op :: u32
  h_op_flags :: u32
  h_to_delete :: bool
  h_begin :: u64
  h_end :: u64
  h_callback :: nat
  h_user_data :: nat
  h_hooked_regions :: "HookedRegion list"

text \<open>
  The lists of hooks hold hook pointers; a list's \<^verbatim>\<open>delete_fn\<close> is \<^verbatim>\<open>hook_delete\<close>, which works on the
  store of hooks.
\<close>

type_synonym hook_store = "hook_ptr \<rightharpoonup> hook"
type_synonym hook_list = "(hook_ptr, hook_store) clist"

text \<open>
  The field \<^verbatim>\<open>flat_view_gen\<close> of the model counts the rebuilds of the flat views: code that holds a view
  across a rebuild holds a freed one.
\<close>

definition UC_HOOK_MAX :: nat where "UC_HOOK_MAX = 17"

section \<open>The engine\<close>

record 'c uc_struct =
  uc_arch :: u32
  uc_mode :: u32
  uc_errnum :: uc_err
  uc_init_done :: bool
  \<comment> \<open>memory\<close>
  mr_store :: mr_store
  rb_store :: "rb_ptr \<rightharpoonup> RAMBlock"
  host_mem :: "nat \<Rightarrow> u8"
  system_memory :: mr_ptr
  system_io :: mr_ptr
  address_spaces :: "AddressSpace list"
  flat_view_gen :: nat
  tcg_listener :: bool
  memory_region_update_pending :: bool
  ram_list :: "rb_ptr list"
  ram_mru_block :: "rb_ptr option"
  mapped_blocks :: "mr_ptr list"
  mapped_blocks_memory :: table_memory
  mapped_block_cache_index :: nat
  init_target_page :: "TargetPageBits option"
  target_page_bits :: nat
  target_page_size :: u32
  target_page_align :: u32
  qemu_host_page_size :: u64
  qemu_real_host_page_size :: u64
  \<comment> \<open>hooks\<close>
  uc_hook :: "nat \<Rightarrow> hook_list"
  hooks_to_del :: hook_list
  hook_heap :: hook_store
  hooks_count :: "nat \<Rightarrow> int"
  count_hook :: hook_ptr
  hook_insert_mode :: bool
  \<comment> \<open>emulation\<close>
  emu_counter :: u64
  emu_count :: u64
  size_recur_mem :: int
  stop_request :: bool
  quit_request :: bool
  uc_exit_request :: bool
  emulation_done :: bool
  timed_out :: bool
  uc_timeout :: u64
  invalid_addr :: u64
  invalid_error :: uc_err
  use_exits :: bool
  uc_exits :: "nat \<Rightarrow> u64"
  ctl_exits :: "(u64, nat) GTree"
  uc_thumb :: bool
  next_pc :: u64
  first_tb :: bool
  no_exit_request :: bool
  nested_level :: nat
  uc_cpu_model :: int
  uc_target_bits :: int
  cpu_context_size :: u64
  uc_cpu :: "'c CPUState option"

text \<open>\<^verbatim>\<open>uc_context\<close>: a saved CPU context.\<close>

record 'c uc_context =
  cx_context_size :: u64
  cx_mode :: u32
  cx_arch :: u32
  cx_data :: 'c

text \<open>
  How finding or executing a translation block ends: it comes back, or it leaves with \<^verbatim>\<open>siglongjmp\<close> to the
  start of the execution loop.
\<close>

datatype tb_outcome = TbReturn | TbLongjmp

text \<open>
  The environment: function pointers that the targets fill in, allocation, and the callbacks of the
  client, which may change the engine.
\<close>

record 'c uc_env =
  env_mem_redirect :: "(u64 \<Rightarrow> u64) option"
  env_get_pc :: "'c uc_struct \<Rightarrow> u64"
  env_tlb_flush :: "'c \<Rightarrow> 'c"
  env_tlb_flush_page :: "u64 \<Rightarrow> 'c \<Rightarrow> 'c"
  env_init_arch :: "'c uc_struct \<Rightarrow> 'c uc_struct"
  env_cpus_init :: "'c uc_struct \<Rightarrow> bool \<times> 'c uc_struct"
  env_reg_reset :: "('c uc_struct \<Rightarrow> 'c uc_struct) option"
  env_real_host_page_size :: u64
  env_page_bits_vary :: bool
  env_target_page_bits :: nat
  env_tcg_exec_init :: "'c uc_struct \<Rightarrow> 'c uc_struct"
  env_invalidate_tb :: "u64 \<Rightarrow> u64 \<Rightarrow> 'c uc_struct \<Rightarrow> 'c uc_struct"
  env_tb_flush :: "'c \<Rightarrow> 'c"
  env_gen_tb :: "u64 \<Rightarrow> 'c uc_struct \<Rightarrow> uc_err \<times> 'c uc_struct"
  env_insn_hook_validate :: "(u32 \<Rightarrow> bool) option"
  env_opcode_hook_invalidate :: "(u32 \<Rightarrow> u32 \<Rightarrow> bool) option"
  env_new_hook :: "'c uc_struct \<Rightarrow> hook_ptr option"
  env_new_item :: "'c uc_struct \<Rightarrow> hook_list \<Rightarrow> nat option"
  env_callback :: "nat \<Rightarrow> u64 \<Rightarrow> u64 list \<Rightarrow> u32 \<Rightarrow> nat \<Rightarrow> 'c uc_struct \<Rightarrow> 'c uc_struct"
  env_insn_invalid_cb :: "nat \<Rightarrow> nat \<Rightarrow> 'c uc_struct \<Rightarrow> bool \<times> 'c uc_struct"
  env_reg_read :: "(u32 list \<Rightarrow> 'c uc_struct \<Rightarrow> uc_err \<times> u64 list) option"
  env_reg_write :: "((u32 \<times> u64) list \<Rightarrow> 'c uc_struct \<Rightarrow> uc_err \<times> 'c uc_struct) option"
  env_query_mode :: "'c uc_struct \<Rightarrow> uc_err \<times> u64"
  env_context_size :: "('c uc_struct \<Rightarrow> u64) option"
  env_context_save :: "('c uc_struct \<Rightarrow> 'c uc_context \<Rightarrow> uc_err \<times> 'c uc_context) option"
  env_context_restore :: "('c uc_context \<Rightarrow> 'c uc_struct \<Rightarrow> uc_err \<times> 'c uc_struct) option"
  env_memcpy :: "u64 \<Rightarrow> 'c \<Rightarrow> 'c \<Rightarrow> 'c"
  env_has_work :: "'c CPUState \<Rightarrow> bool"
  env_cpu_exec_enter :: "'c \<Rightarrow> 'c"
  env_cpu_exec_exit :: "'c \<Rightarrow> 'c"
  env_stop_interrupt :: "('c uc_struct \<Rightarrow> int \<Rightarrow> bool \<times> 'c uc_struct) option"
  env_debug_excp_handler :: "'c uc_struct \<Rightarrow> 'c uc_struct"
  env_cpu_exec_interrupt :: "u32 \<Rightarrow> 'c uc_struct \<Rightarrow> bool \<times> 'c uc_struct"
  env_cpu_reset :: "'c uc_struct \<Rightarrow> 'c uc_struct"
  env_intr_fixup :: "'c uc_struct \<Rightarrow> 'c uc_struct"
  env_tb_find :: "'c uc_struct \<Rightarrow> tb_outcome \<times> 'c uc_struct"
  env_tb_exec :: "'c uc_struct \<Rightarrow> tb_outcome \<times> 'c uc_struct"
  env_new_mr :: "'c uc_struct \<Rightarrow> mr_ptr"
  env_new_rb :: "'c uc_struct \<Rightarrow> rb_ptr option"
  env_ram_mmap :: "'c uc_struct \<Rightarrow> u64 \<Rightarrow> nat option"
  env_realloc_ok :: "'c uc_struct \<Rightarrow> bool"
  env_backup_ok :: "'c uc_struct \<Rightarrow> u64 \<Rightarrow> bool"
  env_mmio_read :: "nat \<Rightarrow> 'c uc_struct \<Rightarrow> u64 \<Rightarrow> nat \<Rightarrow> nat \<Rightarrow> u64 \<times> 'c uc_struct"
  env_mmio_write :: "nat \<Rightarrow> 'c uc_struct \<Rightarrow> u64 \<Rightarrow> nat \<Rightarrow> u64 \<Rightarrow> nat \<Rightarrow> 'c uc_struct"
  env_target_bigendian :: bool
  env_target_long_bits :: nat

section \<open>Stopping the CPU\<close>

definition upd_cpu :: "('c CPUState \<Rightarrow> 'c CPUState) \<Rightarrow> 'c uc_struct \<Rightarrow> 'c uc_struct" where
  "upd_cpu f uc = uc\<lparr>uc_cpu := map_option f (uc_cpu uc)\<rparr>"

definition cpu_exit :: "'c CPUState \<Rightarrow> 'c CPUState" where
  "cpu_exit cpu = cpu\<lparr>cpu_exit_request := True, cpu_tcg_exit_req := True, cpu_icount_decr_high := -1\<rparr>"

section \<open>Initial engine and plain environment\<close>

text \<open>The zeroed engine that \<^verbatim>\<open>uc_open\<close> gets from \<^verbatim>\<open>calloc\<close>.\<close>

definition clist_zero :: "('d, 's) clist" where
  "clist_zero = \<lparr>l_head = None, l_tail = None, l_delete_fn = None, l_nodes = Map.empty\<rparr>"

definition uc_zero :: "'c uc_struct" where
  "uc_zero = \<lparr>uc_arch = 0, uc_mode = 0, uc_errnum = UC_ERR_OK, uc_init_done = False,
     mr_store = Map.empty, rb_store = Map.empty, host_mem = (\<lambda>_. 0), system_memory = 0, system_io = 0,
     address_spaces = [], flat_view_gen = 0, tcg_listener = False, memory_region_update_pending = False,
     ram_list = [], ram_mru_block = None, mapped_blocks = [], mapped_blocks_memory = TableNull,
     mapped_block_cache_index = 0, init_target_page = None,
     target_page_bits = 0, target_page_size = 0, target_page_align = 0,
     qemu_host_page_size = 0, qemu_real_host_page_size = 0,
     uc_hook = (\<lambda>_. clist_zero), hooks_to_del = clist_zero, hook_heap = Map.empty,
     hooks_count = (\<lambda>_. 0), count_hook = 0, hook_insert_mode = False,
     emu_counter = 0, emu_count = 0, size_recur_mem = 0, stop_request = False, quit_request = False, uc_exit_request = False,
     emulation_done = False, timed_out = False, uc_timeout = 0, invalid_addr = 0,
     invalid_error = UC_ERR_OK, use_exits = False, uc_exits = (\<lambda>_. 0), ctl_exits = g_tree_new_full,
     uc_thumb = False, next_pc = 0, first_tb = False, no_exit_request = False, nested_level = 0,
     uc_cpu_model = 0, uc_target_bits = 0, cpu_context_size = 0, uc_cpu = None\<rparr>"

text \<open>
  A plain environment for examples: no redirection, a CPU without state, an allocator that hands out
  pointers and host memory above those in use, and callbacks that read zero and ignore writes.
\<close>

definition host_end :: "(rb_ptr \<rightharpoonup> RAMBlock) \<Rightarrow> rb_ptr \<Rightarrow> nat" where
  "host_end st q =
    (case st q of
       None \<Rightarrow> 0
     | Some b \<Rightarrow> (case rb_host b of None \<Rightarrow> 0 | Some h \<Rightarrow> h + unat (rb_max_length b)))"

definition plain_env :: "unit uc_env" where
  "plain_env = \<lparr>env_mem_redirect = None, env_get_pc = (\<lambda>_. 0), env_tlb_flush = id,
     env_tlb_flush_page = (\<lambda>_. id), env_init_arch = id, env_cpus_init = (\<lambda>uc. (False, uc)),
     env_reg_reset = None, env_real_host_page_size = 4096, env_page_bits_vary = False,
     env_target_page_bits = 12, env_tcg_exec_init = id, env_invalidate_tb = (\<lambda>_ _. id), env_tb_flush = id,
     env_gen_tb = (\<lambda>_ uc. (UC_ERR_OK, uc)), env_insn_hook_validate = None,
     env_opcode_hook_invalidate = None,
     env_new_hook = (\<lambda>uc. Some (Suc (Max (insert 0 (dom (hook_heap uc)))))),
     env_new_item = (\<lambda>uc l. Some (Suc (Max (insert 0 (dom (l_nodes l)))))), env_callback = (\<lambda>_ _ _ _ _. id),
     env_insn_invalid_cb = (\<lambda>_ _ uc. (False, uc)),
     env_reg_read = None, env_reg_write = None, env_query_mode = (\<lambda>uc. (UC_ERR_OK, 0)),
     env_context_size = None, env_context_save = None, env_context_restore = None,
     env_memcpy = (\<lambda>_ src _. src), env_has_work = (\<lambda>_. False), env_cpu_exec_enter = id, env_cpu_exec_exit = id,
     env_stop_interrupt = None, env_debug_excp_handler = id,
     env_cpu_exec_interrupt = (\<lambda>_ uc. (False, uc)), env_cpu_reset = id, env_intr_fixup = id,
     env_tb_find = (\<lambda>uc. (TbReturn, uc)), env_tb_exec = (\<lambda>uc. (TbReturn, upd_cpu cpu_exit uc)),
     env_new_mr = (\<lambda>uc. Suc (Max (insert 0 (dom (mr_store uc))))),
     env_new_rb = (\<lambda>uc. Some (Suc (Max (insert 0 (dom (rb_store uc)))))),
     env_ram_mmap = (\<lambda>uc _. Some (Max (insert 4096 (host_end (rb_store uc) ` dom (rb_store uc))))),
     env_realloc_ok = (\<lambda>_. True), env_backup_ok = (\<lambda>_ _. True),
     env_mmio_read = (\<lambda>_ uc _ _ _. (0, uc)), env_mmio_write = (\<lambda>_ uc _ _ _ _. uc),
     env_target_bigendian = False, env_target_long_bits = 64\<rparr>"

text \<open>A region behind a pointer; a null or dangling pointer gives \<^const>\<open>None\<close>.\<close>

definition upd_mr :: "mr_ptr \<Rightarrow> (MemoryRegion \<Rightarrow> MemoryRegion) \<Rightarrow> 'c uc_struct \<Rightarrow> 'c uc_struct option" where
  "upd_mr p f uc =
    (case mr_store uc p of None \<Rightarrow> None | Some mr \<Rightarrow> Some (uc\<lparr>mr_store := (mr_store uc)(p \<mapsto> f mr)\<rparr>))"

definition redirect :: "'c uc_env \<Rightarrow> u64 \<Rightarrow> u64" where
  "redirect env a = (case env_mem_redirect env of Some f \<Rightarrow> f a | None \<Rightarrow> a)"

lemma redirect_plain [simp]: "redirect plain_env a = a"
  by (simp add: redirect_def plain_env_def)

section \<open>Flushing the TLB\<close>

definition tlb_flush_uc :: "'c uc_env \<Rightarrow> 'c uc_struct \<Rightarrow> 'c uc_struct" where
  "tlb_flush_uc env = upd_cpu (\<lambda>cpu. cpu\<lparr>cpu_arch := env_tlb_flush env (cpu_arch cpu)\<rparr>)"

definition tlb_flush_page_uc :: "'c uc_env \<Rightarrow> u64 \<Rightarrow> 'c uc_struct \<Rightarrow> 'c uc_struct" where
  "tlb_flush_page_uc env a = upd_cpu (\<lambda>cpu. cpu\<lparr>cpu_arch := env_tlb_flush_page env a (cpu_arch cpu)\<rparr>)"

end
