(* ===== verification/MemTopo.thy ===== *)
theory MemTopo
  imports UcState
begin

text \<open>
  The operations of \<^verbatim>\<open>qemu/softmmu/memory.c\<close> and \<^verbatim>\<open>qemu/exec.c\<close> that change the memory topology:
  transactions, subregions, RAM blocks, and the three ways to map memory and to unmap it. Every
  operation is a function on the engine; \<^const>\<open>None\<close> is a failed assertion, an abort or the use of a
  dangling pointer.
\<close>

section \<open>Transactions\<close>

text \<open>
  \<^verbatim>\<open>generate_memory_topology\<close>: ranges and dispatch tree of one root. The table \<^verbatim>\<open>uc->flat_views\<close> only
  shares the view of address spaces with the same root, so each address space gets the view of its
  own root.
\<close>

definition generate_memory_topology ::
  "nat \<Rightarrow> mr_store \<Rightarrow> mr_ptr option \<Rightarrow> FlatView option" where
  "generate_memory_topology bits st mr = do {
     view \<leftarrow> generate_ranges topology_depth st mr;
     d \<leftarrow> generate_dispatch bits view;
     Some \<lparr>fv_root = mr, fv_ranges = view, fv_dispatch = d\<rparr> }"

definition flatview_root :: "mr_store \<Rightarrow> mr_ptr option \<Rightarrow> mr_ptr option option" where
  "flatview_root st root =
    (case root of None \<Rightarrow> None | Some p \<Rightarrow> memory_region_get_flatview_root st p)"

definition address_space_set_flatview ::
  "nat \<Rightarrow> mr_store \<Rightarrow> AddressSpace \<Rightarrow> AddressSpace option" where
  "address_space_set_flatview bits st as = do {
     physmr \<leftarrow> flatview_root st (as_root as);
     view \<leftarrow> generate_memory_topology bits st physmr;
     Some (as\<lparr>as_current_map := Some view\<rparr>) }"

fun set_flatviews :: "nat \<Rightarrow> mr_store \<Rightarrow> AddressSpace list \<Rightarrow> AddressSpace list option" where
  "set_flatviews bits st [] = Some []"
| "set_flatviews bits st (as # ass) = do {
     as \<leftarrow> address_space_set_flatview bits st as;
     ass \<leftarrow> set_flatviews bits st ass;
     Some (as # ass) }"

text \<open>The only listener with a \<^verbatim>\<open>commit\<close> callback is the one of the CPU, \<^verbatim>\<open>tcg_commit\<close>.\<close>

definition memory_region_transaction_commit :: "'c uc_env \<Rightarrow> 'c uc_struct \<Rightarrow> 'c uc_struct option" where
  "memory_region_transaction_commit env uc =
    (if memory_region_update_pending uc then do {
       ass \<leftarrow> set_flatviews (target_page_bits uc) (mr_store uc) (address_spaces uc);
       let uc = uc\<lparr>address_spaces := ass, flat_view_gen := Suc (flat_view_gen uc),
         memory_region_update_pending := False\<rparr>;
       Some (if tcg_listener uc then tlb_flush_uc env uc else uc) }
     else Some uc)"

section \<open>Subregions\<close>

definition memory_region_update_container_subregions ::
  "'c uc_env \<Rightarrow> mr_ptr \<Rightarrow> mr_ptr \<Rightarrow> 'c uc_struct \<Rightarrow> 'c uc_struct option" where
  "memory_region_update_container_subregions env mr subregion uc = do {
     uc \<leftarrow> upd_mr mr (\<lambda>r. r\<lparr>mr_subregions := subregion # mr_subregions r\<rparr>) uc;
     memory_region_transaction_commit env (uc\<lparr>memory_region_update_pending := True\<rparr>) }"

definition memory_region_add_subregion ::
  "'c uc_env \<Rightarrow> mr_ptr \<Rightarrow> u64 \<Rightarrow> mr_ptr \<Rightarrow> 'c uc_struct \<Rightarrow> 'c uc_struct option" where
  "memory_region_add_subregion env mr offset subregion uc = do {
     r \<leftarrow> mr_store uc subregion;
     if mr_container r \<noteq> None then None
     else do {
       sz \<leftarrow> get64 (mr_size r);
       uc \<leftarrow> upd_mr subregion
         (\<lambda>r. r\<lparr>mr_container := Some mr, mr_addr := offset, mr_end := offset + sz\<rparr>) uc;
       memory_region_update_container_subregions env mr subregion uc } }"

definition memory_region_del_subregion ::
  "'c uc_env \<Rightarrow> mr_ptr \<Rightarrow> mr_ptr \<Rightarrow> 'c uc_struct \<Rightarrow> 'c uc_struct option" where
  "memory_region_del_subregion env mr subregion uc = do {
     r \<leftarrow> mr_store uc subregion;
     if mr_container r \<noteq> Some mr then None
     else do {
       uc \<leftarrow> upd_mr subregion (\<lambda>r. r\<lparr>mr_container := None\<rparr>) uc;
       uc \<leftarrow> upd_mr mr (\<lambda>r. r\<lparr>mr_subregions := remove1 subregion (mr_subregions r)\<rparr>) uc;
       memory_region_transaction_commit env (uc\<lparr>memory_region_update_pending := True\<rparr>) } }"

definition memory_region_set_readonly ::
  "'c uc_env \<Rightarrow> mr_ptr \<Rightarrow> bool \<Rightarrow> 'c uc_struct \<Rightarrow> 'c uc_struct option" where
  "memory_region_set_readonly env p readonly uc = do {
     mr \<leftarrow> mr_store uc p;
     if mr_readonly mr \<noteq> readonly then do {
       uc \<leftarrow> upd_mr p (\<lambda>r. r\<lparr>mr_readonly := readonly\<rparr>) uc;
       memory_region_transaction_commit env
         (uc\<lparr>memory_region_update_pending := memory_region_update_pending uc \<or> mr_enabled mr\<rparr>) }
     else Some uc }"

section \<open>RAM blocks\<close>

definition ROUND_UP :: "u64 \<Rightarrow> u64 \<Rightarrow> u64" where
  "ROUND_UP n d = (n + d - 1) AND - d"

definition RAM_ADDR_MAX :: u64 where "RAM_ADDR_MAX = -1"

text \<open>The inner loop of \<^verbatim>\<open>find_ram_offset\<close>: the closest block at or after \<^term>\<open>candidate\<close>.\<close>

fun next_block_offset :: "u64 \<Rightarrow> RAMBlock list \<Rightarrow> u64 \<Rightarrow> u64" where
  "next_block_offset candidate [] nxt = nxt"
| "next_block_offset candidate (b # bs) nxt =
    next_block_offset candidate bs
      (if candidate \<le> rb_offset b then min nxt (rb_offset b) else nxt)"

fun find_gap :: "nat \<Rightarrow> u64 \<Rightarrow> RAMBlock list \<Rightarrow> RAMBlock list \<Rightarrow> u64 \<Rightarrow> u64 \<Rightarrow> u64" where
  "find_gap bits sz all [] offset mingap = offset"
| "find_gap bits sz all (b # bs) offset mingap =
    (let candidate = ROUND_UP (rb_offset b + rb_max_length b) (push_bit bits 64);
         nxt = next_block_offset candidate all RAM_ADDR_MAX in
     if sz \<le> nxt - candidate \<and> nxt - candidate < mingap
     then find_gap bits sz all bs candidate (nxt - candidate)
     else find_gap bits sz all bs offset mingap)"

definition find_ram_offset :: "nat \<Rightarrow> RAMBlock list \<Rightarrow> u64 \<Rightarrow> u64 option" where
  "find_ram_offset bits blocks sz =
    (if sz = 0 then None
     else if blocks = [] then Some 0
     else let offset = find_gap bits sz blocks blocks RAM_ADDR_MAX RAM_ADDR_MAX in
       if offset = RAM_ADDR_MAX then None else Some offset)"

fun deref_all :: "(nat \<rightharpoonup> 'a) \<Rightarrow> nat list \<Rightarrow> 'a list option" where
  "deref_all st [] = Some []"
| "deref_all st (p # ps) = do { x \<leftarrow> st p; xs \<leftarrow> deref_all st ps; Some (x # xs) }"

text \<open>Insertion that keeps the list sorted from the biggest to the smallest block.\<close>

fun insert_ram_block :: "(rb_ptr \<rightharpoonup> RAMBlock) \<Rightarrow> rb_ptr \<Rightarrow> u64 \<Rightarrow> rb_ptr list \<Rightarrow> rb_ptr list option" where
  "insert_ram_block st new len [] = Some [new]"
| "insert_ram_block st new len (p # ps) = do {
     b \<leftarrow> st p;
     if rb_max_length b < len then Some (new # p # ps)
     else do { ps \<leftarrow> insert_ram_block st new len ps; Some (p # ps) } }"

definition zero_host :: "nat \<Rightarrow> nat \<Rightarrow> (nat \<Rightarrow> u8) \<Rightarrow> nat \<Rightarrow> u8" where
  "zero_host h n m = (\<lambda>a. if h \<le> a \<and> a < h + n then 0 else m a)"

definition ram_block_add :: "'c uc_env \<Rightarrow> rb_ptr \<Rightarrow> 'c uc_struct \<Rightarrow> 'c uc_struct option" where
  "ram_block_add env new uc = do {
     b \<leftarrow> rb_store uc new;
     blocks \<leftarrow> deref_all (rb_store uc) (ram_list uc);
     off \<leftarrow> find_ram_offset (target_page_bits uc) blocks (rb_max_length b);
     let b = b\<lparr>rb_offset := off\<rparr>;
     (case rb_host b of
        Some _ \<Rightarrow> do {
          l \<leftarrow> insert_ram_block (rb_store uc) new (rb_max_length b) (ram_list uc);
          Some (uc\<lparr>rb_store := (rb_store uc)(new \<mapsto> b), ram_list := l, ram_mru_block := None\<rparr>) }
      | None \<Rightarrow>
          (case env_ram_mmap env uc (rb_max_length b) of
             None \<Rightarrow> Some (uc\<lparr>rb_store := (rb_store uc)(new \<mapsto> b), invalid_error := UC_ERR_NOMEM\<rparr>)
           | Some h \<Rightarrow> do {
               l \<leftarrow> insert_ram_block (rb_store uc) new (rb_max_length b) (ram_list uc);
               Some (uc\<lparr>rb_store := (rb_store uc)(new \<mapsto> b\<lparr>rb_host := Some h\<rparr>), ram_list := l,
                 ram_mru_block := None,
                 host_mem := zero_host h (unat (rb_max_length b)) (host_mem uc)\<rparr>) })) }"

definition qemu_ram_alloc_from_ptr ::
  "'c uc_env \<Rightarrow> u64 \<Rightarrow> nat option \<Rightarrow> mr_ptr \<Rightarrow> 'c uc_struct \<Rightarrow> (rb_ptr option \<times> 'c uc_struct) option" where
  "qemu_ram_alloc_from_ptr env sz host mr uc =
    (let sz = (if host = None then ROUND_UP sz (qemu_host_page_size uc) else sz) in
     case env_new_rb env uc of
       None \<Rightarrow> Some (None, uc)
     | Some new \<Rightarrow> do {
         let b = \<lparr>rb_mr = mr, rb_host = host, rb_offset = 0, rb_used_length = sz, rb_max_length = sz,
                  rb_flags = (if host = None then 0 else RAM_PREALLOC),
                  rb_page_size = qemu_real_host_page_size uc\<rparr>;
         let uc = uc\<lparr>rb_store := (rb_store uc)(new \<mapsto> b), invalid_addr := 0\<rparr>;
         uc \<leftarrow> ram_block_add env new uc;
         if invalid_error uc \<noteq> UC_ERR_OK
         then Some (None, uc\<lparr>rb_store := (rb_store uc)(new := None)\<rparr>)
         else Some (Some new, uc) })"

definition qemu_ram_free :: "rb_ptr option \<Rightarrow> 'c uc_struct \<Rightarrow> 'c uc_struct" where
  "qemu_ram_free block uc =
    (case block of
       None \<Rightarrow> uc
     | Some p \<Rightarrow> uc\<lparr>ram_list := remove1 p (ram_list uc), ram_mru_block := None,
         rb_store := (rb_store uc)(p := None)\<rparr>)"

section \<open>Mapping and unmapping\<close>

definition mr_destruct :: "MemoryRegion \<Rightarrow> 'c uc_struct \<Rightarrow> 'c uc_struct" where
  "mr_destruct mr uc =
    (case mr_destructor mr of
       memory_region_destructor_none \<Rightarrow> uc
     | memory_region_destructor_ram \<Rightarrow> qemu_ram_free (mr_ram_block mr) uc
     | mmio_region_destructor_uc \<Rightarrow> uc)"

definition memory_region_init_ram ::
  "'c uc_env \<Rightarrow> mr_ptr \<Rightarrow> u64 \<Rightarrow> u32 \<Rightarrow> 'c uc_struct \<Rightarrow> 'c uc_struct option" where
  "memory_region_init_ram env p sz perms uc = do {
     let mr = (memory_region_init sz)\<lparr>mr_ram := True, mr_readonly := (perms AND UC_PROT_WRITE = 0),
       mr_perms := perms, mr_terminates := True, mr_destructor := memory_region_destructor_ram\<rparr>;
     let uc = uc\<lparr>mr_store := (mr_store uc)(p \<mapsto> mr)\<rparr>;
     (rb, uc) \<leftarrow> qemu_ram_alloc_from_ptr env sz None p uc;
     upd_mr p (\<lambda>r. r\<lparr>mr_ram_block := rb\<rparr>) uc }"

definition memory_region_init_ram_ptr ::
  "'c uc_env \<Rightarrow> mr_ptr \<Rightarrow> u64 \<Rightarrow> nat \<Rightarrow> 'c uc_struct \<Rightarrow> 'c uc_struct option" where
  "memory_region_init_ram_ptr env p sz ptr uc = do {
     let mr = (memory_region_init sz)\<lparr>mr_ram := True, mr_terminates := True,
       mr_destructor := memory_region_destructor_ram\<rparr>;
     let uc = uc\<lparr>mr_store := (mr_store uc)(p \<mapsto> mr)\<rparr>;
     (rb, uc) \<leftarrow> qemu_ram_alloc_from_ptr env sz (Some ptr) p uc;
     upd_mr p (\<lambda>r. r\<lparr>mr_ram_block := rb\<rparr>) uc }"

text \<open>The common end of \<^verbatim>\<open>memory_map\<close> and \<^verbatim>\<open>memory_map_ptr\<close>: \<^verbatim>\<open>g_free\<close> and \<^verbatim>\<open>NULL\<close> without a RAM block.\<close>

definition memory_map_finish ::
  "'c uc_env \<Rightarrow> mr_ptr \<Rightarrow> u64 \<Rightarrow> 'c uc_struct \<Rightarrow> (mr_ptr option \<times> 'c uc_struct) option" where
  "memory_map_finish env p begin uc = do {
     mr \<leftarrow> mr_store uc p;
     if mr_addr mr = -1 \<or> mr_ram_block mr = None
     then Some (None, uc\<lparr>mr_store := (mr_store uc)(p := None)\<rparr>)
     else do {
       uc \<leftarrow> memory_region_add_subregion env (system_memory uc) begin p uc;
       Some (Some p, tlb_flush_uc env uc) } }"

definition memory_map ::
  "'c uc_env \<Rightarrow> u64 \<Rightarrow> u64 \<Rightarrow> u32 \<Rightarrow> 'c uc_struct \<Rightarrow> (mr_ptr option \<times> 'c uc_struct) option" where
  "memory_map env begin sz perms uc = do {
     let p = env_new_mr env uc;
     uc \<leftarrow> memory_region_init_ram env p sz perms uc;
     memory_map_finish env p begin uc }"

definition memory_map_ptr ::
  "'c uc_env \<Rightarrow> u64 \<Rightarrow> u64 \<Rightarrow> u32 \<Rightarrow> nat \<Rightarrow> 'c uc_struct \<Rightarrow> (mr_ptr option \<times> 'c uc_struct) option" where
  "memory_map_ptr env begin sz perms ptr uc = do {
     let p = env_new_mr env uc;
     uc \<leftarrow> memory_region_init_ram_ptr env p sz ptr uc;
     uc \<leftarrow> upd_mr p (\<lambda>r. r\<lparr>mr_perms := perms\<rparr>) uc;
     memory_map_finish env p begin uc }"

definition memory_map_io ::
  "'c uc_env \<Rightarrow> u64 \<Rightarrow> u64 \<Rightarrow> mmio_cbs \<Rightarrow> 'c uc_struct \<Rightarrow> (mr_ptr option \<times> 'c uc_struct) option" where
  "memory_map_io env begin sz cbs uc = do {
     let p = env_new_mr env uc;
     let mr = (memory_region_init_io (Some mmio_ops) (Some cbs) sz)
       \<lparr>mr_destructor := mmio_region_destructor_uc,
        mr_perms := (if cb_read cbs \<noteq> None then UC_PROT_READ else 0) OR
          (if cb_write cbs \<noteq> None then UC_PROT_WRITE else 0)\<rparr>;
     let uc = uc\<lparr>mr_store := (mr_store uc)(p \<mapsto> mr)\<rparr>;
     uc \<leftarrow> memory_region_add_subregion env (system_memory uc) begin p uc;
     Some (Some p, tlb_flush_uc env uc) }"

text \<open>The loop of \<^verbatim>\<open>memory_unmap\<close> that flushes the pages of the region from the TLB.\<close>

partial_function (option) flush_pages ::
  "'c uc_env \<Rightarrow> u64 \<Rightarrow> u64 \<Rightarrow> 'c uc_struct \<Rightarrow> 'c uc_struct option" where
  [code]: "flush_pages env addr stop uc =
    (if addr < stop
     then flush_pages env (addr + ucast (target_page_size uc)) stop (tlb_flush_page_uc env addr uc)
     else Some uc)"

definition memory_unmap :: "'c uc_env \<Rightarrow> mr_ptr \<Rightarrow> 'c uc_struct \<Rightarrow> 'c uc_struct option" where
  "memory_unmap env p uc = do {
     mr \<leftarrow> mr_store uc p;
     uc \<leftarrow> (if uc_cpu uc \<noteq> None then flush_pages env (mr_addr mr) (mr_end mr) uc else Some uc);
     uc \<leftarrow> memory_region_del_subregion env (system_memory uc) p uc;
     Some (if p \<in> set (mapped_blocks uc)
       then (let uc = uc\<lparr>mapped_blocks := remove1 p (mapped_blocks uc)\<rparr>; uc = mr_destruct mr uc in
         uc\<lparr>mr_store := (mr_store uc)(p := None)\<rparr>)
       else uc) }"

end
