(* ===== verification/MemAccess.thy ===== *)
theory MemAccess
  imports MemTopo HostUtils
begin

text \<open>
  Physical memory accesses (\<^verbatim>\<open>qemu/exec.c\<close> and the dispatch functions of
  \<^verbatim>\<open>qemu/softmmu/memory.c\<close>): translation of an address through the dispatch tree, direct RAM
  accesses, and MMIO accesses that end in the callbacks of the client. The host is little-endian.
  A pointer to the region of a section is its \<^typ>\<open>section_mr\<close>; it is followed again at every use,
  since a callback may have freed the region. A loop that does not end, a failed assertion and a
  dangling pointer are \<^const>\<open>None\<close>.
\<close>

section \<open>Sizes and byte orders of an access\<close>

type_synonym MemOp = u32

definition MO_SIZE :: MemOp where "MO_SIZE = 3"
definition MO_BSWAP :: MemOp where "MO_BSWAP = 8"

definition memop_size :: "MemOp \<Rightarrow> nat" where
  "memop_size op = 2 ^ unat (op AND MO_SIZE)"

definition size_memop :: "u32 \<Rightarrow> MemOp" where
  "size_memop sz = of_nat (ctz32 sz)"

text \<open>\<^verbatim>\<open>enum device_endian\<close> to \<^verbatim>\<open>MemOp\<close>; the order of the host is \<^verbatim>\<open>DEVICE_LITTLE_ENDIAN\<close>.\<close>

definition devend_memop :: "'c uc_env \<Rightarrow> device_endian \<Rightarrow> MemOp" where
  "devend_memop env e =
    (if env_target_bigendian env
     then (if e = DEVICE_LITTLE_ENDIAN then 0 else MO_BSWAP)
     else (if e = DEVICE_BIG_ENDIAN then MO_BSWAP else 0))"

section \<open>Results of a transaction\<close>

type_synonym MemTxResult = u32

definition MEMTX_OK :: MemTxResult where "MEMTX_OK = 0"
definition MEMTX_DECODE_ERROR :: MemTxResult where "MEMTX_DECODE_ERROR = 2"

section \<open>Operations of a region\<close>

definition io_mem_unassigned :: MemoryRegion where
  "io_mem_unassigned = memory_region_init_io (Some unassigned_mem_ops) None (-1)"

text \<open>The region of a section; the sections of subpages are resolved before they are used.\<close>

definition section_region :: "'c uc_struct \<Rightarrow> section_mr \<Rightarrow> MemoryRegion option" where
  "section_region uc s =
    (case s of SecUnassigned \<Rightarrow> Some io_mem_unassigned | SecRegion p \<Rightarrow> mr_store uc p | SecSubpage _ \<Rightarrow> None)"

definition mmio_read_wrapper ::
  "'c uc_env \<Rightarrow> mmio_cbs \<Rightarrow> u64 \<Rightarrow> nat \<Rightarrow> 'c uc_struct \<Rightarrow> u64 \<times> 'c uc_struct" where
  "mmio_read_wrapper env cbs addr sz uc =
    (let addr = addr AND mask (env_target_long_bits env) in
     case cb_read cbs of
       Some f \<Rightarrow> env_mmio_read env f uc addr sz (cb_user_data_read cbs)
     | None \<Rightarrow> (0, uc))"

definition mmio_write_wrapper ::
  "'c uc_env \<Rightarrow> mmio_cbs \<Rightarrow> u64 \<Rightarrow> u64 \<Rightarrow> nat \<Rightarrow> 'c uc_struct \<Rightarrow> 'c uc_struct" where
  "mmio_write_wrapper env cbs addr data sz uc =
    (let addr = addr AND mask (env_target_long_bits env) in
     case cb_write cbs of
       Some f \<Rightarrow> env_mmio_write env f uc addr sz data (cb_user_data_write cbs)
     | None \<Rightarrow> uc)"

definition unassigned_io_read :: "u64 \<Rightarrow> nat \<Rightarrow> u64" where
  "unassigned_io_read addr sz = -1"

definition unassigned_mem_read :: "u64 \<Rightarrow> nat \<Rightarrow> u64" where
  "unassigned_mem_read addr sz = 0"

text \<open>
  The call through \<^verbatim>\<open>mr->ops->read\<close> and \<^verbatim>\<open>mr->ops->write\<close>. The table \<^const>\<open>unassigned_mem_ops\<close> has neither,
  and its \<^verbatim>\<open>accepts\<close> keeps them from being called.
\<close>

definition ops_read ::
  "'c uc_env \<Rightarrow> MemoryRegion \<Rightarrow> u64 \<Rightarrow> nat \<Rightarrow> 'c uc_struct \<Rightarrow> (u64 \<times> 'c uc_struct) option" where
  "ops_read env mr addr sz uc =
    (case mr_ops mr of
       unassigned_mem_ops \<Rightarrow> None
     | mmio_ops \<Rightarrow> map_option (\<lambda>cbs. mmio_read_wrapper env cbs addr sz uc) (mr_opaque mr)
     | unassigned_io_ops \<Rightarrow> Some (unassigned_io_read addr sz, uc))"

definition ops_write ::
  "'c uc_env \<Rightarrow> MemoryRegion \<Rightarrow> u64 \<Rightarrow> u64 \<Rightarrow> nat \<Rightarrow> 'c uc_struct \<Rightarrow> 'c uc_struct option" where
  "ops_write env mr addr data sz uc =
    (case mr_ops mr of
       unassigned_mem_ops \<Rightarrow> None
     | mmio_ops \<Rightarrow> map_option (\<lambda>cbs. mmio_write_wrapper env cbs addr data sz uc) (mr_opaque mr)
     | unassigned_io_ops \<Rightarrow> Some uc)"

section \<open>One access to a region\<close>

definition memory_region_big_endian :: "'c uc_env \<Rightarrow> MemoryRegion \<Rightarrow> bool" where
  "memory_region_big_endian env mr \<longleftrightarrow>
    (if env_target_bigendian env then endianness (ops_table (mr_ops mr)) \<noteq> DEVICE_LITTLE_ENDIAN
     else endianness (ops_table (mr_ops mr)) = DEVICE_BIG_ENDIAN)"

definition adjust_endianness :: "'c uc_env \<Rightarrow> MemoryRegion \<Rightarrow> u64 \<Rightarrow> MemOp \<Rightarrow> u64" where
  "adjust_endianness env mr data op =
    (if op AND MO_BSWAP \<noteq> devend_memop env (endianness (ops_table (mr_ops mr)))
     then (let sz = op AND MO_SIZE in
       if sz = 0 then data
       else if sz = 1 then ucast (bswap16 (ucast data))
       else if sz = 2 then ucast (bswap32 (ucast data))
       else bswap64 data)
     else data)"

definition memory_region_shift_read_access :: "u64 \<Rightarrow> int \<Rightarrow> u64 \<Rightarrow> u64 \<Rightarrow> u64" where
  "memory_region_shift_read_access val shift msk tmp =
    (if 0 \<le> shift then val OR push_bit (nat shift) (tmp AND msk)
     else val OR drop_bit (nat (- shift)) (tmp AND msk))"

definition memory_region_shift_write_access :: "u64 \<Rightarrow> int \<Rightarrow> u64 \<Rightarrow> u64" where
  "memory_region_shift_write_access val shift msk =
    (if 0 \<le> shift then drop_bit (nat shift) val AND msk else push_bit (nat (- shift)) val AND msk)"

type_synonym 'c access_fn =
  "section_mr \<Rightarrow> u64 \<Rightarrow> u64 \<Rightarrow> nat \<Rightarrow> int \<Rightarrow> u64 \<Rightarrow> 'c uc_struct \<Rightarrow> (MemTxResult \<times> u64 \<times> 'c uc_struct) option"

definition memory_region_read_accessor :: "'c uc_env \<Rightarrow> 'c access_fn" where
  "memory_region_read_accessor env s addr val sz shift msk uc = do {
     mr \<leftarrow> section_region uc s;
     (tmp, uc) \<leftarrow> ops_read env mr addr sz uc;
     Some (MEMTX_OK, memory_region_shift_read_access val shift msk tmp, uc) }"

definition memory_region_write_accessor :: "'c uc_env \<Rightarrow> 'c access_fn" where
  "memory_region_write_accessor env s addr val sz shift msk uc = do {
     mr \<leftarrow> section_region uc s;
     uc \<leftarrow> ops_write env mr addr (memory_region_shift_write_access val shift msk) sz uc;
     Some (MEMTX_OK, val, uc) }"

text \<open>The values of \<^verbatim>\<open>i\<close> in the loops of \<^verbatim>\<open>access_with_adjusted_size\<close>.\<close>

definition piece_offsets :: "nat \<Rightarrow> nat \<Rightarrow> nat list" where
  "piece_offsets sz access_sz = map (\<lambda>k. k * access_sz) [0 ..< (sz + access_sz - 1) div access_sz]"

definition access_with_adjusted_size ::
  "'c uc_env \<Rightarrow> u64 \<Rightarrow> u64 \<Rightarrow> nat \<Rightarrow> nat \<Rightarrow> nat \<Rightarrow> 'c access_fn \<Rightarrow> section_mr \<Rightarrow> 'c uc_struct \<Rightarrow>
    (MemTxResult \<times> u64 \<times> 'c uc_struct) option" where
  "access_with_adjusted_size env addr val sz access_size_min access_size_max access_fn s uc = do {
     mr \<leftarrow> section_region uc s;
     let access_size_min = (if access_size_min = 0 then 1 else access_size_min);
     let access_size_max = (if access_size_max = 0 then 4 else access_size_max);
     let access_sz = max (min sz access_size_max) access_size_min;
     let access_mask = mask (access_sz * 8);
     let big = memory_region_big_endian env mr;
     foldM (\<lambda>i (r, val, uc). do {
         (r', val, uc) \<leftarrow> access_fn s (addr + of_nat i) val access_sz
           (if big then (int sz - int access_sz - int i) * 8 else int i * 8) access_mask uc;
         Some (r OR r', val, uc) })
       (piece_offsets sz access_sz) (MEMTX_OK, val, uc) }"

definition memory_region_access_valid :: "MemoryRegion \<Rightarrow> u64 \<Rightarrow> nat \<Rightarrow> bool" where
  "memory_region_access_valid mr addr sz \<longleftrightarrow>
    (let ops = ops_table (mr_ops mr) in
     if valid_accepts ops = Some False then False
     else if \<not> valid_unaligned ops \<and> addr AND of_nat (sz - 1) \<noteq> 0 then False
     else if valid_max_access_size ops = 0 then True
     else \<not> (valid_max_access_size ops < sz \<or> sz < valid_min_access_size ops))"

definition memory_region_dispatch_read1 ::
  "'c uc_env \<Rightarrow> section_mr \<Rightarrow> u64 \<Rightarrow> nat \<Rightarrow> 'c uc_struct \<Rightarrow> (MemTxResult \<times> u64 \<times> 'c uc_struct) option" where
  "memory_region_dispatch_read1 env s addr sz uc = do {
     mr \<leftarrow> section_region uc s;
     let ops = ops_table (mr_ops mr);
     access_with_adjusted_size env addr 0 sz (impl_min_access_size ops) (impl_max_access_size ops)
       (memory_region_read_accessor env) s uc }"

definition memory_region_dispatch_read ::
  "'c uc_env \<Rightarrow> section_mr \<Rightarrow> u64 \<Rightarrow> MemOp \<Rightarrow> 'c uc_struct \<Rightarrow> (MemTxResult \<times> u64 \<times> 'c uc_struct) option" where
  "memory_region_dispatch_read env s addr op uc = do {
     let sz = memop_size op;
     mr \<leftarrow> section_region uc s;
     if \<not> memory_region_access_valid mr addr sz
     then Some (MEMTX_DECODE_ERROR, unassigned_mem_read addr sz, uc)
     else do {
       (r, val, uc) \<leftarrow> memory_region_dispatch_read1 env s addr sz uc;
       mr \<leftarrow> section_region uc s;
       Some (r, adjust_endianness env mr val op, uc) } }"

definition memory_region_dispatch_write ::
  "'c uc_env \<Rightarrow> section_mr \<Rightarrow> u64 \<Rightarrow> u64 \<Rightarrow> MemOp \<Rightarrow> 'c uc_struct \<Rightarrow> (MemTxResult \<times> 'c uc_struct) option" where
  "memory_region_dispatch_write env s addr data op uc = do {
     let sz = memop_size op;
     mr \<leftarrow> section_region uc s;
     if \<not> memory_region_access_valid mr addr sz then Some (MEMTX_DECODE_ERROR, uc)
     else do {
       let data = adjust_endianness env mr data op;
       let ops = ops_table (mr_ops mr);
       (r, val, uc) \<leftarrow> access_with_adjusted_size env addr data sz
         (impl_min_access_size ops) (impl_max_access_size ops) (memory_region_write_accessor env) s uc;
       Some (r, uc) } }"

section \<open>Translation\<close>

text \<open>The view of \<^verbatim>\<open>address_space_memory\<close>, the first address space.\<close>

definition cur_dispatch :: "'c uc_struct \<Rightarrow> AddressSpaceDispatch option" where
  "cur_dispatch uc =
    (case address_spaces uc of
       [] \<Rightarrow> None
     | as # _ \<Rightarrow> map_option fv_dispatch (as_current_map as))"

definition set_dispatch :: "AddressSpaceDispatch \<Rightarrow> 'c uc_struct \<Rightarrow> 'c uc_struct" where
  "set_dispatch d uc =
    (case address_spaces uc of
       [] \<Rightarrow> uc
     | as # ass \<Rightarrow> uc\<lparr>address_spaces :=
         as\<lparr>as_current_map := map_option (\<lambda>fv. fv\<lparr>fv_dispatch := d\<rparr>) (as_current_map as)\<rparr> # ass\<rparr>)"

text \<open>The result: the section, the offset in its region, and the clamped length.\<close>

definition address_space_translate_internal ::
  "AddressSpaceDispatch \<Rightarrow> u64 \<Rightarrow> u64 \<Rightarrow> bool \<Rightarrow> 'c uc_struct \<Rightarrow>
    (DispatchSection \<times> u64 \<times> u64 \<times> AddressSpaceDispatch) option" where
  "address_space_translate_internal d addr plen resolve_subpage uc = do {
     let (n, d) = address_space_lookup_region (target_page_bits uc) d addr resolve_subpage;
     let sec = sections d ! n;
     let addr = addr - ds_offset_within_address_space sec;
     let xlat = addr + ds_offset_within_region sec;
     mr \<leftarrow> section_region uc (ds_mr sec);
     plen \<leftarrow> (if mr_ram mr then get64 (min (ds_size sec - uint addr) (uint plen)) else Some plen);
     Some (sec, xlat, plen, d) }"

text \<open>
  \<^verbatim>\<open>flatview_translate\<close> with \<^verbatim>\<open>flatview_do_translate\<close>; no region is an IOMMU. The argument \<^term>\<open>gen\<close>
  identifies the view that the caller holds: a topology change has freed it.
\<close>

definition flatview_translate ::
  "nat \<Rightarrow> u64 \<Rightarrow> u64 \<Rightarrow> 'c uc_struct \<Rightarrow> (section_mr \<times> u64 \<times> u64 \<times> 'c uc_struct) option" where
  "flatview_translate gen addr plen uc =
    (if flat_view_gen uc \<noteq> gen then None
     else do {
       d \<leftarrow> cur_dispatch uc;
       (sec, xlat, plen, d) \<leftarrow> address_space_translate_internal d addr plen True uc;
       Some (ds_mr sec, xlat, plen, set_dispatch d uc) })"

definition memory_access_size :: "MemoryRegion \<Rightarrow> u32 \<Rightarrow> u64 \<Rightarrow> u32" where
  "memory_access_size mr l addr =
    (let ops = ops_table (mr_ops mr);
         access_size_max = of_nat (valid_max_access_size ops);
         access_size_max = (if access_size_max = 0 then 4 else access_size_max);
         align_size_max = ucast (addr AND - addr);
         access_size_max =
           (if \<not> impl_unaligned ops \<and> align_size_max \<noteq> 0 \<and> align_size_max < access_size_max
            then align_size_max else access_size_max);
         l = (if access_size_max < l then access_size_max else l) in
     ucast (pow2floor (ucast l)))"

definition memory_access_is_direct :: "MemoryRegion \<Rightarrow> bool \<Rightarrow> bool" where
  "memory_access_is_direct mr is_write \<longleftrightarrow>
    (if is_write then mr_ram mr \<and> \<not> mr_readonly mr else mr_ram mr)"

section \<open>Host pointers of RAM\<close>

definition offset_in_ramblock :: "RAMBlock \<Rightarrow> u64 \<Rightarrow> bool" where
  "offset_in_ramblock b offset \<longleftrightarrow> rb_host b \<noteq> None \<and> offset < rb_used_length b"

definition ramblock_ptr :: "RAMBlock \<Rightarrow> u64 \<Rightarrow> nat option" where
  "ramblock_ptr b offset =
    (if offset_in_ramblock b offset then map_option (\<lambda>h. h + unat offset) (rb_host b) else None)"

definition block_has :: "'c uc_struct \<Rightarrow> u64 \<Rightarrow> rb_ptr \<Rightarrow> bool option" where
  "block_has uc addr p = map_option (\<lambda>b. addr - rb_offset b < rb_max_length b) (rb_store uc p)"

fun find_ram_block :: "'c uc_struct \<Rightarrow> u64 \<Rightarrow> rb_ptr list \<Rightarrow> rb_ptr option" where
  "find_ram_block uc addr [] = None"
| "find_ram_block uc addr (p # ps) = do {
     hit \<leftarrow> block_has uc addr p;
     if hit then Some p else find_ram_block uc addr ps }"

definition qemu_get_ram_block :: "u64 \<Rightarrow> 'c uc_struct \<Rightarrow> (rb_ptr \<times> 'c uc_struct) option" where
  "qemu_get_ram_block addr uc = do {
     hit \<leftarrow> (case ram_mru_block uc of None \<Rightarrow> Some False | Some p \<Rightarrow> block_has uc addr p);
     if hit then Some (the (ram_mru_block uc), uc)
     else do {
       p \<leftarrow> find_ram_block uc addr (ram_list uc);
       Some (p, uc\<lparr>ram_mru_block := Some p\<rparr>) } }"

text \<open>A block and the offset in it: the block of the region, or the one that has the RAM address.\<close>

definition resolve_ram_block ::
  "rb_ptr option \<Rightarrow> u64 \<Rightarrow> 'c uc_struct \<Rightarrow> (RAMBlock \<times> u64 \<times> 'c uc_struct) option" where
  "resolve_ram_block block addr uc =
    (case block of
       Some p \<Rightarrow> map_option (\<lambda>b. (b, addr, uc)) (rb_store uc p)
     | None \<Rightarrow> do {
         (p, uc) \<leftarrow> qemu_get_ram_block addr uc;
         b \<leftarrow> rb_store uc p;
         Some (b, addr - rb_offset b, uc) })"

definition qemu_map_ram_ptr ::
  "rb_ptr option \<Rightarrow> u64 \<Rightarrow> 'c uc_struct \<Rightarrow> (nat \<times> 'c uc_struct) option" where
  "qemu_map_ram_ptr block addr uc = do {
     (b, addr, uc) \<leftarrow> resolve_ram_block block addr uc;
     h \<leftarrow> ramblock_ptr b addr;
     Some (h, uc) }"

text \<open>For size 0 the C result is \<^verbatim>\<open>NULL\<close>, and no byte is accessed through it.\<close>

definition qemu_ram_ptr_length ::
  "rb_ptr option \<Rightarrow> u64 \<Rightarrow> u64 \<Rightarrow> 'c uc_struct \<Rightarrow> (nat \<times> u64 \<times> 'c uc_struct) option" where
  "qemu_ram_ptr_length block addr sz uc =
    (if sz = 0 then Some (0, 0, uc)
     else do {
       (b, addr, uc) \<leftarrow> resolve_ram_block block addr uc;
       h \<leftarrow> ramblock_ptr b addr;
       Some (h, min sz (rb_max_length b - addr), uc) })"

section \<open>Reading and writing physical memory\<close>

definition host_read :: "nat \<Rightarrow> nat \<Rightarrow> 'c uc_struct \<Rightarrow> u8 list" where
  "host_read h n uc = map (\<lambda>i. host_mem uc (h + i)) [0 ..< n]"

definition host_write :: "nat \<Rightarrow> u8 list \<Rightarrow> 'c uc_struct \<Rightarrow> 'c uc_struct" where
  "host_write h bs uc =
    uc\<lparr>host_mem := (\<lambda>a. if h \<le> a \<and> a < h + length bs then bs ! (a - h) else host_mem uc a)\<rparr>"

text \<open>One round of the loop of \<^verbatim>\<open>flatview_read_continue\<close>: the result, the length and the bytes.\<close>

definition read_piece ::
  "'c uc_env \<Rightarrow> section_mr \<Rightarrow> u64 \<Rightarrow> u64 \<Rightarrow> 'c uc_struct \<Rightarrow>
    (MemTxResult \<times> u64 \<times> u8 list \<times> 'c uc_struct) option" where
  "read_piece env s addr1 l uc = do {
     mr \<leftarrow> section_region uc s;
     if \<not> memory_access_is_direct mr False then do {
       let l = memory_access_size mr (ucast l) addr1;
       (r, val, uc) \<leftarrow> memory_region_dispatch_read env s addr1 (size_memop l) uc;
       Some (r, ucast l, stn_he_p (unat l) val, uc) }
     else do {
       (h, l, uc) \<leftarrow> qemu_ram_ptr_length (mr_ram_block mr) addr1 l uc;
       Some (MEMTX_OK, l, host_read h (unat l) uc, uc) } }"

partial_function (option) flatview_read_continue ::
  "'c uc_env \<Rightarrow> nat \<Rightarrow> u64 \<Rightarrow> u64 \<Rightarrow> u64 \<Rightarrow> u64 \<Rightarrow> section_mr \<Rightarrow> 'c uc_struct \<Rightarrow>
    (MemTxResult \<times> u8 list \<times> 'c uc_struct) option" where
  [code]: "flatview_read_continue env gen addr len addr1 l s uc =
    (case read_piece env s addr1 l uc of
       None \<Rightarrow> None
     | Some (r, l, bs, uc) \<Rightarrow>
         let len = len - l; addr = addr + l in
         if len = 0 then Some (r, bs, uc)
         else (case flatview_translate gen addr len uc of
             None \<Rightarrow> None
           | Some (s, addr1, l, uc) \<Rightarrow>
               do {
                 (r', bs', uc) \<leftarrow> flatview_read_continue env gen addr len addr1 l s uc;
                 Some (r OR r', bs @ bs', uc) }))"

definition flatview_read ::
  "'c uc_env \<Rightarrow> u64 \<Rightarrow> u64 \<Rightarrow> 'c uc_struct \<Rightarrow> (MemTxResult \<times> u8 list \<times> 'c uc_struct) option" where
  "flatview_read env addr len uc = do {
     let gen = flat_view_gen uc;
     (s, addr1, l, uc) \<leftarrow> flatview_translate gen addr len uc;
     flatview_read_continue env gen addr len addr1 l s uc }"

definition address_space_read_full ::
  "'c uc_env \<Rightarrow> u64 \<Rightarrow> u64 \<Rightarrow> 'c uc_struct \<Rightarrow> (MemTxResult \<times> u8 list \<times> 'c uc_struct) option" where
  "address_space_read_full env addr len uc =
    (if 0 < len then flatview_read env addr len uc else Some (MEMTX_OK, [], uc))"

definition write_piece ::
  "'c uc_env \<Rightarrow> section_mr \<Rightarrow> u64 \<Rightarrow> u64 \<Rightarrow> u8 list \<Rightarrow> 'c uc_struct \<Rightarrow>
    (MemTxResult \<times> u64 \<times> 'c uc_struct) option" where
  "write_piece env s addr1 l buf uc = do {
     mr \<leftarrow> section_region uc s;
     if \<not> memory_access_is_direct mr True then do {
       let l = memory_access_size mr (ucast l) addr1;
       let val = ldn_he_p buf (unat l);
       (r, uc) \<leftarrow> memory_region_dispatch_write env s addr1 val (size_memop l) uc;
       Some (r, ucast l, uc) }
     else do {
       (h, l, uc) \<leftarrow> qemu_ram_ptr_length (mr_ram_block mr) addr1 l uc;
       Some (MEMTX_OK, l, host_write h (take (unat l) buf) uc) } }"

partial_function (option) flatview_write_continue ::
  "'c uc_env \<Rightarrow> nat \<Rightarrow> u64 \<Rightarrow> u8 list \<Rightarrow> u64 \<Rightarrow> u64 \<Rightarrow> u64 \<Rightarrow> section_mr \<Rightarrow> 'c uc_struct \<Rightarrow>
    (MemTxResult \<times> 'c uc_struct) option" where
  [code]: "flatview_write_continue env gen addr buf len addr1 l s uc =
    (case write_piece env s addr1 l buf uc of
       None \<Rightarrow> None
     | Some (r, l, uc) \<Rightarrow>
         let len = len - l; addr = addr + l in
         if len = 0 then Some (r, uc)
         else (case flatview_translate gen addr len uc of
             None \<Rightarrow> None
           | Some (s, addr1, l', uc) \<Rightarrow>
               do {
                 (r', uc) \<leftarrow> flatview_write_continue env gen addr (drop (unat l) buf) len addr1 l' s uc;
                 Some (r OR r', uc) }))"

definition flatview_write ::
  "'c uc_env \<Rightarrow> u64 \<Rightarrow> u8 list \<Rightarrow> u64 \<Rightarrow> 'c uc_struct \<Rightarrow> (MemTxResult \<times> 'c uc_struct) option" where
  "flatview_write env addr buf len uc = do {
     let gen = flat_view_gen uc;
     (s, addr1, l, uc) \<leftarrow> flatview_translate gen addr len uc;
     flatview_write_continue env gen addr buf len addr1 l s uc }"

definition address_space_write ::
  "'c uc_env \<Rightarrow> u64 \<Rightarrow> u8 list \<Rightarrow> u64 \<Rightarrow> 'c uc_struct \<Rightarrow> (MemTxResult \<times> 'c uc_struct) option" where
  "address_space_write env addr buf len uc =
    (if 0 < len then flatview_write env addr buf len uc else Some (MEMTX_OK, uc))"

text \<open>
  \<^verbatim>\<open>cpu_physical_mem_read\<close> and \<^verbatim>\<open>cpu_physical_mem_write\<close>, the functions behind \<^verbatim>\<open>uc->read_mem\<close> and
  \<^verbatim>\<open>uc->write_mem\<close>. Their length is an \<^verbatim>\<open>int\<close> that is sign-extended to \<^verbatim>\<open>hwaddr\<close>.
\<close>

definition cpu_physical_mem_read ::
  "'c uc_env \<Rightarrow> u64 \<Rightarrow> u32 \<Rightarrow> 'c uc_struct \<Rightarrow> (bool \<times> u8 list \<times> 'c uc_struct) option" where
  "cpu_physical_mem_read env addr len uc = do {
     (r, bs, uc) \<leftarrow> address_space_read_full env addr (scast len) uc;
     Some (r = MEMTX_OK, bs, uc) }"

definition cpu_physical_mem_write ::
  "'c uc_env \<Rightarrow> u64 \<Rightarrow> u8 list \<Rightarrow> u32 \<Rightarrow> 'c uc_struct \<Rightarrow> (bool \<times> 'c uc_struct) option" where
  "cpu_physical_mem_write env addr buf len uc = do {
     (r, uc) \<leftarrow> address_space_write env addr buf (scast len) uc;
     Some (r = MEMTX_OK, uc) }"

section \<open>Other accesses\<close>

text \<open>\<^verbatim>\<open>address_space_write_rom\<close>: writes RAM and ROM alike and skips everything else.\<close>

partial_function (option) address_space_write_rom ::
  "u64 \<Rightarrow> u8 list \<Rightarrow> u64 \<Rightarrow> 'c uc_struct \<Rightarrow> 'c uc_struct option" where
  [code]: "address_space_write_rom addr buf len uc =
    (if 0 < len then
       (case flatview_translate (flat_view_gen uc) addr len uc of
          None \<Rightarrow> None
        | Some (s, addr1, l, uc) \<Rightarrow>
            (case section_region uc s of
               None \<Rightarrow> None
             | Some mr \<Rightarrow>
                 if \<not> mr_ram mr then
                   let l = ucast (memory_access_size mr (ucast l) addr1) in
                   address_space_write_rom (addr + l) (drop (unat l) buf) (len - l) uc
                 else
                   (case qemu_map_ram_ptr (mr_ram_block mr) addr1 uc of
                      None \<Rightarrow> None
                    | Some (h, uc) \<Rightarrow>
                        address_space_write_rom (addr + l) (drop (unat l) buf) (len - l)
                          (host_write h (take (unat l) buf) uc))))
     else Some uc)"

partial_function (option) flatview_access_valid ::
  "nat \<Rightarrow> u64 \<Rightarrow> u64 \<Rightarrow> bool \<Rightarrow> 'c uc_struct \<Rightarrow> (bool \<times> 'c uc_struct) option" where
  [code]: "flatview_access_valid gen addr len is_write uc =
    (if 0 < len then
       (case flatview_translate gen addr len uc of
          None \<Rightarrow> None
        | Some (s, xlat, l, uc) \<Rightarrow>
            (case section_region uc s of
               None \<Rightarrow> None
             | Some mr \<Rightarrow>
                 if \<not> memory_access_is_direct mr is_write then
                   let l = memory_access_size mr (ucast l) addr in
                   if \<not> memory_region_access_valid mr xlat (unat l) then Some (False, uc)
                   else flatview_access_valid gen (addr + ucast l) (len - ucast l) is_write uc
                 else flatview_access_valid gen (addr + l) (len - l) is_write uc))
     else Some (True, uc))"

definition cpu_physical_memory_is_io :: "u64 \<Rightarrow> 'c uc_struct \<Rightarrow> (bool \<times> 'c uc_struct) option" where
  "cpu_physical_memory_is_io phys_addr uc = do {
     (s, addr1, l, uc) \<leftarrow> flatview_translate (flat_view_gen uc) phys_addr 1 uc;
     mr \<leftarrow> section_region uc s;
     Some (\<not> mr_ram mr, uc) }"

text \<open>\<^verbatim>\<open>qemu_ram_block_from_host\<close>: the block of a host pointer and the offset in it; host addresses are 64 bits wide.\<close>

definition host_in_block :: "nat \<Rightarrow> RAMBlock \<Rightarrow> bool" where
  "host_in_block host b \<longleftrightarrow>
    (case rb_host b of None \<Rightarrow> False | Some h \<Rightarrow> of_nat host - of_nat h < rb_max_length b)"

fun find_host_block :: "'c uc_struct \<Rightarrow> nat \<Rightarrow> rb_ptr list \<Rightarrow> rb_ptr option option" where
  "find_host_block uc host [] = Some None"
| "find_host_block uc host (p # ps) = do {
     b \<leftarrow> rb_store uc p;
     if host_in_block host b then Some (Some p) else find_host_block uc host ps }"

definition qemu_ram_block_from_host ::
  "'c uc_struct \<Rightarrow> nat \<Rightarrow> bool \<Rightarrow> (rb_ptr \<times> u64) option option" where
  "qemu_ram_block_from_host uc host round_offset = do {
     hit \<leftarrow> (case ram_mru_block uc of
         None \<Rightarrow> Some False | Some p \<Rightarrow> map_option (host_in_block host) (rb_store uc p));
     found \<leftarrow> (if hit then Some (ram_mru_block uc) else find_host_block uc host (ram_list uc));
     (case found of
        None \<Rightarrow> Some None
      | Some p \<Rightarrow> do {
          b \<leftarrow> rb_store uc p;
          h \<leftarrow> rb_host b;
          let offset = of_nat host - of_nat h;
          Some (Some (p, if round_offset then offset AND NOT (mask (target_page_bits uc)) else offset)) }) }"

definition qemu_ram_addr_from_host :: "'c uc_struct \<Rightarrow> nat \<Rightarrow> u64 option" where
  "qemu_ram_addr_from_host uc host = do {
     found \<leftarrow> qemu_ram_block_from_host uc host False;
     (case found of
        None \<Rightarrow> Some RAM_ADDR_MAX
      | Some (p, offset) \<Rightarrow> map_option (\<lambda>b. rb_offset b + offset) (rb_store uc p)) }"

definition memory_region_get_ram_addr :: "MemoryRegion \<Rightarrow> 'c uc_struct \<Rightarrow> u64 option" where
  "memory_region_get_ram_addr mr uc =
    (case mr_ram_block mr of None \<Rightarrow> Some RAM_ADDR_MAX | Some p \<Rightarrow> map_option rb_offset (rb_store uc p))"

end
