(* ===== verification/UcMap.thy ===== *)
theory UcMap
  imports MemAccess
begin

text \<open>
  The sorted table of mapped regions in \<^verbatim>\<open>uc.c\<close>: binary search, overlap check, insertion, lookup,
  the check that a whole area is mapped, and the listing of regions. \<^const>\<open>None\<close> is the use of a
  dangling pointer or a loop that does not end.
\<close>

section \<open>Search\<close>

definition block_at :: "'c uc_struct \<Rightarrow> nat \<Rightarrow> MemoryRegion option" where
  "block_at uc i =
    (if mapped_blocks_memory uc = TableLive then mr_store uc (mapped_blocks uc ! i) else None)"

function bsearch_loop :: "'c uc_struct \<Rightarrow> u64 \<Rightarrow> nat \<Rightarrow> nat \<Rightarrow> nat option" where
  "bsearch_loop uc address left right =
    (if left < right then
       let mid = left + (right - left) div 2 in
       case block_at uc mid of
         None \<Rightarrow> None
       | Some mapping \<Rightarrow>
           if mr_end mapping - 1 < address then bsearch_loop uc address (mid + 1) right
           else if address < mr_addr mapping then bsearch_loop uc address left mid
           else Some mid
     else Some left)"
  by pat_completeness auto
termination by (relation "measure (\<lambda>(_, _, left, right). right - left)") auto

declare bsearch_loop.simps [simp del]

definition bsearch_mapped_blocks :: "'c uc_struct \<Rightarrow> u64 \<Rightarrow> nat option" where
  "bsearch_mapped_blocks uc address = bsearch_loop uc address 0 (length (mapped_blocks uc))"

definition memory_overlap :: "'c uc_struct \<Rightarrow> u64 \<Rightarrow> u64 \<Rightarrow> bool option" where
  "memory_overlap uc begin sz = do {
     let last = begin + sz - 1;
     i \<leftarrow> bsearch_mapped_blocks uc begin;
     if length (mapped_blocks uc) \<le> i then Some False
     else do {
       mr \<leftarrow> block_at uc i;
       Some (mr_addr mr \<le> last) } }"

text \<open>\<^verbatim>\<open>memory_mapping\<close>; the result \<^term>\<open>Some None\<close> is the C result \<^verbatim>\<open>NULL\<close>.\<close>

definition memory_mapping :: "'c uc_env \<Rightarrow> 'c uc_struct \<Rightarrow> u64 \<Rightarrow> mr_ptr option option" where
  "memory_mapping env uc address =
    (if mapped_blocks uc = [] then Some None
     else do {
       let address = redirect env address;
       let i = mapped_block_cache_index uc;
       hit \<leftarrow> (if i < length (mapped_blocks uc)
         then do { mr \<leftarrow> block_at uc i; Some (mr_addr mr \<le> address \<and> address < mr_end mr) }
         else Some False);
       if hit then Some (Some (mapped_blocks uc ! i))
       else do {
         i \<leftarrow> bsearch_mapped_blocks uc address;
         if i < length (mapped_blocks uc) then do {
           mr \<leftarrow> block_at uc i;
           Some (if mr_addr mr \<le> address \<and> address \<le> mr_end mr - 1
             then Some (mapped_blocks uc ! i) else None) }
         else Some None } })"

partial_function (option) check_mem_area_loop ::
  "'c uc_env \<Rightarrow> 'c uc_struct \<Rightarrow> u64 \<Rightarrow> u64 \<Rightarrow> u64 \<Rightarrow> bool option" where
  [code]: "check_mem_area_loop env uc address sz count =
    (if count < sz then
       case memory_mapping env uc address of
         None \<Rightarrow> None
       | Some None \<Rightarrow> Some (count = sz)
       | Some (Some p) \<Rightarrow>
           (case mr_store uc p of
              None \<Rightarrow> None
            | Some mr \<Rightarrow>
                let len = min (sz - count) (mr_end mr - address) in
                check_mem_area_loop env uc (address + len) sz (count + len))
     else Some (count = sz))"

definition check_mem_area :: "'c uc_env \<Rightarrow> 'c uc_struct \<Rightarrow> u64 \<Rightarrow> u64 \<Rightarrow> bool option" where
  "check_mem_area env uc address sz = check_mem_area_loop env uc address sz 0"

section \<open>Insertion\<close>

text \<open>
  The array grows by \<^const>\<open>MEM_BLOCK_INCR\<close> entries. When \<^verbatim>\<open>g_realloc\<close> fails it has freed the old
  array; \<^verbatim>\<open>mem_map\<close> then returns with \<^verbatim>\<open>uc->mapped_blocks\<close> unchanged.
\<close>

definition grow_table :: "'c uc_env \<Rightarrow> 'c uc_struct \<Rightarrow> (bool \<times> 'c uc_struct) option" where
  "grow_table env uc =
    (if length (mapped_blocks uc) mod MEM_BLOCK_INCR = 0 then
       case mapped_blocks_memory uc of
         TableFreed \<Rightarrow> None
       | m \<Rightarrow>
           if env_realloc_ok env uc then Some (True, uc\<lparr>mapped_blocks_memory := TableLive\<rparr>)
           else Some (False, uc\<lparr>mapped_blocks_memory := (if m = TableNull then TableNull else TableFreed)\<rparr>)
     else Some (True, uc))"

definition mem_map ::
  "'c uc_env \<Rightarrow> mr_ptr option \<Rightarrow> 'c uc_struct \<Rightarrow> (uc_err \<times> 'c uc_struct) option" where
  "mem_map env block uc =
    (case block of
       None \<Rightarrow> Some (UC_ERR_NOMEM, uc)
     | Some p \<Rightarrow> do {
         (ok, uc) \<leftarrow> grow_table env uc;
         if \<not> ok then Some (UC_ERR_NOMEM, uc)
         else do {
           mr \<leftarrow> mr_store uc p;
           pos \<leftarrow> bsearch_mapped_blocks uc (mr_addr mr);
           Some (UC_ERR_OK, uc\<lparr>mapped_blocks := insert_at pos p (mapped_blocks uc)\<rparr>) } })"

definition mem_map_check :: "'c uc_struct \<Rightarrow> u64 \<Rightarrow> u64 \<Rightarrow> u32 \<Rightarrow> uc_err option" where
  "mem_map_check uc address sz perms =
    (if sz = 0 then Some UC_ERR_ARG
     else if address + sz - 1 < address then Some UC_ERR_ARG
     else if address AND ucast (target_page_align uc) \<noteq> 0 then Some UC_ERR_ARG
     else if sz AND ucast (target_page_align uc) \<noteq> 0 then Some UC_ERR_ARG
     else if perms AND NOT UC_PROT_ALL \<noteq> 0 then Some UC_ERR_ARG
     else do {
       ov \<leftarrow> memory_overlap uc address sz;
       Some (if ov then UC_ERR_MAP else UC_ERR_OK) })"

section \<open>Listing\<close>

record uc_mem_region =
  rg_begin :: u64
  rg_end :: u64
  rg_perms :: u32

definition region_of :: "MemoryRegion \<Rightarrow> uc_mem_region" where
  "region_of mr = \<lparr>rg_begin = mr_addr mr, rg_end = mr_end mr - 1, rg_perms = mr_perms mr\<rparr>"

section \<open>The invariant of the table\<close>

text \<open>The last address of a region; \<^const>\<open>mr_end\<close> itself wraps to 0 at the top of the address space.\<close>

definition mr_last :: "MemoryRegion \<Rightarrow> u64" where
  "mr_last mr = mr_end mr - 1"

definition mr_covers :: "MemoryRegion \<Rightarrow> u64 \<Rightarrow> bool" where
  "mr_covers mr a \<longleftrightarrow> mr_addr mr \<le> a \<and> a \<le> mr_last mr"

definition blocks_of :: "'c uc_struct \<Rightarrow> MemoryRegion list" where
  "blocks_of uc = map (\<lambda>p. the (mr_store uc p)) (mapped_blocks uc)"

definition blocks_sorted :: "MemoryRegion list \<Rightarrow> bool" where
  "blocks_sorted ms \<longleftrightarrow>
    (\<forall>m \<in> set ms. mr_addr m \<le> mr_last m) \<and> sorted_wrt (\<lambda>m n. mr_last m < mr_addr n) ms"

definition table_inv :: "'c uc_struct \<Rightarrow> bool" where
  "table_inv uc \<longleftrightarrow>
    mapped_blocks_memory uc \<noteq> TableFreed \<and> (mapped_blocks uc \<noteq> [] \<longrightarrow> mapped_blocks_memory uc = TableLive) \<and>
    (\<forall>p \<in> set (mapped_blocks uc). mr_store uc p \<noteq> None) \<and> blocks_sorted (blocks_of uc)"

definition mapped :: "'c uc_struct \<Rightarrow> u64 \<Rightarrow> bool" where
  "mapped uc a \<longleftrightarrow> (\<exists>m \<in> set (blocks_of uc). mr_covers m a)"

lemma length_blocks_of [simp]: "length (blocks_of uc) = length (mapped_blocks uc)"
  by (simp add: blocks_of_def)

lemma block_at_blocks:
  assumes "table_inv uc" "i < length (mapped_blocks uc)"
  shows "block_at uc i = Some (blocks_of uc ! i)"
proof -
  have "mapped_blocks uc \<noteq> []" using assms(2) by auto
  moreover have "mapped_blocks uc ! i \<in> set (mapped_blocks uc)" using assms(2) by simp
  ultimately show ?thesis using assms by (auto simp: table_inv_def block_at_def blocks_of_def)
qed

lemma blocks_sorted_nth:
  assumes "blocks_sorted ms" "i < j" "j < length ms"
  shows "mr_last (ms ! i) < mr_addr (ms ! j)"
  using assms by (auto simp: blocks_sorted_def sorted_wrt_iff_nth_less)

lemma blocks_sorted_range: "blocks_sorted ms \<Longrightarrow> i < length ms \<Longrightarrow> mr_addr (ms ! i) \<le> mr_last (ms ! i)"
  by (simp add: blocks_sorted_def)

lemma blocks_sorted_last_mono:
  assumes "blocks_sorted ms" "i \<le> j" "j < length ms"
  shows "mr_last (ms ! i) \<le> mr_last (ms ! j)"
  using assms blocks_sorted_nth [OF assms(1), of i j] blocks_sorted_range [OF assms(1), of j]
  by (cases "i = j") auto

section \<open>Binary search\<close>

text \<open>The index the search returns: the first region that ends at or after the address.\<close>

definition search_pos :: "MemoryRegion list \<Rightarrow> u64 \<Rightarrow> nat \<Rightarrow> bool" where
  "search_pos ms a i \<longleftrightarrow>
    i \<le> length ms \<and> (\<forall>j < i. mr_last (ms ! j) < a) \<and> (i < length ms \<longrightarrow> a \<le> mr_last (ms ! i))"

lemma search_pos_unique: "search_pos ms a i \<Longrightarrow> search_pos ms a j \<Longrightarrow> i = j"
  unfolding search_pos_def by (metis leD linorder_neqE_nat order_less_le_trans)

lemma bsearch_loop_pos:
  assumes "table_inv uc" and "left \<le> right" "right \<le> length (mapped_blocks uc)"
    and "\<forall>j < left. mr_last (blocks_of uc ! j) < a"
    and "right < length (mapped_blocks uc) \<longrightarrow> a \<le> mr_last (blocks_of uc ! right)"
  shows "\<exists>i. bsearch_loop uc a left right = Some i \<and> search_pos (blocks_of uc) a i"
  using assms
proof (induction uc a left right rule: bsearch_loop.induct)
  case (1 uc a left right)
  show ?case
  proof (cases "left < right")
    case False
    with "1.prems" have "search_pos (blocks_of uc) a left" by (simp add: search_pos_def)
    with False show ?thesis by (simp add: bsearch_loop.simps)
  next
    case True
    define mid where "mid = left + (right - left) div 2"
    have m: "left \<le> mid" "mid < right" "mid < length (mapped_blocks uc)"
      using True "1.prems" by (auto simp: mid_def)
    have s: "blocks_sorted (blocks_of uc)" using "1.prems"(1) by (simp add: table_inv_def)
    have b: "block_at uc mid = Some (blocks_of uc ! mid)" using block_at_blocks "1.prems"(1) m by blast
    let ?m = "blocks_of uc ! mid"
    have unf: "bsearch_loop uc a left right =
        (if mr_last ?m < a then bsearch_loop uc a (mid + 1) right
         else if a < mr_addr ?m then bsearch_loop uc a left mid else Some mid)"
      using True b by (subst bsearch_loop.simps) (simp add: mid_def Let_def mr_last_def)
    consider "mr_last ?m < a" | "\<not> mr_last ?m < a" "a < mr_addr ?m" | "\<not> mr_last ?m < a" "\<not> a < mr_addr ?m"
      by blast
    then show ?thesis
    proof cases
      case 1
      have "\<forall>j < mid + 1. mr_last (blocks_of uc ! j) < a"
      proof (intro allI impI)
        fix j assume "j < mid + 1"
        then show "mr_last (blocks_of uc ! j) < a"
          using blocks_sorted_last_mono [OF s, of j mid] m(3) 1 by (simp add: order_le_less_trans)
      qed
      then show ?thesis
        using "1.IH"(1) [OF True mid_def b] 1 "1.prems" m unf by (simp add: mr_last_def)
    next
      case 2
      then show ?thesis
        using "1.IH"(2) [OF True mid_def b] "1.prems" m unf by (simp add: mr_last_def)
    next
      case 3
      have "mr_last (blocks_of uc ! j) < a" if "j < mid" for j
        using 3 blocks_sorted_nth [OF s that] m by (simp add: order_less_le_trans)
      then have "search_pos (blocks_of uc) a mid" using 3 m by (simp add: search_pos_def)
      then show ?thesis using 3 unf by simp
    qed
  qed
qed

lemma bsearch_mapped_blocks_pos:
  assumes "table_inv uc"
  shows "\<exists>i. bsearch_mapped_blocks uc a = Some i \<and> search_pos (blocks_of uc) a i"
  unfolding bsearch_mapped_blocks_def using assms by (intro bsearch_loop_pos) simp_all


section \<open>Lookup and overlap\<close>

lemma search_pos_covers:
  assumes "blocks_sorted ms" "search_pos ms a i" "k < length ms" "mr_covers (ms ! k) a"
  shows "k = i"
proof -
  have "\<not> k < i" using assms(2,4) by (auto simp: search_pos_def mr_covers_def)
  moreover have "\<not> i < k"
    using blocks_sorted_nth [OF assms(1) _ assms(3), of i] assms(2-4)
    by (auto simp: search_pos_def mr_covers_def)
  ultimately show ?thesis by simp
qed

lemma nth_blocks_of: "i < length (mapped_blocks uc) \<Longrightarrow> blocks_of uc ! i = the (mr_store uc (mapped_blocks uc ! i))"
  by (simp add: blocks_of_def)

text \<open>At most one region covers an address, and the lookup returns it.\<close>

lemma memory_mapping_index:
  assumes inv: "table_inv uc"
  shows "(\<exists>i. i < length (mapped_blocks uc) \<and> mr_covers (blocks_of uc ! i) (redirect env a) \<and>
      memory_mapping env uc a = Some (Some (mapped_blocks uc ! i))) \<or>
    (\<not> mapped uc (redirect env a) \<and> memory_mapping env uc a = Some None)"
proof (cases "mapped_blocks uc = []")
  case True
  then show ?thesis by (simp add: memory_mapping_def mapped_def blocks_of_def)
next
  case False
  let ?a = "redirect env a" and ?c = "mapped_block_cache_index uc" and ?n = "length (mapped_blocks uc)"
  have s: "blocks_sorted (blocks_of uc)" using inv by (simp add: table_inv_def)
  obtain i where i: "bsearch_mapped_blocks uc ?a = Some i" "search_pos (blocks_of uc) ?a i"
    using bsearch_mapped_blocks_pos [OF inv] by blast
  define hit where "hit \<longleftrightarrow> ?c < ?n \<and> mr_addr (blocks_of uc ! ?c) \<le> ?a \<and> ?a < mr_end (blocks_of uc ! ?c)"
  have unf: "memory_mapping env uc a =
      (if hit then Some (Some (mapped_blocks uc ! ?c))
       else if i < ?n \<and> mr_covers (blocks_of uc ! i) ?a then Some (Some (mapped_blocks uc ! i)) else Some None)"
    using False i(1) block_at_blocks [OF inv]
    by (auto simp: memory_mapping_def hit_def Let_def mr_covers_def mr_last_def)
  have "mr_covers (blocks_of uc ! ?c) ?a" if hit
    using that by (auto simp: hit_def mr_covers_def mr_last_def intro: less_imp_le_minus_one)
  moreover have "\<not> mapped uc ?a" if "\<not> (i < ?n \<and> mr_covers (blocks_of uc ! i) ?a)"
    using that search_pos_covers [OF s i(2)] by (auto simp: mapped_def in_set_conv_nth)
  ultimately show ?thesis using unf hit_def by auto
qed

lemma memory_mapping_total: "table_inv uc \<Longrightarrow> \<exists>r. memory_mapping env uc a = Some r"
  using memory_mapping_index by blast

lemma memory_mapping_None:
  assumes "table_inv uc"
  shows "memory_mapping env uc a = Some None \<longleftrightarrow> \<not> mapped uc (redirect env a)"
proof -
  have "mapped uc (redirect env a)"
    if "i < length (mapped_blocks uc)" "mr_covers (blocks_of uc ! i) (redirect env a)" for i
    using that nth_mem [of i "blocks_of uc"] by (auto simp: mapped_def simp del: nth_mem)
  then show ?thesis using memory_mapping_index [OF assms, of env a] by auto
qed

lemma memory_mapping_Some:
  assumes "table_inv uc" "memory_mapping env uc a = Some (Some p)"
  shows "p \<in> set (mapped_blocks uc) \<and> (\<exists>mr. mr_store uc p = Some mr \<and> mr_covers mr (redirect env a))"
proof -
  obtain i where i: "i < length (mapped_blocks uc)" "mr_covers (blocks_of uc ! i) (redirect env a)"
    "p = mapped_blocks uc ! i"
    using memory_mapping_index [OF assms(1), of env a] assms(2) by auto
  then have "p \<in> set (mapped_blocks uc)" by simp
  moreover obtain mr where "mr_store uc p = Some mr" using calculation assms(1) by (auto simp: table_inv_def)
  ultimately show ?thesis using i nth_blocks_of [OF i(1)] by simp
qed

lemma memory_overlap_exact:
  assumes inv: "table_inv uc" and "begin \<le> begin + sz - 1"
  shows "memory_overlap uc begin sz = Some (\<exists>a. begin \<le> a \<and> a \<le> begin + sz - 1 \<and> mapped uc a)"
proof -
  let ?last = "begin + sz - 1"
  have s: "blocks_sorted (blocks_of uc)" using inv by (simp add: table_inv_def)
  obtain i where i: "bsearch_mapped_blocks uc begin = Some i" "search_pos (blocks_of uc) begin i"
    using bsearch_mapped_blocks_pos [OF inv] by blast
  have later: "i \<le> k" if "k < length (blocks_of uc)" "mr_covers (blocks_of uc ! k) a" "begin \<le> a" for k a
  proof (rule ccontr)
    assume "\<not> i \<le> k"
    then have "mr_last (blocks_of uc ! k) < begin" using i(2) by (simp add: search_pos_def)
    then show False using that by (auto simp: mr_covers_def)
  qed
  show ?thesis
  proof (cases "i < length (mapped_blocks uc)")
    case False
    then have "\<not> mapped uc a" if "begin \<le> a" for a
      using later that by (force simp: mapped_def in_set_conv_nth)
    with False show ?thesis by (auto simp: memory_overlap_def i(1))
  next
    case True
    let ?m = "blocks_of uc ! i"
    have m: "begin \<le> mr_last ?m" "mr_addr ?m \<le> mr_last ?m"
      using i(2) True blocks_sorted_range [OF s, of i] by (simp_all add: search_pos_def)
    have "(\<exists>a. begin \<le> a \<and> a \<le> ?last \<and> mapped uc a) \<longleftrightarrow> mr_addr ?m \<le> ?last"
    proof
      assume "\<exists>a. begin \<le> a \<and> a \<le> ?last \<and> mapped uc a"
      then obtain a k where k: "begin \<le> a" "a \<le> ?last" "k < length (blocks_of uc)" "mr_covers (blocks_of uc ! k) a"
        by (auto simp: mapped_def in_set_conv_nth)
      have "mr_addr ?m \<le> mr_addr (blocks_of uc ! k)"
        using later [OF k(3,4,1)] blocks_sorted_nth [OF s, of i k] k(3) m(2) by (cases "i = k") auto
      then show "mr_addr ?m \<le> ?last" using k(2,4) by (auto simp: mr_covers_def)
    next
      assume le: "mr_addr ?m \<le> ?last"
      have "?m \<in> set (blocks_of uc)" using True by simp
      moreover have "mr_covers ?m (max begin (mr_addr ?m))" using m by (simp add: mr_covers_def)
      ultimately have "mapped uc (max begin (mr_addr ?m))" by (auto simp: mapped_def)
      moreover have "max begin (mr_addr ?m) \<le> ?last" using le assms(2) by simp
      ultimately show "\<exists>a. begin \<le> a \<and> a \<le> ?last \<and> mapped uc a" by (meson max.cobounded1)
    qed
    then show ?thesis using True block_at_blocks [OF inv True] by (simp add: memory_overlap_def i(1) Let_def)
  qed
qed

section \<open>Correctness of the table of regions\<close>

text \<open>
  C15: in a well-formed table \<^verbatim>\<open>memory_mapping\<close> returns: \<^verbatim>\<open>NULL\<close> exactly when no mapped region covers the
  (redirected) address, and otherwise a mapped region that covers it, whatever the cached index is.
\<close>

theorem memory_mapping_correct:
  assumes "table_inv uc"
  shows "\<exists>r. memory_mapping env uc a = Some r \<and>
    (case r of
       None \<Rightarrow> \<not> mapped uc (redirect env a)
     | Some p \<Rightarrow> p \<in> set (mapped_blocks uc) \<and>
         (\<exists>mr. mr_store uc p = Some mr \<and> mr_covers mr (redirect env a)))"
  using memory_mapping_total [OF assms, of env a] memory_mapping_None [OF assms, of env a]
    memory_mapping_Some [OF assms, of env a] by (auto split: option.splits)

definition demo_region :: "u64 \<Rightarrow> u64 \<Rightarrow> MemoryRegion" where
  "demo_region a sz = (memory_region_init sz)\<lparr>mr_ram := True, mr_terminates := True, mr_addr := a, mr_end := a + sz\<rparr>"

definition demo_table :: "unit uc_struct" where
  "demo_table = uc_zero\<lparr>mapped_blocks := [3, 4], mapped_blocks_memory := TableLive,
     mr_store := [3 \<mapsto> demo_region 4096 4096, 4 \<mapsto> demo_region (- 4096) 4096]\<rparr>"

lemma demo_table_inv: "table_inv demo_table"
  by (simp add: table_inv_def demo_table_def blocks_of_def blocks_sorted_def demo_region_def mr_last_def
      memory_region_init_def mr_zero_def)

lemma demo_table_mapped:
  "mapped demo_table a \<longleftrightarrow> 4096 \<le> a \<and> a \<le> 8191 \<or> - 4096 \<le> a \<and> a \<le> - 1"
  by (auto simp: mapped_def demo_table_def blocks_of_def demo_region_def mr_covers_def mr_last_def)

theorem memory_mapping_correct_witness:
  "(\<exists>p. memory_mapping plain_env demo_table (- 1) = Some (Some p)) \<and>
   memory_mapping plain_env demo_table 0 = Some None"
proof -
  obtain r where "memory_mapping plain_env demo_table (- 1) = Some r" "r = None \<longrightarrow> \<not> mapped demo_table (- 1)"
    using memory_mapping_correct [OF demo_table_inv, of plain_env "- 1"] by (auto split: option.splits)
  moreover have "mapped demo_table (- 1)" by (simp add: demo_table_mapped)
  moreover obtain q where q: "memory_mapping plain_env demo_table 0 = Some q"
    "\<forall>p. q = Some p \<longrightarrow> p \<in> set (mapped_blocks demo_table) \<and>
      (\<exists>mr. mr_store demo_table p = Some mr \<and> mr_covers mr 0)"
    using memory_mapping_correct [OF demo_table_inv, of plain_env 0] by (auto split: option.splits)
  have "q = None"
  proof (rule ccontr)
    assume "q \<noteq> None"
    with q(2) have "mapped demo_table 0" by (force simp: mapped_def blocks_of_def)
    then show False by (simp add: demo_table_mapped)
  qed
  ultimately show ?thesis using q(1) by (cases r) auto
qed

text \<open>
  C16: \<^verbatim>\<open>memory_overlap\<close> on an area that does not wrap around is exact: it holds if and only if some
  address of the area is mapped.
\<close>

theorem memory_overlap_iff_mapped:
  assumes "table_inv uc" "begin \<le> begin + sz - 1"
  shows "memory_overlap uc begin sz = Some (\<exists>a. begin \<le> a \<and> a \<le> begin + sz - 1 \<and> mapped uc a)"
  by (rule memory_overlap_exact [OF assms])


theorem memory_overlap_iff_mapped_witness:
  "memory_overlap demo_table 0 4096 = Some False \<and> memory_overlap demo_table 0 8192 = Some True"
proof -
  have "memory_overlap demo_table 0 4096 = Some False"
    by (subst memory_overlap_iff_mapped [OF demo_table_inv])
      (auto simp: demo_table_mapped dest: order_trans)
  moreover have "memory_overlap demo_table 0 8192 = Some True"
    by (subst memory_overlap_iff_mapped [OF demo_table_inv])
      (auto simp: demo_table_mapped intro!: exI [of _ 4096])
  ultimately show ?thesis by simp
qed

end
