(* ===== verification/UcInit.thy ===== *)
theory UcInit
  imports UcMap
begin

text \<open>
  Initialisation of the engine, which every call of the API does on first use: the page size
  (\<^verbatim>\<open>qemu/exec-vary.c\<close>, \<^verbatim>\<open>qemu/exec.c\<close>), the two address spaces (\<^verbatim>\<open>qemu/softmmu/memory.c\<close>,
  \<^verbatim>\<open>qemu/exec.c\<close>), \<^verbatim>\<open>machine_initialize\<close> (\<^verbatim>\<open>qemu/softmmu/vl.c\<close>) and \<^verbatim>\<open>uc_init\<close> (\<^verbatim>\<open>uc.c\<close>), and the
  teardown of the memory system.
\<close>

section \<open>The page size\<close>

text \<open>
  The field \<^const>\<open>target_page_bits\<close> is \<^verbatim>\<open>TARGET_PAGE_BITS\<close>. It is a constant of most targets; a target
  with \<^verbatim>\<open>TARGET_PAGE_BITS_VARY\<close> reads it from \<^verbatim>\<open>init_target_page\<close>, and the constant is then
  \<^verbatim>\<open>TARGET_PAGE_BITS_MIN\<close>.
\<close>

definition page_mask :: "'c uc_env \<Rightarrow> nat \<Rightarrow> u64" where
  "page_mask env bits = mask (env_target_long_bits env) AND NOT (mask bits)"

definition set_preferred_target_page_bits ::
  "'c uc_env \<Rightarrow> nat \<Rightarrow> 'c uc_struct \<Rightarrow> bool \<times> 'c uc_struct" where
  "set_preferred_target_page_bits env bits uc =
    (if \<not> env_page_bits_vary env then (True, uc)
     else case init_target_page uc of
       Some _ \<Rightarrow> (False, uc)
     | None \<Rightarrow>
         let t = \<lparr>tp_decided = False, tp_bits = 0, tp_mask = 0\<rparr>;
             uc = uc\<lparr>init_target_page := Some t\<rparr> in
         if bits < env_target_page_bits env then (False, uc)
         else if tp_bits t = 0 \<or> bits < tp_bits t then
           if tp_decided t then (False, uc)
           else (True, uc\<lparr>init_target_page := Some (t\<lparr>tp_bits := bits\<rparr>), target_page_bits := bits\<rparr>)
         else (True, uc))"

definition finalize_target_page_bits :: "'c uc_env \<Rightarrow> 'c uc_struct \<Rightarrow> 'c uc_struct" where
  "finalize_target_page_bits env uc =
    (if \<not> env_page_bits_vary env then uc\<lparr>target_page_bits := env_target_page_bits env\<rparr>
     else case init_target_page uc of
       Some _ \<Rightarrow> uc
     | None \<Rightarrow>
         let bits = (if uc_target_bits uc \<noteq> 0 then nat (uc_target_bits uc) else 0);
             bits = (if bits = 0 then env_target_page_bits env else bits) in
         uc\<lparr>init_target_page := Some \<lparr>tp_decided = True, tp_bits = bits, tp_mask = page_mask env bits\<rparr>,
            target_page_bits := bits\<rparr>)"

definition target_page_init :: "'c uc_struct \<Rightarrow> 'c uc_struct" where
  "target_page_init uc =
    (let sz = push_bit (target_page_bits uc) 1 in
     uc\<lparr>target_page_size := sz, target_page_align := sz - 1\<rparr>)"

definition init_real_host_page_size :: "'c uc_env \<Rightarrow> 'c uc_struct \<Rightarrow> 'c uc_struct" where
  "init_real_host_page_size env uc = uc\<lparr>qemu_real_host_page_size := env_real_host_page_size env\<rparr>"

definition page_size_init :: "'c uc_struct \<Rightarrow> 'c uc_struct" where
  "page_size_init uc =
    (let uc = (if qemu_host_page_size uc = 0
       then uc\<lparr>qemu_host_page_size := qemu_real_host_page_size uc\<rparr> else uc) in
     if qemu_host_page_size uc < push_bit (target_page_bits uc) 1
     then uc\<lparr>qemu_host_page_size := push_bit (target_page_bits uc) 1\<rparr> else uc)"

section \<open>Address spaces\<close>

definition address_space_init :: "mr_ptr \<Rightarrow> 'c uc_struct \<Rightarrow> 'c uc_struct option" where
  "address_space_init root uc = do {
     as \<leftarrow> address_space_set_flatview (target_page_bits uc) (mr_store uc)
       \<lparr>as_root = Some root, as_current_map = None\<rparr>;
     Some (uc\<lparr>address_spaces := address_spaces uc @ [as]\<rparr>) }"

definition memory_map_init :: "'c uc_env \<Rightarrow> 'c uc_struct \<Rightarrow> 'c uc_struct option" where
  "memory_map_init env uc = do {
     let p = env_new_mr env uc;
     let uc = uc\<lparr>system_memory := p, mr_store := (mr_store uc)(p \<mapsto> memory_region_init (-1))\<rparr>;
     uc \<leftarrow> address_space_init p uc;
     let p = env_new_mr env uc;
     let uc = uc\<lparr>system_io := p,
       mr_store := (mr_store uc)(p \<mapsto> memory_region_init_io (Some unassigned_io_ops) None 65536)\<rparr>;
     address_space_init p uc }"

definition cpu_exec_init_all :: "'c uc_env \<Rightarrow> 'c uc_struct \<Rightarrow> 'c uc_struct option" where
  "cpu_exec_init_all env uc = memory_map_init env (finalize_target_page_bits env uc)"

text \<open>
  \<^verbatim>\<open>memory_listener_register\<close> for the listener of the CPU, whose only callback is \<^verbatim>\<open>tcg_commit\<close>, and its
  removal.
\<close>

definition tcg_listener_register :: "'c uc_env \<Rightarrow> 'c uc_struct \<Rightarrow> 'c uc_struct" where
  "tcg_listener_register env uc = tlb_flush_uc env (uc\<lparr>tcg_listener := True\<rparr>)"

definition tcg_listener_unregister :: "'c uc_env \<Rightarrow> 'c uc_struct \<Rightarrow> 'c uc_struct" where
  "tcg_listener_unregister env uc =
    (if tcg_listener uc then (tlb_flush_uc env uc)\<lparr>tcg_listener := False\<rparr> else uc)"

definition address_space_destroy :: "'c uc_env \<Rightarrow> nat \<Rightarrow> 'c uc_struct \<Rightarrow> 'c uc_struct option" where
  "address_space_destroy env i uc =
    (if i < length (address_spaces uc) then do {
       uc \<leftarrow> memory_region_transaction_commit env
         (uc\<lparr>address_spaces := (address_spaces uc)[i := (address_spaces uc ! i)\<lparr>as_root := None\<rparr>]\<rparr>);
       Some (uc\<lparr>address_spaces := remove_at i (address_spaces uc)\<rparr>) }
     else None)"

text \<open>
  \<^verbatim>\<open>memory_free\<close> takes every mapped region out of the system memory and frees it; the table itself keeps
  the pointers.
\<close>

definition memory_free :: "'c uc_env \<Rightarrow> 'c uc_struct \<Rightarrow> 'c uc_struct option" where
  "memory_free env uc =
    foldM (\<lambda>p uc. do {
        uc \<leftarrow> upd_mr p (\<lambda>r. r\<lparr>mr_enabled := False\<rparr>) uc;
        uc \<leftarrow> memory_region_del_subregion env (system_memory uc) p uc;
        mr \<leftarrow> mr_store uc p;
        let uc = mr_destruct mr uc;
        Some (uc\<lparr>mr_store := (mr_store uc)(p := None)\<rparr>) })
      (mapped_blocks uc) uc"

section \<open>Finding a section\<close>

definition cmp_flatrange_addr :: "AddrRange \<Rightarrow> FlatRange \<Rightarrow> int" where
  "cmp_flatrange_addr addr fr =
    (if addrrange_end addr \<le> ar_start (fr_addr fr) then -1
     else if addrrange_end (fr_addr fr) \<le> ar_start addr then 1
     else 0)"

text \<open>
  \<^verbatim>\<open>flatview_lookup\<close> is \<^verbatim>\<open>bsearch\<close> followed, in \<^verbatim>\<open>memory_region_find_rcu\<close>, by a walk to the left while the
  range before intersects too: the first range that intersects.
\<close>

function flatview_bsearch :: "ranges \<Rightarrow> AddrRange \<Rightarrow> nat \<Rightarrow> nat \<Rightarrow> nat option" where
  "flatview_bsearch view addr l u =
    (if l < u then
       let mid = (l + u) div 2; c = cmp_flatrange_addr addr (view ! mid) in
       if c < 0 then flatview_bsearch view addr l mid
       else if 0 < c then flatview_bsearch view addr (Suc mid) u
       else Some mid
     else None)"
  by pat_completeness auto
termination by (relation "measure (\<lambda>(_, _, l, u). u - l)") auto

declare flatview_bsearch.simps [simp del]

definition flatview_lookup :: "ranges \<Rightarrow> AddrRange \<Rightarrow> nat option" where
  "flatview_lookup view addr = flatview_bsearch view addr 0 (length view)"

fun walk_left :: "ranges \<Rightarrow> AddrRange \<Rightarrow> nat \<Rightarrow> nat" where
  "walk_left view rg 0 = 0"
| "walk_left view rg (Suc i) =
    (if addrrange_intersects (fr_addr (view ! i)) rg then walk_left view rg i else Suc i)"

text \<open>The part of \<^verbatim>\<open>memory_region_find_rcu\<close> after the address space is known; \<^term>\<open>Some None\<close> is a section without region.\<close>

definition memory_region_find_in ::
  "ranges \<Rightarrow> u64 \<Rightarrow> u64 \<Rightarrow> MemoryRegionSection option option" where
  "memory_region_find_in view addr sz =
    (let rg = addrrange_make (uint addr) (uint sz) in
     case flatview_lookup view rg of
       None \<Rightarrow> Some None
     | Some i \<Rightarrow> do {
         let fr = view ! walk_left view rg i;
         let rg = addrrange_intersection rg (fr_addr fr);
         off \<leftarrow> get64 (ar_start rg - ar_start (fr_addr fr));
         s \<leftarrow> get64 (ar_start rg);
         Some (Some \<lparr>sec_mr = fr_mr fr, sec_offset_within_region = fr_offset_in_region fr + off,
           sec_size = ar_size rg, sec_offset_within_address_space = s,
           sec_readonly = fr_readonly fr\<rparr>) })"

text \<open>The outermost container of a region, and the address there.\<close>

partial_function (option) region_root :: "mr_store \<Rightarrow> mr_ptr \<Rightarrow> u64 \<Rightarrow> (mr_ptr \<times> u64) option" where
  [code]: "region_root st p addr =
    (case st p of
       None \<Rightarrow> None
     | Some mr \<Rightarrow>
         (case mr_container mr of
            None \<Rightarrow> Some (p, addr + mr_addr mr)
          | Some q \<Rightarrow> region_root st q (addr + mr_addr mr)))"

definition memory_region_to_address_space :: "'c uc_struct \<Rightarrow> mr_ptr \<Rightarrow> AddressSpace option" where
  "memory_region_to_address_space uc root = find (\<lambda>as. as_root as = Some root) (address_spaces uc)"

definition memory_region_find ::
  "'c uc_struct \<Rightarrow> mr_ptr \<Rightarrow> u64 \<Rightarrow> u64 \<Rightarrow> MemoryRegionSection option option" where
  "memory_region_find uc p addr sz = do {
     (root, addr) \<leftarrow> region_root (mr_store uc) p addr;
     (case memory_region_to_address_space uc root of
        None \<Rightarrow> Some None
      | Some as \<Rightarrow> do {
          view \<leftarrow> as_current_map as;
          memory_region_find_in (fv_ranges view) addr sz }) }"

section \<open>Hooks that are deleted\<close>

text \<open>
  \<^verbatim>\<open>hook_delete\<close>, the delete function of the hook lists: it drops one reference and frees the hook with
  the last one. A dangling pointer leaves the store as it is here; the invariants of the hook lists
  exclude it.
\<close>

definition hook_delete :: "hook_ptr \<Rightarrow> hook_store \<Rightarrow> hook_store" where
  "hook_delete p hs =
    (case hs p of
       None \<Rightarrow> hs
     | Some h \<Rightarrow>
         let h = h\<lparr>h_refs := h_refs h - 1\<rparr> in
         if h_refs h = 0 then hs(p := None) else hs(p \<mapsto> h))"

section \<open>The engine\<close>

definition machine_initialize :: "'c uc_env \<Rightarrow> 'c uc_struct \<Rightarrow> (bool \<times> 'c uc_struct) option" where
  "machine_initialize env uc = do {
     let uc = init_real_host_page_size env uc;
     let uc = env_init_arch env uc;
     uc \<leftarrow> cpu_exec_init_all env uc;
     let uc = target_page_init uc;
     let uc = env_tcg_exec_init env (page_size_init uc);
     Some (env_cpus_init env uc) }"

definition uc_init :: "'c uc_env \<Rightarrow> 'c uc_struct \<Rightarrow> (uc_err \<times> 'c uc_struct) option" where
  "uc_init env uc =
    (if uc_init_done uc then Some (UC_ERR_HANDLE, uc)
     else do {
       let uc = uc\<lparr>hooks_to_del := (hooks_to_del uc)\<lparr>l_delete_fn := Some hook_delete\<rparr>,
         uc_hook := (\<lambda>i. if i < UC_HOOK_MAX then (uc_hook uc i)\<lparr>l_delete_fn := Some hook_delete\<rparr>
           else uc_hook uc i),
         ctl_exits := g_tree_new_full\<rparr>;
       (failed, uc) \<leftarrow> machine_initialize env uc;
       if failed then Some (UC_ERR_RESOURCE, uc)
       else do {
         let uc = (case env_reg_reset env of None \<Rightarrow> uc | Some f \<Rightarrow> f uc);
         Some (UC_ERR_OK, uc\<lparr>uc_init_done := True\<rparr>) } })"

text \<open>
  \<^verbatim>\<open>UC_INIT\<close>: run the rest of an API call on the initialised engine, or return the error of the
  initialisation with \<^term>\<open>out\<close> as the outputs.
\<close>

definition UC_INIT ::
  "'c uc_env \<Rightarrow> (uc_err \<Rightarrow> 'c uc_struct \<Rightarrow> 'r) \<Rightarrow> 'c uc_struct \<Rightarrow> ('c uc_struct \<Rightarrow> 'r option) \<Rightarrow> 'r option" where
  "UC_INIT env fail uc k =
    (if uc_init_done uc then k uc
     else do {
       (err, uc) \<leftarrow> uc_init env uc;
       if err \<noteq> UC_ERR_OK then Some (fail err uc) else k uc })"

lemma UC_INIT_done [simp]: "uc_init_done uc \<Longrightarrow> UC_INIT env fail uc k = k uc"
  by (simp add: UC_INIT_def)

end
