(* ===== verification/UcMem.thy ===== *)
theory UcMem
  imports UcInit
begin

text \<open>
  The memory interface of \<^verbatim>\<open>uc.c\<close>: reading and writing, the three ways to map, the listing of the
  regions, and changing the permissions of an area or unmapping it, which splits the regions at the
  borders of the area. \<^const>\<open>None\<close> is the use of a dangling pointer, a failed assertion or a call
  that does not return.
\<close>

definition INT_MAX :: u64 where "INT_MAX = 0x7fffffff"

section \<open>Reading and writing\<close>

text \<open>
  The loop of \<^verbatim>\<open>uc_mem_read\<close>. The result has the number of bytes counted and the bytes stored in the
  buffer of the client.
\<close>

partial_function (option) uc_mem_read_loop ::
  "'c uc_env \<Rightarrow> u64 \<Rightarrow> u64 \<Rightarrow> u64 \<Rightarrow> 'c uc_struct \<Rightarrow> (u64 \<times> u8 list \<times> 'c uc_struct) option" where
  [code]: "uc_mem_read_loop env address sz count uc =
    (if count < sz then
       case memory_mapping env uc address of
         None \<Rightarrow> None
       | Some None \<Rightarrow> Some (count, [], uc)
       | Some (Some p) \<Rightarrow>
           (case mr_store uc p of
              None \<Rightarrow> None
            | Some mr \<Rightarrow>
                let len = min (sz - count) (mr_end mr - address) in
                (case cpu_physical_mem_read env address (ucast len) uc of
                   None \<Rightarrow> None
                 | Some (ok, bs, uc) \<Rightarrow>
                     if \<not> ok then Some (count, bs, uc)
                     else do {
                       (count, bs', uc) \<leftarrow> uc_mem_read_loop env (address + len) sz (count + len) uc;
                       Some (count, bs @ bs', uc) }))
     else Some (count, [], uc))"

definition uc_mem_read ::
  "'c uc_env \<Rightarrow> u64 \<Rightarrow> u64 \<Rightarrow> 'c uc_struct \<Rightarrow> (uc_err \<times> u8 list \<times> 'c uc_struct) option" where
  "uc_mem_read env address sz uc = UC_INIT env (\<lambda>err uc. (err, [], uc)) uc (\<lambda>uc.
     if INT_MAX < sz then Some (UC_ERR_ARG, [], uc)
     else do {
       let address = redirect env address;
       ok \<leftarrow> check_mem_area env uc address sz;
       if \<not> ok then Some (UC_ERR_READ_UNMAPPED, [], uc)
       else do {
         (count, bs, uc) \<leftarrow> uc_mem_read_loop env address sz 0 uc;
         Some (if count = sz then UC_ERR_OK else UC_ERR_READ_UNMAPPED, bs, uc) } })"

partial_function (option) uc_mem_write_loop ::
  "'c uc_env \<Rightarrow> u64 \<Rightarrow> u8 list \<Rightarrow> u64 \<Rightarrow> u64 \<Rightarrow> 'c uc_struct \<Rightarrow> (u64 \<times> 'c uc_struct) option" where
  [code]: "uc_mem_write_loop env address bytes sz count uc =
    (if count < sz then
       case memory_mapping env uc address of
         None \<Rightarrow> None
       | Some None \<Rightarrow> Some (count, uc)
       | Some (Some p) \<Rightarrow>
           (case mr_store uc p of
              None \<Rightarrow> None
            | Some mr \<Rightarrow>
                let protected = (mr_perms mr AND UC_PROT_WRITE = 0) in
                (case (if protected then memory_region_set_readonly env p False uc else Some uc) of
                   None \<Rightarrow> None
                 | Some uc \<Rightarrow>
                     let len = min (sz - count) (mr_end mr - address) in
                     (case cpu_physical_mem_write env address bytes (ucast len) uc of
                        None \<Rightarrow> None
                      | Some (ok, uc) \<Rightarrow>
                          if \<not> ok then Some (count, uc)
                          else
                            (case (if protected then memory_region_set_readonly env p True uc else Some uc) of
                               None \<Rightarrow> None
                             | Some uc \<Rightarrow>
                                 uc_mem_write_loop env (address + len) (drop (unat len) bytes) sz
                                   (count + len) uc))))
     else Some (count, uc))"

definition uc_mem_write ::
  "'c uc_env \<Rightarrow> u64 \<Rightarrow> u8 list \<Rightarrow> u64 \<Rightarrow> 'c uc_struct \<Rightarrow> (uc_err \<times> 'c uc_struct) option" where
  "uc_mem_write env address bytes sz uc = UC_INIT env Pair uc (\<lambda>uc.
     if INT_MAX < sz then Some (UC_ERR_ARG, uc)
     else do {
       let address = redirect env address;
       ok \<leftarrow> check_mem_area env uc address sz;
       if \<not> ok then Some (UC_ERR_WRITE_UNMAPPED, uc)
       else do {
         (count, uc) \<leftarrow> uc_mem_write_loop env address bytes sz 0 uc;
         Some (if count = sz then UC_ERR_OK else UC_ERR_WRITE_UNMAPPED, uc) } })"

section \<open>Mapping\<close>

definition uc_mem_map ::
  "'c uc_env \<Rightarrow> u64 \<Rightarrow> u64 \<Rightarrow> u32 \<Rightarrow> 'c uc_struct \<Rightarrow> (uc_err \<times> 'c uc_struct) option" where
  "uc_mem_map env address sz perms uc = UC_INIT env Pair uc (\<lambda>uc. do {
     let address = redirect env address;
     res \<leftarrow> mem_map_check uc address sz perms;
     if res \<noteq> UC_ERR_OK then Some (res, uc)
     else do {
       (block, uc) \<leftarrow> memory_map env address sz perms uc;
       mem_map env block uc } })"

definition uc_mem_map_ptr ::
  "'c uc_env \<Rightarrow> u64 \<Rightarrow> u64 \<Rightarrow> u32 \<Rightarrow> nat option \<Rightarrow> 'c uc_struct \<Rightarrow> (uc_err \<times> 'c uc_struct) option" where
  "uc_mem_map_ptr env address sz perms ptr uc = UC_INIT env Pair uc (\<lambda>uc.
     case ptr of
       None \<Rightarrow> Some (UC_ERR_ARG, uc)
     | Some ptr \<Rightarrow> do {
         let address = redirect env address;
         res \<leftarrow> mem_map_check uc address sz perms;
         if res \<noteq> UC_ERR_OK then Some (res, uc)
         else do {
           (block, uc) \<leftarrow> memory_map_ptr env address sz perms ptr uc;
           mem_map env block uc } })"

definition uc_mmio_map ::
  "'c uc_env \<Rightarrow> u64 \<Rightarrow> u64 \<Rightarrow> mmio_cbs \<Rightarrow> 'c uc_struct \<Rightarrow> (uc_err \<times> 'c uc_struct) option" where
  "uc_mmio_map env address sz cbs uc = UC_INIT env Pair uc (\<lambda>uc. do {
     let address = redirect env address;
     res \<leftarrow> mem_map_check uc address sz UC_PROT_ALL;
     if res \<noteq> UC_ERR_OK then Some (res, uc)
     else do {
       (block, uc) \<leftarrow> memory_map_io env address sz cbs uc;
       mem_map env block uc } })"

text \<open>The argument \<^term>\<open>malloc_ok\<close> is the outcome of \<^verbatim>\<open>g_malloc0\<close>.\<close>

definition uc_mem_regions ::
  "'c uc_env \<Rightarrow> bool \<Rightarrow> 'c uc_struct \<Rightarrow> (uc_err \<times> uc_mem_region list \<times> u32 \<times> 'c uc_struct) option" where
  "uc_mem_regions env malloc_ok uc = UC_INIT env (\<lambda>err uc. (err, [], 0, uc)) uc (\<lambda>uc. do {
     let count = of_nat (length (mapped_blocks uc));
     if mapped_blocks uc \<noteq> [] \<and> \<not> malloc_ok then Some (UC_ERR_NOMEM, [], count, uc)
     else do {
       mrs \<leftarrow> (if mapped_blocks uc = [] then Some []
         else if mapped_blocks_memory uc = TableLive then deref_all (mr_store uc) (mapped_blocks uc)
         else None);
       Some (UC_ERR_OK, map region_of mrs, count, uc) } })"

section \<open>Stopping\<close>

definition uc_emu_stop :: "'c uc_env \<Rightarrow> 'c uc_struct \<Rightarrow> (uc_err \<times> 'c uc_struct) option" where
  "uc_emu_stop env uc = UC_INIT env Pair uc (\<lambda>uc.
     if emulation_done uc then Some (UC_ERR_OK, uc)
     else Some (UC_ERR_OK, upd_cpu cpu_exit (uc\<lparr>stop_request := True\<rparr>)))"

section \<open>Splitting a region\<close>

text \<open>
  \<^verbatim>\<open>split_region\<close> and \<^verbatim>\<open>split_mmio_region\<close> unmap the region with \<^verbatim>\<open>uc_mem_unmap\<close>, which calls them again.
  The model takes the unmap function as an argument, and \<^verbatim>\<open>uc_mem_unmap\<close> below closes the recursion.
  The result \<^term>\<open>Some (False, uc)\<close> is the C result \<^verbatim>\<open>false\<close>.
\<close>

type_synonym 'c unmap_fn = "u64 \<Rightarrow> u64 \<Rightarrow> 'c uc_struct \<Rightarrow> (uc_err \<times> 'c uc_struct) option"

definition copy_region ::
  "'c uc_env \<Rightarrow> MemoryRegion \<Rightarrow> 'c uc_struct \<Rightarrow> (u8 list option \<times> 'c uc_struct) option" where
  "copy_region env mr uc = do {
     sz \<leftarrow> get64 (mr_size mr);
     if \<not> env_backup_ok env uc sz then Some (None, uc)
     else do {
       (err, bs, uc) \<leftarrow> uc_mem_read env (mr_addr mr) sz uc;
       Some (if err \<noteq> UC_ERR_OK then None else Some bs, uc) } }"

text \<open>A step that maps again a part of the split region, if the part is not empty.\<close>

definition remap_if ::
  "bool \<Rightarrow> ('c uc_struct \<Rightarrow> (uc_err \<times> 'c uc_struct) option) \<Rightarrow> bool \<times> 'c uc_struct \<Rightarrow>
    (bool \<times> 'c uc_struct) option" where
  "remap_if needed f = (\<lambda>(ok, uc).
     if ok \<and> needed then do { (err, uc) \<leftarrow> f uc; Some (err = UC_ERR_OK, uc) } else Some (ok, uc))"

definition split_mmio_region ::
  "'c unmap_fn \<Rightarrow> 'c uc_env \<Rightarrow> mr_ptr \<Rightarrow> u64 \<Rightarrow> u64 \<Rightarrow> bool \<Rightarrow> 'c uc_struct \<Rightarrow> (bool \<times> 'c uc_struct) option" where
  "split_mmio_region unmap env p address sz do_delete uc = do {
     mr \<leftarrow> mr_store uc p;
     let chunk_end = address + sz;
     if address \<le> mr_addr mr \<and> mr_end mr \<le> chunk_end then Some (True, uc)
     else if sz = 0 then Some (False, uc)
     else do {
       let begin = mr_addr mr;
       let stop = mr_end mr;
       cbs \<leftarrow> mr_opaque mr;
       rsz \<leftarrow> get64 (mr_size mr);
       (err, uc) \<leftarrow> unmap (mr_addr mr) rsz uc;
       if err \<noteq> UC_ERR_OK then Some (False, uc)
       else do {
         let address = max begin address;
         let chunk_end = min chunk_end stop;
         let l_size = address - begin;
         let r_size = stop - chunk_end;
         let m_size = chunk_end - address;
         s \<leftarrow> remap_if (0 < l_size) (uc_mmio_map env begin l_size cbs) (True, uc);
         s \<leftarrow> remap_if (0 < m_size \<and> \<not> do_delete) (uc_mmio_map env address m_size cbs) s;
         remap_if (0 < r_size) (uc_mmio_map env chunk_end r_size cbs) s } } }"

text \<open>The search for the RAM block that contains the region.\<close>

fun find_split_block :: "'c uc_struct \<Rightarrow> MemoryRegion \<Rightarrow> rb_ptr list \<Rightarrow> RAMBlock option option" where
  "find_split_block uc mr [] = Some None"
| "find_split_block uc mr (q # qs) = do {
     b \<leftarrow> rb_store uc q;
     bmr \<leftarrow> mr_store uc (rb_mr b);
     if mr_addr bmr \<le> mr_addr mr \<and> mr_end mr \<le> rb_used_length b + mr_addr bmr then Some (Some b)
     else find_split_block uc mr qs }"

text \<open>The contents kept over the split: the host memory of the client, or a copy.\<close>

datatype region_backup = BackupHost nat | BackupCopy "u8 list"

definition remap_part ::
  "'c uc_env \<Rightarrow> region_backup \<Rightarrow> u64 \<Rightarrow> u64 \<Rightarrow> u64 \<Rightarrow> u32 \<Rightarrow> 'c uc_struct \<Rightarrow> (uc_err \<times> 'c uc_struct) option" where
  "remap_part env backup offset address sz perms uc =
    (case backup of
       BackupHost h \<Rightarrow> uc_mem_map_ptr env address sz perms (Some (h + unat offset)) uc
     | BackupCopy bs \<Rightarrow> do {
         (err, uc) \<leftarrow> uc_mem_map env address sz perms uc;
         if err \<noteq> UC_ERR_OK then Some (err, uc)
         else uc_mem_write env address (drop (unat offset) bs) sz uc })"

definition split_region ::
  "'c unmap_fn \<Rightarrow> 'c uc_env \<Rightarrow> mr_ptr \<Rightarrow> u64 \<Rightarrow> u64 \<Rightarrow> bool \<Rightarrow> 'c uc_struct \<Rightarrow> (bool \<times> 'c uc_struct) option" where
  "split_region unmap env p address sz do_delete uc = do {
     mr \<leftarrow> mr_store uc p;
     let chunk_end = address + sz;
     if address \<le> mr_addr mr \<and> mr_end mr \<le> chunk_end then Some (True, uc)
     else if sz = 0 then Some (True, uc)
     else if mr_end mr \<le> address \<or> chunk_end \<le> mr_addr mr then Some (False, uc)
     else do {
       found \<leftarrow> find_split_block uc mr (ram_list uc);
       (case found of
          None \<Rightarrow> Some (False, uc)
        | Some b \<Rightarrow> do {
            (backup, uc) \<leftarrow> (if rb_flags b AND RAM_PREALLOC \<noteq> 0
              then map_option (\<lambda>h. (Some (BackupHost h), uc)) (rb_host b)
              else do {
                (bs, uc) \<leftarrow> copy_region env mr uc;
                Some (map_option BackupCopy bs, uc) });
            (case backup of
               None \<Rightarrow> Some (False, uc)
             | Some backup \<Rightarrow> do {
                 mr \<leftarrow> mr_store uc p;
                 let perms = mr_perms mr;
                 let begin = mr_addr mr;
                 let stop = mr_end mr;
                 rsz \<leftarrow> get64 (mr_size mr);
                 (err, uc) \<leftarrow> unmap (mr_addr mr) rsz uc;
                 if err \<noteq> UC_ERR_OK then Some (False, uc)
                 else do {
                   let address = max begin address;
                   let chunk_end = min chunk_end stop;
                   let l_size = address - begin;
                   let r_size = stop - chunk_end;
                   let m_size = chunk_end - address;
                   s \<leftarrow> remap_if (0 < l_size) (remap_part env backup 0 begin l_size perms) (True, uc);
                   s \<leftarrow> remap_if (0 < m_size \<and> \<not> do_delete)
                     (remap_part env backup l_size address m_size perms) s;
                   remap_if (0 < r_size)
                     (remap_part env backup (l_size + m_size) chunk_end r_size perms) s } }) }) } }"

section \<open>Unmapping\<close>

partial_function (option) uc_mem_unmap_loop ::
  "'c unmap_fn \<Rightarrow> 'c uc_env \<Rightarrow> u64 \<Rightarrow> u64 \<Rightarrow> u64 \<Rightarrow> 'c uc_struct \<Rightarrow> (uc_err \<times> 'c uc_struct) option" where
  [code]: "uc_mem_unmap_loop unmap env addr sz count uc =
    (if count < sz then
       case memory_mapping env uc addr of
         Some (Some p) \<Rightarrow>
           (case mr_store uc p of
              None \<Rightarrow> None
            | Some mr \<Rightarrow>
                let len = min (sz - count) (mr_end mr - addr) in
                (case (if \<not> mr_ram mr then split_mmio_region unmap env p addr len True uc
                       else split_region unmap env p addr len True uc) of
                   None \<Rightarrow> None
                 | Some (ok, uc) \<Rightarrow>
                     if \<not> ok then Some (UC_ERR_NOMEM, uc)
                     else
                       (case memory_mapping env uc addr of
                          None \<Rightarrow> None
                        | Some found \<Rightarrow>
                            (case (case found of None \<Rightarrow> Some uc | Some q \<Rightarrow> memory_unmap env q uc) of
                               None \<Rightarrow> None
                             | Some uc \<Rightarrow>
                                 uc_mem_unmap_loop unmap env (addr + len) sz (count + len) uc))))
       | _ \<Rightarrow> None
     else Some (UC_ERR_OK, uc))"

definition uc_mem_unmap_with :: "'c unmap_fn \<Rightarrow> 'c uc_env \<Rightarrow> 'c unmap_fn" where
  "uc_mem_unmap_with unmap env address sz uc = UC_INIT env Pair uc (\<lambda>uc.
     if sz = 0 then Some (UC_ERR_OK, uc)
     else if address AND ucast (target_page_align uc) \<noteq> 0 then Some (UC_ERR_ARG, uc)
     else if sz AND ucast (target_page_align uc) \<noteq> 0 then Some (UC_ERR_ARG, uc)
     else do {
       let address = redirect env address;
       ok \<leftarrow> check_mem_area env uc address sz;
       if \<not> ok then Some (UC_ERR_NOMEM, uc)
       else uc_mem_unmap_loop unmap env address sz 0 uc })"

text \<open>
  The recursion with a bound on the nesting. The nested call unmaps exactly one region, so that its own
  split returns at once: two levels are enough.
\<close>

fun uc_mem_unmap_n :: "nat \<Rightarrow> 'c uc_env \<Rightarrow> 'c unmap_fn" where
  "uc_mem_unmap_n 0 env address sz uc = None"
| "uc_mem_unmap_n (Suc n) env address sz uc = uc_mem_unmap_with (uc_mem_unmap_n n env) env address sz uc"

definition unmap_nesting :: nat where "unmap_nesting = 2"

definition uc_mem_unmap :: "'c uc_env \<Rightarrow> 'c unmap_fn" where
  "uc_mem_unmap env = uc_mem_unmap_n unmap_nesting env"

section \<open>Changing permissions\<close>

partial_function (option) uc_mem_protect_loop ::
  "'c uc_env \<Rightarrow> u64 \<Rightarrow> u64 \<Rightarrow> u32 \<Rightarrow> u64 \<Rightarrow> bool \<Rightarrow> 'c uc_struct \<Rightarrow> (uc_err \<times> bool \<times> 'c uc_struct) option" where
  [code]: "uc_mem_protect_loop env addr sz perms count remove_exec uc =
    (if count < sz then
       case memory_mapping env uc addr of
         Some (Some p) \<Rightarrow>
           (case mr_store uc p of
              None \<Rightarrow> None
            | Some mr \<Rightarrow>
                let len = min (sz - count) (mr_end mr - addr); ram = mr_ram mr in
                (case (if ram then split_region (uc_mem_unmap env) env p addr len False uc
                       else split_mmio_region (uc_mem_unmap env) env p addr len False uc) of
                   None \<Rightarrow> None
                 | Some (ok, uc) \<Rightarrow>
                     if \<not> ok then Some (UC_ERR_NOMEM, remove_exec, uc)
                     else
                       (case memory_mapping env uc addr of
                          Some (Some q) \<Rightarrow>
                            (case mr_store uc q of
                               None \<Rightarrow> None
                             | Some mr \<Rightarrow>
                                 let gone = (ram \<and> mr_perms mr AND UC_PROT_EXEC \<noteq> 0 \<and> perms AND UC_PROT_EXEC = 0) in
                                 (case upd_mr q (\<lambda>r. r\<lparr>mr_perms := perms\<rparr>) uc of
                                    None \<Rightarrow> None
                                  | Some uc \<Rightarrow>
                                      (case (if ram then memory_region_set_readonly env q
                                               (perms AND UC_PROT_WRITE = 0) uc else Some uc) of
                                         None \<Rightarrow> None
                                       | Some uc \<Rightarrow>
                                           uc_mem_protect_loop env (addr + len) sz perms (count + len)
                                             (remove_exec \<or> gone) uc)))
                        | _ \<Rightarrow> None)))
       | _ \<Rightarrow> None
     else Some (UC_ERR_OK, remove_exec, uc))"

definition uc_mem_protect ::
  "'c uc_env \<Rightarrow> u64 \<Rightarrow> u64 \<Rightarrow> u32 \<Rightarrow> 'c uc_struct \<Rightarrow> (uc_err \<times> 'c uc_struct) option" where
  "uc_mem_protect env address sz perms uc = UC_INIT env Pair uc (\<lambda>uc.
     if sz = 0 then Some (UC_ERR_OK, uc)
     else if address AND ucast (target_page_align uc) \<noteq> 0 then Some (UC_ERR_ARG, uc)
     else if sz AND ucast (target_page_align uc) \<noteq> 0 then Some (UC_ERR_ARG, uc)
     else if perms AND NOT UC_PROT_ALL \<noteq> 0 then Some (UC_ERR_ARG, uc)
     else do {
       let address = redirect env address;
       ok \<leftarrow> check_mem_area env uc address sz;
       if \<not> ok then Some (UC_ERR_NOMEM, uc)
       else do {
         (err, remove_exec, uc) \<leftarrow> uc_mem_protect_loop env address sz perms 0 False uc;
         if err \<noteq> UC_ERR_OK then Some (err, uc)
         else if remove_exec then do {
           let pc = env_get_pc env uc;
           if pc < address + sz \<and> address \<le> pc then do {
             (_, uc) \<leftarrow> uc_emu_stop env (uc\<lparr>quit_request := True\<rparr>);
             Some (UC_ERR_OK, uc) }
           else Some (UC_ERR_OK, uc) }
         else Some (UC_ERR_OK, uc) } })"

end
