(* ===== verification/MemView.thy ===== *)
theory MemView
  imports MemTopo Dispatch
begin

text \<open>
  The view of a flat topology: a root that only contains disjoint leaf regions, as the engine builds
  it. The view has exactly one range per region, and the commit of a transaction succeeds and leaves
  a dispatch that resolves every address.
\<close>

section \<open>Rendering disjoint leaf regions\<close>

definition leaf_region :: "MemoryRegion \<Rightarrow> bool" where
  "leaf_region mr \<longleftrightarrow> mr_enabled mr \<and> mr_terminates mr \<and> mr_subregions mr = [] \<and>
    0 < mr_size mr \<and> mr_size mr < 2 ^ 64 \<and> uint (mr_addr mr) + mr_size mr \<le> 2 ^ 64"

definition region_range :: "mr_ptr \<Rightarrow> MemoryRegion \<Rightarrow> FlatRange" where
  "region_range p mr = mk_range p (mr_readonly mr) (uint (mr_addr mr)) (mr_size mr) 0"

definition ranges_apart :: "FlatRange \<Rightarrow> FlatRange \<Rightarrow> bool" where
  "ranges_apart r s \<longleftrightarrow> fr_before r s \<or> fr_before s r"

lemma render_gaps_apart:
  assumes "fv_wf view" "0 < n" "n < 2 ^ 64" "\<forall>r \<in> set view. ranges_apart (mk_range p ro base n off) r"
  shows "\<exists>view'. render_gaps p ro view base off n = Some view' \<and>
    set view' = insert (mk_range p ro base n off) (set view) \<and> length view' = Suc (length view) \<and>
    (\<forall>b. fv_above b view \<and> b \<le> base \<longrightarrow> fv_above b view')"
  using assms
proof (induction view)
  case (Cons r rs)
  show ?case
  proof (cases "addrrange_end (fr_addr r) \<le> base")
    case True
    obtain v where v: "render_gaps p ro rs base off n = Some v"
      "set v = insert (mk_range p ro base n off) (set rs)" "length v = Suc (length rs)"
      using Cons by (auto simp: fv_wf_Cons)
    then show ?thesis using True Cons.prems by (auto simp: fv_above_def)
  next
    case False
    have a: "base + n \<le> ar_start (fr_addr r)"
      using False Cons.prems(4) by (auto simp: ranges_apart_def fr_before_def addrrange_end_def)
    have now: "min n (ar_start (fr_addr r) - base) = n" using a by simp
    have e: "base + n \<le> addrrange_end (fr_addr r)"
      using a Cons.prems(1) by (auto simp: fv_wf_Cons addrrange_end_def)
    have z: "render_gaps p ro rs (base + n) (off + word_of_int n) 0 = Some rs" by (cases rs) auto
    have "render_gaps p ro (r # rs) base off n = Some (mk_range p ro base n off # r # rs)"
      using False a now e z Cons.prems(2,3) by (simp add: get64_def)
    then show ?thesis by (auto simp: fv_above_def)
  qed
qed simp

lemma render_leaf:
  assumes r: "st s = Some r" "leaf_region r" and wf: "fv_wf view"
    and apart: "\<forall>f \<in> set view. ranges_apart (region_range s r) f"
  shows "\<exists>view'. render_memory_region (Suc d) st s 0 (addrrange_make 0 (2 ^ 64)) False view = Some view' \<and>
    fv_wf view' \<and> set view' = insert (region_range s r) (set view) \<and> length view' = Suc (length view)"
proof -
  let ?b = "uint (mr_addr r)" and ?n = "mr_size r"
  have l: "mr_enabled r" "mr_terminates r" "mr_subregions r = []" "0 < ?n" "?n < 2 ^ 64" "?b + ?n \<le> 2 ^ 64"
    using r(2) by (auto simp: leaf_region_def)
  have b: "0 \<le> ?b" by simp
  have i: "addrrange_intersects (addrrange_make ?b ?n) (addrrange_make 0 (2 ^ 64))"
    "addrrange_intersection (addrrange_make ?b ?n) (addrrange_make 0 (2 ^ 64)) = addrrange_make ?b ?n"
    using l b by (simp_all add: addrrange_intersects_def addrrange_intersection_def addrrange_contains_def
        addrrange_end_def addrrange_make_def Let_def)
  have "render_memory_region (Suc d) st s 0 (addrrange_make 0 (2 ^ 64)) False view =
      render_gaps s (mr_readonly r) view ?b 0 ?n"
    using r(1) l i by (simp add: Let_def get64_def addrrange_make_def)
  moreover obtain v where "render_gaps s (mr_readonly r) view ?b 0 ?n = Some v"
    "set v = insert (region_range s r) (set view)" "length v = Suc (length view)"
    using render_gaps_apart [OF wf l(4,5), of s "mr_readonly r" ?b 0] apart by (auto simp: region_range_def)
  moreover have "tree_wf (Suc d) st s" using r(1) l by simp
  from render_memory_region_lookup [OF this wf, of "addrrange_make 0 (2 ^ 64)" 0 False] calculation
  have "fv_wf v" by auto
  ultimately show ?thesis by auto
qed

definition flat_children :: "mr_store \<Rightarrow> mr_ptr list \<Rightarrow> bool" where
  "flat_children st ss \<longleftrightarrow> distinct ss \<and>
    (\<forall>s \<in> set ss. \<exists>r. st s = Some r \<and> leaf_region r) \<and>
    (\<forall>s \<in> set ss. \<forall>t \<in> set ss. s \<noteq> t \<longrightarrow>
       ranges_apart (region_range s (the (st s))) (region_range t (the (st t))))"

definition child_range :: "mr_store \<Rightarrow> mr_ptr \<Rightarrow> FlatRange" where
  "child_range st s = region_range s (the (st s))"

lemma fr_mr_region_range [simp]: "fr_mr (region_range p mr) = p"
  by (simp add: region_range_def mk_range_def)

lemma fr_mr_child_range [simp]: "fr_mr (child_range st s) = s"
  by (simp add: child_range_def)

lemma render_children:
  assumes "flat_children st (pre @ ss)" "fv_wf view" "set view = child_range st ` set pre" "length view = length pre"
  shows "\<exists>view'. foldM (\<lambda>s view. render_memory_region (Suc d) st s 0 (addrrange_make 0 (2 ^ 64)) False view) ss view =
      Some view' \<and> fv_wf view' \<and> set view' = child_range st ` set (pre @ ss) \<and> length view' = length (pre @ ss)"
  using assms
proof (induction ss arbitrary: pre view)
  case (Cons s ss)
  obtain r where r: "st s = Some r" "leaf_region r" using Cons.prems(1) by (auto simp: flat_children_def)
  have "\<forall>f \<in> set view. ranges_apart (region_range s r) f"
    using Cons.prems(1,3) r by (auto simp: flat_children_def child_range_def)
  from render_leaf [of st s r view d, OF r Cons.prems(2) this] obtain v where
    v: "render_memory_region (Suc d) st s 0 (addrrange_make 0 (2 ^ 64)) False view = Some v" "fv_wf v"
      "set v = insert (region_range s r) (set view)" "length v = Suc (length view)" by blast
  have "set v = child_range st ` set (pre @ [s])" "length v = length (pre @ [s])"
    using v(3,4) Cons.prems(3,4) r by (auto simp: child_range_def)
  then obtain v' where "foldM (\<lambda>s view. render_memory_region (Suc d) st s 0 (addrrange_make 0 (2 ^ 64)) False view) ss v =
      Some v'" "fv_wf v'" "set v' = child_range st ` set ((pre @ [s]) @ ss)" "length v' = length ((pre @ [s]) @ ss)"
    using Cons.IH [of "pre @ [s]" v] Cons.prems(1) v(2) by auto
  with v(1) show ?case by auto
qed auto

text \<open>Ranges of different regions are never merged.\<close>

lemma flatview_simplify_distinct: "distinct (map fr_mr view) \<Longrightarrow> flatview_simplify view = view"
proof (induction view)
  case (Cons r rs)
  then have "flatview_merge_run r r rs = (r, rs)" by (cases rs) (auto simp: can_merge_def)
  with Cons show ?case by simp
qed simp

lemma view_of_children:
  assumes "set view = child_range st ` set ss" "length view = length ss" "distinct ss"
  shows "distinct (map fr_mr view)"
proof -
  have "set (map fr_mr view) = set ss" using assms(1) by (auto simp: image_iff)
  then show ?thesis using assms(2,3) by (metis card_distinct distinct_card length_map)
qed

section \<open>The topology of the system memory\<close>

definition flat_root :: "mr_store \<Rightarrow> mr_ptr \<Rightarrow> mr_ptr list \<Rightarrow> bool" where
  "flat_root st p ss \<longleftrightarrow> flat_children st ss \<and>
    (\<exists>mr. st p = Some mr \<and> mr_enabled mr \<and> \<not> mr_terminates mr \<and> mr_size mr = 2 ^ 64 \<and> mr_addr mr = 0 \<and>
       \<not> mr_readonly mr \<and> mr_subregions mr = ss)"

definition view_of :: "mr_store \<Rightarrow> mr_ptr list \<Rightarrow> ranges \<Rightarrow> bool" where
  "view_of st ss view \<longleftrightarrow> fv_wf view \<and> set view = child_range st ` set ss \<and> length view = length ss"

lemma render_full_root:
  assumes "flat_root st p ss"
  shows "\<exists>view. render_memory_region (Suc (Suc d)) st p 0 (addrrange_make 0 (2 ^ 64)) False [] = Some view \<and>
    view_of st ss view"
proof -
  obtain mr where mr: "st p = Some mr" "mr_enabled mr" "\<not> mr_terminates mr" "mr_size mr = 2 ^ 64" "mr_addr mr = 0"
    "\<not> mr_readonly mr" "mr_subregions mr = ss" and ch: "flat_children st ss"
    using assms by (auto simp: flat_root_def)
  obtain v where v: "foldM (\<lambda>s view. render_memory_region (Suc d) st s 0 (addrrange_make 0 (2 ^ 64)) False view) ss [] =
      Some v" "fv_wf v" "set v = child_range st ` set ss" "length v = length ss"
    using render_children [of st "[]" ss "[]" d] ch by auto
  have "addrrange_intersects (addrrange_make 0 (2 ^ 64)) (addrrange_make 0 (2 ^ 64))"
    "addrrange_intersection (addrrange_make 0 (2 ^ 64)) (addrrange_make 0 (2 ^ 64)) = addrrange_make 0 (2 ^ 64)"
    by (simp_all add: addrrange_intersects_def addrrange_intersection_def addrrange_contains_def
        addrrange_end_def addrrange_make_def Let_def)
  then have "render_memory_region (Suc (Suc d)) st p 0 (addrrange_make 0 (2 ^ 64)) False [] = Some v"
    using mr v(1) by (subst render_memory_region.simps(2)) (simp add: Let_def del: render_memory_region.simps)
  then show ?thesis using v by (auto simp: view_of_def)
qed

lemma flatview_root_flat:
  assumes "flat_root st p ss"
  shows "memory_region_get_flatview_root st p =
    (case ss of
       [] \<Rightarrow> Some None
     | [s] \<Rightarrow> Some (Some (if mr_addr (the (st s)) = 0 then s else p))
     | _ \<Rightarrow> Some (Some p))"
proof -
  obtain mr where mr: "st p = Some mr" "mr_enabled mr" "\<not> mr_terminates mr" "mr_size mr = 2 ^ 64"
    "mr_subregions mr = ss" and ch: "flat_children st ss"
    using assms by (auto simp: flat_root_def)
  have leaf: "\<exists>r. st s = Some r \<and> leaf_region r" if "s \<in> set ss" for s
    using ch that by (auto simp: flat_children_def)
  have unf: "memory_region_get_flatview_root st p =
      (case flatview_root_child st mr ss 0 None of
         None \<Rightarrow> None
       | Some (found, nxt) \<Rightarrow>
           if found = 0 then Some None
           else (case nxt of Some q \<Rightarrow> memory_region_get_flatview_root st q | None \<Rightarrow> Some (Some p)))"
    using mr by (subst memory_region_get_flatview_root.simps) simp
  have self: "memory_region_get_flatview_root st s = Some (Some s)" if "s \<in> set ss" for s
    using leaf [OF that] by (subst memory_region_get_flatview_root.simps) (auto simp: leaf_region_def)
  consider "ss = []" | s where "ss = [s]" | s t us where "ss = s # t # us"
    by (cases ss; cases "tl ss") auto
  then show ?thesis
  proof cases
    case 1
    then show ?thesis by (simp add: unf)
  next
    case (2 s)
    then show ?thesis using leaf [of s] self [of s] mr(4) by (auto simp: unf leaf_region_def)
  next
    case (3 s t us)
    then show ?thesis using leaf [of s] leaf [of t] by (auto simp: unf leaf_region_def)
  qed
qed

lemma generate_ranges_flat:
  assumes "flat_root st p ss"
  shows "\<exists>root view. memory_region_get_flatview_root st p = Some root \<and>
    generate_ranges topology_depth st root = Some view \<and> view_of st ss view"
proof -
  have dist: "distinct ss" using assms by (auto simp: flat_root_def flat_children_def)
  have simplify: "flatview_simplify v = v" if "view_of st ss v" for v
    using that dist flatview_simplify_distinct [OF view_of_children] by (auto simp: view_of_def)
  have full: "\<exists>view. generate_ranges topology_depth st (Some p) = Some view \<and> view_of st ss view"
    using render_full_root [OF assms, of 0] simplify
    by (auto simp: generate_ranges_def topology_depth_def numeral_2_eq_2 simp del: render_memory_region.simps)
  consider "ss = []" | s where "ss = [s]" "mr_addr (the (st s)) = 0" | "memory_region_get_flatview_root st p = Some (Some p)"
    using flatview_root_flat [OF assms] by (cases ss; cases "tl ss"; cases "mr_addr (the (st (hd ss))) = 0") auto
  then show ?thesis
  proof cases
    case 1
    then show ?thesis using flatview_root_flat [OF assms] by (simp add: generate_ranges_def view_of_def)
  next
    case (2 s)
    obtain r where r: "st s = Some r" "leaf_region r"
      using assms 2 by (auto simp: flat_root_def flat_children_def)
    obtain v where v: "render_memory_region (Suc 1) st s 0 (addrrange_make 0 (2 ^ 64)) False [] = Some v" "fv_wf v"
      "set v = {region_range s r}" "length v = 1"
      using render_leaf [of st s r "[]" 1] r by auto
    then have vo: "view_of st ss v" using 2 r by (simp add: view_of_def child_range_def)
    have "generate_ranges topology_depth st (Some s) = Some v"
      using v(1) simplify [OF vo]
      by (simp add: generate_ranges_def topology_depth_def numeral_2_eq_2 del: render_memory_region.simps)
    then show ?thesis using vo flatview_root_flat [OF assms] 2 by auto
  next
    case 3
    then show ?thesis using full by blast
  qed
qed

definition page_regions :: "nat \<Rightarrow> mr_store \<Rightarrow> mr_ptr list \<Rightarrow> bool" where
  "page_regions bits st ss \<longleftrightarrow>
    (\<forall>s \<in> set ss. 2 ^ bits dvd uint (mr_addr (the (st s))) \<and> 2 ^ bits dvd mr_size (the (st s)))"

lemma region_range_simps [simp]:
  "ar_start (fr_addr (region_range p mr)) = uint (mr_addr mr)"
  "ar_size (fr_addr (region_range p mr)) = mr_size mr"
  "addrrange_end (fr_addr (region_range p mr)) = uint (mr_addr mr) + mr_size mr"
  "fr_offset_in_region (region_range p mr) = 0"
  "fr_readonly (region_range p mr) = mr_readonly mr"
  by (simp_all add: region_range_def mk_range_def addrrange_end_def)

lemma view_of_page_view:
  assumes "view_of st ss view" "flat_children st ss" "page_regions bits st ss"
  shows "page_view bits view"
proof -
  have "0 \<le> ar_start (fr_addr r) \<and> addrrange_end (fr_addr r) \<le> 2 ^ 64 \<and>
      2 ^ bits dvd ar_start (fr_addr r) \<and> 2 ^ bits dvd ar_size (fr_addr r)" if r: "r \<in> set view" for r
  proof -
    obtain s where s: "s \<in> set ss" "r = child_range st s" using assms(1) r by (auto simp: view_of_def)
    then obtain mr where "st s = Some mr" "leaf_region mr" using assms(2) by (auto simp: flat_children_def)
    with s have "s \<in> set ss" "st s = Some mr" "leaf_region mr" "r = region_range s mr"
      by (auto simp: child_range_def)
    then show ?thesis using assms(3) by (auto simp: page_regions_def leaf_region_def)
  qed
  then show ?thesis using assms(1) by (auto simp: page_view_def view_of_def)
qed

text \<open>The section of an address: the range of the region that covers it.\<close>

lemma view_of_index:
  assumes v: "view_of st ss view" and s: "s \<in> set ss" "fr_covers (child_range st s) a"
  shows "\<exists>j < length view. view_index view a = Suc j \<and> view ! j = child_range st s"
proof -
  have "child_range st s \<in> set view" using v s(1) by (simp add: view_of_def)
  then obtain j where j: "j < length view" "view ! j = child_range st s" by (metis in_set_conv_nth)
  then show ?thesis using view_index_covers [of view j a] v s(2) by (auto simp: view_of_def)
qed

lemma view_of_index_0:
  assumes v: "view_of st ss view" and s: "\<And>s. s \<in> set ss \<Longrightarrow> \<not> fr_covers (child_range st s) a"
  shows "view_index view a = PHYS_SECTION_UNASSIGNED"
proof (cases "view_index view a")
  case (Suc j)
  note view_index_Suc [OF this]
  moreover have "view ! j \<in> child_range st ` set ss" using calculation v nth_mem by (fastforce simp: view_of_def)
  ultimately show ?thesis using s by auto
qed (simp add: PHYS_SECTION_UNASSIGNED_def)

section \<open>The commit of a transaction\<close>

definition io_root :: "mr_store \<Rightarrow> mr_ptr \<Rightarrow> bool" where
  "io_root st p \<longleftrightarrow> (\<exists>mr. st p = Some mr \<and> leaf_region mr \<and> mr_addr mr = 0 \<and> mr_size mr = 65536)"

definition sys_children :: "'c uc_struct \<Rightarrow> mr_ptr list" where
  "sys_children uc = mr_subregions (the (mr_store uc (system_memory uc)))"

text \<open>The topology is flat and on page borders, and there is room for its sections.\<close>

definition topo_inv :: "'c uc_struct \<Rightarrow> bool" where
  "topo_inv uc \<longleftrightarrow> 0 < target_page_bits uc \<and> target_page_bits uc \<le> 16 \<and>
    map as_root (address_spaces uc) = [Some (system_memory uc), Some (system_io uc)] \<and>
    flat_root (mr_store uc) (system_memory uc) (sys_children uc) \<and>
    page_regions (target_page_bits uc) (mr_store uc) (sys_children uc) \<and>
    length (sys_children uc) < 2 ^ target_page_bits uc \<and> io_root (mr_store uc) (system_io uc)"

text \<open>The current view of the system memory is the one of the topology.\<close>

definition view_inv :: "'c uc_struct \<Rightarrow> bool" where
  "view_inv uc \<longleftrightarrow> (\<exists>as ass fv. address_spaces uc = as # ass \<and> as_current_map as = Some fv \<and>
     view_of (mr_store uc) (sys_children uc) (fv_ranges fv) \<and>
     dispatch_ok (target_page_bits uc) (fv_ranges fv) (fv_dispatch fv))"

lemma sections_fit:
  assumes "length view < 2 ^ bits" "bits \<le> 16"
  shows "length view < 2 ^ 16"
proof -
  have "length view < 2 ^ bits" by fact
  also have "\<dots> \<le> 2 ^ 16" using assms(2) by (intro power_increasing) auto
  finally show ?thesis .
qed

lemma set_flatview_sys:
  assumes "flat_root st p ss" "page_regions bits st ss" "length ss < 2 ^ bits" "0 < bits" "bits \<le> 16"
    "as_root as = Some p"
  shows "\<exists>fv. address_space_set_flatview bits st as = Some (as\<lparr>as_current_map := Some fv\<rparr>) \<and>
    view_of st ss (fv_ranges fv) \<and> dispatch_ok bits (fv_ranges fv) (fv_dispatch fv)"
proof -
  obtain root view where r: "memory_region_get_flatview_root st p = Some root"
    "generate_ranges topology_depth st root = Some view" "view_of st ss view"
    using generate_ranges_flat [OF assms(1)] by blast
  have pv: "page_view bits view"
    using view_of_page_view [OF r(3) _ assms(2)] assms(1) by (simp add: flat_root_def)
  have len: "length view < 2 ^ bits" using r(3) assms(3) by (simp add: view_of_def)
  obtain d where "generate_dispatch bits view = Some d" "dispatch_ok bits view d"
    using generate_dispatch_ok [OF pv assms(4) _ len sections_fit [OF len assms(5)]] assms(5) by auto
  then show ?thesis using r assms(6)
    by (auto simp: address_space_set_flatview_def flatview_root_def generate_memory_topology_def)
qed

lemma set_flatview_io:
  assumes "io_root st p" "0 < bits" "bits \<le> 16" "as_root as = Some p"
  shows "\<exists>fv. address_space_set_flatview bits st as = Some (as\<lparr>as_current_map := Some fv\<rparr>)"
proof -
  obtain r where r: "st p = Some r" "leaf_region r" "mr_addr r = 0" "mr_size r = 65536"
    using assms(1) by (auto simp: io_root_def)
  obtain v where v: "render_memory_region (Suc 1) st p 0 (addrrange_make 0 (2 ^ 64)) False [] = Some v" "fv_wf v"
    "set v = {region_range p r}" "length v = 1"
    using render_leaf [of st p r "[]" 1] r by auto
  have one: "v = [region_range p r]" using v(3,4) by (cases v) auto
  have g: "generate_ranges topology_depth st (Some p) = Some v"
    using v(1) one by (simp add: generate_ranges_def topology_depth_def numeral_2_eq_2 del: render_memory_region.simps)
  have root: "memory_region_get_flatview_root st p = Some (Some p)"
    using r by (subst memory_region_get_flatview_root.simps) (simp add: leaf_region_def)
  have d: "(2 :: int) ^ bits dvd 65536"
  proof -
    have "(2 :: int) ^ bits dvd 2 ^ 16" using assms(3) by (rule le_imp_power_dvd)
    then show ?thesis by simp
  qed
  have pv: "page_view bits v" using one v(2) r d by (simp add: page_view_def)
  have b: "(2 :: nat) ^ 1 \<le> 2 ^ bits" using assms(2) by (intro power_increasing) auto
  have len: "length v < 2 ^ bits" using b v(4) by simp
  obtain dd where "generate_dispatch bits v = Some dd"
    using generate_dispatch_ok [OF pv assms(2) _ len sections_fit [OF len assms(3)]] assms(3) by auto
  then show ?thesis using g root assms(4)
    by (auto simp: address_space_set_flatview_def flatview_root_def generate_memory_topology_def)
qed

lemma commit_flat:
  assumes inv: "topo_inv uc" and pending: "memory_region_update_pending uc"
  shows "\<exists>ass. memory_region_transaction_commit env uc =
      Some ((if tcg_listener uc then tlb_flush_uc env else id) (uc\<lparr>address_spaces := ass,
        flat_view_gen := Suc (flat_view_gen uc), memory_region_update_pending := False\<rparr>)) \<and>
    topo_inv (uc\<lparr>address_spaces := ass\<rparr>) \<and> view_inv (uc\<lparr>address_spaces := ass\<rparr>)"
proof -
  let ?bits = "target_page_bits uc" and ?st = "mr_store uc"
  obtain as1 as2 where as: "address_spaces uc = [as1, as2]" "as_root as1 = Some (system_memory uc)"
    "as_root as2 = Some (system_io uc)" using inv by (auto simp: topo_inv_def)
  obtain fv where fv: "address_space_set_flatview ?bits ?st as1 = Some (as1\<lparr>as_current_map := Some fv\<rparr>)"
    "view_of ?st (sys_children uc) (fv_ranges fv)" "dispatch_ok ?bits (fv_ranges fv) (fv_dispatch fv)"
    using set_flatview_sys [of ?st "system_memory uc" "sys_children uc" ?bits as1] inv as(2)
    by (auto simp: topo_inv_def)
  obtain fv2 where fv2: "address_space_set_flatview ?bits ?st as2 = Some (as2\<lparr>as_current_map := Some fv2\<rparr>)"
    using set_flatview_io [of ?st "system_io uc" ?bits as2] inv as(3) by (auto simp: topo_inv_def)
  let ?ass = "[as1\<lparr>as_current_map := Some fv\<rparr>, as2\<lparr>as_current_map := Some fv2\<rparr>]"
  have "set_flatviews ?bits ?st (address_spaces uc) = Some ?ass" using as(1) fv(1) fv2 by simp
  then have "memory_region_transaction_commit env uc =
      Some ((if tcg_listener uc then tlb_flush_uc env else id) (uc\<lparr>address_spaces := ?ass,
        flat_view_gen := Suc (flat_view_gen uc), memory_region_update_pending := False\<rparr>))"
    using pending by (simp add: memory_region_transaction_commit_def Let_def)
  moreover have "topo_inv (uc\<lparr>address_spaces := ?ass\<rparr>)"
    using inv as by (simp add: topo_inv_def sys_children_def)
  moreover have "view_inv (uc\<lparr>address_spaces := ?ass\<rparr>)"
    using fv(2,3) by (simp add: view_inv_def sys_children_def)
  ultimately show ?thesis by blast
qed

end
