(* ===== verification/MemInv.thy ===== *)
theory MemInv
  imports UcMem MemView
begin

text \<open>
  The invariant of an initialised engine that ties the table of mapped regions, the topology below the
  system memory, the RAM blocks and the current view together, the memory of the guest that such an
  engine represents, and the proof that reading, writing and the checks of areas implement that memory.
\<close>

section \<open>The invariant\<close>

definition block_ok :: "'c uc_struct \<Rightarrow> MemoryRegion \<Rightarrow> bool" where
  "block_ok uc mr \<longleftrightarrow> leaf_region mr \<and> mr_end mr = mr_addr mr + word_of_int (mr_size mr) \<and>
    mr_container mr = Some (system_memory uc) \<and>
    2 ^ target_page_bits uc dvd uint (mr_addr mr) \<and> 2 ^ target_page_bits uc dvd mr_size mr \<and>
    (mr_ram mr \<longrightarrow> (mr_perms mr AND UC_PROT_WRITE \<noteq> 0 \<longrightarrow> \<not> mr_readonly mr) \<and>
      (\<exists>q b h. mr_ram_block mr = Some q \<and> rb_store uc q = Some b \<and> rb_host b = Some h \<and>
         mr_size mr \<le> uint (rb_used_length b) \<and> mr_size mr \<le> uint (rb_max_length b)))"

definition sys_root :: "'c uc_struct \<Rightarrow> bool" where
  "sys_root uc \<longleftrightarrow> (\<exists>mr. mr_store uc (system_memory uc) = Some mr \<and> mr_enabled mr \<and> \<not> mr_terminates mr \<and>
     mr_size mr = 2 ^ 64 \<and> mr_addr mr = 0 \<and> \<not> mr_readonly mr \<and> distinct (mr_subregions mr) \<and>
     set (mr_subregions mr) = set (mapped_blocks uc))"

text \<open>The RAM blocks of the engine are those of the mapped regions, one for each region of RAM.\<close>

definition ram_inv :: "'c uc_struct \<Rightarrow> bool" where
  "ram_inv uc \<longleftrightarrow> finite (dom (mr_store uc)) \<and> finite (dom (rb_store uc)) \<and> distinct (ram_list uc) \<and>
    (\<forall>q \<in> set (ram_list uc). \<exists>b mr. rb_store uc q = Some b \<and> rb_mr b \<in> set (mapped_blocks uc) \<and>
       mr_store uc (rb_mr b) = Some mr \<and> mr_ram mr \<and> mr_ram_block mr = Some q) \<and>
    (\<forall>p \<in> set (mapped_blocks uc). \<forall>mr q. mr_store uc p = Some mr \<longrightarrow> mr_ram mr \<longrightarrow> mr_ram_block mr = Some q \<longrightarrow>
       q \<in> set (ram_list uc) \<and> rb_mr (the (rb_store uc q)) = p)"

text \<open>The part that does not speak about the current views.\<close>

definition shape_inv :: "'c uc_struct \<Rightarrow> bool" where
  "shape_inv uc \<longleftrightarrow> uc_init_done uc \<and> 0 < target_page_bits uc \<and> target_page_bits uc \<le> 16 \<and>
    target_page_align uc = mask (target_page_bits uc) \<and>
    map as_root (address_spaces uc) = [Some (system_memory uc), Some (system_io uc)] \<and>
    sys_root uc \<and> io_root (mr_store uc) (system_io uc) \<and> system_io uc \<noteq> system_memory uc \<and>
    system_memory uc \<notin> set (mapped_blocks uc) \<and> system_io uc \<notin> set (mapped_blocks uc) \<and>
    distinct (mapped_blocks uc) \<and> length (mapped_blocks uc) < 2 ^ target_page_bits uc \<and>
    table_inv uc \<and> (\<forall>p \<in> set (mapped_blocks uc). block_ok uc (the (mr_store uc p))) \<and> ram_inv uc"

definition mem_inv :: "'c uc_struct \<Rightarrow> bool" where
  "mem_inv uc \<longleftrightarrow> shape_inv uc \<and> view_inv uc \<and> \<not> memory_region_update_pending uc"

section \<open>Addresses of a region\<close>

lemma uint_of_int: "0 \<le> x \<Longrightarrow> x < 2 ^ 64 \<Longrightarrow> uint (word_of_int x :: u64) = x"
  by (simp add: uint_word_of_int)

lemma uint_minus_le: "y \<le> x \<Longrightarrow> uint (x - y) = uint x - uint y" for x y :: u64
  by (simp add: uint_minus_simple_alt)

lemma block_geometry:
  assumes "leaf_region mr" "mr_end mr = mr_addr mr + word_of_int (mr_size mr)"
  shows "uint (mr_last mr) = uint (mr_addr mr) + mr_size mr - 1"
    and "mr_covers mr a \<longleftrightarrow> uint (mr_addr mr) \<le> uint a \<and> uint a < uint (mr_addr mr) + mr_size mr"
    and "mr_covers mr a \<Longrightarrow> uint (mr_end mr - a) = uint (mr_addr mr) + mr_size mr - uint a"
    and "mr_covers mr a \<Longrightarrow> uint (a - mr_addr mr) = uint a - uint (mr_addr mr)"
proof -
  let ?s = "uint (mr_addr mr)" and ?n = "mr_size mr"
  have n: "0 < ?n" "?n < 2 ^ 64" "?s + ?n \<le> 2 ^ 64" using assms(1) by (auto simp: leaf_region_def)
  have s: "0 \<le> ?s" by simp
  have last: "mr_last mr = word_of_int (?s + ?n - 1)" using assms(2) by (simp add: mr_last_def)
  show l: "uint (mr_last mr) = ?s + ?n - 1"
    unfolding last using n s by (intro uint_of_int) linarith+
  show c: "mr_covers mr a \<longleftrightarrow> ?s \<le> uint a \<and> uint a < ?s + ?n" for a
    unfolding mr_covers_def word_le_def l by linarith
  show "uint (mr_end mr - a) = ?s + ?n - uint a" if "mr_covers mr a"
  proof -
    have e: "mr_end mr - a = word_of_int (?s + ?n - uint a)" using assms(2) by simp
    show ?thesis unfolding e using that c [of a] n s by (intro uint_of_int) linarith+
  qed
  show "uint (a - mr_addr mr) = uint a - ?s" if "mr_covers mr a"
    using that by (intro uint_minus_le) (simp add: mr_covers_def)
qed

lemma block_ok_geometry:
  "block_ok uc mr \<Longrightarrow> leaf_region mr \<and> mr_end mr = mr_addr mr + word_of_int (mr_size mr)"
  by (simp add: block_ok_def)

lemma shape_block:
  assumes "shape_inv uc" "p \<in> set (mapped_blocks uc)"
  obtains mr where "mr_store uc p = Some mr" "block_ok uc mr" "mr \<in> set (blocks_of uc)"
proof -
  have "mr_store uc p \<noteq> None" "block_ok uc (the (mr_store uc p))"
    using assms by (auto simp: shape_inv_def table_inv_def)
  moreover have "the (mr_store uc p) \<in> set (blocks_of uc)" using assms(2) by (simp add: blocks_of_def)
  ultimately show thesis using that by (cases "mr_store uc p") auto
qed

lemma fr_covers_region:
  assumes "block_ok uc mr"
  shows "fr_covers (region_range p mr) (uint a) \<longleftrightarrow> mr_covers mr a"
  using block_geometry(2) [of mr a] block_ok_geometry [OF assms]
  by (simp add: fr_covers_def addrrange_contains_def)

text \<open>Two regions of the table have no address in common.\<close>

lemma shape_sorted_apart:
  assumes inv: "shape_inv uc" and p: "p \<in> set (mapped_blocks uc)" "q \<in> set (mapped_blocks uc)" "p \<noteq> q"
    and mr: "mr_store uc p = Some mr" "mr_store uc q = Some mr'"
  shows "mr_last mr < mr_addr mr' \<or> mr_last mr' < mr_addr mr"
proof -
  obtain i j where i: "i < length (mapped_blocks uc)" "mapped_blocks uc ! i = p"
    and j: "j < length (mapped_blocks uc)" "mapped_blocks uc ! j = q"
    using p by (metis in_set_conv_nth)
  have s: "blocks_sorted (blocks_of uc)" using inv by (simp add: shape_inv_def table_inv_def)
  have "i \<noteq> j" using i j p(3) by auto
  then show ?thesis
    using blocks_sorted_nth [OF s, of i j] blocks_sorted_nth [OF s, of j i] i j mr
    by (cases i j rule: linorder_cases) (auto simp: nth_blocks_of)
qed

lemma shape_unique:
  assumes inv: "shape_inv uc" and p: "p \<in> set (mapped_blocks uc)" "q \<in> set (mapped_blocks uc)"
    and mr: "mr_store uc p = Some mr" "mr_store uc q = Some mr'" and c: "mr_covers mr a" "mr_covers mr' a"
  shows "p = q"
proof (rule ccontr)
  assume "p \<noteq> q"
  from shape_sorted_apart [OF inv p this mr] c show False by (auto simp: mr_covers_def)
qed

lemma shape_topo:
  assumes inv: "shape_inv uc"
  shows "topo_inv uc" and "set (sys_children uc) = set (mapped_blocks uc)"
proof -
  obtain mr where mr: "mr_store uc (system_memory uc) = Some mr" "mr_enabled mr" "\<not> mr_terminates mr"
    "mr_size mr = 2 ^ 64" "mr_addr mr = 0" "\<not> mr_readonly mr" "distinct (mr_subregions mr)"
    "set (mr_subregions mr) = set (mapped_blocks uc)"
    using inv by (auto simp: shape_inv_def sys_root_def)
  show ch: "set (sys_children uc) = set (mapped_blocks uc)" using mr by (simp add: sys_children_def)
  have d: "distinct (sys_children uc)" using mr by (simp add: sys_children_def)
  have leaf: "\<exists>r. mr_store uc p = Some r \<and> leaf_region r" if "p \<in> set (mapped_blocks uc)" for p
    using shape_block [OF inv that] block_ok_geometry by metis
  have apart: "ranges_apart (region_range p (the (mr_store uc p))) (region_range q (the (mr_store uc q)))"
    if pq: "p \<in> set (mapped_blocks uc)" "q \<in> set (mapped_blocks uc)" "p \<noteq> q" for p q
  proof -
    obtain a b where a: "mr_store uc p = Some a" "block_ok uc a" and b: "mr_store uc q = Some b" "block_ok uc b"
      using shape_block [OF inv pq(1)] shape_block [OF inv pq(2)] by metis
    have "uint (mr_last a) = uint (mr_addr a) + mr_size a - 1" "uint (mr_last b) = uint (mr_addr b) + mr_size b - 1"
      using block_geometry(1) block_ok_geometry a(2) b(2) by metis+
    with shape_sorted_apart [OF inv pq a(1) b(1)] show ?thesis
      unfolding word_less_def by (simp add: ranges_apart_def fr_before_def a b) linarith
  qed
  have "flat_children (mr_store uc) (sys_children uc)"
    unfolding flat_children_def using d leaf apart ch by blast
  moreover have "page_regions (target_page_bits uc) (mr_store uc) (sys_children uc)"
    using inv ch by (auto simp: page_regions_def shape_inv_def block_ok_def)
  moreover have "length (sys_children uc) = length (mapped_blocks uc)"
    using ch d inv by (metis distinct_card shape_inv_def)
  ultimately show "topo_inv uc"
    using inv mr by (auto simp: topo_inv_def shape_inv_def flat_root_def sys_children_def)
qed

text \<open>A commit in a well-shaped engine gives the invariant.\<close>

lemma commit_mem_inv:
  assumes inv: "shape_inv uc" and pending: "memory_region_update_pending uc"
  shows "\<exists>ass cpu. memory_region_transaction_commit env uc =
      Some (uc\<lparr>address_spaces := ass, flat_view_gen := Suc (flat_view_gen uc),
        memory_region_update_pending := False, uc_cpu := cpu\<rparr>) \<and>
    mem_inv (uc\<lparr>address_spaces := ass, flat_view_gen := Suc (flat_view_gen uc),
        memory_region_update_pending := False, uc_cpu := cpu\<rparr>)"
proof -
  obtain ass where c: "memory_region_transaction_commit env uc =
      Some ((if tcg_listener uc then tlb_flush_uc env else id) (uc\<lparr>address_spaces := ass,
        flat_view_gen := Suc (flat_view_gen uc), memory_region_update_pending := False\<rparr>))"
    and t: "topo_inv (uc\<lparr>address_spaces := ass\<rparr>)" and v: "view_inv (uc\<lparr>address_spaces := ass\<rparr>)"
    using commit_flat [OF shape_topo(1) [OF inv] pending, of env] by blast
  define cpu where "cpu = (if tcg_listener uc
    then map_option (\<lambda>cpu. cpu\<lparr>cpu_arch := env_tlb_flush env (cpu_arch cpu)\<rparr>) (uc_cpu uc) else uc_cpu uc)"
  let ?uc = "uc\<lparr>address_spaces := ass, flat_view_gen := Suc (flat_view_gen uc),
        memory_region_update_pending := False, uc_cpu := cpu\<rparr>"
  have r: "map as_root ass = [Some (system_memory uc), Some (system_io uc)]" using t by (simp add: topo_inv_def)
  have "memory_region_transaction_commit env uc = Some ?uc"
    using c by (simp add: cpu_def tlb_flush_uc_def upd_cpu_def)
  moreover have "shape_inv ?uc"
    using inv r by (simp add: shape_inv_def sys_root_def table_inv_def blocks_of_def block_ok_def ram_inv_def)
  moreover have "view_inv ?uc" using v by (simp add: view_inv_def sys_children_def)
  ultimately show ?thesis unfolding mem_inv_def by auto
qed

section \<open>The memory of the guest\<close>

definition ram_host :: "'c uc_struct \<Rightarrow> MemoryRegion \<Rightarrow> nat" where
  "ram_host uc mr = the (rb_host (the (rb_store uc (the (mr_ram_block mr)))))"

definition ram_of :: "'c uc_struct \<Rightarrow> u64 \<rightharpoonup> u8" where
  "ram_of uc a =
    (case find (\<lambda>p. mr_covers (the (mr_store uc p)) a) (mapped_blocks uc) of
       None \<Rightarrow> None
     | Some p \<Rightarrow>
         let mr = the (mr_store uc p) in
         if mr_ram mr then Some (host_mem uc (ram_host uc mr + unat (a - mr_addr mr))) else None)"

lemma ram_of_region:
  assumes inv: "shape_inv uc" and p: "p \<in> set (mapped_blocks uc)" "mr_store uc p = Some mr" "mr_covers mr a"
  shows "ram_of uc a = (if mr_ram mr then Some (host_mem uc (ram_host uc mr + unat (a - mr_addr mr))) else None)"
proof -
  have "find (\<lambda>p. mr_covers (the (mr_store uc p)) a) (mapped_blocks uc) \<noteq> None"
    using p by (auto simp: find_None_iff)
  then obtain q where q: "find (\<lambda>p. mr_covers (the (mr_store uc p)) a) (mapped_blocks uc) = Some q" by blast
  then have m: "q \<in> set (mapped_blocks uc)" "mr_covers (the (mr_store uc q)) a"
    by (auto simp: find_Some_iff)
  obtain mr' where "mr_store uc q = Some mr'" using shape_block [OF inv m(1)] by metis
  then have "q = p" using shape_unique [OF inv m(1) p(1)] m(2) p(2,3) by simp
  then show ?thesis using q p(2) by (simp add: ram_of_def)
qed

lemma ram_of_Some:
  assumes inv: "shape_inv uc" and r: "ram_of uc a = Some b"
  obtains p mr where "p \<in> set (mapped_blocks uc)" "mr_store uc p = Some mr" "block_ok uc mr" "mr_covers mr a"
    "mr_ram mr"
proof -
  obtain p where p: "find (\<lambda>p. mr_covers (the (mr_store uc p)) a) (mapped_blocks uc) = Some p"
    using r by (auto simp: ram_of_def split: option.splits)
  then have m: "p \<in> set (mapped_blocks uc)" "mr_covers (the (mr_store uc p)) a"
    by (auto simp: find_Some_iff)
  obtain mr where mr: "mr_store uc p = Some mr" "block_ok uc mr" using shape_block [OF inv m(1)] by metis
  have "mr_ram mr" using r p mr(1) by (simp add: ram_of_def split: if_splits)
  with m mr show thesis using that by simp
qed

lemma ram_of_mapped: "shape_inv uc \<Longrightarrow> ram_of uc a = Some b \<Longrightarrow> mapped uc a"
  by (erule (1) ram_of_Some) (force simp: mapped_def blocks_of_def)

lemma ram_of_unmapped: "\<not> mapped uc a \<Longrightarrow> ram_of uc a = None"
  by (auto simp: ram_of_def mapped_def blocks_of_def find_Some_iff split: option.splits)

text \<open>What the memory of the guest depends on.\<close>

lemma ram_of_cong:
  assumes "mapped_blocks uc' = mapped_blocks uc" "host_mem uc' = host_mem uc" "rb_store uc' = rb_store uc"
    "\<And>p. p \<in> set (mapped_blocks uc) \<Longrightarrow> mr_addr (the (mr_store uc' p)) = mr_addr (the (mr_store uc p)) \<and>
      mr_end (the (mr_store uc' p)) = mr_end (the (mr_store uc p)) \<and>
      mr_ram (the (mr_store uc' p)) = mr_ram (the (mr_store uc p)) \<and>
      mr_ram_block (the (mr_store uc' p)) = mr_ram_block (the (mr_store uc p))"
  shows "ram_of uc' = ram_of uc"
proof
  fix a
  have c: "mr_covers (the (mr_store uc' p)) a = mr_covers (the (mr_store uc p)) a" if "p \<in> set (mapped_blocks uc)" for p
    using assms(4) [OF that] by (simp add: mr_covers_def mr_last_def)
  have f: "find (\<lambda>p. mr_covers (the (mr_store uc' p)) a) (mapped_blocks uc) =
      find (\<lambda>p. mr_covers (the (mr_store uc p)) a) (mapped_blocks uc)"
    by (rule find_cong) (simp_all add: c)
  show "ram_of uc' a = ram_of uc a"
  proof (cases "find (\<lambda>p. mr_covers (the (mr_store uc p)) a) (mapped_blocks uc)")
    case (Some p)
    then have "p \<in> set (mapped_blocks uc)" by (auto simp: find_Some_iff)
    from assms(4) [OF this] show ?thesis
      using Some f assms(1-3) by (simp add: ram_of_def ram_host_def Let_def)
  qed (simp add: ram_of_def f assms(1))
qed

section \<open>Physical accesses\<close>

lemma mem_inv_shape: "mem_inv uc \<Longrightarrow> shape_inv uc"
  by (simp add: mem_inv_def)

text \<open>Only the cache of the dispatch changes.\<close>

lemma mem_inv_mru:
  assumes inv: "mem_inv uc" and as: "address_spaces uc = as # ass" "as_current_map as = Some fv"
    and n: "n \<le> length (fv_ranges fv)"
  shows "\<exists>ass'. set_dispatch ((fv_dispatch fv)\<lparr>mru_section := Some n\<rparr>) uc = uc\<lparr>address_spaces := ass'\<rparr> \<and>
    mem_inv (uc\<lparr>address_spaces := ass'\<rparr>)"
proof -
  let ?as = "as\<lparr>as_current_map := Some (fv\<lparr>fv_dispatch := (fv_dispatch fv)\<lparr>mru_section := Some n\<rparr>\<rparr>)\<rparr>"
  have "set_dispatch ((fv_dispatch fv)\<lparr>mru_section := Some n\<rparr>) uc = uc\<lparr>address_spaces := ?as # ass\<rparr>"
    using as by (simp add: set_dispatch_def)
  moreover have "view_inv (uc\<lparr>address_spaces := ?as # ass\<rparr>)"
    using inv as n dispatch_ok_mru [of "target_page_bits uc" "fv_ranges fv" "fv_dispatch fv" n]
    by (auto simp: mem_inv_def view_inv_def sys_children_def)
  moreover have "shape_inv (uc\<lparr>address_spaces := ?as # ass\<rparr>)"
    using inv as by (simp add: mem_inv_def shape_inv_def sys_root_def table_inv_def blocks_of_def block_ok_def ram_inv_def)
  ultimately show ?thesis using inv unfolding mem_inv_def by auto
qed

lemma min_uint: "word_of_int (min (uint x) (uint y)) = min x y" for x y :: u64
  by (simp add: min_def word_le_def)

lemma translate_region:
  assumes inv: "mem_inv uc" and p: "p \<in> set (mapped_blocks uc)" "mr_store uc p = Some mr" "mr_covers mr a"
  shows "\<exists>ass. flatview_translate (flat_view_gen uc) a plen uc =
      Some (SecRegion p, a - mr_addr mr, if mr_ram mr then min (mr_end mr - a) plen else plen,
        uc\<lparr>address_spaces := ass\<rparr>) \<and> mem_inv (uc\<lparr>address_spaces := ass\<rparr>)"
proof -
  have sh: "shape_inv uc" using inv by (rule mem_inv_shape)
  have bo: "block_ok uc mr" using shape_block [OF sh p(1)] p(2) by (metis option.inject)
  note g = block_geometry [OF block_ok_geometry [OF bo, THEN conjunct1] block_ok_geometry [OF bo, THEN conjunct2]]
  have ti: "topo_inv uc" and ch: "set (sys_children uc) = set (mapped_blocks uc)" by (rule shape_topo [OF sh])+
  obtain as ass fv where as: "address_spaces uc = as # ass" "as_current_map as = Some fv"
    and vo: "view_of (mr_store uc) (sys_children uc) (fv_ranges fv)"
    and dok: "dispatch_ok (target_page_bits uc) (fv_ranges fv) (fv_dispatch fv)"
    using inv by (auto simp: mem_inv_def view_inv_def)
  have pv: "page_view (target_page_bits uc) (fv_ranges fv)"
    using view_of_page_view [OF vo] ti by (auto simp: topo_inv_def flat_root_def)
  have cov: "fr_covers (child_range (mr_store uc) p) (uint a)"
    using fr_covers_region [OF bo] p(2,3) by (simp add: child_range_def)
  obtain j where j: "j < length (fv_ranges fv)" "view_index (fv_ranges fv) (uint a) = Suc j"
    "fv_ranges fv ! j = region_range p mr"
    using view_of_index [OF vo _ cov] p ch by (auto simp: child_range_def)
  let ?d = "(fv_dispatch fv)\<lparr>mru_section := Some (Suc j)\<rparr>"
  have look: "address_space_lookup_region (target_page_bits uc) (fv_dispatch fv) a True = (Suc j, ?d)"
    using dispatch_lookup [OF pv dok, of a True] j(2) by simp
  have sec: "sections ?d ! Suc j = fr_section (region_range p mr)"
    using dispatch_section_nth [of "fv_dispatch fv" "target_page_bits uc" "fv_ranges fv" j] dok j
    by (simp add: dispatch_ok_def)
  obtain ass' where m: "set_dispatch ?d uc = uc\<lparr>address_spaces := ass'\<rparr>" "mem_inv (uc\<lparr>address_spaces := ass'\<rparr>)"
    using mem_inv_mru [OF inv as, of "Suc j"] j(1) by auto
  have sz: "mr_size mr - uint (a - mr_addr mr) = uint (mr_end mr - a)"
    using g(3,4) [OF p(3)] by simp
  have "get64 (min (mr_size mr - uint (a - mr_addr mr)) (uint plen)) = Some (min (mr_end mr - a) plen)"
    unfolding sz get64_def using u64_range [of "mr_end mr - a"] u64_range [of plen] by (simp add: min_uint)
  then have "address_space_translate_internal (fv_dispatch fv) a plen True uc =
      Some (fr_section (region_range p mr), a - mr_addr mr,
        if mr_ram mr then min (mr_end mr - a) plen else plen, ?d)"
    using look sec p(2)
    by (simp add: address_space_translate_internal_def section_region_def fr_section_def)
  then have "flatview_translate (flat_view_gen uc) a plen uc =
      Some (SecRegion p, a - mr_addr mr, if mr_ram mr then min (mr_end mr - a) plen else plen, set_dispatch ?d uc)"
    using as by (simp add: flatview_translate_def cur_dispatch_def fr_section_def)
  then show ?thesis using m by auto
qed

text \<open>The host address of a byte of RAM.\<close>

lemma ram_ptr:
  assumes bo: "block_ok uc mr" and ram: "mr_ram mr" and c: "mr_covers mr a" and l: "0 < l" "l \<le> mr_end mr - a"
  shows "qemu_ram_ptr_length (mr_ram_block mr) (a - mr_addr mr) l uc =
    Some (ram_host uc mr + unat (a - mr_addr mr), l, uc)"
proof -
  obtain q b h where b: "mr_ram_block mr = Some q" "rb_store uc q = Some b" "rb_host b = Some h"
    "mr_size mr \<le> uint (rb_used_length b)" "mr_size mr \<le> uint (rb_max_length b)"
    using bo ram by (auto simp: block_ok_def)
  note g = block_geometry [OF block_ok_geometry [OF bo, THEN conjunct1] block_ok_geometry [OF bo, THEN conjunct2]]
  have off: "uint (a - mr_addr mr) = uint a - uint (mr_addr mr)" by (rule g(4) [OF c])
  have end_uint: "uint (mr_end mr - a) = uint (mr_addr mr) + mr_size mr - uint a" by (rule g(3) [OF c])
  have lu: "0 < uint l" "uint l \<le> uint (mr_addr mr) + mr_size mr - uint a"
    using l end_uint by (simp_all add: word_less_def word_le_def)
  have "uint (a - mr_addr mr) < uint (rb_used_length b)" using off lu b(4) by linarith
  then have used: "a - mr_addr mr < rb_used_length b" by (simp add: word_less_def)
  have "uint (a - mr_addr mr) \<le> uint (rb_max_length b)" using off lu b(5) by linarith
  then have le: "a - mr_addr mr \<le> rb_max_length b" by (simp add: word_le_def)
  have "uint l \<le> uint (rb_max_length b - (a - mr_addr mr))"
    unfolding uint_minus_le [OF le] using off lu b(5) by linarith
  then have "l \<le> rb_max_length b - (a - mr_addr mr)" by (simp add: word_le_def)
  moreover have "l \<noteq> 0" using l(1) by auto
  ultimately show ?thesis using b used
    by (simp add: qemu_ram_ptr_length_def resolve_ram_block_def ramblock_ptr_def offset_in_ramblock_def
        ram_host_def min_def)
qed

lemma scast_ucast_int: "len \<le> INT_MAX \<Longrightarrow> (scast (ucast len :: u32) :: u64) = len"
proof -
  assume "len \<le> INT_MAX"
  then have l: "uint len \<le> 0x7fffffff" by (simp add: INT_MAX_def word_le_def)
  have u: "0 \<le> uint len" by simp
  have e: "signed_take_bit 31 (uint len) = uint len"
  proof (rule signed_take_bit_int_eq_self)
    show "- (2 ^ 31) \<le> uint len" by (rule order_trans [OF _ u]) simp
    show "uint len < 2 ^ 31" using l by simp
  qed
  have "sint (ucast len :: u32) = signed_take_bit 31 (uint len)"
    by (simp add: sint_uint unsigned_ucast_eq signed_take_bit_take_bit)
  then show ?thesis by (simp only: e scast_eq) simp
qed

lemma region_offset:
  assumes bo: "block_ok uc mr" and c: "mr_covers mr a" and i: "of_nat i < mr_end mr - a" "i < 2 ^ 64"
  shows "mr_covers mr (a + of_nat i)" "unat (a + of_nat i - mr_addr mr) = unat (a - mr_addr mr) + i"
proof -
  note g = block_geometry [OF block_ok_geometry [OF bo, THEN conjunct1] block_ok_geometry [OF bo, THEN conjunct2]]
  have n: "uint (mr_addr mr) + mr_size mr \<le> 2 ^ 64" using bo by (simp add: block_ok_def leaf_region_def)
  have ui: "uint (of_nat i :: u64) = int i" using i(2) by (simp add: uint_nat unat_of_nat)
  have lt: "uint a + int i < uint (mr_addr mr) + mr_size mr"
    using i(1) g(3) [OF c] ui by (simp add: word_less_def)
  have w: "a + of_nat i = word_of_int (uint a + int i)" by simp
  have u: "uint (a + of_nat i) = uint a + int i"
    unfolding w using lt n by (intro uint_of_int) simp_all
  show c': "mr_covers mr (a + of_nat i)" unfolding g(2) u using c lt g(2) by auto
  have "uint (a + of_nat i - mr_addr mr) = uint (a - mr_addr mr) + int i"
    using g(4) [OF c'] g(4) [OF c] u by simp
  then have "int (unat (a + of_nat i - mr_addr mr)) = int (unat (a - mr_addr mr) + i)"
    by (simp only: uint_nat [symmetric] of_nat_add)
  then show "unat (a + of_nat i - mr_addr mr) = unat (a - mr_addr mr) + i" by (simp only: of_nat_eq_iff)
qed

lemma of_nat_less_word: "i < unat len \<Longrightarrow> (of_nat i :: u64) < len" "i < unat len \<Longrightarrow> i < 2 ^ 64"
  using unat64_lt [of len] by (simp_all add: word_less_nat_alt unat_of_nat)

text \<open>Reading inside one region of RAM.\<close>

lemma phys_read:
  assumes inv: "mem_inv uc" and p: "p \<in> set (mapped_blocks uc)" "mr_store uc p = Some mr" "mr_covers mr a"
    and ram: "mr_ram mr" and len: "0 < len" "len \<le> mr_end mr - a" "len \<le> INT_MAX"
  shows "\<exists>ass. cpu_physical_mem_read env a (ucast len) uc =
      Some (True, map (\<lambda>i. the (ram_of uc (a + of_nat i))) [0 ..< unat len], uc\<lparr>address_spaces := ass\<rparr>) \<and>
    mem_inv (uc\<lparr>address_spaces := ass\<rparr>)"
proof -
  have sh: "shape_inv uc" using inv by (rule mem_inv_shape)
  have bo: "block_ok uc mr" using shape_block [OF sh p(1)] p(2) by (metis option.inject)
  obtain ass where t: "flatview_translate (flat_view_gen uc) a len uc =
      Some (SecRegion p, a - mr_addr mr, len, uc\<lparr>address_spaces := ass\<rparr>)" "mem_inv (uc\<lparr>address_spaces := ass\<rparr>)"
    using translate_region [OF inv p, of len] ram len(2) by (auto simp: min_absorb2)
  let ?uc = "uc\<lparr>address_spaces := ass\<rparr>" and ?off = "a - mr_addr mr"
  have bo': "block_ok ?uc mr" using bo by (simp add: block_ok_def)
  have "qemu_ram_ptr_length (mr_ram_block mr) ?off len ?uc = Some (ram_host uc mr + unat ?off, len, ?uc)"
    using ram_ptr [OF bo' ram p(3) len(1,2)] by (simp add: ram_host_def)
  then have rp: "read_piece env (SecRegion p) ?off len ?uc =
      Some (MEMTX_OK, len, host_read (ram_host uc mr + unat ?off) (unat len) ?uc, ?uc)"
    using p(2) ram by (simp add: read_piece_def section_region_def memory_access_is_direct_def)
  have bytes: "host_read (ram_host uc mr + unat ?off) (unat len) ?uc =
      map (\<lambda>i. the (ram_of uc (a + of_nat i))) [0 ..< unat len]"
  proof -
    have "host_mem uc (ram_host uc mr + unat ?off + i) = the (ram_of uc (a + of_nat i))" if "i < unat len" for i
    proof -
      have "of_nat i < mr_end mr - a" using of_nat_less_word(1) [OF that] len(2) by simp
      note r = region_offset [OF bo p(3) this of_nat_less_word(2) [OF that]]
      show ?thesis using ram_of_region [OF sh p(1,2) r(1)] r(2) ram by (simp add: add.assoc)
    qed
    then show ?thesis by (simp add: host_read_def)
  qed
  have "flatview_read env a len uc = Some (MEMTX_OK, map (\<lambda>i. the (ram_of uc (a + of_nat i))) [0 ..< unat len], ?uc)"
    using t(1) rp bytes by (simp add: flatview_read_def flatview_read_continue.simps Let_def)
  then have "cpu_physical_mem_read env a (ucast len) uc =
      Some (True, map (\<lambda>i. the (ram_of uc (a + of_nat i))) [0 ..< unat len], ?uc)"
    using len(1) by (simp add: cpu_physical_mem_read_def address_space_read_full_def scast_ucast_int [OF len(3)])
  then show ?thesis using t(2) by blast
qed

section \<open>Walking over an area region by region\<close>

lemma no_redirect: "env_mem_redirect env = None \<Longrightarrow> redirect env a = a"
  by (simp add: redirect_def)

lemma mapping_region:
  assumes inv: "shape_inv uc" and env: "env_mem_redirect env = None" and m: "mapped uc a"
  obtains p mr where "memory_mapping env uc a = Some (Some p)" "p \<in> set (mapped_blocks uc)"
    "mr_store uc p = Some mr" "block_ok uc mr" "mr_covers mr a"
proof -
  have t: "table_inv uc" using inv by (simp add: shape_inv_def)
  obtain p where p: "memory_mapping env uc a = Some (Some p)"
    using memory_mapping_None [OF t, of env a] memory_mapping_total [OF t, of env a] m no_redirect [OF env]
    by (metis option.exhaust)
  from memory_mapping_Some [OF t p] no_redirect [OF env, of a]
  obtain mr where "p \<in> set (mapped_blocks uc)" "mr_store uc p = Some mr" "mr_covers mr a" by auto
  moreover have "block_ok uc mr" using shape_block [OF inv calculation(1)] calculation(2) by (metis option.inject)
  ultimately show thesis using that p by blast
qed

lemma mapping_unmapped:
  assumes inv: "shape_inv uc" and env: "env_mem_redirect env = None" and m: "\<not> mapped uc a"
  shows "memory_mapping env uc a = Some None"
  using memory_mapping_None [of uc env a] inv m no_redirect [OF env, of a] by (simp add: shape_inv_def)

lemma region_mapped: "p \<in> set (mapped_blocks uc) \<Longrightarrow> mr_store uc p = Some mr \<Longrightarrow> mr_covers mr a \<Longrightarrow> mapped uc a"
  by (force simp: mapped_def blocks_of_def)

text \<open>One step of the loops: \<^term>\<open>len\<close> bytes from \<^term>\<open>a\<close> lie in the region.\<close>

lemma chunk:
  assumes bo: "block_ok uc mr" and c: "mr_covers mr a" and count: "count < sz"
  defines "len \<equiv> min (sz - count) (mr_end mr - a)"
  shows "0 < len" "len \<le> mr_end mr - a" "len \<le> sz" "count + len \<le> sz" "unat len \<le> unat (sz - count)"
    "unat (sz - (count + len)) = unat (sz - count) - unat len"
    "unat (sz - (count + len)) < unat (sz - count)"
    "i < unat len \<Longrightarrow> mr_covers mr (a + of_nat i)"
proof -
  note g = block_geometry [OF block_ok_geometry [OF bo, THEN conjunct1] block_ok_geometry [OF bo, THEN conjunct2]]
  have "uint (mr_end mr - a) > 0" using g(2,3) c by auto
  then have e: "0 < mr_end mr - a" by (simp add: word_less_def)
  have d: "0 < sz - count" "sz - count \<le> sz"
    using count by (simp_all add: word_less_nat_alt word_le_nat_alt unat_sub word_le_nat_alt)
  show pos: "0 < len" using e d by (simp add: len_def)
  show le: "len \<le> mr_end mr - a" by (simp add: len_def)
  have ls: "len \<le> sz - count" by (simp add: len_def)
  then show "len \<le> sz" using d(2) by (rule order_trans)
  show ul: "unat len \<le> unat (sz - count)" using ls by (simp add: word_le_nat_alt)
  have us: "unat (sz - count) = unat sz - unat count" using count by (simp add: unat_sub word_le_nat_alt word_less_nat_alt)
  have "unat count + unat len \<le> unat sz" using ul us count by (simp add: word_less_nat_alt)
  then have uc: "unat (count + len) = unat count + unat len"
    using unat64_lt [of sz] by (intro unat_add_lem [THEN iffD1]) simp
  then show cl: "count + len \<le> sz" using \<open>unat count + unat len \<le> unat sz\<close> by (simp add: word_le_nat_alt)
  show eq: "unat (sz - (count + len)) = unat (sz - count) - unat len"
    using cl uc us by (simp add: unat_sub)
  have "0 < unat len" using pos by (simp add: word_less_nat_alt)
  then show "unat (sz - (count + len)) < unat (sz - count)" using eq ul by simp
  show "mr_covers mr (a + of_nat i)" if "i < unat len"
    using region_offset(1) [OF bo c _ of_nat_less_word(2) [OF that]] of_nat_less_word(1) [OF that] le by simp
qed

lemma all_chunks:
  fixes a :: u64
  assumes "k \<le> n"
  shows "(\<forall>i < n. P (a + of_nat i)) \<longleftrightarrow> (\<forall>i < k. P (a + of_nat i)) \<and> (\<forall>i < n - k. P (a + of_nat k + of_nat i))"
proof -
  have "P (a + of_nat i)" if "\<forall>j < n - k. P (a + of_nat k + of_nat j)" "i < n" "\<not> i < k" for i
    using that(1) [rule_format, of "i - k"] that(2,3) by (simp add: of_nat_diff)
  moreover have "P (a + of_nat k + of_nat i)" if "\<forall>j < n. P (a + of_nat j)" "i < n - k" for i
    using that(1) [rule_format, of "k + i"] that(2) by (simp add: add.assoc)
  ultimately show ?thesis using assms by (meson order_less_le_trans)
qed

lemma map_chunks:
  fixes a :: u64
  assumes "k \<le> n"
  shows "map (\<lambda>i. f (a + of_nat i)) [0 ..< n] =
    map (\<lambda>i. f (a + of_nat i)) [0 ..< k] @ map (\<lambda>i. f (a + of_nat k + of_nat i)) [0 ..< n - k]"
proof -
  have "[0 ..< n] = [0 ..< k] @ [k ..< n]" using assms by (metis le_add_diff_inverse upt_add_eq_append zero_le)
  moreover have "[k ..< n] = map (\<lambda>i. i + k) [0 ..< n - k]" using map_add_upt [of k "n - k"] assms by simp
  ultimately show ?thesis by (simp add: algebra_simps)
qed

lemma check_mem_area_loop_exact:
  assumes inv: "shape_inv uc" and env: "env_mem_redirect env = None" and "count \<le> sz"
  shows "check_mem_area_loop env uc a sz count = Some (\<forall>i < unat (sz - count). mapped uc (a + of_nat i))"
  using assms(3)
proof (induction "unat (sz - count)" arbitrary: a count rule: less_induct)
  case less
  show ?case
  proof (cases "count < sz")
    case False
    then have "count = sz" using less.prems by simp
    then show ?thesis by (simp add: check_mem_area_loop.simps)
  next
    case True
    then have n: "0 < unat (sz - count)"
      using unat_sub [OF less.prems] by (simp add: word_less_nat_alt)
    show ?thesis
    proof (cases "mapped uc a")
      case False
      then have "\<not> mapped uc (a + of_nat 0)" by simp
      then have "(\<forall>i < unat (sz - count). mapped uc (a + of_nat i)) \<longleftrightarrow> False" using n by blast
      moreover have "check_mem_area_loop env uc a sz count = Some False"
        using True mapping_unmapped [OF inv env False] by (subst check_mem_area_loop.simps) auto
      ultimately show ?thesis by simp
    next
      case m: True
      obtain p mr where p: "memory_mapping env uc a = Some (Some p)" "p \<in> set (mapped_blocks uc)"
        "mr_store uc p = Some mr" "block_ok uc mr" "mr_covers mr a" by (rule mapping_region [OF inv env m])
      define len where "len = min (sz - count) (mr_end mr - a)"
      note ch = chunk [OF p(4,5) True, folded len_def]
      have "check_mem_area_loop env uc a sz count = check_mem_area_loop env uc (a + len) sz (count + len)"
        using True p by (subst check_mem_area_loop.simps) (simp add: len_def Let_def)
      also have "\<dots> = Some (\<forall>i < unat (sz - count) - unat len. mapped uc (a + of_nat (unat len) + of_nat i))"
        using less.hyps [OF ch(7,4)] ch(6) by simp
      also have "\<dots> = Some (\<forall>i < unat (sz - count). mapped uc (a + of_nat i))"
        using all_chunks [OF ch(5), of "mapped uc" a] ch(8) region_mapped [OF p(2,3)] by simp
      finally show ?thesis .
    qed
  qed
qed

lemma check_mem_area_exact:
  assumes "shape_inv uc" "env_mem_redirect env = None"
  shows "check_mem_area env uc a sz = Some (\<forall>i < unat sz. mapped uc (a + of_nat i))"
  using check_mem_area_loop_exact [OF assms, of 0 sz a] by (simp add: check_mem_area_def)

end
