(* ===== verification/MemRw.thy ===== *)
theory MemRw
  imports MemInv
begin

text \<open>
  \<^verbatim>\<open>uc_mem_read\<close> and \<^verbatim>\<open>uc_mem_write\<close> implement the memory of the guest: reading returns its bytes, and
  writing replaces exactly the bytes of the area.
\<close>

section \<open>Reading\<close>

lemma ram_of_spaces [simp]: "ram_of (uc\<lparr>address_spaces := ass\<rparr>) = ram_of uc"
  by (rule ram_of_cong) simp_all

lemma uc_mem_read_loop_ram:
  assumes "mem_inv uc" and env: "env_mem_redirect env = None" and "count \<le> sz" and sz: "sz \<le> INT_MAX"
    and "\<forall>i < unat (sz - count). ram_of uc (a + of_nat i) \<noteq> None"
  shows "\<exists>ass. uc_mem_read_loop env a sz count uc =
      Some (sz, map (\<lambda>i. the (ram_of uc (a + of_nat i))) [0 ..< unat (sz - count)], uc\<lparr>address_spaces := ass\<rparr>) \<and>
    mem_inv (uc\<lparr>address_spaces := ass\<rparr>)"
  using assms(1,3,5)
proof (induction "unat (sz - count)" arbitrary: a count uc rule: less_induct)
  case less
  note inv = less.prems(1)
  have sh: "shape_inv uc" using inv by (rule mem_inv_shape)
  show ?case
  proof (cases "count < sz")
    case False
    then have "count = sz" using less.prems(2) by simp
    then have "uc_mem_read_loop env a sz count uc = Some (sz, [], uc)"
      by (subst uc_mem_read_loop.simps) simp
    then show ?thesis using inv \<open>count = sz\<close> by (intro exI [of _ "address_spaces uc"]) simp
  next
    case True
    then have n: "0 < unat (sz - count)"
      using unat_sub [OF less.prems(2)] by (simp add: word_less_nat_alt)
    then obtain b where b: "ram_of uc a = Some b" using less.prems(3) by fastforce
    obtain p mr where p: "memory_mapping env uc a = Some (Some p)" "p \<in> set (mapped_blocks uc)"
      "mr_store uc p = Some mr" "block_ok uc mr" "mr_covers mr a"
      by (rule mapping_region [OF sh env ram_of_mapped [OF sh b]])
    have ram: "mr_ram mr" using ram_of_region [OF sh p(2,3,5)] b by (simp split: if_splits)
    define len where "len = min (sz - count) (mr_end mr - a)"
    note ch = chunk [OF p(4,5) True, folded len_def]
    obtain ass where r: "cpu_physical_mem_read env a (ucast len) uc =
        Some (True, map (\<lambda>i. the (ram_of uc (a + of_nat i))) [0 ..< unat len], uc\<lparr>address_spaces := ass\<rparr>)"
      "mem_inv (uc\<lparr>address_spaces := ass\<rparr>)"
      using phys_read [OF inv p(2,3,5) ram ch(1,2) order_trans [OF ch(3) sz]] by blast
    have split: "\<forall>i < unat (sz - count) - unat len. ram_of uc (a + len + of_nat i) \<noteq> None"
      using less.prems(3) all_chunks [OF ch(5), of "\<lambda>x. ram_of uc x \<noteq> None" a] by simp
    obtain ass' where l: "uc_mem_read_loop env (a + len) sz (count + len) (uc\<lparr>address_spaces := ass\<rparr>) =
        Some (sz, map (\<lambda>i. the (ram_of uc (a + len + of_nat i))) [0 ..< unat (sz - count) - unat len],
          uc\<lparr>address_spaces := ass'\<rparr>)" "mem_inv (uc\<lparr>address_spaces := ass'\<rparr>)"
      using less.hyps [OF ch(7) r(2) ch(4), of "a + len"] split ch(6) by auto
    have "uc_mem_read_loop env a sz count uc =
        Some (sz, map (\<lambda>i. the (ram_of uc (a + of_nat i))) [0 ..< unat (sz - count)], uc\<lparr>address_spaces := ass'\<rparr>)"
      using True p(1,3) r(1) l(1) map_chunks [OF ch(5), of "\<lambda>x. the (ram_of uc x)" a]
      by (subst uc_mem_read_loop.simps) (simp add: len_def [symmetric] Let_def)
    with l(2) show ?thesis by blast
  qed
qed

lemma uc_mem_read_ram:
  assumes inv: "mem_inv uc" and env: "env_mem_redirect env = None" and sz: "sz \<le> INT_MAX"
    and ram: "\<forall>i < unat sz. ram_of uc (a + of_nat i) \<noteq> None"
  shows "\<exists>ass. uc_mem_read env a sz uc =
      Some (UC_ERR_OK, map (\<lambda>i. the (ram_of uc (a + of_nat i))) [0 ..< unat sz], uc\<lparr>address_spaces := ass\<rparr>) \<and>
    mem_inv (uc\<lparr>address_spaces := ass\<rparr>)"
proof -
  have sh: "shape_inv uc" using inv by (rule mem_inv_shape)
  then have init: "uc_init_done uc" by (simp add: shape_inv_def)
  have "\<forall>i < unat sz. mapped uc (a + of_nat i)" using ram ram_of_unmapped by blast
  then have area: "check_mem_area env uc a sz = Some True" using check_mem_area_exact [OF sh env] by simp
  obtain ass where l: "uc_mem_read_loop env a sz 0 uc =
      Some (sz, map (\<lambda>i. the (ram_of uc (a + of_nat i))) [0 ..< unat sz], uc\<lparr>address_spaces := ass\<rparr>)"
    "mem_inv (uc\<lparr>address_spaces := ass\<rparr>)"
    using uc_mem_read_loop_ram [OF inv env _ sz, of 0 a] ram by auto
  have "uc_mem_read env a sz uc =
      Some (UC_ERR_OK, map (\<lambda>i. the (ram_of uc (a + of_nat i))) [0 ..< unat sz], uc\<lparr>address_spaces := ass\<rparr>)"
    using init sz area l(1) no_redirect [OF env] by (simp add: uc_mem_read_def)
  then show ?thesis using l(2) by blast
qed

section \<open>Changing one region\<close>

text \<open>A change of a region that keeps its place.\<close>

lemma ram_inv_upd:
  assumes r: "ram_inv uc" and p: "mr_store uc p = Some mr"
    and mr': "mr_ram mr' = mr_ram mr" "mr_ram_block mr' = mr_ram_block mr"
  shows "ram_inv (uc\<lparr>mr_store := (mr_store uc)(p \<mapsto> mr')\<rparr>)"
proof -
  let ?uc = "uc\<lparr>mr_store := (mr_store uc)(p \<mapsto> mr')\<rparr>"
  have fwd: "\<exists>m'. mr_store ?uc x = Some m' \<and> mr_ram m' = mr_ram m \<and> mr_ram_block m' = mr_ram_block m"
    if "mr_store uc x = Some m" for x m
    using that p mr' by (cases "x = p") auto
  have bwd: "\<exists>m. mr_store uc x = Some m \<and> mr_ram m = mr_ram m' \<and> mr_ram_block m = mr_ram_block m'"
    if "mr_store ?uc x = Some m'" for x m'
    using that p mr' by (cases "x = p") auto
  have "\<exists>b m. rb_store uc q = Some b \<and> rb_mr b \<in> set (mapped_blocks uc) \<and>
      mr_store ?uc (rb_mr b) = Some m \<and> mr_ram m \<and> mr_ram_block m = Some q" if q: "q \<in> set (ram_list uc)" for q
  proof -
    obtain b m where b: "rb_store uc q = Some b" "rb_mr b \<in> set (mapped_blocks uc)"
      "mr_store uc (rb_mr b) = Some m" "mr_ram m" "mr_ram_block m = Some q"
      using r q unfolding ram_inv_def by blast
    obtain m' where "mr_store ?uc (rb_mr b) = Some m'" "mr_ram m'" "mr_ram_block m' = Some q"
      using fwd [OF b(3)] b(4,5) by auto
    then show ?thesis using b(1,2) by blast
  qed
  moreover have "q \<in> set (ram_list uc) \<and> rb_mr (the (rb_store uc q)) = x"
    if x: "x \<in> set (mapped_blocks uc)" "mr_store ?uc x = Some m'" "mr_ram m'" "mr_ram_block m' = Some q" for x m' q
  proof -
    obtain m where "mr_store uc x = Some m" "mr_ram m" "mr_ram_block m = Some q" using bwd [OF x(2)] x(3,4) by auto
    then show ?thesis using r x(1) unfolding ram_inv_def by blast
  qed
  moreover have "finite (dom (mr_store ?uc))" using r by (simp add: ram_inv_def)
  ultimately show ?thesis using r unfolding ram_inv_def by simp
qed

lemma shape_upd:
  assumes inv: "shape_inv uc" and p: "p \<in> set (mapped_blocks uc)" "mr_store uc p = Some mr"
    and mr': "block_ok uc mr'" "mr_addr mr' = mr_addr mr" "mr_end mr' = mr_end mr" "mr_ram mr' = mr_ram mr"
      "mr_ram_block mr' = mr_ram_block mr"
  shows "shape_inv (uc\<lparr>mr_store := (mr_store uc)(p \<mapsto> mr')\<rparr>)"
proof -
  let ?uc = "uc\<lparr>mr_store := (mr_store uc)(p \<mapsto> mr')\<rparr>"
  have np: "system_memory uc \<noteq> p" "system_io uc \<noteq> p" using inv p(1) by (auto simp: shape_inv_def)
  have same: "map (\<lambda>m. (mr_addr m, mr_end m)) (blocks_of ?uc) = map (\<lambda>m. (mr_addr m, mr_end m)) (blocks_of uc)"
    using p(2) mr'(2,3) by (auto simp: blocks_of_def)
  have bs: "blocks_sorted ms \<longleftrightarrow>
      (\<forall>(s, e) \<in> set (map (\<lambda>m. (mr_addr m, mr_end m)) ms). s \<le> e - 1) \<and>
      sorted_wrt (\<lambda>(s, e) (s', e'). e - 1 < s') (map (\<lambda>m. (mr_addr m, mr_end m)) ms)" for ms
    by (auto simp: blocks_sorted_def mr_last_def sorted_wrt_map)
  have "blocks_sorted (blocks_of ?uc)"
    using inv unfolding bs same by (simp only: bs [symmetric] shape_inv_def table_inv_def)
  then have "table_inv ?uc" using inv by (simp add: shape_inv_def table_inv_def)
  moreover have "block_ok ?uc (the (mr_store ?uc q))" if "q \<in> set (mapped_blocks uc)" for q
    using inv that mr'(1) by (auto simp: shape_inv_def block_ok_def)
  moreover have "sys_root ?uc" "io_root (mr_store ?uc) (system_io uc)"
    using inv np by (simp_all add: shape_inv_def sys_root_def io_root_def)
  moreover have "ram_inv ?uc"
    by (rule ram_inv_upd [OF _ p(2) mr'(4,5)]) (use inv in \<open>simp add: shape_inv_def\<close>)
  ultimately show ?thesis using inv by (simp add: shape_inv_def)
qed

lemma set_readonly_inv:
  assumes inv: "mem_inv uc" and p: "p \<in> set (mapped_blocks uc)" "mr_store uc p = Some mr"
    and ro: "mr_ram mr \<Longrightarrow> readonly \<Longrightarrow> mr_perms mr AND UC_PROT_WRITE = 0"
  shows "\<exists>ass gen cpu. memory_region_set_readonly env p readonly uc =
      Some (uc\<lparr>mr_store := (mr_store uc)(p \<mapsto> mr\<lparr>mr_readonly := readonly\<rparr>),
        address_spaces := ass, flat_view_gen := gen, uc_cpu := cpu\<rparr>) \<and>
    mem_inv (uc\<lparr>mr_store := (mr_store uc)(p \<mapsto> mr\<lparr>mr_readonly := readonly\<rparr>),
        address_spaces := ass, flat_view_gen := gen, uc_cpu := cpu\<rparr>)"
proof (cases "mr_readonly mr = readonly")
  case True
  have "mr\<lparr>mr_readonly := readonly\<rparr> = mr" using True by auto
  then have id: "uc\<lparr>mr_store := (mr_store uc)(p \<mapsto> mr\<lparr>mr_readonly := readonly\<rparr>),
      address_spaces := address_spaces uc, flat_view_gen := flat_view_gen uc, uc_cpu := uc_cpu uc\<rparr> = uc"
    using p(2) by (simp add: fun_upd_idem)
  have "memory_region_set_readonly env p readonly uc = Some uc"
    using True p(2) by (simp add: memory_region_set_readonly_def)
  then show ?thesis using inv id by metis
next
  case False
  let ?mr = "mr\<lparr>mr_readonly := readonly\<rparr>"
  have sh: "shape_inv uc" using inv by (rule mem_inv_shape)
  have bo: "block_ok uc mr" using shape_block [OF sh p(1)] p(2) by (metis option.inject)
  have bo': "block_ok uc ?mr" using bo ro by (auto simp: block_ok_def leaf_region_def)
  define uc1 where "uc1 = uc\<lparr>mr_store := (mr_store uc)(p \<mapsto> ?mr), memory_region_update_pending := True\<rparr>"
  have "shape_inv uc1"
    using shape_upd [OF sh p bo'] unfolding uc1_def
    by (simp add: shape_inv_def sys_root_def table_inv_def blocks_of_def block_ok_def ram_inv_def)
  then obtain ass cpu where c: "memory_region_transaction_commit env uc1 =
      Some (uc1\<lparr>address_spaces := ass, flat_view_gen := Suc (flat_view_gen uc1),
        memory_region_update_pending := False, uc_cpu := cpu\<rparr>)"
    "mem_inv (uc1\<lparr>address_spaces := ass, flat_view_gen := Suc (flat_view_gen uc1),
        memory_region_update_pending := False, uc_cpu := cpu\<rparr>)"
    using commit_mem_inv [of uc1 env] by (auto simp: uc1_def)
  have np: "\<not> memory_region_update_pending uc" using inv by (simp add: mem_inv_def)
  have eq: "uc1\<lparr>address_spaces := ass, flat_view_gen := Suc (flat_view_gen uc1),
        memory_region_update_pending := False, uc_cpu := cpu\<rparr> =
      uc\<lparr>mr_store := (mr_store uc)(p \<mapsto> ?mr), address_spaces := ass,
        flat_view_gen := Suc (flat_view_gen uc), uc_cpu := cpu\<rparr>"
    using np by (simp add: uc1_def)
  have "mr_enabled mr" using bo by (simp add: block_ok_def leaf_region_def)
  then have "memory_region_set_readonly env p readonly uc = memory_region_transaction_commit env uc1"
    using False p(2) by (simp add: memory_region_set_readonly_def upd_mr_def uc1_def)
  then show ?thesis using c unfolding eq by auto
qed

section \<open>Writing\<close>

definition overwrite :: "(u64 \<rightharpoonup> u8) \<Rightarrow> u64 \<Rightarrow> u8 list \<Rightarrow> u64 \<rightharpoonup> u8" where
  "overwrite m a bs = (\<lambda>x. if unat (x - a) < length bs then Some (bs ! unat (x - a)) else m x)"

text \<open>Different regions of RAM have different host memory; a client can break this with \<^verbatim>\<open>uc_mem_map_ptr\<close>.\<close>

definition no_alias :: "'c uc_struct \<Rightarrow> bool" where
  "no_alias uc \<longleftrightarrow>
    (\<forall>p \<in> set (mapped_blocks uc). \<forall>q \<in> set (mapped_blocks uc). p \<noteq> q \<longrightarrow>
       (let mr = the (mr_store uc p); mr' = the (mr_store uc q) in
        mr_ram mr \<longrightarrow> mr_ram mr' \<longrightarrow>
        ram_host uc mr + nat (mr_size mr) \<le> ram_host uc mr' \<or> ram_host uc mr' + nat (mr_size mr') \<le> ram_host uc mr))"

lemma uint_minus_wrap: "x < y \<Longrightarrow> uint (x - y) = uint x - uint y + 2 ^ 64" for x y :: u64
  by (simp add: uint_sub_if' word_less_def)

lemma overwrite_append:
  assumes "length bs + length cs \<le> 2 ^ 64"
  shows "overwrite (overwrite m a bs) (a + of_nat (length bs)) cs = overwrite m a (bs @ cs)"
proof
  fix x
  let ?i = "unat (x - a)" and ?j = "unat (x - (a + of_nat (length bs)))" and ?k = "length bs"
  have sub: "x - (a + of_nat ?k) = (x - a) - of_nat ?k" by simp
  show "overwrite (overwrite m a bs) (a + of_nat ?k) cs x = overwrite m a (bs @ cs) x"
  proof (cases "?k \<le> ?i")
    case True
    then have "?k < 2 ^ 64" using unat64_lt [of "x - a"] by linarith
    then have uk: "unat (of_nat ?k :: u64) = ?k" by (simp add: unat_of_nat)
    have "of_nat ?k \<le> x - a" using True uk by (simp add: word_le_nat_alt)
    then have "?j = ?i - ?k" unfolding sub using uk by (simp add: unat_sub)
    then show ?thesis using True by (auto simp: overwrite_def nth_append)
  next
    case False
    show ?thesis
    proof (cases "cs = []")
      case True
      then show ?thesis by (simp add: overwrite_def)
    next
      case cs: False
      then have k: "?k < 2 ^ 64" using assms by (cases cs) auto
      have uk: "uint (of_nat ?k :: u64) = int ?k" using k by (simp add: uint_nat unat_of_nat)
      have "uint (x - a) < int ?k" using False by (simp only: uint_nat of_nat_less_iff not_le)
      then have "x - a < of_nat ?k" by (simp only: word_less_def uk)
      then have "int ?j = int ?i - int ?k + 2 ^ 64"
        unfolding sub uint_nat [symmetric] by (simp only: uint_minus_wrap uk)
      moreover have "int (length bs + length cs) \<le> int (2 ^ 64)" using assms by (simp only: of_nat_le_iff)
      then have "int (length bs) + int (length cs) \<le> 2 ^ 64" by (simp only: of_nat_add of_nat_power of_nat_numeral)
      ultimately have "length cs \<le> ?j" by linarith
      then show ?thesis using False by (simp add: overwrite_def nth_append)
    qed
  qed
qed

lemma host_write_sel [simp]:
  "mapped_blocks (host_write h bs uc) = mapped_blocks uc" "mr_store (host_write h bs uc) = mr_store uc"
  "rb_store (host_write h bs uc) = rb_store uc" "ram_host (host_write h bs uc) mr = ram_host uc mr"
  "host_mem (host_write h bs uc) x = (if h \<le> x \<and> x < h + length bs then bs ! (x - h) else host_mem uc x)"
  by (simp_all add: host_write_def ram_host_def)

lemma mem_inv_host_write [simp]: "mem_inv (host_write h bs uc) = mem_inv uc"
  by (simp add: host_write_def mem_inv_def shape_inv_def sys_root_def table_inv_def blocks_of_def block_ok_def ram_inv_def
      view_inv_def sys_children_def)

text \<open>The offset of a byte of the area from its start.\<close>

lemma region_distance:
  assumes bo: "block_ok uc mr" and c: "mr_covers mr a" "mr_covers mr x" and n: "n \<le> unat (mr_end mr - a)"
  shows "unat (x - a) < n \<longleftrightarrow> unat (a - mr_addr mr) \<le> unat (x - mr_addr mr) \<and>
      unat (x - mr_addr mr) < unat (a - mr_addr mr) + n"
    and "unat (a - mr_addr mr) \<le> unat (x - mr_addr mr) \<Longrightarrow>
      unat (x - a) = unat (x - mr_addr mr) - unat (a - mr_addr mr)"
proof -
  let ?s = "mr_addr mr"
  note g = block_geometry [OF block_ok_geometry [OF bo, THEN conjunct1] block_ok_geometry [OF bo, THEN conjunct2]]
  have size: "mr_size mr < 2 ^ 64" using bo by (simp add: block_ok_def leaf_region_def)
  have off: "int (unat (a - ?s)) = uint a - uint ?s" "int (unat (x - ?s)) = uint x - uint ?s"
    using g(4) [OF c(1)] g(4) [OF c(2)] by (simp_all add: uint_nat [symmetric])
  have e: "int (unat (mr_end mr - a)) = uint ?s + mr_size mr - uint a"
    using g(3) [OF c(1)] by (simp add: uint_nat [symmetric])
  have up: "int (unat (x - a)) = uint x - uint a" if "a \<le> x"
    using uint_minus_le [OF that] by (simp add: uint_nat [symmetric])
  have down: "n \<le> unat (x - a)" if "\<not> a \<le> x"
  proof -
    have "int (unat (x - a)) = uint x - uint a + 2 ^ 64"
      using uint_minus_wrap [of x a] that by (simp only: uint_nat [symmetric] not_le)
    then show ?thesis using n e size g(2) [of x] c(2) by linarith
  qed
  have ge: "a \<le> x \<longleftrightarrow> unat (a - ?s) \<le> unat (x - ?s)" unfolding word_le_def using off by linarith
  show "unat (x - a) < n \<longleftrightarrow> unat (a - ?s) \<le> unat (x - ?s) \<and> unat (x - ?s) < unat (a - ?s) + n"
  proof (cases "a \<le> x")
    case True
    then show ?thesis using up [OF True] off ge by linarith
  next
    case False
    then show ?thesis using down ge by linarith
  qed
  show "unat (x - a) = unat (x - ?s) - unat (a - ?s)" if "unat (a - ?s) \<le> unat (x - ?s)"
    using that up ge off by linarith
qed

lemma ram_of_host_write:
  assumes inv: "shape_inv uc" and na: "no_alias uc"
    and p: "p \<in> set (mapped_blocks uc)" "mr_store uc p = Some mr" "mr_covers mr a" "mr_ram mr"
    and n: "length bs \<le> unat (mr_end mr - a)"
  shows "ram_of (host_write (ram_host uc mr + unat (a - mr_addr mr)) bs uc) = overwrite (ram_of uc) a bs"
proof
  fix x
  let ?h = "ram_host uc mr + unat (a - mr_addr mr)"
  let ?uc = "host_write ?h bs uc"
  have bo: "block_ok uc mr" using shape_block [OF inv p(1)] p(2) by (metis option.inject)
  have sh': "shape_inv ?uc"
    using inv by (simp add: host_write_def shape_inv_def sys_root_def table_inv_def blocks_of_def block_ok_def ram_inv_def)
  have far: "\<not> unat (x - a) < length bs" if "\<not> mr_covers mr x"
  proof
    assume lt: "unat (x - a) < length bs"
    have "of_nat (unat (x - a)) < mr_end mr - a" using lt n by (simp add: word_less_nat_alt)
    from region_offset(1) [OF bo p(3) this unat64_lt] that show False by simp
  qed
  show "ram_of ?uc x = overwrite (ram_of uc) a bs x"
  proof (cases "mr_covers mr x")
    case True
    note d = region_distance [OF bo p(3) True n]
    have "ram_of ?uc x = Some (host_mem ?uc (ram_host uc mr + unat (x - mr_addr mr)))"
      using ram_of_region [OF sh', of p mr x] p True by simp
    moreover have "ram_of uc x = Some (host_mem uc (ram_host uc mr + unat (x - mr_addr mr)))"
      using ram_of_region [OF inv p(1,2) True] p(4) by simp
    ultimately show ?thesis using d by (auto simp: overwrite_def)
  next
    case False
    have "ram_of ?uc x = ram_of uc x"
    proof (cases "ram_of uc x")
      case None
      then show ?thesis by (auto simp: ram_of_def Let_def split: option.splits if_splits)
    next
      case (Some b)
      obtain q mr' where q: "q \<in> set (mapped_blocks uc)" "mr_store uc q = Some mr'" "block_ok uc mr'"
        "mr_covers mr' x" "mr_ram mr'" by (rule ram_of_Some [OF inv Some])
      have pq: "p \<noteq> q" using False q(2,4) p(2) by auto
      note g = block_geometry [OF block_ok_geometry [OF bo, THEN conjunct1] block_ok_geometry [OF bo, THEN conjunct2]]
      note g' = block_geometry [OF block_ok_geometry [OF q(3), THEN conjunct1] block_ok_geometry [OF q(3), THEN conjunct2]]
      have "int (unat (x - mr_addr mr')) < mr_size mr'"
        using g'(4) [OF q(4)] g'(2) [of x, THEN iffD1, OF q(4)] by (simp only: uint_nat [symmetric]) linarith
      moreover have "int (unat (a - mr_addr mr)) + int (length bs) \<le> mr_size mr"
        using g(3,4) [OF p(3)] n unfolding uint_nat by linarith
      moreover have "ram_host uc mr + nat (mr_size mr) \<le> ram_host uc mr' \<or>
          ram_host uc mr' + nat (mr_size mr') \<le> ram_host uc mr"
        using na p q pq by (fastforce simp: no_alias_def Let_def)
      ultimately have "\<not> (?h \<le> ram_host uc mr' + unat (x - mr_addr mr') \<and>
          ram_host uc mr' + unat (x - mr_addr mr') < ?h + length bs)" by linarith
      then have "host_mem ?uc (ram_host uc mr' + unat (x - mr_addr mr')) =
          host_mem uc (ram_host uc mr' + unat (x - mr_addr mr'))" by (simp only: host_write_sel if_False)
      then show ?thesis
        using ram_of_region [OF inv q(1,2,4)] ram_of_region [OF sh', of q mr' x] q by simp
    qed
    then show ?thesis using far [OF False] by (simp add: overwrite_def)
  qed
qed

lemma phys_write:
  assumes inv: "mem_inv uc" and p: "p \<in> set (mapped_blocks uc)" "mr_store uc p = Some mr" "mr_covers mr a"
    and ram: "mr_ram mr" "\<not> mr_readonly mr" and len: "0 < len" "len \<le> mr_end mr - a" "len \<le> INT_MAX"
  shows "\<exists>ass. cpu_physical_mem_write env a buf (ucast len) uc =
      Some (True, host_write (ram_host uc mr + unat (a - mr_addr mr)) (take (unat len) buf)
        (uc\<lparr>address_spaces := ass\<rparr>)) \<and> mem_inv (uc\<lparr>address_spaces := ass\<rparr>)"
proof -
  have sh: "shape_inv uc" using inv by (rule mem_inv_shape)
  have bo: "block_ok uc mr" using shape_block [OF sh p(1)] p(2) by (metis option.inject)
  obtain ass where t: "flatview_translate (flat_view_gen uc) a len uc =
      Some (SecRegion p, a - mr_addr mr, len, uc\<lparr>address_spaces := ass\<rparr>)" "mem_inv (uc\<lparr>address_spaces := ass\<rparr>)"
    using translate_region [OF inv p, of len] ram(1) len(2) by (auto simp: min_absorb2)
  let ?uc = "uc\<lparr>address_spaces := ass\<rparr>" and ?off = "a - mr_addr mr"
  have bo': "block_ok ?uc mr" using bo by (simp add: block_ok_def)
  have "qemu_ram_ptr_length (mr_ram_block mr) ?off len ?uc = Some (ram_host uc mr + unat ?off, len, ?uc)"
    using ram_ptr [OF bo' ram(1) p(3) len(1,2)] by (simp add: ram_host_def)
  then have wp: "write_piece env (SecRegion p) ?off len buf ?uc =
      Some (MEMTX_OK, len, host_write (ram_host uc mr + unat ?off) (take (unat len) buf) ?uc)"
    using p(2) ram by (simp add: write_piece_def section_region_def memory_access_is_direct_def)
  have "flatview_write env a buf len uc =
      Some (MEMTX_OK, host_write (ram_host uc mr + unat ?off) (take (unat len) buf) ?uc)"
    using t(1) wp by (simp add: flatview_write_def flatview_write_continue.simps Let_def)
  then have "cpu_physical_mem_write env a buf (ucast len) uc =
      Some (True, host_write (ram_host uc mr + unat ?off) (take (unat len) buf) ?uc)"
    using len(1) by (simp add: cpu_physical_mem_write_def address_space_write_def scast_ucast_int [OF len(3)])
  then show ?thesis using t(2) by blast
qed

text \<open>What a write leaves alone: everything of a region but its read-only flag.\<close>

definition ram_setup where
  "ram_setup uc = (ram_list uc, target_page_bits uc, qemu_host_page_size uc, invalid_error uc)"

definition write_frame :: "'c uc_struct \<Rightarrow> 'c uc_struct \<Rightarrow> bool" where
  "write_frame uc uc' \<longleftrightarrow> ram_setup uc' = ram_setup uc \<and> mapped_blocks uc' = mapped_blocks uc \<and> rb_store uc' = rb_store uc \<and>
    (\<forall>p \<in> set (mapped_blocks uc). \<exists>ro. the (mr_store uc' p) = (the (mr_store uc p))\<lparr>mr_readonly := ro\<rparr>)"

lemma write_frame_refl: "write_frame uc uc"
proof -
  have "\<exists>ro. mr = mr\<lparr>mr_readonly := ro\<rparr>" for mr :: MemoryRegion
    by (intro exI [of _ "mr_readonly mr"]) simp
  then show ?thesis by (simp add: write_frame_def)
qed

lemma write_frame_trans: "write_frame uc uc1 \<Longrightarrow> write_frame uc1 uc2 \<Longrightarrow> write_frame uc uc2"
  unfolding write_frame_def by fastforce

lemma write_frame_host_write: "write_frame uc (host_write h bs (uc\<lparr>address_spaces := ass\<rparr>))"
  using write_frame_refl [of uc] by (simp add: write_frame_def ram_setup_def host_write_def)

lemma write_frame_sel:
  assumes "write_frame uc uc'" "p \<in> set (mapped_blocks uc)"
  shows "mr_addr (the (mr_store uc' p)) = mr_addr (the (mr_store uc p))"
    "mr_end (the (mr_store uc' p)) = mr_end (the (mr_store uc p))"
    "mr_size (the (mr_store uc' p)) = mr_size (the (mr_store uc p))"
    "mr_ram (the (mr_store uc' p)) = mr_ram (the (mr_store uc p))"
    "mr_perms (the (mr_store uc' p)) = mr_perms (the (mr_store uc p))"
    "mr_ram_block (the (mr_store uc' p)) = mr_ram_block (the (mr_store uc p))"
proof -
  obtain ro where "the (mr_store uc' p) = (the (mr_store uc p))\<lparr>mr_readonly := ro\<rparr>"
    using assms by (auto simp: write_frame_def)
  then show "mr_addr (the (mr_store uc' p)) = mr_addr (the (mr_store uc p))"
    "mr_end (the (mr_store uc' p)) = mr_end (the (mr_store uc p))"
    "mr_size (the (mr_store uc' p)) = mr_size (the (mr_store uc p))"
    "mr_ram (the (mr_store uc' p)) = mr_ram (the (mr_store uc p))"
    "mr_perms (the (mr_store uc' p)) = mr_perms (the (mr_store uc p))"
    "mr_ram_block (the (mr_store uc' p)) = mr_ram_block (the (mr_store uc p))" by simp_all
qed

lemma write_frame_no_alias: "write_frame uc uc' \<Longrightarrow> no_alias uc \<Longrightarrow> no_alias uc'"
  using write_frame_sel [of uc uc'] by (simp add: no_alias_def Let_def ram_host_def write_frame_def)

lemma write_frame_mapped: "write_frame uc uc' \<Longrightarrow> mapped uc' a = mapped uc a"
  using write_frame_sel [of uc uc'] by (simp add: mapped_def blocks_of_def mr_covers_def mr_last_def write_frame_def)

lemma toggle_readonly:
  assumes inv: "mem_inv uc" and p: "p \<in> set (mapped_blocks uc)" "mr_store uc p = Some mr"
    and ro: "mr_ram mr \<Longrightarrow> readonly \<Longrightarrow> mr_perms mr AND UC_PROT_WRITE = 0"
  shows "\<exists>uc'. memory_region_set_readonly env p readonly uc = Some uc' \<and> mem_inv uc' \<and> write_frame uc uc' \<and>
    ram_of uc' = ram_of uc \<and> mr_store uc' p = Some (mr\<lparr>mr_readonly := readonly\<rparr>) \<and>
    mapped_blocks uc' = mapped_blocks uc \<and> ram_host uc' mr = ram_host uc mr"
proof -
  obtain ass gen cpu where s: "memory_region_set_readonly env p readonly uc =
      Some (uc\<lparr>mr_store := (mr_store uc)(p \<mapsto> mr\<lparr>mr_readonly := readonly\<rparr>),
        address_spaces := ass, flat_view_gen := gen, uc_cpu := cpu\<rparr>)"
    and i: "mem_inv (uc\<lparr>mr_store := (mr_store uc)(p \<mapsto> mr\<lparr>mr_readonly := readonly\<rparr>),
        address_spaces := ass, flat_view_gen := gen, uc_cpu := cpu\<rparr>)"
    using set_readonly_inv [OF inv p ro] by blast
  let ?uc = "uc\<lparr>mr_store := (mr_store uc)(p \<mapsto> mr\<lparr>mr_readonly := readonly\<rparr>),
        address_spaces := ass, flat_view_gen := gen, uc_cpu := cpu\<rparr>"
  have "write_frame uc ?uc"
    using p write_frame_refl [of uc] by (auto simp: write_frame_def ram_setup_def)
  moreover have "ram_of ?uc = ram_of uc" by (rule ram_of_cong) (use p in auto)
  ultimately show ?thesis using s i by (simp add: ram_host_def)
qed

lemma write_step:
  assumes inv: "mem_inv uc" and na: "no_alias uc"
    and p: "p \<in> set (mapped_blocks uc)" "mr_store uc p = Some mr" "mr_covers mr a" "mr_ram mr"
    and len: "0 < len" "len \<le> mr_end mr - a" "len \<le> INT_MAX" "unat len \<le> length buf"
  shows "\<exists>uc1 uc2 uc3.
    (if mr_perms mr AND UC_PROT_WRITE = 0 then memory_region_set_readonly env p False uc else Some uc) = Some uc1 \<and>
    cpu_physical_mem_write env a buf (ucast len) uc1 = Some (True, uc2) \<and>
    (if mr_perms mr AND UC_PROT_WRITE = 0 then memory_region_set_readonly env p True uc2 else Some uc2) = Some uc3 \<and>
    mem_inv uc3 \<and> write_frame uc uc3 \<and> ram_of uc3 = overwrite (ram_of uc) a (take (unat len) buf)"
proof -
  let ?P = "mr_perms mr AND UC_PROT_WRITE = 0" and ?mr = "mr\<lparr>mr_readonly := False\<rparr>"
  have sh: "shape_inv uc" using inv by (rule mem_inv_shape)
  have bo: "block_ok uc mr" using shape_block [OF sh p(1)] p(2) by (metis option.inject)
  have "\<exists>uc1. (if ?P then memory_region_set_readonly env p False uc else Some uc) = Some uc1 \<and> mem_inv uc1 \<and>
      write_frame uc uc1 \<and> ram_of uc1 = ram_of uc \<and> mr_store uc1 p = Some ?mr \<and>
      mapped_blocks uc1 = mapped_blocks uc \<and> ram_host uc1 mr = ram_host uc mr"
  proof (cases ?P)
    case True
    then show ?thesis using toggle_readonly [OF inv p(1,2), of False env] by simp
  next
    case False
    then have "\<not> mr_readonly mr" using bo p(4) by (auto simp: block_ok_def)
    then have "?mr = mr" by simp
    then show ?thesis using False inv p(2) by (simp add: write_frame_refl)
  qed
  then obtain uc1 where u1: "(if ?P then memory_region_set_readonly env p False uc else Some uc) = Some uc1"
    "mem_inv uc1" "write_frame uc uc1" "ram_of uc1 = ram_of uc" "mr_store uc1 p = Some ?mr"
    "mapped_blocks uc1 = mapped_blocks uc" "ram_host uc1 mr = ram_host uc mr" by blast
  have p1: "p \<in> set (mapped_blocks uc1)" "mr_covers ?mr a" "mr_ram ?mr" "\<not> mr_readonly ?mr"
    using p u1(6) by (simp_all add: mr_covers_def mr_last_def)
  obtain ass where w: "cpu_physical_mem_write env a buf (ucast len) uc1 =
      Some (True, host_write (ram_host uc1 ?mr + unat (a - mr_addr ?mr)) (take (unat len) buf)
        (uc1\<lparr>address_spaces := ass\<rparr>))" "mem_inv (uc1\<lparr>address_spaces := ass\<rparr>)"
    using phys_write [OF u1(2) p1(1) u1(5) p1(2-4), of len env buf] len by auto
  define v where "v = uc1\<lparr>address_spaces := ass\<rparr>"
  define uc2 where "uc2 = host_write (ram_host uc1 ?mr + unat (a - mr_addr ?mr)) (take (unat len) buf) v"
  have inv2: "mem_inv uc2" using w(2) by (simp add: uc2_def v_def)
  have frame2: "write_frame uc uc2"
    using write_frame_trans [OF u1(3) write_frame_host_write] by (simp add: uc2_def v_def)
  have "unat len \<le> unat (mr_end mr - a)" using len(2) by (simp add: word_le_nat_alt)
  then have n: "length (take (unat len) buf) \<le> unat (mr_end ?mr - a)" by simp
  have v: "shape_inv v" "no_alias v" "p \<in> set (mapped_blocks v)" "mr_store v p = Some ?mr"
    using w(2) write_frame_no_alias [OF u1(3) na] p1(1) u1(5)
    by (simp_all add: v_def mem_inv_shape no_alias_def ram_host_def)
  have ram2: "ram_of uc2 = overwrite (ram_of uc) a (take (unat len) buf)"
    using ram_of_host_write [OF v p1(2,3) n] u1(4) by (simp add: uc2_def v_def ram_host_def)
  have st2: "mr_store uc2 p = Some ?mr" "p \<in> set (mapped_blocks uc2)" using u1(5) p1(1) by (simp_all add: uc2_def v_def)
  have "\<exists>uc3. (if ?P then memory_region_set_readonly env p True uc2 else Some uc2) = Some uc3 \<and> mem_inv uc3 \<and>
      write_frame uc uc3 \<and> ram_of uc3 = overwrite (ram_of uc) a (take (unat len) buf)"
  proof (cases ?P)
    case True
    then obtain uc3 where "memory_region_set_readonly env p True uc2 = Some uc3" "mem_inv uc3" "write_frame uc2 uc3"
      "ram_of uc3 = ram_of uc2"
      using toggle_readonly [OF inv2 st2(2,1), of True env] by auto
    then show ?thesis using True ram2 write_frame_trans [OF frame2] by auto
  next
    case False
    then show ?thesis using inv2 frame2 ram2 by simp
  qed
  with u1(1) w(1) show ?thesis unfolding uc2_def v_def by blast
qed

lemma uc_mem_write_loop_ram:
  assumes "mem_inv uc" "no_alias uc" and env: "env_mem_redirect env = None" and "count \<le> sz" and sz: "sz \<le> INT_MAX"
    and "\<forall>i < unat (sz - count). ram_of uc (a + of_nat i) \<noteq> None" and "unat (sz - count) \<le> length buf"
  shows "\<exists>uc'. uc_mem_write_loop env a buf sz count uc = Some (sz, uc') \<and> mem_inv uc' \<and> write_frame uc uc' \<and>
    ram_of uc' = overwrite (ram_of uc) a (take (unat (sz - count)) buf)"
  using assms(1,2,4,6,7)
proof (induction "unat (sz - count)" arbitrary: a count buf uc rule: less_induct)
  case less
  note inv = less.prems(1) and na = less.prems(2)
  have sh: "shape_inv uc" using inv by (rule mem_inv_shape)
  show ?case
  proof (cases "count < sz")
    case False
    then have "count = sz" using less.prems(3) by simp
    then have "uc_mem_write_loop env a buf sz count uc = Some (sz, uc)"
      by (subst uc_mem_write_loop.simps) simp
    then show ?thesis using inv \<open>count = sz\<close> by (simp add: write_frame_refl overwrite_def)
  next
    case True
    then have "0 < unat (sz - count)"
      using unat_sub [OF less.prems(3)] by (simp add: word_less_nat_alt)
    then obtain b where b: "ram_of uc a = Some b" using less.prems(4) by fastforce
    obtain p mr where p: "memory_mapping env uc a = Some (Some p)" "p \<in> set (mapped_blocks uc)"
      "mr_store uc p = Some mr" "block_ok uc mr" "mr_covers mr a"
      by (rule mapping_region [OF sh env ram_of_mapped [OF sh b]])
    have ram: "mr_ram mr" using ram_of_region [OF sh p(2,3,5)] b by (simp split: if_splits)
    define len where "len = min (sz - count) (mr_end mr - a)"
    note ch = chunk [OF p(4,5) True, folded len_def]
    obtain uc1 uc2 uc3 where
      st: "(if mr_perms mr AND UC_PROT_WRITE = 0 then memory_region_set_readonly env p False uc else Some uc) = Some uc1"
        "cpu_physical_mem_write env a buf (ucast len) uc1 = Some (True, uc2)"
        "(if mr_perms mr AND UC_PROT_WRITE = 0 then memory_region_set_readonly env p True uc2 else Some uc2) = Some uc3"
      and r: "mem_inv uc3" "write_frame uc uc3" "ram_of uc3 = overwrite (ram_of uc) a (take (unat len) buf)"
      using write_step [OF inv na p(2,3,5) ram ch(1,2) order_trans [OF ch(3) sz], of buf env]
        order_trans [OF ch(5) less.prems(5)] by blast
    have split: "\<forall>i < unat (sz - count) - unat len. ram_of uc3 (a + len + of_nat i) \<noteq> None"
      using less.prems(4) all_chunks [OF ch(5), of "\<lambda>x. ram_of uc x \<noteq> None" a] by (simp add: r(3) overwrite_def)
    have buf: "unat (sz - count) - unat len \<le> length (drop (unat len) buf)" using less.prems(5) by simp
    obtain uc' where l: "uc_mem_write_loop env (a + len) (drop (unat len) buf) sz (count + len) uc3 = Some (sz, uc')"
      "mem_inv uc'" "write_frame uc3 uc'"
      "ram_of uc' = overwrite (ram_of uc3) (a + len) (take (unat (sz - count) - unat len) (drop (unat len) buf))"
      using less.hyps [OF ch(7) r(1) write_frame_no_alias [OF r(2) na] ch(4), of "a + len" "drop (unat len) buf"]
        split buf unfolding ch(6) by blast
    have "uc_mem_write_loop env a buf sz count uc = Some (sz, uc')"
      using True p(1,3) st l(1)
      by (subst uc_mem_write_loop.simps) (simp add: len_def [symmetric] Let_def split del: if_split)
    moreover have "ram_of uc' = overwrite (ram_of uc) a (take (unat (sz - count)) buf)"
    proof -
      let ?bs = "take (unat len) buf" and ?cs = "take (unat (sz - count) - unat len) (drop (unat len) buf)"
      have lb: "length ?bs = unat len" using ch(5) less.prems(5) by simp
      have "length ?bs + length ?cs \<le> unat (sz - count)" using lb ch(5) by simp
      then have "length ?bs + length ?cs \<le> 2 ^ 64" using unat64_lt [of "sz - count"] by linarith
      from overwrite_append [OF this, of "ram_of uc" a]
      have "overwrite (overwrite (ram_of uc) a ?bs) (a + len) ?cs = overwrite (ram_of uc) a (?bs @ ?cs)"
        by (simp only: lb) simp
      moreover have "?bs @ ?cs = take (unat (sz - count)) buf"
        using ch(5) by (metis le_add_diff_inverse take_add)
      ultimately show ?thesis using l(4) r(3) by simp
    qed
    ultimately show ?thesis using l(2) write_frame_trans [OF r(2) l(3)] by blast
  qed
qed

lemma uc_mem_write_ram:
  assumes inv: "mem_inv uc" "no_alias uc" and env: "env_mem_redirect env = None" and sz: "sz \<le> INT_MAX"
    and ram: "\<forall>i < unat sz. ram_of uc (a + of_nat i) \<noteq> None" and buf: "length buf = unat sz"
  shows "\<exists>uc'. uc_mem_write env a buf sz uc = Some (UC_ERR_OK, uc') \<and> mem_inv uc' \<and> write_frame uc uc' \<and>
    ram_of uc' = overwrite (ram_of uc) a buf"
proof -
  have sh: "shape_inv uc" using inv(1) by (rule mem_inv_shape)
  then have init: "uc_init_done uc" by (simp add: shape_inv_def)
  have "\<forall>i < unat sz. mapped uc (a + of_nat i)" using ram ram_of_unmapped by blast
  then have area: "check_mem_area env uc a sz = Some True" using check_mem_area_exact [OF sh env] by simp
  obtain uc' where l: "uc_mem_write_loop env a buf sz 0 uc = Some (sz, uc')" "mem_inv uc'" "write_frame uc uc'"
    "ram_of uc' = overwrite (ram_of uc) a buf"
    using uc_mem_write_loop_ram [OF inv env _ sz, of 0 a buf] ram buf by auto
  have "uc_mem_write env a buf sz uc = Some (UC_ERR_OK, uc')"
    using init sz area l(1) no_redirect [OF env] by (simp add: uc_mem_write_def)
  then show ?thesis using l(2-4) by blast
qed

section \<open>Properties\<close>

text \<open>An engine with one region of RAM, as \<^verbatim>\<open>uc_mem_map\<close> leaves it before its commit.\<close>

definition demo_shape :: "unit uc_struct" where
  "demo_shape = uc_zero\<lparr>uc_init_done := True, target_page_bits := 12, target_page_align := 4095,
     system_memory := 1, system_io := 2, mapped_blocks := [3], mapped_blocks_memory := TableLive,
     mr_store := [1 \<mapsto> (memory_region_init (-1))\<lparr>mr_subregions := [3]\<rparr>,
       2 \<mapsto> memory_region_init_io (Some unassigned_io_ops) None 65536,
       3 \<mapsto> (memory_region_init 8192)\<lparr>mr_ram := True, mr_terminates := True, mr_addr := 4096, mr_end := 12288,
         mr_container := Some 1, mr_ram_block := Some 5, mr_perms := 7\<rparr>],
     rb_store := [5 \<mapsto> \<lparr>rb_mr = 3, rb_host = Some 1000, rb_offset = 0, rb_used_length = 8192,
       rb_max_length = 8192, rb_flags = 0, rb_page_size = 4096\<rparr>],
     ram_list := [5],
     address_spaces := [\<lparr>as_root = Some 1, as_current_map = None\<rparr>, \<lparr>as_root = Some 2, as_current_map = None\<rparr>],
     memory_region_update_pending := True\<rparr>"

lemma demo_shape_inv: "shape_inv demo_shape"
proof -
  have m: "(4095 :: u32) = mask 12" by (simp add: mask_eq_decr_exp)
  show ?thesis
    by (simp add: shape_inv_def demo_shape_def uc_zero_def sys_root_def io_root_def table_inv_def blocks_of_def
        blocks_sorted_def block_ok_def ram_inv_def leaf_region_def memory_region_init_def memory_region_init_io_def
        mr_zero_def mr_last_def m UC_PROT_WRITE_def)
qed

lemma demo_engine:
  "\<exists>uc :: unit uc_struct. mem_inv uc \<and> no_alias uc \<and> (\<forall>a. ram_of uc a = (if 4096 \<le> a \<and> a \<le> 12287 then Some 0 else None))"
proof -
  obtain ass cpu where i: "mem_inv (demo_shape\<lparr>address_spaces := ass, flat_view_gen := Suc (flat_view_gen demo_shape),
      memory_region_update_pending := False, uc_cpu := cpu\<rparr>)"
    using commit_mem_inv [OF demo_shape_inv, of plain_env] by (auto simp: demo_shape_def)
  moreover have "no_alias (demo_shape\<lparr>address_spaces := ass, flat_view_gen := Suc (flat_view_gen demo_shape),
      memory_region_update_pending := False, uc_cpu := cpu\<rparr>)" by (simp add: no_alias_def demo_shape_def)
  moreover have "ram_of (demo_shape\<lparr>address_spaces := ass, flat_view_gen := Suc (flat_view_gen demo_shape),
      memory_region_update_pending := False, uc_cpu := cpu\<rparr>) a = (if 4096 \<le> a \<and> a \<le> 12287 then Some 0 else None)" for a
    by (simp add: ram_of_def demo_shape_def uc_zero_def mr_covers_def mr_last_def)
  ultimately show ?thesis by blast
qed

lemma demo_area:
  fixes a sz :: u64
  assumes ram: "\<forall>a. ram_of uc a = (if 4096 \<le> a \<and> a \<le> 12287 then Some 0 else None)"
    and a: "4096 \<le> unat a" "unat a + unat sz \<le> 12288"
  shows "\<forall>i < unat sz. ram_of uc (a + of_nat i) = Some 0"
proof (intro allI impI)
  fix i assume i: "i < unat sz"
  then have "unat (a + of_nat i) = unat a + i"
    using a by (subst unat_add_lem [THEN iffD1]) (simp_all add: unat_of_nat)
  then show "ram_of uc (a + of_nat i) = Some 0" using ram a i by (simp add: word_le_nat_alt)
qed

text \<open>
  C2: writing an area of RAM, also one that spans several regions and one without write permission,
  succeeds and replaces exactly the bytes of the area in the memory of the guest. The invariant and
  the table of regions stay as they are.
\<close>

theorem mem_write_refines:
  assumes "mem_inv uc" "no_alias uc" "env_mem_redirect env = None" "sz \<le> INT_MAX"
    and "\<forall>i < unat sz. ram_of uc (a + of_nat i) \<noteq> None" "length buf = unat sz"
  shows "\<exists>uc'. uc_mem_write env a buf sz uc = Some (UC_ERR_OK, uc') \<and> mem_inv uc' \<and> no_alias uc' \<and>
    mapped_blocks uc' = mapped_blocks uc \<and> ram_of uc' = overwrite (ram_of uc) a buf"
  using uc_mem_write_ram [OF assms] write_frame_no_alias [OF _ assms(2)] by (auto simp: write_frame_def)

theorem mem_write_refines_witness:
  "\<exists>uc uc' :: unit uc_struct. uc_mem_write plain_env 8190 [1, 2, 3] 3 uc = Some (UC_ERR_OK, uc') \<and>
    ram_of uc' 8191 = Some 2 \<and> ram_of uc' 4096 = Some 0"
proof -
  obtain uc :: "unit uc_struct" where uc: "mem_inv uc" "no_alias uc"
    "\<forall>a. ram_of uc a = (if 4096 \<le> a \<and> a \<le> 12287 then Some 0 else None)" using demo_engine by blast
  have "\<forall>i < unat (3 :: u64). ram_of uc (8190 + of_nat i) \<noteq> None"
    using demo_area [OF uc(3), of 8190 3] by simp
  then obtain uc' where "uc_mem_write plain_env 8190 [1, 2, 3] 3 uc = Some (UC_ERR_OK, uc')"
    "ram_of uc' = overwrite (ram_of uc) 8190 [1, 2, 3]"
    using mem_write_refines [OF uc(1,2), of plain_env 3 8190 "[1, 2, 3]"]
    by (auto simp: plain_env_def INT_MAX_def)
  moreover have "overwrite (ram_of uc) 8190 [1, 2, 3] 8191 = Some 2" "overwrite (ram_of uc) 8190 [1, 2, 3] 4096 = Some 0"
    by (simp_all add: overwrite_def uc(3))
  ultimately show ?thesis by metis
qed

text \<open>
  C3: reading an area of RAM succeeds and returns the bytes of the memory of the guest; the memory and
  the invariant stay as they are.
\<close>

theorem mem_read_refines:
  assumes "mem_inv uc" "env_mem_redirect env = None" "sz \<le> INT_MAX"
    and "\<forall>i < unat sz. ram_of uc (a + of_nat i) \<noteq> None"
  shows "\<exists>uc'. uc_mem_read env a sz uc =
      Some (UC_ERR_OK, map (\<lambda>i. the (ram_of uc (a + of_nat i))) [0 ..< unat sz], uc') \<and>
    mem_inv uc' \<and> ram_of uc' = ram_of uc"
  using uc_mem_read_ram [OF assms] by auto

theorem mem_read_refines_witness:
  "\<exists>uc uc' :: unit uc_struct. uc_mem_read plain_env 4096 2 uc = Some (UC_ERR_OK, [0, 0], uc')"
proof -
  obtain uc :: "unit uc_struct" where uc: "mem_inv uc"
    "\<forall>a. ram_of uc a = (if 4096 \<le> a \<and> a \<le> 12287 then Some 0 else None)" using demo_engine by blast
  have "\<forall>i < unat (2 :: u64). ram_of uc (4096 + of_nat i) \<noteq> None"
    using demo_area [OF uc(2), of 4096 2] by simp
  then show ?thesis
    using mem_read_refines [OF uc(1), of plain_env 2 4096]
    by (auto simp: plain_env_def INT_MAX_def uc(2) upt_rec)
qed

text \<open>
  C5: what \<^verbatim>\<open>uc_mem_write\<close> stored, \<^verbatim>\<open>uc_mem_read\<close> returns: for the area written, byte for byte, and for
  every other area of RAM the bytes it had before.
\<close>

theorem mem_write_read_round_trip:
  assumes inv: "mem_inv uc" "no_alias uc" and env: "env_mem_redirect env = None"
    and w: "sz \<le> INT_MAX" "\<forall>i < unat sz. ram_of uc (a + of_nat i) \<noteq> None" "length buf = unat sz"
    and r: "sz' \<le> INT_MAX" "\<forall>i < unat sz'. ram_of uc (a' + of_nat i) \<noteq> None"
  shows "\<exists>uc1. uc_mem_write env a buf sz uc = Some (UC_ERR_OK, uc1) \<and>
    (\<exists>uc2. uc_mem_read env a sz uc1 = Some (UC_ERR_OK, buf, uc2)) \<and>
    (\<exists>bs uc2. uc_mem_read env a' sz' uc1 = Some (UC_ERR_OK, bs, uc2) \<and>
       ((\<forall>i < unat sz. \<forall>j < unat sz'. a + of_nat i \<noteq> a' + of_nat j) \<longrightarrow>
         (\<exists>uc3. uc_mem_read env a' sz' uc = Some (UC_ERR_OK, bs, uc3))))"
proof -
  obtain uc1 where uc1: "uc_mem_write env a buf sz uc = Some (UC_ERR_OK, uc1)" "mem_inv uc1"
    "ram_of uc1 = overwrite (ram_of uc) a buf"
    using uc_mem_write_ram [OF inv env w] by blast
  have some: "ram_of uc1 x \<noteq> None" if "ram_of uc x \<noteq> None" for x using that by (simp add: uc1(3) overwrite_def)
  obtain uc2 where uc2: "uc_mem_read env a sz uc1 =
      Some (UC_ERR_OK, map (\<lambda>i. the (ram_of uc1 (a + of_nat i))) [0 ..< unat sz], uc2)"
    using uc_mem_read_ram [OF uc1(2) env w(1)] w(2) some by blast
  have "map (\<lambda>i. the (ram_of uc1 (a + of_nat i))) [0 ..< unat sz] = buf"
    using w(3) unat64_lt [of sz] by (intro nth_equalityI) (auto simp: uc1(3) overwrite_def unat_of_nat)
  moreover obtain uc3 where "uc_mem_read env a' sz' uc1 =
      Some (UC_ERR_OK, map (\<lambda>i. the (ram_of uc1 (a' + of_nat i))) [0 ..< unat sz'], uc3)"
    using uc_mem_read_ram [OF uc1(2) env r(1)] r(2) some by blast
  moreover obtain uc4 where "uc_mem_read env a' sz' uc =
      Some (UC_ERR_OK, map (\<lambda>i. the (ram_of uc (a' + of_nat i))) [0 ..< unat sz'], uc4)"
    using uc_mem_read_ram [OF inv(1) env r] by blast
  moreover have "ram_of uc1 (a' + of_nat j) = ram_of uc (a' + of_nat j)"
    if apart: "\<forall>i < unat sz. \<forall>j < unat sz'. a + of_nat i \<noteq> a' + of_nat j" and j: "j < unat sz'" for j
  proof -
    have "\<not> unat (a' + of_nat j - a) < unat sz"
      using apart [rule_format, of "unat (a' + of_nat j - a)" j] j by auto
    then show ?thesis using w(3) by (simp add: uc1(3) overwrite_def)
  qed
  ultimately show ?thesis using uc1(1) uc2 by auto
qed

theorem mem_write_read_round_trip_witness:
  "\<exists>uc uc1 uc2 :: unit uc_struct. uc_mem_write plain_env 4096 [7, 9] 2 uc = Some (UC_ERR_OK, uc1) \<and>
    uc_mem_read plain_env 4096 2 uc1 = Some (UC_ERR_OK, [7, 9], uc2)"
proof -
  obtain uc :: "unit uc_struct" where uc: "mem_inv uc" "no_alias uc"
    "\<forall>a. ram_of uc a = (if 4096 \<le> a \<and> a \<le> 12287 then Some 0 else None)" using demo_engine by blast
  have "\<forall>i < unat (2 :: u64). ram_of uc (4096 + of_nat i) \<noteq> None"
    using demo_area [OF uc(3), of 4096 2] by simp
  then show ?thesis
    using mem_write_read_round_trip [OF uc(1,2), of plain_env 2 4096 "[7, 9]" 0 0]
    by (auto simp: plain_env_def INT_MAX_def)
qed

text \<open>
  C6: \<^verbatim>\<open>check_mem_area\<close> always returns, and its result is exact: true if and only if every address of the
  area, counted modulo the address space, is mapped.
\<close>

theorem check_mem_area_correct:
  assumes "mem_inv uc" "env_mem_redirect env = None"
  shows "check_mem_area env uc a sz = Some (\<forall>i < unat sz. mapped uc (a + of_nat i))"
  using check_mem_area_exact [OF mem_inv_shape] assms by blast

theorem check_mem_area_correct_witness:
  "\<exists>uc :: unit uc_struct. check_mem_area plain_env uc 4096 8192 = Some True \<and>
    check_mem_area plain_env uc 4095 1 = Some False"
proof -
  obtain ass cpu where i: "mem_inv (demo_shape\<lparr>address_spaces := ass, flat_view_gen := Suc (flat_view_gen demo_shape),
      memory_region_update_pending := False, uc_cpu := cpu\<rparr>)"
    using commit_mem_inv [OF demo_shape_inv, of plain_env] by (auto simp: demo_shape_def)
  define uc where "uc = demo_shape\<lparr>address_spaces := ass, flat_view_gen := Suc (flat_view_gen demo_shape),
      memory_region_update_pending := False, uc_cpu := cpu\<rparr>"
  have m: "mapped uc a \<longleftrightarrow> 4096 \<le> a \<and> a \<le> 12287" for a
    by (simp add: uc_def mapped_def blocks_of_def demo_shape_def mr_covers_def mr_last_def)
  have e: "env_mem_redirect plain_env = None" by (simp add: plain_env_def)
  have "mapped uc (4096 + of_nat i)" if "i < 8192" for i :: nat
  proof -
    have "unat (4096 + of_nat i :: u64) = 4096 + i" using that by (subst unat_add_lem [THEN iffD1]) (simp_all add: unat_of_nat)
    then show ?thesis using that by (simp add: m word_le_nat_alt)
  qed
  moreover have "\<not> mapped uc 4095" by (simp add: m)
  ultimately have "check_mem_area plain_env uc 4096 8192 = Some True" "check_mem_area plain_env uc 4095 1 = Some False"
    using check_mem_area_correct [OF i [folded uc_def] e, of 4096 8192] check_mem_area_correct [OF i [folded uc_def] e, of 4095 1]
    by simp_all
  then show ?thesis by blast
qed

lemma access_refusals:
  assumes "mem_inv uc" "env_mem_redirect env = None"
  shows "(INT_MAX < sz \<longrightarrow> uc_mem_read env a sz uc = Some (UC_ERR_ARG, [], uc) \<and>
      uc_mem_write env a buf sz uc = Some (UC_ERR_ARG, uc)) \<and>
    (sz \<le> INT_MAX \<and> (\<exists>i < unat sz. \<not> mapped uc (a + of_nat i)) \<longrightarrow>
      uc_mem_read env a sz uc = Some (UC_ERR_READ_UNMAPPED, [], uc) \<and>
      uc_mem_write env a buf sz uc = Some (UC_ERR_WRITE_UNMAPPED, uc))"
proof -
  have sh: "shape_inv uc" using assms(1) by (rule mem_inv_shape)
  then have init: "uc_init_done uc" by (simp add: shape_inv_def)
  show ?thesis
    using check_mem_area_exact [OF sh assms(2), of a sz] init no_redirect [OF assms(2), of a]
    by (auto simp: uc_mem_read_def uc_mem_write_def not_le)
qed

text \<open>
  C7: the refusals of \<^verbatim>\<open>uc_mem_read\<close> and \<^verbatim>\<open>uc_mem_write\<close>: a size above \<^verbatim>\<open>INT_MAX\<close> is an argument error, an
  area with an unmapped address an unmapped error, and in both cases the engine is left as it was.
\<close>

theorem mem_access_refused:
  assumes "mem_inv uc" "env_mem_redirect env = None"
  shows "(INT_MAX < sz \<longrightarrow> uc_mem_read env a sz uc = Some (UC_ERR_ARG, [], uc) \<and>
      uc_mem_write env a buf sz uc = Some (UC_ERR_ARG, uc)) \<and>
    (sz \<le> INT_MAX \<and> (\<exists>i < unat sz. \<not> mapped uc (a + of_nat i)) \<longrightarrow>
      uc_mem_read env a sz uc = Some (UC_ERR_READ_UNMAPPED, [], uc) \<and>
      uc_mem_write env a buf sz uc = Some (UC_ERR_WRITE_UNMAPPED, uc))"
  by (rule access_refusals [OF assms])

theorem mem_access_refused_witness:
  "\<exists>uc :: unit uc_struct. uc_mem_read plain_env 0 (2 ^ 31) uc = Some (UC_ERR_ARG, [], uc) \<and>
    uc_mem_read plain_env 4095 2 uc = Some (UC_ERR_READ_UNMAPPED, [], uc) \<and>
    uc_mem_write plain_env 4095 [1, 2] 2 uc = Some (UC_ERR_WRITE_UNMAPPED, uc)"
proof -
  obtain ass cpu where i: "mem_inv (demo_shape\<lparr>address_spaces := ass, flat_view_gen := Suc (flat_view_gen demo_shape),
      memory_region_update_pending := False, uc_cpu := cpu\<rparr>)"
    using commit_mem_inv [OF demo_shape_inv, of plain_env] by (auto simp: demo_shape_def)
  define uc where "uc = demo_shape\<lparr>address_spaces := ass, flat_view_gen := Suc (flat_view_gen demo_shape),
      memory_region_update_pending := False, uc_cpu := cpu\<rparr>"
  have e: "env_mem_redirect plain_env = None" by (simp add: plain_env_def)
  have "\<not> mapped uc 4095"
    by (simp add: uc_def mapped_def blocks_of_def demo_shape_def mr_covers_def mr_last_def)
  then have "\<exists>i < unat (2 :: 64 word). \<not> mapped uc (4095 + of_nat i)" by (intro exI [of _ 0]) simp
  then show ?thesis
    using mem_access_refused [OF i [folded uc_def] e, of "2 ^ 31" 0 "[]"]
      mem_access_refused [OF i [folded uc_def] e, of 2 4095 "[1, 2]"]
    by (intro exI [of _ uc]) (simp add: INT_MAX_def)
qed

end
