(* ===== verification/MemMap.thy ===== *)
theory MemMap
  imports MemRw
begin

text \<open>
  Mapping memory: \<^verbatim>\<open>uc_mem_map\<close> accepts exactly the free page-aligned areas, keeps the invariant, and adds
  the requested area, zeroed, to the memory of the guest.
\<close>

section \<open>Adding a region\<close>

lemma covers_range: "mr_addr mr \<le> mr_last mr \<Longrightarrow> mr_covers mr (mr_addr mr) \<and> mr_covers mr (mr_last mr)"
  by (simp add: mr_covers_def)

text \<open>The position that the binary search finds keeps the table sorted.\<close>

lemma blocks_sorted_insert:
  assumes s: "blocks_sorted ms" and pos: "search_pos ms (mr_addr mr) pos" and mr: "mr_addr mr \<le> mr_last mr"
    and apart: "\<And>m a. m \<in> set ms \<Longrightarrow> mr_covers m a \<Longrightarrow> \<not> mr_covers mr a"
  shows "blocks_sorted (insert_at pos mr ms)"
proof -
  have "mr_last mr < mr_addr (ms ! j)" if j: "pos \<le> j" "j < length ms" for j
  proof -
    have r: "mr_addr (ms ! j) \<le> mr_last (ms ! j)" using blocks_sorted_range [OF s j(2)] .
    have "mr_addr mr \<le> mr_last (ms ! j)"
      using pos j blocks_sorted_last_mono [OF s j] by (auto simp: search_pos_def)
    moreover have "\<not> mr_covers mr (mr_addr (ms ! j))" "\<not> mr_covers (ms ! j) (mr_addr mr)"
      using apart [of "ms ! j"] j(2) covers_range [OF r] covers_range [OF mr] by auto
    ultimately show ?thesis by (auto simp: mr_covers_def)
  qed
  then have "sorted_wrt (\<lambda>m n. mr_last m < mr_addr n) (insert_at pos mr ms)"
    using s pos by (intro sorted_wrt_insert_at) (auto simp: blocks_sorted_def search_pos_def)
  then show ?thesis using s mr by (auto simp: blocks_sorted_def)
qed

lemma block_ok_keep:
  assumes "block_ok uc mr" "system_memory uc' = system_memory uc" "target_page_bits uc' = target_page_bits uc"
    "\<And>q. mr_ram mr \<Longrightarrow> mr_ram_block mr = Some q \<Longrightarrow> rb_store uc' q = rb_store uc q"
  shows "block_ok uc' mr"
  using assms unfolding block_ok_def by fastforce

text \<open>A fresh region, linked into the system memory and entered into the table.\<close>

lemma shape_insert:
  assumes inv: "shape_inv uc" and p: "mr_store uc p = None"
    and sys: "mr_store uc (system_memory uc) = Some sys"
    and st: "mr_store uc' = (mr_store uc)(p \<mapsto> mr, system_memory uc \<mapsto> sys\<lparr>mr_subregions := p # mr_subregions sys\<rparr>)"
    and same: "system_memory uc' = system_memory uc" "system_io uc' = system_io uc" "uc_init_done uc' = uc_init_done uc"
      "target_page_bits uc' = target_page_bits uc" "target_page_align uc' = target_page_align uc"
      "map as_root (address_spaces uc') = map as_root (address_spaces uc)"
    and rb: "\<And>q. rb_store uc q \<noteq> None \<Longrightarrow> rb_store uc' q = rb_store uc q" and ram: "ram_inv uc'"
    and mr: "block_ok uc' mr" "\<And>a. mr_covers mr a \<Longrightarrow> \<not> mapped uc a"
    and tab: "mapped_blocks uc' = insert_at pos p (mapped_blocks uc)" "mapped_blocks_memory uc' = TableLive"
      "search_pos (blocks_of uc) (mr_addr mr) pos"
    and room: "Suc (length (mapped_blocks uc)) < 2 ^ target_page_bits uc"
  shows "shape_inv uc'"
proof -
  have fresh: "p \<notin> set (mapped_blocks uc)" "p \<noteq> system_memory uc" "p \<noteq> system_io uc"
    using inv p by (auto simp: shape_inv_def table_inv_def sys_root_def io_root_def)
  have old: "mr_store uc' x = mr_store uc x" if "x \<in> set (mapped_blocks uc)" for x
    using that fresh(1) inv by (auto simp: st shape_inv_def)
  have new: "mr_store uc' p = Some mr" using fresh(2) by (simp add: st)
  have blocks: "blocks_of uc' = insert_at pos mr (blocks_of uc)"
  proof -
    have "map (\<lambda>x. the (mr_store uc' x)) (mapped_blocks uc) = blocks_of uc" by (simp add: blocks_of_def old)
    then show ?thesis by (simp only: blocks_of_def [of uc'] tab(1) map_insert_at new option.sel)
  qed
  have "uint (mr_addr mr) \<le> uint (mr_last mr)"
    using block_geometry(1) [of mr] block_ok_geometry [OF mr(1)] mr(1) by (auto simp: block_ok_def leaf_region_def)
  then have "blocks_sorted (blocks_of uc')"
    unfolding blocks using inv tab(3) mr(2)
    by (intro blocks_sorted_insert) (auto simp: shape_inv_def table_inv_def mapped_def word_le_def)
  then have "table_inv uc'"
    using inv tab(1,2) new by (auto simp: table_inv_def shape_inv_def old)
  moreover have "block_ok uc' (the (mr_store uc' x))" if x: "x \<in> set (mapped_blocks uc')" for x
  proof (cases "x = p")
    case False
    then have x': "x \<in> set (mapped_blocks uc)" using x tab(1) by simp
    then have "block_ok uc (the (mr_store uc x))" using inv by (simp add: shape_inv_def)
    then show ?thesis unfolding old [OF x'] using rb
      by (intro block_ok_keep [of uc _ uc'] same) (auto simp: block_ok_def)
  qed (simp add: new mr(1))
  moreover have "sys_root uc'"
    using inv sys fresh(1) by (auto simp: shape_inv_def sys_root_def st same tab(1))
  moreover have "io_root (mr_store uc') (system_io uc')"
    using inv fresh(3) by (auto simp: shape_inv_def io_root_def st same)
  ultimately show ?thesis
    using inv fresh ram room by (simp add: shape_inv_def same tab(1))
qed

section \<open>Allocating a RAM block\<close>

lemma uint_round_up:
  assumes k: "k < 64" and n: "uint n + 2 ^ k \<le> 2 ^ 64"
  shows "uint n \<le> uint (ROUND_UP n (2 ^ k))" "uint (ROUND_UP n (2 ^ k)) < uint n + 2 ^ k"
    "2 ^ k dvd uint (ROUND_UP n (2 ^ k))"
proof -
  let ?x = "n + 2 ^ k - 1 :: u64"
  have pk: "(0 :: int) < 2 ^ k" by simp
  have "?x = word_of_int (uint n + 2 ^ k - 1)" by simp
  moreover have "uint (word_of_int (uint n + 2 ^ k - 1) :: u64) = uint n + 2 ^ k - 1"
    using n u64_range [of n] pk by (intro uint_of_int) linarith+
  ultimately have x: "uint ?x = uint n + 2 ^ k - 1" by simp
  have m: "- (2 ^ k) = (NOT (mask k) :: u64)" by (simp add: mask_eq_exp_minus_1 minus_eq_not_minus_1)
  have "uint (?x AND NOT (mask k)) = uint ?x AND NOT (mask k)"
    by (rule bit_eqI) (auto simp: bit_simps dest: bit_imp_le_length)
  also have "\<dots> = push_bit k (drop_bit k (uint ?x))" by (rule bit_eqI) (auto simp: bit_simps)
  also have "\<dots> = uint ?x div 2 ^ k * 2 ^ k" by (simp only: push_bit_eq_mult drop_bit_eq_div)
  also have "\<dots> = uint ?x - uint ?x mod 2 ^ k" by (simp only: minus_mod_eq_div_mult)
  finally have r: "uint (ROUND_UP n (2 ^ k)) = uint ?x - uint ?x mod 2 ^ k"
    by (simp only: ROUND_UP_def m)
  have md: "uint ?x mod 2 ^ k < 2 ^ k" "0 \<le> uint ?x mod 2 ^ k" by simp_all
  show "uint n \<le> uint (ROUND_UP n (2 ^ k))" "uint (ROUND_UP n (2 ^ k)) < uint n + 2 ^ k"
    unfolding r using md x by linarith+
  show "2 ^ k dvd uint (ROUND_UP n (2 ^ k))" unfolding r by (simp add: dvd_minus_mod)
qed

lemma deref_all_live: "\<forall>p \<in> set ps. st p \<noteq> None \<Longrightarrow> deref_all st ps = Some (map (\<lambda>p. the (st p)) ps)"
  by (induction ps) auto

lemma deref_all_cong: "\<forall>p \<in> set ps. st p = st' p \<Longrightarrow> deref_all st ps = deref_all st' ps"
  by (induction ps) auto

lemma insert_ram_block_total:
  "\<forall>p \<in> set ps. st p \<noteq> None \<Longrightarrow>
   \<exists>l. insert_ram_block st new len ps = Some l \<and> set l = insert new (set ps) \<and>
     (distinct l \<longleftrightarrow> new \<notin> set ps \<and> distinct ps)"
proof (induction ps)
  case (Cons p ps)
  then obtain b l where b: "st p = Some b" and l: "insert_ram_block st new len ps = Some l"
    "set l = insert new (set ps)" "distinct l \<longleftrightarrow> new \<notin> set ps \<and> distinct ps" by auto
  show ?case using b l by (cases "rb_max_length b < len") auto
qed simp

text \<open>The contract of the allocators, and that they find memory.\<close>

definition alloc_ok :: "'c uc_env \<Rightarrow> bool" where
  "alloc_ok env \<longleftrightarrow> (\<forall>uc. finite (dom (mr_store uc)) \<longrightarrow> mr_store uc (env_new_mr env uc) = None) \<and>
    (\<forall>uc q. finite (dom (rb_store uc)) \<longrightarrow> env_new_rb env uc = Some q \<longrightarrow> rb_store uc q = None) \<and>
    (\<forall>uc n h q b h'. finite (dom (rb_store uc)) \<longrightarrow> env_ram_mmap env uc n = Some h \<longrightarrow> rb_store uc q = Some b \<longrightarrow>
       rb_host b = Some h' \<longrightarrow> h + unat n \<le> h' \<or> h' + unat (rb_max_length b) \<le> h)"

definition memory_left :: "'c uc_env \<Rightarrow> bool" where
  "memory_left env \<longleftrightarrow> (\<forall>uc. env_new_rb env uc \<noteq> None \<and> (\<forall>n. env_ram_mmap env uc n \<noteq> None) \<and>
     env_realloc_ok env uc \<and> (\<forall>n. env_backup_ok env uc n))"

lemma memory_leftD:
  assumes "memory_left env"
  obtains q h where "env_new_rb env uc = Some q" "env_ram_mmap env uc n = Some h"
  using assms unfolding memory_left_def by (metis option.exhaust)

lemma fresh_key:
  fixes f :: "nat \<rightharpoonup> 'a"
  assumes "finite (dom f)"
  shows "f (Suc (Max (insert 0 (dom f)))) = None"
proof (rule ccontr)
  assume "f (Suc (Max (insert 0 (dom f)))) \<noteq> None"
  then have "Suc (Max (insert 0 (dom f))) \<le> Max (insert 0 (dom f))" using assms by (intro Max_ge) auto
  then show False by simp
qed

lemma plain_alloc: "alloc_ok plain_env" "memory_left plain_env"
proof -
  have "h' + unat (rb_max_length b) \<le> Max (insert 4096 (host_end st ` dom st))"
    if "finite (dom st)" "st q = Some b" "rb_host b = Some h'" for st q b h'
  proof -
    have "host_end st q = h' + unat (rb_max_length b)" using that by (simp add: host_end_def)
    moreover have "host_end st q \<le> Max (insert 4096 (host_end st ` dom st))" using that by (intro Max_ge) auto
    ultimately show ?thesis by simp
  qed
  then show "alloc_ok plain_env" by (auto simp: alloc_ok_def plain_env_def fresh_key)
  show "memory_left plain_env" by (simp add: memory_left_def plain_env_def)
qed

definition ram_blocks :: "'c uc_struct \<Rightarrow> RAMBlock list" where
  "ram_blocks uc = map (\<lambda>q. the (rb_store uc q)) (ram_list uc)"

definition ram_room :: "'c uc_struct \<Rightarrow> u64 \<Rightarrow> bool" where
  "ram_room uc sz \<longleftrightarrow> find_ram_offset (target_page_bits uc) (ram_blocks uc) sz \<noteq> None"

text \<open>The new block, and the engine after it has been entered.\<close>

lemma ram_alloc:
  assumes env: "alloc_ok env" "memory_left env" and uc: "invalid_error uc = UC_ERR_OK" "ram_room uc len"
    and live: "\<forall>q \<in> set (ram_list uc). rb_store uc q \<noteq> None" "finite (dom (rb_store uc))"
    and len: "len = (if host = None then ROUND_UP sz (qemu_host_page_size uc) else sz)"
  shows "\<exists>q b l mem h. qemu_ram_alloc_from_ptr env sz host p uc =
      Some (Some q, uc\<lparr>rb_store := (rb_store uc)(q \<mapsto> b), ram_list := l, ram_mru_block := None,
        invalid_addr := 0, host_mem := mem\<rparr>) \<and>
    rb_store uc q = None \<and> set l = insert q (set (ram_list uc)) \<and> (distinct (ram_list uc) \<longrightarrow> distinct l) \<and>
    rb_mr b = p \<and> rb_host b = Some h \<and> rb_used_length b = len \<and> rb_max_length b = len \<and>
    rb_flags b = (if host = None then 0 else RAM_PREALLOC) \<and>
    find_ram_offset (target_page_bits uc) (ram_blocks uc) len = Some (rb_offset b) \<and>
    (case host of
       Some ptr \<Rightarrow> h = ptr \<and> mem = host_mem uc
     | None \<Rightarrow> mem = zero_host h (unat len) (host_mem uc) \<and>
         (\<forall>q b h'. rb_store uc q = Some b \<longrightarrow> rb_host b = Some h' \<longrightarrow>
            h + unat len \<le> h' \<or> h' + unat (rb_max_length b) \<le> h))"
proof -
  obtain q where q: "env_new_rb env uc = Some q" by (rule memory_leftD [OF env(2)])
  have fresh: "rb_store uc q = None" using env(1) live(2) q by (auto simp: alloc_ok_def)
  then have qn: "q \<notin> set (ram_list uc)" using live(1) by auto
  define b0 where "b0 = \<lparr>rb_mr = p, rb_host = host, rb_offset = 0, rb_used_length = len, rb_max_length = len,
    rb_flags = (if host = None then 0 else RAM_PREALLOC), rb_page_size = qemu_real_host_page_size uc\<rparr>"
  define uc1 where "uc1 = uc\<lparr>rb_store := (rb_store uc)(q \<mapsto> b0), invalid_addr := 0\<rparr>"
  have alloc: "qemu_ram_alloc_from_ptr env sz host p uc =
      do { uc \<leftarrow> ram_block_add env q uc1;
           if invalid_error uc \<noteq> UC_ERR_OK then Some (None, uc\<lparr>rb_store := (rb_store uc)(q := None)\<rparr>)
           else Some (Some q, uc) }"
    using q len by (simp add: qemu_ram_alloc_from_ptr_def b0_def uc1_def Let_def)
  obtain off where off: "find_ram_offset (target_page_bits uc) (ram_blocks uc) len = Some off"
    using uc(2) by (auto simp: ram_room_def)
  note blocks = deref_all_live [OF live(1), folded ram_blocks_def] off
  have d: "deref_all (rb_store uc1) (ram_list uc) = Some (ram_blocks uc)"
    using blocks(1) qn deref_all_cong [of "ram_list uc" "rb_store uc1" "rb_store uc"] by (auto simp: uc1_def)
  have live1: "\<forall>x \<in> set (ram_list uc). rb_store uc1 x \<noteq> None" using live(1) by (simp add: uc1_def)
  obtain l where l: "insert_ram_block (rb_store uc1) q len (ram_list uc) = Some l"
    "set l = insert q (set (ram_list uc))" "distinct l \<longleftrightarrow> q \<notin> set (ram_list uc) \<and> distinct (ram_list uc)"
    using insert_ram_block_total [OF live1, of q len] by (elim exE conjE) (rule that)
  let ?b = "\<lambda>h. b0\<lparr>rb_offset := off, rb_host := Some h\<rparr>"
  show ?thesis
  proof (cases host)
    case (Some ptr)
    then have "?b ptr = b0\<lparr>rb_offset := off\<rparr>" by (simp add: b0_def)
    then have "ram_block_add env q uc1 = Some (uc1\<lparr>rb_store := (rb_store uc1)(q \<mapsto> ?b ptr), ram_list := l, ram_mru_block := None\<rparr>)"
      using d blocks(2) l(1) Some by (simp add: ram_block_add_def uc1_def b0_def)
    then have "qemu_ram_alloc_from_ptr env sz host p uc =
        Some (Some q, uc\<lparr>rb_store := (rb_store uc)(q \<mapsto> ?b ptr), ram_list := l, ram_mru_block := None,
          invalid_addr := 0, host_mem := host_mem uc\<rparr>)"
      using alloc uc(1) by (simp add: uc1_def)
    then show ?thesis using fresh l(2,3) qn Some
      by (intro exI [of _ q] exI [of _ "?b ptr"] exI [of _ l] exI [of _ "host_mem uc"] exI [of _ ptr])
        (simp add: b0_def off)
  next
    case None
    obtain h where h: "env_ram_mmap env uc1 len = Some h" by (rule memory_leftD [OF env(2)])
    let ?mem = "zero_host h (unat len) (host_mem uc)"
    have "ram_block_add env q uc1 = Some (uc1\<lparr>rb_store := (rb_store uc1)(q \<mapsto> ?b h), ram_list := l, ram_mru_block := None,
        host_mem := ?mem\<rparr>)"
      using d blocks(2) l(1) None h by (simp add: ram_block_add_def uc1_def b0_def)
    then have "qemu_ram_alloc_from_ptr env sz host p uc =
        Some (Some q, uc\<lparr>rb_store := (rb_store uc)(q \<mapsto> ?b h), ram_list := l, ram_mru_block := None,
          invalid_addr := 0, host_mem := ?mem\<rparr>)"
      using alloc uc(1) by (simp add: uc1_def)
    moreover have "h + unat len \<le> h' \<or> h' + unat (rb_max_length b) \<le> h"
      if "rb_store uc x = Some b" "rb_host b = Some h'" for x b h'
    proof -
      have "x \<noteq> q" using that(1) fresh by auto
      then have "rb_store uc1 x = Some b" "finite (dom (rb_store uc1))" using that(1) live(2) by (simp_all add: uc1_def)
      then show ?thesis using env(1) h that(2) unfolding alloc_ok_def by blast
    qed
    ultimately show ?thesis using fresh l(2,3) qn None
      by (intro exI [of _ q] exI [of _ "?b h"] exI [of _ l] exI [of _ ?mem] exI [of _ h]) (simp add: b0_def off)
  qed
qed

section \<open>Linking a region\<close>

definition placed :: "mr_ptr \<Rightarrow> u64 \<Rightarrow> MemoryRegion \<Rightarrow> MemoryRegion" where
  "placed root a mr = mr\<lparr>mr_container := Some root, mr_addr := a, mr_end := a + word_of_int (mr_size mr)\<rparr>"

definition with_child :: "mr_ptr \<Rightarrow> MemoryRegion \<Rightarrow> MemoryRegion" where
  "with_child p sys = sys\<lparr>mr_subregions := p # mr_subregions sys\<rparr>"

lemma add_subregion_commit:
  assumes "mr_store u p = Some mr" "mr_container mr = None" "0 \<le> mr_size mr" "mr_size mr < 2 ^ 64"
    "mr_store u s = Some sys" "p \<noteq> s"
  shows "memory_region_add_subregion env s a p u = memory_region_transaction_commit env
    (u\<lparr>mr_store := (mr_store u)(p \<mapsto> placed s a mr, s \<mapsto> with_child p sys), memory_region_update_pending := True\<rparr>)"
  using assms
  by (simp add: memory_region_add_subregion_def get64_Some upd_mr_def memory_region_update_container_subregions_def
      placed_def with_child_def)

lemma ram_inv_cong:
  assumes "ram_inv u" "rb_store v = rb_store u" "ram_list v = ram_list u" "set (mapped_blocks v) = set (mapped_blocks u)"
    and "finite (dom (mr_store v))" "\<And>p. p \<in> set (mapped_blocks u) \<Longrightarrow> mr_store v p = mr_store u p"
  shows "ram_inv v"
proof -
  have "\<exists>b mr. rb_store v q = Some b \<and> rb_mr b \<in> set (mapped_blocks v) \<and>
       mr_store v (rb_mr b) = Some mr \<and> mr_ram mr \<and> mr_ram_block mr = Some q" if "q \<in> set (ram_list v)" for q
  proof -
    from that assms(1,3) obtain b mr where b: "rb_store u q = Some b" "rb_mr b \<in> set (mapped_blocks u)"
      "mr_store u (rb_mr b) = Some mr" "mr_ram mr" "mr_ram_block mr = Some q" by (auto simp: ram_inv_def)
    with assms(2,4,6) show ?thesis by (intro exI [of _ b] exI [of _ mr]) simp
  qed
  moreover have "q \<in> set (ram_list v) \<and> rb_mr (the (rb_store v q)) = p"
    if "p \<in> set (mapped_blocks v)" "mr_store v p = Some mr" "mr_ram mr" "mr_ram_block mr = Some q" for p mr q
    using that assms by (simp add: ram_inv_def)
  ultimately show ?thesis using assms(1,2,3,5) by (simp add: ram_inv_def)
qed

lemma mem_map_insert:
  assumes inv: "table_inv u" and p: "mr_store u p = Some mr" and ok: "env_realloc_ok env u"
    and pos: "search_pos (blocks_of u) (mr_addr mr) pos"
  shows "mem_map env (Some p) u = Some (UC_ERR_OK, u\<lparr>mapped_blocks_memory := TableLive,
    mapped_blocks := insert_at pos p (mapped_blocks u)\<rparr>)"
proof -
  let ?u = "u\<lparr>mapped_blocks_memory := TableLive\<rparr>"
  have "grow_table env u = Some (True, ?u)"
  proof (cases "length (mapped_blocks u) mod MEM_BLOCK_INCR = 0")
    case True
    then show ?thesis using inv ok by (cases "mapped_blocks_memory u") (auto simp: grow_table_def table_inv_def)
  next
    case False
    then have "mapped_blocks u \<noteq> []" by auto
    then show ?thesis using inv False by (simp add: grow_table_def table_inv_def)
  qed
  moreover have inv': "table_inv ?u" using inv by (simp add: table_inv_def blocks_of_def)
  moreover have "bsearch_mapped_blocks ?u (mr_addr mr) = Some pos"
  proof -
    obtain i where i: "bsearch_mapped_blocks ?u (mr_addr mr) = Some i" "search_pos (blocks_of ?u) (mr_addr mr) i"
      using bsearch_loop_pos [OF inv', of 0 "length (mapped_blocks u)" "mr_addr mr"]
      by (auto simp: bsearch_mapped_blocks_def)
    moreover have "blocks_of ?u = blocks_of u" by (simp add: blocks_of_def)
    ultimately show ?thesis using search_pos_unique [OF _ pos] by simp
  qed
  ultimately show ?thesis using p by (simp add: mem_map_def)
qed

text \<open>
  The common part of the three ways to map: the region is prepared in \<^term>\<open>u\<close>, linked into the system
  memory, the views are rebuilt, and the region is entered into the table.
\<close>

definition same_engine :: "'c uc_struct \<Rightarrow> 'c uc_struct \<Rightarrow> bool" where
  "same_engine uc u \<longleftrightarrow> (\<exists>st rbs l mru ia mem. u = uc\<lparr>mr_store := st, rb_store := rbs, ram_list := l,
     ram_mru_block := mru, invalid_addr := ia, host_mem := mem\<rparr>)"

lemma same_engine_sel:
  assumes "same_engine uc u"
  shows "system_memory u = system_memory uc" "system_io u = system_io uc" "uc_init_done u = uc_init_done uc"
    "target_page_bits u = target_page_bits uc" "target_page_align u = target_page_align uc"
    "address_spaces u = address_spaces uc" "mapped_blocks u = mapped_blocks uc"
    "mapped_blocks_memory u = mapped_blocks_memory uc" "invalid_error u = invalid_error uc"
    "qemu_host_page_size u = qemu_host_page_size uc"
  using assms by (auto simp: same_engine_def)

lemma add_region_ok:
  assumes inv: "mem_inv uc" and p: "mr_store uc p = None" and frame: "same_engine uc u"
    and u: "mr_store u = (mr_store uc)(p \<mapsto> mr)"
    and rb: "\<forall>q. rb_store uc q \<noteq> None \<longrightarrow> rb_store u q = rb_store uc q"
    and mr: "mr_container mr = None" "block_ok u (placed (system_memory uc) a mr)"
    and ram: "ram_inv (u\<lparr>mr_store := (mr_store uc)(p \<mapsto> placed (system_memory uc) a mr), mapped_blocks := p # mapped_blocks uc\<rparr>)"
    and cov: "\<forall>x. mr_covers (placed (system_memory uc) a mr) x \<longrightarrow> \<not> mapped uc x"
    and room: "Suc (length (mapped_blocks uc)) < 2 ^ target_page_bits uc"
    and re: "\<And>v. env_realloc_ok env v"
  shows "\<exists>sys pos v. (do { v \<leftarrow> memory_region_add_subregion env (system_memory u) a p u;
        mem_map env (Some p) (tlb_flush_uc env v) }) = Some (UC_ERR_OK, v) \<and> mem_inv v \<and>
    mr_store uc (system_memory uc) = Some sys \<and>
    mr_store v = (mr_store uc)(p \<mapsto> placed (system_memory uc) a mr, system_memory uc \<mapsto> with_child p sys) \<and>
    mapped_blocks v = insert_at pos p (mapped_blocks uc) \<and> rb_store v = rb_store u \<and> host_mem v = host_mem u \<and>
    ram_list v = ram_list u \<and> target_page_bits v = target_page_bits uc \<and>
    qemu_host_page_size v = qemu_host_page_size uc \<and> invalid_error v = invalid_error uc"
proof -
  note sel = same_engine_sel [OF frame]
  have sh: "shape_inv uc" using inv by (simp add: mem_inv_def)
  obtain sys where sys: "mr_store uc (system_memory uc) = Some sys" using sh by (auto simp: shape_inv_def sys_root_def)
  have ps: "p \<noteq> system_memory uc" using p sys by auto
  have leaf: "leaf_region (placed (system_memory uc) a mr)" using mr(2) by (simp add: block_ok_def)
  let ?st = "(mr_store uc)(p \<mapsto> placed (system_memory uc) a mr, system_memory uc \<mapsto> with_child p sys)"
  define u1 where "u1 = u\<lparr>mr_store := ?st, memory_region_update_pending := True\<rparr>"
  have add: "memory_region_add_subregion env (system_memory u) a p u = memory_region_transaction_commit env u1"
  proof -
    have "memory_region_add_subregion env (system_memory u) a p u = memory_region_transaction_commit env
        (u\<lparr>mr_store := (mr_store u)(p \<mapsto> placed (system_memory u) a mr, system_memory u \<mapsto> with_child p sys),
          memory_region_update_pending := True\<rparr>)"
      by (rule add_subregion_commit) (use leaf mr(1) u sys ps sel(1) in \<open>simp_all add: leaf_region_def placed_def\<close>)
    then show ?thesis by (simp add: u1_def u sel(1))
  qed
  have tab: "table_inv uc" using sh by (simp add: shape_inv_def)
  obtain pos where pos: "search_pos (blocks_of uc) a pos"
    using bsearch_loop_pos [OF tab, of 0 "length (mapped_blocks uc)" a] by auto
  have shape: "shape_inv w" if w: "mr_store w = ?st" "system_memory w = system_memory uc" "system_io w = system_io uc"
      "uc_init_done w = uc_init_done uc" "target_page_bits w = target_page_bits uc" "target_page_align w = target_page_align uc"
      "map as_root (address_spaces w) = map as_root (address_spaces uc)" "rb_store w = rb_store u" "ram_list w = ram_list u"
      "mapped_blocks w = insert_at pos p (mapped_blocks uc)" "mapped_blocks_memory w = TableLive" for w :: "'a uc_struct"
  proof (rule shape_insert [OF sh p sys])
    show "mr_store w = (mr_store uc)(p \<mapsto> placed (system_memory uc) a mr,
        system_memory uc \<mapsto> sys\<lparr>mr_subregions := p # mr_subregions sys\<rparr>)" using w(1) by (simp add: with_child_def)
    show "ram_inv w"
    proof (rule ram_inv_cong [OF ram])
      show "finite (dom (mr_store w))" using sh w(1) by (simp add: shape_inv_def ram_inv_def)
      show "mr_store w x = mr_store (u\<lparr>mr_store := (mr_store uc)(p \<mapsto> placed (system_memory uc) a mr),
          mapped_blocks := p # mapped_blocks uc\<rparr>) x"
        if "x \<in> set (mapped_blocks (u\<lparr>mr_store := (mr_store uc)(p \<mapsto> placed (system_memory uc) a mr),
          mapped_blocks := p # mapped_blocks uc\<rparr>))" for x
        using that w(1) sh ps by (auto simp: shape_inv_def)
    qed (simp_all add: w)
    show "block_ok w (placed (system_memory uc) a mr)"
      using mr(2) w(2,5,8) sel(1,4) by (simp add: block_ok_def)
    show "search_pos (blocks_of uc) (mr_addr (placed (system_memory uc) a mr)) pos" using pos by (simp add: placed_def)
  qed (use w rb cov room in auto)
  have "shape_inv (u1\<lparr>mapped_blocks := insert_at pos p (mapped_blocks uc), mapped_blocks_memory := TableLive\<rparr>)"
    by (rule shape) (simp_all add: u1_def sel)
  from shape_topo(1) [OF this] have "topo_inv u1" by (simp add: topo_inv_def sys_children_def)
  from commit_flat [OF this, of env] obtain ass where c: "memory_region_transaction_commit env u1 =
      Some ((if tcg_listener u1 then tlb_flush_uc env else id) (u1\<lparr>address_spaces := ass,
        flat_view_gen := Suc (flat_view_gen u1), memory_region_update_pending := False\<rparr>))"
    "topo_inv (u1\<lparr>address_spaces := ass\<rparr>)" "view_inv (u1\<lparr>address_spaces := ass\<rparr>)" by (auto simp: u1_def)
  obtain cpu where v1: "map_option (tlb_flush_uc env) (memory_region_transaction_commit env u1) =
      Some (u1\<lparr>address_spaces := ass, flat_view_gen := Suc (flat_view_gen u1), memory_region_update_pending := False, uc_cpu := cpu\<rparr>)"
    using c(1) by (cases "tcg_listener u1") (auto simp: tlb_flush_uc_def upd_cpu_def)
  let ?v1 = "u1\<lparr>address_spaces := ass, flat_view_gen := Suc (flat_view_gen u1), memory_region_update_pending := False, uc_cpu := cpu\<rparr>"
  let ?v = "?v1\<lparr>mapped_blocks_memory := TableLive, mapped_blocks := insert_at pos p (mapped_blocks ?v1)\<rparr>"
  have old: "?st x = mr_store uc x" if "x \<in> set (mapped_blocks uc)" for x
    using that sh p by (auto simp: shape_inv_def table_inv_def)
  have blocks: "blocks_of ?v1 = blocks_of uc" using old by (simp add: blocks_of_def u1_def sel)
  have "table_inv ?v1" using tab old unfolding table_inv_def blocks by (auto simp: u1_def sel)
  then have "mem_map env (Some p) ?v1 = Some (UC_ERR_OK, ?v)"
    by (rule mem_map_insert [where mr = "placed (system_memory uc) a mr"])
       (use ps re pos blocks in \<open>simp_all add: u1_def placed_def\<close>)
  moreover have "shape_inv ?v"
    by (rule shape) (use c(2) sh in \<open>simp_all add: u1_def sel topo_inv_def shape_inv_def\<close>)
  moreover have "view_inv ?v" using c(3) by (simp add: view_inv_def sys_children_def)
  moreover obtain v0 where "memory_region_transaction_commit env u1 = Some v0" "tlb_flush_uc env v0 = ?v1"
    using v1 by (auto simp: map_option_eq_Some)
  ultimately show ?thesis using add sys
    by (intro exI [of _ sys] exI [of _ pos] exI [of _ ?v]) (simp add: mem_inv_def u1_def sel)
qed

section \<open>The memory after mapping\<close>

lemma added_mapped:
  assumes "mr_store v p = Some r" "mapped_blocks v = insert_at pos p (mapped_blocks uc)"
    and "\<And>x. x \<in> set (mapped_blocks uc) \<Longrightarrow> mr_store v x = mr_store uc x"
  shows "mapped v x \<longleftrightarrow> mr_covers r x \<or> mapped uc x"
  using assms by (auto simp: mapped_def blocks_of_def)

lemma mapped_region:
  assumes "shape_inv uc" "mapped uc x"
  obtains p mr where "p \<in> set (mapped_blocks uc)" "mr_store uc p = Some mr" "block_ok uc mr" "mr_covers mr x"
proof -
  from assms(2) obtain p where p: "p \<in> set (mapped_blocks uc)" "mr_covers (the (mr_store uc p)) x"
    by (auto simp: mapped_def blocks_of_def)
  from shape_block [OF assms(1) p(1)] obtain mr where "mr_store uc p = Some mr" "block_ok uc mr" by metis
  with p show thesis using that by simp
qed

lemma ram_of_added:
  assumes uc: "shape_inv uc" and v: "shape_inv v" and p: "mr_store v p = Some r"
    and tab: "mapped_blocks v = insert_at pos p (mapped_blocks uc)"
    and old: "\<And>x. x \<in> set (mapped_blocks uc) \<Longrightarrow> mr_store v x = mr_store uc x"
    and rb: "\<And>q. rb_store uc q \<noteq> None \<Longrightarrow> rb_store v q = rb_store uc q"
    and mem: "\<And>q b h i. rb_store uc q = Some b \<Longrightarrow> rb_host b = Some h \<Longrightarrow> i < unat (rb_max_length b) \<Longrightarrow>
      host_mem v (h + i) = host_mem uc (h + i)"
  shows "ram_of v x = (if mr_covers r x
    then (if mr_ram r then Some (host_mem v (ram_host v r + unat (x - mr_addr r))) else None) else ram_of uc x)"
proof (cases "mr_covers r x")
  case True
  then show ?thesis using ram_of_region [OF v _ p True] by (simp add: tab)
next
  case False
  show ?thesis
  proof (cases "mapped uc x")
    case False
    then have "\<not> mapped v x" using \<open>\<not> mr_covers r x\<close> added_mapped [OF p tab old] by blast
    then show ?thesis using False \<open>\<not> mr_covers r x\<close> by (simp add: ram_of_unmapped)
  next
    case True
    then obtain p' mr' where m: "p' \<in> set (mapped_blocks uc)" "mr_store uc p' = Some mr'" "block_ok uc mr'" "mr_covers mr' x"
      by (rule mapped_region [OF uc])
    have mv: "p' \<in> set (mapped_blocks v)" "mr_store v p' = Some mr'" using m old by (simp_all add: tab)
    have "host_mem v (ram_host v mr' + unat (x - mr_addr mr')) = host_mem uc (ram_host uc mr' + unat (x - mr_addr mr'))"
      if ram: "mr_ram mr'"
    proof -
      obtain q b h where b: "mr_ram_block mr' = Some q" "rb_store uc q = Some b" "rb_host b = Some h"
        "mr_size mr' \<le> uint (rb_max_length b)" using m(3) ram by (auto simp: block_ok_def)
      have "rb_store v q = Some b" using rb [of q] b(2) by simp
      then have hosts: "ram_host v mr' = h" "ram_host uc mr' = h" using b by (simp_all add: ram_host_def)
      have "uint (x - mr_addr mr') < mr_size mr'"
        using block_geometry(2,4) [of mr' x] block_ok_geometry [OF m(3)] m(4) by simp
      then have "x - mr_addr mr' < rb_max_length b" using b(4) by (simp only: word_less_def)
      then have "unat (x - mr_addr mr') < unat (rb_max_length b)" by (simp only: word_less_nat_alt)
      then show ?thesis unfolding hosts by (rule mem [OF b(2,3)])
    qed
    then show ?thesis
      using ram_of_region [OF uc m(1,2,4)] ram_of_region [OF v mv m(4)] \<open>\<not> mr_covers r x\<close> by auto
  qed
qed

lemma old_host:
  assumes "block_ok uc mr" "mr_ram mr" and rb: "\<And>q. rb_store uc q \<noteq> None \<Longrightarrow> rb_store v q = rb_store uc q"
  obtains q b where "rb_store uc q = Some b" "rb_host b = Some (ram_host uc mr)" "ram_host v mr = ram_host uc mr"
    "nat (mr_size mr) \<le> unat (rb_max_length b)"
proof -
  obtain q b h where b: "mr_ram_block mr = Some q" "rb_store uc q = Some b" "rb_host b = Some h"
    "mr_size mr \<le> uint (rb_max_length b)" using assms(1,2) by (auto simp: block_ok_def)
  have "rb_store v q = Some b" using rb [of q] b(2) by simp
  then have "ram_host v mr = h" "ram_host uc mr = h" using b by (simp_all add: ram_host_def)
  moreover have "nat (mr_size mr) \<le> unat (rb_max_length b)" using b(4) unfolding unat_eq_nat_uint by (rule nat_mono)
  ultimately show thesis using that [of q b] b by simp
qed

lemma old_host_eq:
  assumes "block_ok uc mr" "mr_ram mr" "\<And>q. rb_store uc q \<noteq> None \<Longrightarrow> rb_store v q = rb_store uc q"
  shows "ram_host v mr = ram_host uc mr"
  by (rule old_host [OF assms])

lemma shape_block_ok:
  assumes "shape_inv uc" "p \<in> set (mapped_blocks uc)" "mr_store uc p = Some mr"
  shows "block_ok uc mr"
  by (rule shape_block [OF assms(1,2)]) (simp add: assms(3))

lemma no_alias_added:
  assumes uc: "shape_inv uc" "no_alias uc" and p: "mr_store v p = Some r"
    and tab: "mapped_blocks v = insert_at pos p (mapped_blocks uc)"
    and old: "\<And>x. x \<in> set (mapped_blocks uc) \<Longrightarrow> mr_store v x = mr_store uc x"
    and rb: "\<And>q. rb_store uc q \<noteq> None \<Longrightarrow> rb_store v q = rb_store uc q"
    and new: "\<And>q b h. rb_store uc q = Some b \<Longrightarrow> rb_host b = Some h \<Longrightarrow> mr_ram r \<Longrightarrow>
      ram_host v r + nat (mr_size r) \<le> h \<or> h + unat (rb_max_length b) \<le> ram_host v r"
  shows "no_alias v"
proof -
  let ?apart = "\<lambda>mr mr'. ram_host v mr + nat (mr_size mr) \<le> ram_host v mr' \<or> ram_host v mr' + nat (mr_size mr') \<le> ram_host v mr"
  have one: "?apart r mr'" if m: "x \<in> set (mapped_blocks uc)" "mr_store uc x = Some mr'" "mr_ram mr'" "mr_ram r" for x mr'
  proof -
    have "block_ok uc mr'" by (rule shape_block_ok [OF uc(1) m(1,2)])
    then obtain q b where "rb_store uc q = Some b" "rb_host b = Some (ram_host uc mr')" "ram_host v mr' = ram_host uc mr'"
      "nat (mr_size mr') \<le> unat (rb_max_length b)" by (rule old_host [OF _ m(3) rb])
    then show ?thesis using new [of q b] m(4) by fastforce
  qed
  have two: "?apart mr mr'" if "x \<in> set (mapped_blocks uc)" "mr_store uc x = Some mr" "mr_ram mr"
      "y \<in> set (mapped_blocks uc)" "mr_store uc y = Some mr'" "mr_ram mr'" "x \<noteq> y" for x mr y mr'
  proof -
    have "ram_host v mr = ram_host uc mr" "ram_host v mr' = ram_host uc mr'"
      using old_host_eq [OF shape_block_ok [OF uc(1) that(1,2)] that(3) rb]
        old_host_eq [OF shape_block_ok [OF uc(1) that(4,5)] that(6) rb] by simp_all
    then show ?thesis using uc(2) [unfolded no_alias_def Let_def, rule_format, OF that(1,4,7)] that by simp
  qed
  have live: "\<exists>mr. mr_store uc x = Some mr" if "x \<in> set (mapped_blocks uc)" for x
    using shape_block [OF uc(1) that] by metis
  have "?apart (the (mr_store v x)) (the (mr_store v y))"
    if xy: "x \<in> set (mapped_blocks v)" "y \<in> set (mapped_blocks v)" "x \<noteq> y"
      "mr_ram (the (mr_store v x))" "mr_ram (the (mr_store v y))" for x y
  proof -
    consider "x = p" "y \<in> set (mapped_blocks uc)" | "y = p" "x \<in> set (mapped_blocks uc)"
      | "x \<in> set (mapped_blocks uc)" "y \<in> set (mapped_blocks uc)" using xy(1-3) tab by auto
    then show ?thesis
    proof cases
      case 1
      with live obtain mr' where "mr_store uc y = Some mr'" by blast
      then show ?thesis using one [of y mr'] 1 xy(4,5) p old by simp
    next
      case 2
      with live obtain mr' where "mr_store uc x = Some mr'" by blast
      then show ?thesis using one [of x mr'] 2 xy(4,5) p old by auto
    next
      case 3
      with live obtain mr mr' where "mr_store uc x = Some mr" "mr_store uc y = Some mr'" by blast
      then show ?thesis using two [of x mr y mr'] 3 xy(3-5) old by simp
    qed
  qed
  then show ?thesis by (simp add: no_alias_def Let_def)
qed

lemma mem_map_check_OK:
  assumes "table_inv uc" "mem_map_check uc a sz perms = Some UC_ERR_OK"
  shows "sz \<noteq> 0" "a \<le> a + sz - 1" "a AND ucast (target_page_align uc) = 0" "sz AND ucast (target_page_align uc) = 0"
    "perms AND NOT UC_PROT_ALL = 0" "\<And>x. a \<le> x \<Longrightarrow> x \<le> a + sz - 1 \<Longrightarrow> \<not> mapped uc x"
proof -
  show c: "sz \<noteq> 0" "a \<le> a + sz - 1" "a AND ucast (target_page_align uc) = 0" "sz AND ucast (target_page_align uc) = 0"
    "perms AND NOT UC_PROT_ALL = 0"
    using assms(2) by (auto simp: mem_map_check_def not_less split: if_splits)
  have "mem_map_check uc a sz perms = do {
       ov \<leftarrow> memory_overlap uc a sz;
       Some (if ov then UC_ERR_MAP else UC_ERR_OK) }"
    using c c(2) [THEN leD] by (simp add: mem_map_check_def)
  then show "\<not> mapped uc x" if "a \<le> x" "x \<le> a + sz - 1" for x
    using assms(2) memory_overlap_exact [OF assms(1) c(2)] that by (auto split: if_splits)
qed

lemma aligned_dvd:
  assumes "x AND ucast (mask n :: u32) = (0 :: u64)" "n \<le> 32" shows "2 ^ n dvd uint x"
proof -
  have "ucast (mask n :: u32) = (mask n :: u64)" using assms(2) by (auto intro!: bit_word_eqI simp: bit_simps)
  then have "take_bit n x = 0" using assms(1) by (simp add: take_bit_eq_mask)
  then have "take_bit n (uint x) = 0" by (metis unsigned_0 unsigned_take_bit_eq)
  then show ?thesis by (simp add: take_bit_eq_0_iff)
qed

lemma page_region:
  assumes "table_inv uc" "mem_map_check uc a sz perms = Some UC_ERR_OK" "target_page_align uc = mask (target_page_bits uc)"
    "0 < target_page_bits uc" "target_page_bits uc \<le> 16"
  shows "sz \<noteq> -1" "0 < uint sz" "uint a + uint sz \<le> 2 ^ 64" "2 ^ target_page_bits uc dvd uint a" "2 ^ target_page_bits uc dvd uint sz"
proof -
  note c = mem_map_check_OK [OF assms(1,2)]
  show d: "2 ^ target_page_bits uc dvd uint a" "2 ^ target_page_bits uc dvd uint sz"
    using c(3,4) assms(3-5) by (auto intro: aligned_dvd)
  show pos: "0 < uint sz" using c(1) by (simp add: uint_0_iff order_less_le)
  show "sz \<noteq> -1"
  proof
    assume "sz = -1"
    then have "2 ^ target_page_bits uc dvd (2 ^ 64 - 1 :: int)" using d(2) by (simp add: uint_word_ariths)
    moreover have "(2 :: int) dvd 2 ^ target_page_bits uc" using assms(4) by simp
    ultimately have "(2 :: int) dvd 2 ^ 64 - 1" using dvd_trans by blast
    then show False by simp
  qed
  show "uint a + uint sz \<le> 2 ^ 64"
  proof (rule ccontr)
    assume n: "\<not> uint a + uint sz \<le> 2 ^ 64"
    have "a + sz - 1 = word_of_int (uint a + uint sz - 1 - 2 ^ 64)" by simp
    then have "uint (a + sz - 1) = uint a + uint sz - 1 - 2 ^ 64"
      using n u64_range [of a] u64_range [of sz] by (simp only:) (intro uint_of_int; linarith)
    then show False using c(2) u64_range [of sz] unfolding word_le_def by linarith
  qed
qed

text \<open>The region that a RAM mapping links, and the engine that holds its block.\<close>

lemma ram_region_ok:
  assumes sh: "shape_inv uc" and p: "mr_store uc p = None" and q: "rb_store uc q = None"
    and chk: "mem_map_check uc a sz perms = Some UC_ERR_OK"
    and mr: "mr_ram mr" "mr_ram_block mr = Some q" "mr_enabled mr" "mr_terminates mr" "mr_subregions mr = []" "mr_size mr = uint sz"
      "mr_perms mr AND UC_PROT_WRITE \<noteq> 0 \<longrightarrow> \<not> mr_readonly mr"
    and u: "system_memory u = system_memory uc" "target_page_bits u = target_page_bits uc"
      "rb_store u = (rb_store uc)(q \<mapsto> b)" "set (ram_list u) = insert q (set (ram_list uc))" "distinct (ram_list u)"
    and b: "rb_mr b = p" "rb_host b = Some h" "uint sz \<le> uint (rb_used_length b)" "uint sz \<le> uint (rb_max_length b)"
  shows "block_ok u (placed (system_memory uc) a mr)"
    "ram_inv (u\<lparr>mr_store := (mr_store uc)(p \<mapsto> placed (system_memory uc) a mr), mapped_blocks := p # mapped_blocks uc\<rparr>)"
    "mr_covers (placed (system_memory uc) a mr) x \<longleftrightarrow> a \<le> x \<and> x \<le> a + sz - 1"
proof -
  let ?r = "placed (system_memory uc) a mr"
  have tab: "table_inv uc" and ri: "ram_inv uc" using sh by (simp_all add: shape_inv_def)
  note pr = page_region [OF tab chk]
  show "block_ok u ?r"
    using mr u(1-3) b pr sh u64_range [of sz] by (simp add: block_ok_def placed_def leaf_region_def shape_inv_def)
  show "mr_covers ?r x \<longleftrightarrow> a \<le> x \<and> x \<le> a + sz - 1"
    by (simp add: mr_covers_def mr_last_def placed_def mr(6))
  let ?u = "u\<lparr>mr_store := (mr_store uc)(p \<mapsto> ?r), mapped_blocks := p # mapped_blocks uc\<rparr>"
  have new: "\<exists>b r. rb_store ?u x = Some b \<and> rb_mr b \<in> set (mapped_blocks ?u) \<and> mr_store ?u (rb_mr b) = Some r \<and>
      mr_ram r \<and> mr_ram_block r = Some x" if x: "x \<in> set (ram_list ?u)" for x
  proof (cases "x = q")
    case True
    then show ?thesis using b(1) mr(1,2) u(3) by (simp add: placed_def)
  next
    case False
    then have "x \<in> set (ram_list uc)" using x u(4) by simp
    then obtain b' r where b': "rb_store uc x = Some b'" "rb_mr b' \<in> set (mapped_blocks uc)"
      "mr_store uc (rb_mr b') = Some r" "mr_ram r" "mr_ram_block r = Some x" using ri by (auto simp: ram_inv_def)
    moreover have "rb_mr b' \<noteq> p" using b'(3) p by auto
    ultimately show ?thesis using False u(3) by (intro exI [of _ b'] exI [of _ r]) simp
  qed
  have own: "x \<in> set (ram_list ?u) \<and> rb_mr (the (rb_store ?u x)) = p'"
    if p': "p' \<in> set (mapped_blocks ?u)" "mr_store ?u p' = Some r" "mr_ram r" "mr_ram_block r = Some x" for p' r x
  proof (cases "p' = p")
    case True
    then have "r = ?r" using p'(2) by simp
    then have "x = q" using p'(4) mr(2) by (simp add: placed_def)
    then show ?thesis using True u(3,4) b(1) by simp
  next
    case False
    then have "p' \<in> set (mapped_blocks uc)" "mr_store uc p' = Some r" using p'(1,2) by simp_all
    then have "x \<in> set (ram_list uc) \<and> rb_mr (the (rb_store uc x)) = p'" using ri p'(3,4) by (simp add: ram_inv_def)
    moreover have "x \<noteq> q" using calculation ri q by (auto simp: ram_inv_def)
    ultimately show ?thesis using u(3,4) by simp
  qed
  have "finite (dom (mr_store ?u))" "finite (dom (rb_store ?u))" using ri u(3) by (simp_all add: ram_inv_def)
  then show "ram_inv ?u" unfolding ram_inv_def using new own u(5) by simp
qed

text \<open>The first half of \<^verbatim>\<open>memory_map\<close>: a region with zeroed host memory of its own.\<close>

lemma init_ram_ok:
  assumes env: "alloc_ok env" "memory_left env" and uc: "invalid_error uc = UC_ERR_OK" "ram_room uc len" "ram_inv uc"
    and len: "len = ROUND_UP sz (qemu_host_page_size uc)" and sz: "sz \<noteq> -1"
  shows "\<exists>u mr q b h. memory_region_init_ram env p sz perms uc = Some u \<and> same_engine uc u \<and>
    mr_store u = (mr_store uc)(p \<mapsto> mr) \<and> rb_store u = (rb_store uc)(q \<mapsto> b) \<and> rb_store uc q = None \<and>
    set (ram_list u) = insert q (set (ram_list uc)) \<and> distinct (ram_list u) \<and> host_mem u = zero_host h (unat len) (host_mem uc) \<and>
    mr_ram mr \<and> mr_ram_block mr = Some q \<and> mr_enabled mr \<and> mr_terminates mr \<and> mr_subregions mr = [] \<and>
    mr_size mr = uint sz \<and> mr_addr mr = 0 \<and> mr_container mr = None \<and> mr_perms mr = perms \<and>
    mr_readonly mr = (perms AND UC_PROT_WRITE = 0) \<and>
    rb_mr b = p \<and> rb_host b = Some h \<and> rb_used_length b = len \<and> rb_max_length b = len \<and>
    find_ram_offset (target_page_bits uc) (ram_blocks uc) len = Some (rb_offset b) \<and>
    (\<forall>q b h'. rb_store uc q = Some b \<longrightarrow> rb_host b = Some h' \<longrightarrow> h + unat len \<le> h' \<or> h' + unat (rb_max_length b) \<le> h)"
proof -
  define mr where "mr = (memory_region_init sz)\<lparr>mr_ram := True, mr_readonly := (perms AND UC_PROT_WRITE = 0),
    mr_perms := perms, mr_terminates := True, mr_destructor := memory_region_destructor_ram\<rparr>"
  define u0 where "u0 = uc\<lparr>mr_store := (mr_store uc)(p \<mapsto> mr)\<rparr>"
  have live: "\<forall>q \<in> set (ram_list uc). rb_store uc q \<noteq> None" "finite (dom (rb_store uc))" "distinct (ram_list uc)"
    using uc(3) by (auto simp: ram_inv_def)
  have "invalid_error u0 = UC_ERR_OK" "ram_room u0 len" "\<forall>q \<in> set (ram_list u0). rb_store u0 q \<noteq> None"
    "finite (dom (rb_store u0))" "len = (if None = (None :: nat option) then ROUND_UP sz (qemu_host_page_size u0) else sz)"
    using uc live len by (simp_all add: u0_def ram_room_def ram_blocks_def)
  from ram_alloc [OF env this, of p, unfolded option.case] obtain q b l mem h where r: "qemu_ram_alloc_from_ptr env sz None p u0 =
      Some (Some q, u0\<lparr>rb_store := (rb_store u0)(q \<mapsto> b), ram_list := l, ram_mru_block := None, invalid_addr := 0, host_mem := mem\<rparr>)"
    "rb_store u0 q = None" "set l = insert q (set (ram_list u0))" "distinct (ram_list u0) \<longrightarrow> distinct l"
    "rb_mr b = p" "rb_host b = Some h" "rb_used_length b = len" "rb_max_length b = len"
    "find_ram_offset (target_page_bits u0) (ram_blocks u0) len = Some (rb_offset b)"
    "mem = zero_host h (unat len) (host_mem u0)"
    "\<forall>q b h'. rb_store u0 q = Some b \<longrightarrow> rb_host b = Some h' \<longrightarrow> h + unat len \<le> h' \<or> h' + unat (rb_max_length b) \<le> h"
    by (elim exE conjE) (rule that)
  let ?mr = "mr\<lparr>mr_ram_block := Some q\<rparr>"
  let ?u = "uc\<lparr>mr_store := (mr_store uc)(p \<mapsto> ?mr), rb_store := (rb_store uc)(q \<mapsto> b), ram_list := l, ram_mru_block := None,
    invalid_addr := 0, host_mem := mem\<rparr>"
  have e: "memory_region_init_ram env p sz perms uc = Some ?u"
    using r(1) by (simp add: memory_region_init_ram_def mr_def [symmetric] u0_def upd_mr_def)
  have s: "same_engine uc ?u" unfolding same_engine_def by (intro exI) (rule refl)
  have m: "mr_ram mr" "mr_enabled mr" "mr_terminates mr" "mr_subregions mr = []" "mr_size mr = uint sz" "mr_addr mr = 0"
    "mr_container mr = None" "mr_perms mr = perms" "mr_readonly mr = (perms AND UC_PROT_WRITE = 0)"
    using sz by (simp_all add: mr_def memory_region_init_def mr_zero_def)
  show ?thesis
    by (rule exI [of _ ?u], rule exI [of _ ?mr], rule exI [of _ q], rule exI [of _ b], rule exI [of _ h])
       (use e s m r live in \<open>simp add: u0_def ram_blocks_def\<close>)
qed

definition zero_area :: "u64 \<Rightarrow> u64 \<Rightarrow> (u64 \<rightharpoonup> u8) \<Rightarrow> u64 \<rightharpoonup> u8" where
  "zero_area a sz m = (\<lambda>x. if a \<le> x \<and> x \<le> a + sz - 1 then Some 0 else m x)"

text \<open>What else a mapping changes: one more entry of the table, and one more RAM block of length \<^term>\<open>len\<close>.\<close>

definition all_ram :: "'c uc_struct \<Rightarrow> bool" where
  "all_ram uc \<longleftrightarrow> (\<forall>p \<in> set (mapped_blocks uc). mr_ram (the (mr_store uc p)))"

definition map_frame :: "u64 \<Rightarrow> 'c uc_struct \<Rightarrow> 'c uc_struct \<Rightarrow> bool" where
  "map_frame len uc v \<longleftrightarrow> target_page_bits v = target_page_bits uc \<and> qemu_host_page_size v = qemu_host_page_size uc \<and>
     invalid_error v = invalid_error uc \<and> length (mapped_blocks v) = Suc (length (mapped_blocks uc)) \<and>
     (all_ram uc \<longrightarrow> all_ram v) \<and>
     (\<exists>q b. rb_store uc q = None \<and> rb_store v = (rb_store uc)(q \<mapsto> b) \<and> set (ram_list v) = insert q (set (ram_list uc)) \<and>
        rb_max_length b = len \<and> find_ram_offset (target_page_bits uc) (ram_blocks uc) len = Some (rb_offset b))"

lemma mem_map_post:
  assumes inv: "mem_inv uc" "no_alias uc" and env: "alloc_ok env" "memory_left env" "env_mem_redirect env = None"
    and uc: "invalid_error uc = UC_ERR_OK" "Suc (length (mapped_blocks uc)) < 2 ^ target_page_bits uc"
    and len: "len = ROUND_UP sz (qemu_host_page_size uc)" "ram_room uc len" "sz \<le> len"
    and chk: "mem_map_check uc a sz perms = Some UC_ERR_OK"
  shows "\<exists>v. uc_mem_map env a sz perms uc = Some (UC_ERR_OK, v) \<and> mem_inv v \<and> no_alias v \<and>
    ram_of v = zero_area a sz (ram_of uc) \<and> map_frame len uc v"
proof -
  have sh: "shape_inv uc" and ri: "ram_inv uc" and tab: "table_inv uc" using inv(1) by (simp_all add: mem_inv_def shape_inv_def)
  have "target_page_align uc = mask (target_page_bits uc)" "0 < target_page_bits uc" "target_page_bits uc \<le> 16"
    using sh by (simp_all add: shape_inv_def)
  note pr = page_region [OF tab chk this]
  define p where "p = env_new_mr env uc"
  have p: "mr_store uc p = None" using env(1) ri by (simp add: alloc_ok_def ram_inv_def p_def)
  from init_ram_ok [OF env(1,2) uc(1) len(2) ri len(1) pr(1), of p perms]
  obtain u mr q b h where i: "memory_region_init_ram env p sz perms uc = Some u" "same_engine uc u"
    "mr_store u = (mr_store uc)(p \<mapsto> mr)" and rb: "rb_store u = (rb_store uc)(q \<mapsto> b)" "rb_store uc q = None"
    and l: "set (ram_list u) = insert q (set (ram_list uc))" "distinct (ram_list u)"
    and mem: "host_mem u = zero_host h (unat len) (host_mem uc)"
    and mr: "mr_ram mr" "mr_ram_block mr = Some q" "mr_enabled mr" "mr_terminates mr" "mr_subregions mr = []"
      "mr_size mr = uint sz" "mr_addr mr = 0" "mr_container mr = None" "mr_perms mr = perms"
      "mr_readonly mr = (perms AND UC_PROT_WRITE = 0)"
    and b: "rb_mr b = p" "rb_host b = Some h" "rb_used_length b = len" "rb_max_length b = len"
    and off: "find_ram_offset (target_page_bits uc) (ram_blocks uc) len = Some (rb_offset b)"
    and apart: "\<forall>q b h'. rb_store uc q = Some b \<longrightarrow> rb_host b = Some h' \<longrightarrow> h + unat len \<le> h' \<or> h' + unat (rb_max_length b) \<le> h"
    by (elim exE conjE) (rule that)
  note sel = same_engine_sel [OF i(2)]
  let ?r = "placed (system_memory uc) a mr"
  have le: "uint sz \<le> uint (rb_used_length b)" "uint sz \<le> uint (rb_max_length b)" using b len(3) by (simp_all add: word_le_def)
  have perm: "mr_perms mr AND UC_PROT_WRITE \<noteq> 0 \<longrightarrow> \<not> mr_readonly mr" using mr(9,10) by simp
  note reg = ram_region_ok [OF sh p rb(2) chk mr(1-6) perm sel(1,4) rb(1) l b(1,2) le]
  have old: "\<forall>x. rb_store uc x \<noteq> None \<longrightarrow> rb_store u x = rb_store uc x" using rb by auto
  have cov: "\<forall>x. mr_covers ?r x \<longrightarrow> \<not> mapped uc x"
    using mem_map_check_OK(6) [OF tab chk] by (simp add: reg(3))
  have re: "env_realloc_ok env v" for v using env(2) by (simp add: memory_left_def)
  from add_region_ok [OF inv(1) p i(2,3) old mr(8) reg(1,2) cov uc(2) re]
  obtain sys pos v where v: "(do { v \<leftarrow> memory_region_add_subregion env (system_memory u) a p u;
        mem_map env (Some p) (tlb_flush_uc env v) }) = Some (UC_ERR_OK, v)" "mem_inv v"
    "mr_store uc (system_memory uc) = Some sys"
    "mr_store v = (mr_store uc)(p \<mapsto> ?r, system_memory uc \<mapsto> with_child p sys)"
    "mapped_blocks v = insert_at pos p (mapped_blocks uc)" "rb_store v = rb_store u" "host_mem v = host_mem u"
    "ram_list v = ram_list u" "target_page_bits v = target_page_bits uc"
    "qemu_host_page_size v = qemu_host_page_size uc" "invalid_error v = invalid_error uc"
    by (elim exE conjE) (rule that)
  have run: "uc_mem_map env a sz perms uc = Some (UC_ERR_OK, v)"
    using v(1) chk i(1,3) mr(2,7) sh env(3)
    by (simp add: uc_mem_map_def UC_INIT_def shape_inv_def redirect_def memory_map_def memory_map_finish_def p_def [symmetric] bind_assoc)
  have sv: "shape_inv v" using v(2) by (simp add: mem_inv_def)
  have ps: "p \<noteq> system_memory uc" using p v(3) by auto
  have vp: "mr_store v p = Some ?r" using v(4) ps by simp
  have keep: "mr_store v x = mr_store uc x" if "x \<in> set (mapped_blocks uc)" for x
    using that v(4) sh p by (auto simp: shape_inv_def table_inv_def)
  have rbv: "rb_store v x = rb_store uc x" if "rb_store uc x \<noteq> None" for x using that old v(6) by simp
  have host: "ram_host v ?r = h" using rb b mr(2) v(6) by (simp add: ram_host_def placed_def)
  have ln: "unat sz \<le> unat len" using len(3) by (simp only: word_le_nat_alt)
  have "no_alias v"
  proof (rule no_alias_added [OF sh inv(2) vp v(5) keep rbv])
    fix q b h' assume "rb_store uc q = Some b" "rb_host b = Some h'"
    then have "h + unat len \<le> h' \<or> h' + unat (rb_max_length b) \<le> h" using apart by blast
    then show "ram_host v ?r + nat (mr_size ?r) \<le> h' \<or> h' + unat (rb_max_length b) \<le> ram_host v ?r"
      unfolding host using ln mr(6) by (auto simp: placed_def)
  qed
  moreover have "ram_of v x = zero_area a sz (ram_of uc) x" for x
  proof -
    have "ram_of v x = (if mr_covers ?r x
        then (if mr_ram ?r then Some (host_mem v (ram_host v ?r + unat (x - mr_addr ?r))) else None) else ram_of uc x)"
    proof (rule ram_of_added [OF sh sv vp v(5) keep rbv])
      fix q b h' j assume "rb_store uc q = Some b" "rb_host b = Some h'" "j < unat (rb_max_length b)"
      moreover from this have "h + unat len \<le> h' \<or> h' + unat (rb_max_length b) \<le> h" using apart by blast
      ultimately show "host_mem v (h' + j) = host_mem uc (h' + j)" by (auto simp: v(7) mem zero_host_def)
    qed
    moreover have "host_mem v (h + unat (x - a)) = 0" if "a \<le> x" "x \<le> a + sz - 1"
    proof -
      have "mr_covers ?r x" using that by (simp add: reg(3))
      then have "uint (x - mr_addr ?r) < mr_size ?r"
        using block_geometry(2,4) [of ?r x] block_ok_geometry [OF reg(1)] by simp
      then have "x - a < sz" by (simp add: word_less_def placed_def mr(6))
      then have "unat (x - a) < unat len" using ln by (simp add: word_less_nat_alt)
      then show ?thesis by (simp add: v(7) mem zero_host_def)
    qed
    ultimately show ?thesis unfolding host using mr(1) by (simp add: zero_area_def reg(3)) (simp add: placed_def)
  qed
  moreover have "map_frame len uc v"
  proof -
    have "all_ram v" if "all_ram uc"
      using that keep vp mr(1) by (auto simp: all_ram_def v(5) placed_def)
    then show ?thesis unfolding map_frame_def using v(5-11) rb l(1) b(4) off
      by (intro conjI exI [of _ q] exI [of _ b]) (simp_all add: insert_at_def)
  qed
  ultimately show ?thesis using run v(2) by (intro exI [of _ v]) auto
qed

definition map_args :: "nat \<Rightarrow> u64 \<Rightarrow> u64 \<Rightarrow> u32 \<Rightarrow> bool" where
  "map_args bits a sz perms \<longleftrightarrow> sz \<noteq> 0 \<and> a \<le> a + sz - 1 \<and> 2 ^ bits dvd uint a \<and> 2 ^ bits dvd uint sz \<and>
    perms AND NOT UC_PROT_ALL = 0"

lemma dvd_aligned:
  assumes "2 ^ n dvd uint (x :: u64)" "n \<le> 32" shows "x AND ucast (mask n :: u32) = (0 :: u64)"
proof -
  have m: "ucast (mask n :: u32) = (mask n :: u64)" using assms(2) by (auto intro!: bit_word_eqI simp: bit_simps)
  have "take_bit n (uint x) = 0" using assms(1) by (simp add: take_bit_eq_0_iff)
  then have "uint (take_bit n x) = 0" by (simp add: unsigned_take_bit_eq)
  then show ?thesis unfolding m by (simp add: take_bit_eq_mask uint_0_iff)
qed

section \<open>Properties\<close>

text \<open>The engine of the examples, with one region of RAM from 4096 to 12287.\<close>

lemma demo_pages:
  "\<exists>uc :: unit uc_struct. mem_inv uc \<and> no_alias uc \<and> invalid_error uc = UC_ERR_OK \<and> length (mapped_blocks uc) = 1 \<and>
    target_page_bits uc = 12 \<and> qemu_host_page_size uc = 4096 \<and> ram_room uc 8192 \<and>
    (\<forall>x. mapped uc x \<longleftrightarrow> 4096 \<le> x \<and> x \<le> 12287) \<and> ram_of uc 4096 = Some 0"
proof -
  let ?d = "demo_shape\<lparr>qemu_host_page_size := 4096\<rparr>"
  have "shape_inv ?d" using demo_shape_inv
    by (simp add: shape_inv_def sys_root_def table_inv_def blocks_of_def block_ok_def ram_inv_def)
  then obtain ass cpu where i: "mem_inv (?d\<lparr>address_spaces := ass, flat_view_gen := Suc (flat_view_gen ?d),
      memory_region_update_pending := False, uc_cpu := cpu\<rparr>)"
    using commit_mem_inv [of ?d plain_env] by (auto simp: demo_shape_def)
  let ?uc = "?d\<lparr>address_spaces := ass, flat_view_gen := Suc (flat_view_gen ?d),
      memory_region_update_pending := False, uc_cpu := cpu\<rparr>"
  have "no_alias ?uc" by (simp add: no_alias_def demo_shape_def)
  moreover have "ram_room ?uc 8192"
    by (simp add: ram_room_def ram_blocks_def demo_shape_def find_ram_offset_def ROUND_UP_def RAM_ADDR_MAX_def)
  moreover have "\<forall>x. mapped ?uc x \<longleftrightarrow> 4096 \<le> x \<and> x \<le> 12287"
    by (simp add: mapped_def blocks_of_def demo_shape_def mr_covers_def mr_last_def memory_region_init_def)
  moreover have "ram_of ?uc 4096 = Some 0"
    by (simp add: ram_of_def demo_shape_def uc_zero_def mr_covers_def mr_last_def)
  ultimately show ?thesis using i by (intro exI [of _ ?uc]) (simp add: demo_shape_def uc_zero_def)
qed

lemma demo_free:
  fixes uc :: "'c uc_struct"
  assumes "mem_inv uc" "target_page_bits uc = 12" "\<forall>x. mapped uc x \<longleftrightarrow> 4096 \<le> x \<and> x \<le> 12287"
  shows "mem_map_check uc 16384 8192 7 = Some UC_ERR_OK"
proof -
  have t: "table_inv uc" "target_page_align uc = 4095" using assms(1,2)
    by (simp_all add: mem_inv_def shape_inv_def mask_eq_decr_exp)
  have "memory_overlap uc 16384 8192 = Some False"
    using memory_overlap_exact [OF t(1), of 16384 8192] assms(3) by (auto simp: word_le_nat_alt)
  then show ?thesis using t(2) by (simp add: mem_map_check_def UC_PROT_ALL_def)
qed

text \<open>
  C4: mapping an area that passes the checks succeeds. The guest sees the area as zeros and every
  other byte as before, the new host memory overlaps no other block, and the invariant of the engine
  (the table, the tree of regions, the RAM blocks and the views) holds again.
\<close>

theorem mem_map_correct:
  assumes "mem_inv uc" "no_alias uc" "alloc_ok env" "memory_left env" "env_mem_redirect env = None"
    and "invalid_error uc = UC_ERR_OK" "Suc (length (mapped_blocks uc)) < 2 ^ target_page_bits uc"
    and "ram_room uc (ROUND_UP sz (qemu_host_page_size uc))" "sz \<le> ROUND_UP sz (qemu_host_page_size uc)"
    and "mem_map_check uc a sz perms = Some UC_ERR_OK"
  shows "\<exists>uc'. uc_mem_map env a sz perms uc = Some (UC_ERR_OK, uc') \<and> mem_inv uc' \<and> no_alias uc' \<and>
    ram_of uc' = (\<lambda>x. if a \<le> x \<and> x \<le> a + sz - 1 then Some 0 else ram_of uc x)"
  using mem_map_post [OF assms(1-7) refl assms(8-10)] by (auto simp: zero_area_def)

theorem mem_map_correct_witness:
  "\<exists>uc uc' :: unit uc_struct. uc_mem_map plain_env 16384 8192 7 uc = Some (UC_ERR_OK, uc') \<and> mem_inv uc' \<and>
    ram_of uc' 16384 = Some 0 \<and> ram_of uc' 4096 = Some 0"
proof -
  obtain uc :: "unit uc_struct" where uc: "mem_inv uc" "no_alias uc" "invalid_error uc = UC_ERR_OK"
    "length (mapped_blocks uc) = 1" "target_page_bits uc = 12" "qemu_host_page_size uc = 4096" "ram_room uc 8192"
    "\<forall>x. mapped uc x \<longleftrightarrow> 4096 \<le> x \<and> x \<le> 12287" "ram_of uc 4096 = Some 0" using demo_pages by blast
  have r: "ROUND_UP 8192 (qemu_host_page_size uc) = 8192" using uc(6) by (simp add: ROUND_UP_def)
  have "env_mem_redirect plain_env = None" by (simp add: plain_env_def)
  from mem_map_correct [OF uc(1,2) plain_alloc this uc(3), of 8192 16384 7] demo_free [OF uc(1,5,8)]
  obtain uc' where "uc_mem_map plain_env 16384 8192 7 uc = Some (UC_ERR_OK, uc')" "mem_inv uc'"
    "ram_of uc' = (\<lambda>x. if 16384 \<le> x \<and> x \<le> 16384 + 8192 - 1 then Some 0 else ram_of uc x)"
    using uc(4,5,7) r by auto
  then show ?thesis using uc(9) by (intro exI [of _ uc] exI [of _ uc']) simp
qed

lemma mem_map_check_value:
  assumes "mem_inv uc" "env_mem_redirect env = None"
  shows "mem_map_check uc a sz perms = Some (if \<not> map_args (target_page_bits uc) a sz perms then UC_ERR_ARG
      else if \<exists>x. a \<le> x \<and> x \<le> a + sz - 1 \<and> mapped uc x then UC_ERR_MAP else UC_ERR_OK) \<and>
    (\<forall>err. mem_map_check uc a sz perms = Some err \<longrightarrow> err \<noteq> UC_ERR_OK \<longrightarrow>
      uc_mem_map env a sz perms uc = Some (err, uc))"
proof -
  have sh: "shape_inv uc" and tab: "table_inv uc" using assms(1) by (simp_all add: mem_inv_def shape_inv_def)
  have al: "target_page_align uc = mask (target_page_bits uc)" "target_page_bits uc \<le> 32"
    using sh by (simp_all add: shape_inv_def)
  let ?args = "map_args (target_page_bits uc) a sz perms"
  have pg: "x AND ucast (target_page_align uc) = 0 \<longleftrightarrow> 2 ^ target_page_bits uc dvd uint x" for x :: u64
    unfolding al(1) using dvd_aligned aligned_dvd al(2) by blast
  have a: "?args \<longleftrightarrow> sz \<noteq> 0 \<and> \<not> a + sz - 1 < a \<and> a AND ucast (target_page_align uc) = 0 \<and>
      sz AND ucast (target_page_align uc) = 0 \<and> perms AND NOT UC_PROT_ALL = 0"
    unfolding map_args_def pg not_less ..
  have ok: "memory_overlap uc a sz = Some (\<exists>x. a \<le> x \<and> x \<le> a + sz - 1 \<and> mapped uc x)" if ?args
    using memory_overlap_exact [OF tab, of a sz] that by (simp add: map_args_def)
  have "mem_map_check uc a sz perms = Some (if \<not> ?args then UC_ERR_ARG
      else if \<exists>x. a \<le> x \<and> x \<le> a + sz - 1 \<and> mapped uc x then UC_ERR_MAP else UC_ERR_OK)"
  proof (cases ?args)
    case True
    then show ?thesis using ok [OF True] by (simp add: mem_map_check_def a [THEN iffD1])
  next
    case False
    then show ?thesis unfolding a by (simp add: mem_map_check_def) blast
  qed
  moreover have "uc_mem_map env a sz perms uc = Some (err, uc)"
    if "mem_map_check uc a sz perms = Some err" "err \<noteq> UC_ERR_OK" for err
    using that sh assms(2) by (simp add: uc_mem_map_def shape_inv_def redirect_def)
  ultimately show ?thesis by blast
qed



end
