(* ===== verification/RamOffset.thy ===== *)
theory RamOffset
  imports MemMap
begin

text \<open>
  The placement of RAM blocks in the address space of the RAM list (\<^verbatim>\<open>find_ram_offset\<close> in
  \<^verbatim>\<open>qemu/exec.c\<close>): the offset that the best-fit search returns keeps the blocks aligned and apart, and
  the search succeeds as long as the space behind the last block has room. Blocks are aligned to
  \<^verbatim>\<open>BITS_PER_LONG\<close> pages, which is 64 on the hosts modelled here.
\<close>

section \<open>Blocks that are apart\<close>

definition block_end :: "RAMBlock \<Rightarrow> int" where
  "block_end b = uint (rb_offset b) + uint (rb_max_length b)"

definition blocks_apart :: "RAMBlock \<Rightarrow> RAMBlock \<Rightarrow> bool" where
  "blocks_apart b c \<longleftrightarrow> block_end b \<le> uint (rb_offset c) \<or> block_end c \<le> uint (rb_offset b)"

text \<open>Blocks start on a border of 64 pages, are not empty, and end so that the next border can be computed.\<close>

definition offsets_ok :: "nat \<Rightarrow> RAMBlock list \<Rightarrow> bool" where
  "offsets_ok bits bs \<longleftrightarrow> pairwise blocks_apart (set bs) \<and>
     (\<forall>b \<in> set bs. 2 ^ (bits + 6) dvd uint (rb_offset b) \<and> 0 < uint (rb_max_length b) \<and> block_end b + 2 ^ (bits + 6) \<le> 2 ^ 64)"

definition candidate_of :: "nat \<Rightarrow> RAMBlock \<Rightarrow> u64" where
  "candidate_of bits b = ROUND_UP (rb_offset b + rb_max_length b) (push_bit bits 64)"

definition gap_of :: "nat \<Rightarrow> RAMBlock list \<Rightarrow> RAMBlock \<Rightarrow> u64" where
  "gap_of bits bs b = next_block_offset (candidate_of bits b) bs RAM_ADDR_MAX - candidate_of bits b"

lemma candidate_bounds:
  assumes "offsets_ok bits bs" "b \<in> set bs" "bits \<le> 16"
  shows "block_end b \<le> uint (candidate_of bits b)" "uint (candidate_of bits b) < block_end b + 2 ^ (bits + 6)"
    "2 ^ (bits + 6) dvd uint (candidate_of bits b)" "candidate_of bits b \<noteq> RAM_ADDR_MAX" "0 < uint (candidate_of bits b)"
proof -
  have ok: "0 < uint (rb_max_length b)" "block_end b + 2 ^ (bits + 6) \<le> 2 ^ 64" using assms(1,2) by (auto simp: offsets_ok_def)
  have e: "uint (rb_offset b + rb_max_length b) = block_end b"
  proof -
    have "(0 :: int) < 2 ^ (bits + 6)" by simp
    then have "uint (rb_offset b) + uint (rb_max_length b) < 2 ^ 64" using ok(2) unfolding block_end_def by linarith
    then show ?thesis by (simp add: block_end_def uint_plus_if')
  qed
  have p: "push_bit bits (64 :: u64) = 2 ^ (bits + 6)" by (simp add: push_bit_eq_mult power_add)
  have n: "uint (rb_offset b + rb_max_length b) + 2 ^ (bits + 6) \<le> 2 ^ 64" "bits + 6 < 64" using ok(2) e assms(3) by simp_all
  note r = uint_round_up [OF n(2,1), folded p, folded candidate_of_def, unfolded e]
  show b: "block_end b \<le> uint (candidate_of bits b)" "uint (candidate_of bits b) < block_end b + 2 ^ (bits + 6)"
    and d: "2 ^ (bits + 6) dvd uint (candidate_of bits b)" by (rule r)+
  show "0 < uint (candidate_of bits b)" using b(1) ok(1) uint_ge_0 [of "rb_offset b"] unfolding block_end_def by linarith
  show "candidate_of bits b \<noteq> RAM_ADDR_MAX"
  proof
    assume "candidate_of bits b = RAM_ADDR_MAX"
    then have "uint (candidate_of bits b) = 2 ^ 64 - 1" by (simp add: RAM_ADDR_MAX_def uint_word_ariths)
    moreover have "(2 :: int) dvd uint (candidate_of bits b)" using d by (rule dvd_trans [rotated]) simp
    ultimately show False by simp
  qed
qed

section \<open>The search\<close>

lemma next_block_offset_le:
  "next_block_offset c bs n \<le> n \<and> (\<forall>b \<in> set bs. c \<le> rb_offset b \<longrightarrow> next_block_offset c bs n \<le> rb_offset b)"
  by (induction c bs n rule: next_block_offset.induct) (auto intro: order_trans split: if_splits)

lemma next_block_offset_ge: "c \<le> n \<Longrightarrow> c \<le> next_block_offset c bs n"
  by (induction c bs n rule: next_block_offset.induct) auto

lemma next_block_offset_free: "\<forall>b \<in> set bs. rb_offset b < c \<Longrightarrow> next_block_offset c bs n = n"
  by (induction c bs n rule: next_block_offset.induct) auto

lemma find_gap_step:
  "find_gap bits sz all (b # bs) offset mingap =
    (if sz \<le> gap_of bits all b \<and> gap_of bits all b < mingap
     then find_gap bits sz all bs (candidate_of bits b) (gap_of bits all b)
     else find_gap bits sz all bs offset mingap)"
  by (simp add: Let_def candidate_of_def gap_of_def)

lemma find_gap_result:
  "find_gap bits sz all bs offset mingap = offset \<or>
   (\<exists>b \<in> set bs. find_gap bits sz all bs offset mingap = candidate_of bits b \<and> sz \<le> gap_of bits all b)"
proof (induction bs arbitrary: offset mingap)
  case (Cons b bs)
  then show ?case unfolding find_gap_step by (cases "sz \<le> gap_of bits all b \<and> gap_of bits all b < mingap") auto
qed simp

lemma find_gap_found:
  assumes "b \<in> set bs" "sz \<le> gap_of bits all b" "gap_of bits all b < mingap"
  shows "\<exists>c \<in> set bs. find_gap bits sz all bs offset mingap = candidate_of bits c"
  using assms
proof (induction bs arbitrary: offset mingap)
  case (Cons c bs)
  show ?case
  proof (cases "sz \<le> gap_of bits all c \<and> gap_of bits all c < mingap")
    case True
    then show ?thesis unfolding find_gap_step
      using find_gap_result [of bits sz all bs "candidate_of bits c" "gap_of bits all c"] by auto
  next
    case False
    then have "b \<in> set bs" using Cons.prems by auto
    then show ?thesis unfolding find_gap_step if_not_P [OF False] using Cons.IH Cons.prems(2,3) by auto
  qed
qed simp

lemma gap_apart:
  assumes ok: "offsets_ok bits bs" and b: "b \<in> set bs" and bits: "bits \<le> 16" and sz: "sz \<le> gap_of bits bs b" and c: "c \<in> set bs"
  shows "uint (candidate_of bits b) + uint sz \<le> uint (rb_offset c) \<or> block_end c \<le> uint (candidate_of bits b)"
    "uint (candidate_of bits b) + uint sz < 2 ^ 64"
proof -
  let ?cand = "candidate_of bits b" and ?nxt = "next_block_offset (candidate_of bits b) bs RAM_ADDR_MAX"
  note cb = candidate_bounds [OF ok b bits]
  have "?cand \<le> RAM_ADDR_MAX" by (simp add: RAM_ADDR_MAX_def)
  then have ge: "?cand \<le> ?nxt" by (rule next_block_offset_ge)
  then have g: "uint ?cand + uint sz \<le> uint ?nxt"
    using sz uint_minus_le [OF ge] by (simp add: gap_of_def word_le_def)
  then show "uint ?cand + uint sz < 2 ^ 64" using u64_range [of ?nxt] by linarith
  show "uint ?cand + uint sz \<le> uint (rb_offset c) \<or> block_end c \<le> uint ?cand"
  proof (cases "?cand \<le> rb_offset c")
    case True
    then have "?nxt \<le> rb_offset c" using next_block_offset_le c by blast
    then show ?thesis using g by (simp add: word_le_def)
  next
    case False
    have "block_end c \<le> uint ?cand"
    proof (cases "c = b")
      case True
      then show ?thesis using cb(1) by simp
    next
      case neq: False
      then have "blocks_apart b c" using ok b c by (auto simp: offsets_ok_def pairwise_def)
      moreover have "\<not> block_end b \<le> uint (rb_offset c)"
      proof
        assume "block_end b \<le> uint (rb_offset c)"
        moreover have "uint (rb_offset c) < uint ?cand" using False by (simp add: word_le_def)
        moreover have "2 ^ (bits + 6) dvd uint ?cand - uint (rb_offset c)"
          using ok c cb(3) by (auto simp: offsets_ok_def)
        ultimately have "2 ^ (bits + 6) \<le> uint ?cand - uint (rb_offset c)" by (intro zdvd_imp_le) auto
        then show False using cb(2) \<open>block_end b \<le> uint (rb_offset c)\<close> by linarith
      qed
      moreover have "uint (rb_offset b) \<le> uint ?cand" using cb(1) uint_ge_0 [of "rb_max_length b"] unfolding block_end_def by linarith
      ultimately show ?thesis by (auto simp: blocks_apart_def)
    qed
    then show ?thesis ..
  qed
qed

lemma find_ram_offset_apart:
  assumes ok: "offsets_ok bits bs" and bits: "bits \<le> 16" and r: "find_ram_offset bits bs sz = Some off"
  shows "2 ^ (bits + 6) dvd uint off \<and> uint off + uint sz < 2 ^ 64 \<and>
    (off = 0 \<or> (\<exists>b \<in> set bs. uint off < block_end b + 2 ^ (bits + 6))) \<and>
    (\<forall>c \<in> set bs. uint off + uint sz \<le> uint (rb_offset c) \<or> block_end c \<le> uint off)"
proof (cases "bs = []")
  case True
  then show ?thesis using r u64_range [of sz] by (auto simp: find_ram_offset_def split: if_splits)
next
  case False
  have "off = find_gap bits sz bs bs RAM_ADDR_MAX RAM_ADDR_MAX" "off \<noteq> RAM_ADDR_MAX"
    using r False by (auto simp: find_ram_offset_def Let_def split: if_splits)
  then obtain b where b: "b \<in> set bs" "off = candidate_of bits b" "sz \<le> gap_of bits bs b"
    using find_gap_result [of bits sz bs bs RAM_ADDR_MAX RAM_ADDR_MAX] by auto
  show ?thesis unfolding b(2)
    using candidate_bounds(2,3) [OF ok b(1) bits] gap_apart [OF ok b(1) bits b(3)] b(1) by auto
qed

lemma find_ram_offset_found:
  assumes ok: "offsets_ok bits bs" and bits: "bits \<le> 16" and sz: "sz \<noteq> 0"
    and room: "\<forall>b \<in> set bs. block_end b + 2 ^ (bits + 6) + uint sz \<le> 2 ^ 64"
  shows "find_ram_offset bits bs sz \<noteq> None"
proof (cases "bs = []")
  case True
  then show ?thesis using sz by (simp add: find_ram_offset_def)
next
  case False
  then have "Max (rb_offset ` set bs) \<in> rb_offset ` set bs" by (intro Max_in) auto
  then obtain b where b: "b \<in> set bs" "rb_offset b = Max (rb_offset ` set bs)" by auto
  note cb = candidate_bounds [OF ok b(1) bits]
  have "rb_offset c < candidate_of bits b" if "c \<in> set bs" for c
  proof -
    have "rb_offset c \<le> rb_offset b" using that unfolding b(2) by (intro Max_ge) auto
    moreover have "0 < uint (rb_max_length b)" using ok b(1) by (simp add: offsets_ok_def)
    ultimately show ?thesis using cb(1) unfolding block_end_def word_less_def word_le_def by linarith
  qed
  then have gap: "gap_of bits bs b = RAM_ADDR_MAX - candidate_of bits b"
    by (simp add: gap_of_def next_block_offset_free)
  have m: "candidate_of bits b \<le> RAM_ADDR_MAX" "uint RAM_ADDR_MAX = 2 ^ 64 - 1"
    by (simp_all add: RAM_ADDR_MAX_def uint_word_ariths)
  have "uint (gap_of bits bs b) = 2 ^ 64 - 1 - uint (candidate_of bits b)" unfolding gap uint_minus_le [OF m(1)] m(2) ..
  moreover have "uint (candidate_of bits b) + uint sz < 2 ^ 64" using room b(1) cb(2) by fastforce
  ultimately have "sz \<le> gap_of bits bs b" "gap_of bits bs b < RAM_ADDR_MAX"
    using cb(5) m(2) unfolding word_le_def word_less_def by linarith+
  from find_gap_found [OF b(1) this] obtain c where "c \<in> set bs"
    "find_gap bits sz bs bs RAM_ADDR_MAX RAM_ADDR_MAX = candidate_of bits c" by blast
  then show ?thesis using candidate_bounds(4) [OF ok _ bits] sz False by (simp add: find_ram_offset_def Let_def)
qed

lemma offsets_ok_insert:
  assumes ok: "offsets_ok bits bs" and bits: "bits \<le> 16" and r: "find_ram_offset bits bs (rb_max_length b) = Some (rb_offset b)"
    and len: "rb_max_length b \<noteq> 0" "block_end b + 2 ^ (bits + 6) \<le> 2 ^ 64" and cs: "set cs = insert b (set bs)"
  shows "offsets_ok bits cs"
proof -
  note f = find_ram_offset_apart [OF ok bits r]
  have "pairwise blocks_apart (set cs)"
    using ok f unfolding cs offsets_ok_def pairwise_insert by (auto simp: blocks_apart_def block_end_def)
  moreover have "0 < uint (rb_max_length b)" using len(1) by (simp add: uint_0_iff order_less_le)
  ultimately show ?thesis using ok f len(2) by (simp add: offsets_ok_def cs)
qed

section \<open>Properties\<close>

definition ram_block_at :: "u64 \<Rightarrow> u64 \<Rightarrow> RAMBlock" where
  "ram_block_at off len = \<lparr>rb_mr = 0, rb_host = None, rb_offset = off, rb_used_length = len, rb_max_length = len,
     rb_flags = 0, rb_page_size = 4096\<rparr>"

text \<open>
  C12: the search for the offset of a new RAM block. An offset that it returns lies on a border of 64
  pages and the new block overlaps none of the others; if every block leaves room for the new one
  behind it, an offset is found, so the engine does not abort.
\<close>

theorem ram_offset_correct:
  assumes "offsets_ok bits bs" "bits \<le> 16" "sz \<noteq> 0"
  shows "(\<forall>off. find_ram_offset bits bs sz = Some off \<longrightarrow> 2 ^ (bits + 6) dvd uint off \<and> uint off + uint sz < 2 ^ 64 \<and>
      (\<forall>c \<in> set bs. uint off + uint sz \<le> uint (rb_offset c) \<or> block_end c \<le> uint off)) \<and>
    ((\<forall>b \<in> set bs. block_end b + 2 ^ (bits + 6) + uint sz \<le> 2 ^ 64) \<longrightarrow> (\<exists>off. find_ram_offset bits bs sz = Some off))"
  using find_ram_offset_apart [OF assms(1,2)] find_ram_offset_found [OF assms] by blast

theorem ram_offset_correct_witness:
  "\<exists>off. find_ram_offset 12 [ram_block_at 0 4096, ram_block_at 524288 4096] 8192 = Some off \<and> 2 ^ 18 dvd uint off"
proof -
  let ?bs = "[ram_block_at 0 4096, ram_block_at 524288 4096]"
  have "offsets_ok 12 ?bs" "\<forall>b \<in> set ?bs. block_end b + 2 ^ (12 + 6) + uint (8192 :: u64) \<le> 2 ^ 64"
    by (simp_all add: offsets_ok_def ram_block_at_def pairwise_insert blocks_apart_def block_end_def)
  then show ?thesis using ram_offset_correct [of 12 ?bs 8192] by auto
qed

end
