(* ===== verification/InitInv.thy ===== *)
theory InitInv
  imports MemMap
begin

text \<open>
  The initialisation of the engine: from a fresh engine, \<^verbatim>\<open>uc_init\<close> sets up the two address spaces and
  the page size so that the invariant of the memory holds, with no memory mapped.
\<close>

section \<open>What the target leaves alone\<close>

text \<open>
  The functions of the target (\<^verbatim>\<open>init_arch\<close>, \<^verbatim>\<open>tcg_exec_init\<close>, \<^verbatim>\<open>cpus_init\<close>, \<^verbatim>\<open>reg_reset\<close>) set function
  pointers, the translator and the CPU, and leave this part of the engine as it is.
\<close>

definition memory_state where
  "memory_state uc = ((mr_store uc, rb_store uc, host_mem uc, system_memory uc, system_io uc, address_spaces uc),
     (mapped_blocks uc, mapped_blocks_memory uc, ram_list uc, memory_region_update_pending uc),
     (target_page_bits uc, target_page_align uc, init_target_page uc, uc_target_bits uc),
     (qemu_host_page_size uc, qemu_real_host_page_size uc, uc_init_done uc, invalid_error uc))"

definition keeps_memory :: "('c uc_struct \<Rightarrow> 'c uc_struct) \<Rightarrow> bool" where
  "keeps_memory f \<longleftrightarrow> (\<forall>uc. memory_state (f uc) = memory_state uc)"

definition arch_ok :: "'c uc_env \<Rightarrow> bool" where
  "arch_ok env \<longleftrightarrow> keeps_memory (env_init_arch env) \<and> keeps_memory (env_tcg_exec_init env) \<and>
     keeps_memory (snd \<circ> env_cpus_init env) \<and>
     (case env_reg_reset env of None \<Rightarrow> True | Some f \<Rightarrow> keeps_memory f)"

lemma mem_inv_state:
  assumes "memory_state u = memory_state v"
  shows "mem_inv u = mem_inv v" "no_alias u = no_alias v" "ram_of u = ram_of v"
proof -
  have s: "mr_store u = mr_store v" "rb_store u = rb_store v" "host_mem u = host_mem v" "system_memory u = system_memory v"
    "system_io u = system_io v" "address_spaces u = address_spaces v" "mapped_blocks u = mapped_blocks v"
    "mapped_blocks_memory u = mapped_blocks_memory v" "ram_list u = ram_list v"
    "memory_region_update_pending u = memory_region_update_pending v" "target_page_bits u = target_page_bits v"
    "target_page_align u = target_page_align v" "uc_init_done u = uc_init_done v"
    using assms by (simp_all add: memory_state_def)
  show "mem_inv u = mem_inv v"
    by (simp add: mem_inv_def shape_inv_def view_inv_def sys_children_def sys_root_def table_inv_def blocks_of_def
        block_ok_def ram_inv_def s)
  show "no_alias u = no_alias v" by (simp add: no_alias_def ram_host_def s)
  show "ram_of u = ram_of v" unfolding ram_of_def ram_host_def s ..
qed

section \<open>The two address spaces\<close>

definition fresh_engine :: "'c uc_struct \<Rightarrow> bool" where
  "fresh_engine uc \<longleftrightarrow> \<not> uc_init_done uc \<and> finite (dom (mr_store uc)) \<and> finite (dom (rb_store uc)) \<and>
     address_spaces uc = [] \<and> mapped_blocks uc = [] \<and> mapped_blocks_memory uc = TableNull \<and> ram_list uc = [] \<and>
     \<not> memory_region_update_pending uc \<and> qemu_host_page_size uc = 0"

lemma new_mr_fresh: "alloc_ok env \<Longrightarrow> finite (dom (mr_store uc)) \<Longrightarrow> mr_store uc (env_new_mr env uc) = None"
  unfolding alloc_ok_def by blast

lemma memory_map_init_ok:
  assumes env: "alloc_ok env" and fin: "finite (dom (mr_store uc))" and as: "address_spaces uc = []"
    and bits: "0 < target_page_bits uc" "target_page_bits uc \<le> 16"
  shows "\<exists>p q fv fv2. memory_map_init env uc = Some (uc\<lparr>system_memory := p, system_io := q,
      mr_store := (mr_store uc)(p \<mapsto> memory_region_init (-1), q \<mapsto> memory_region_init_io (Some unassigned_io_ops) None 65536),
      address_spaces := [\<lparr>as_root = Some p, as_current_map = Some fv\<rparr>, \<lparr>as_root = Some q, as_current_map = Some fv2\<rparr>]\<rparr>) \<and>
    p \<noteq> q \<and> fv_ranges fv = [] \<and> dispatch_ok (target_page_bits uc) [] (fv_dispatch fv)"
proof -
  define p where "p = env_new_mr env uc"
  let ?st = "(mr_store uc)(p \<mapsto> memory_region_init (-1))"
  have "flat_root ?st p []"
    by (simp add: flat_root_def flat_children_def memory_region_init_def mr_zero_def)
  from set_flatview_sys [OF this, of "target_page_bits uc" "\<lparr>as_root = Some p, as_current_map = None\<rparr>"] bits
  obtain fv where fv: "address_space_set_flatview (target_page_bits uc) ?st \<lparr>as_root = Some p, as_current_map = None\<rparr> =
      Some \<lparr>as_root = Some p, as_current_map = Some fv\<rparr>" "view_of ?st [] (fv_ranges fv)"
    "dispatch_ok (target_page_bits uc) (fv_ranges fv) (fv_dispatch fv)" by (auto simp: page_regions_def)
  let ?uc1 = "uc\<lparr>system_memory := p, mr_store := ?st, address_spaces := [\<lparr>as_root = Some p, as_current_map = Some fv\<rparr>]\<rparr>"
  define q where "q = env_new_mr env ?uc1"
  have "mr_store ?uc1 q = None" unfolding q_def by (rule new_mr_fresh [OF env]) (use fin in simp)
  then have pq: "p \<noteq> q" by auto
  let ?st2 = "?st(q \<mapsto> memory_region_init_io (Some unassigned_io_ops) None 65536)"
  have "io_root ?st2 q"
    by (simp add: io_root_def leaf_region_def memory_region_init_io_def memory_region_init_def mr_zero_def)
  from set_flatview_io [OF this bits, of "\<lparr>as_root = Some q, as_current_map = None\<rparr>"]
  obtain fv2 where fv2: "address_space_set_flatview (target_page_bits uc) ?st2 \<lparr>as_root = Some q, as_current_map = None\<rparr> =
      Some \<lparr>as_root = Some q, as_current_map = Some fv2\<rparr>" by auto
  have "fv_ranges fv = []" using fv(2) by (simp add: view_of_def)
  moreover have "memory_map_init env uc = Some (uc\<lparr>system_memory := p, system_io := q, mr_store := ?st2,
      address_spaces := [\<lparr>as_root = Some p, as_current_map = Some fv\<rparr>, \<lparr>as_root = Some q, as_current_map = Some fv2\<rparr>]\<rparr>)"
    using fv(1) fv2 as by (simp add: memory_map_init_def address_space_init_def p_def [symmetric] q_def [symmetric])
  ultimately show ?thesis using pq fv(3)
    by (intro exI [of _ p] exI [of _ q] exI [of _ fv] exI [of _ fv2]) simp
qed

section \<open>The whole initialisation\<close>

definition page_bits :: "'c uc_env \<Rightarrow> 'c uc_struct \<Rightarrow> nat" where
  "page_bits env uc = target_page_bits (finalize_target_page_bits env uc)"

lemma finalize_frame:
  obtains t where "finalize_target_page_bits env uc = uc\<lparr>init_target_page := t, target_page_bits := page_bits env uc\<rparr>"
proof (cases "env_page_bits_vary env")
  case False
  show thesis by (rule that [of "init_target_page uc"]) (simp add: finalize_target_page_bits_def page_bits_def False)
next
  case True
  show thesis
  proof (cases "init_target_page uc")
    case None
    show thesis by (rule that) (simp add: finalize_target_page_bits_def page_bits_def True None Let_def)
  next
    case (Some t)
    show thesis by (rule that [of "Some t"]) (simp add: finalize_target_page_bits_def page_bits_def True Some)
  qed
qed

lemma page_bits_cong:
  "init_target_page u = init_target_page v \<Longrightarrow> uc_target_bits u = uc_target_bits v \<Longrightarrow>
   target_page_bits u = target_page_bits v \<Longrightarrow> page_bits env u = page_bits env v"
  by (simp add: page_bits_def finalize_target_page_bits_def Let_def split: option.split)

lemma page_align: "bits \<le> 16 \<Longrightarrow> push_bit bits 1 - 1 = (mask bits :: u32)"
  by (simp add: mask_eq_exp_minus_1 push_bit_eq_mult)

text \<open>The engine after \<^verbatim>\<open>page_size_init\<close>, with the flag that \<^verbatim>\<open>uc_init\<close> sets last.\<close>

lemma init_shape:
  assumes u: "mapped_blocks u = []" "mapped_blocks_memory u = TableNull" "ram_list u = []" "\<not> memory_region_update_pending u"
      "finite (dom (rb_store u))" "finite (dom st)" "uc_init_done u" "0 < target_page_bits u" "target_page_bits u \<le> 16"
      "target_page_align u = mask (target_page_bits u)" "system_memory u = p" "system_io u = q" "p \<noteq> q"
    and st: "mr_store u = st(p \<mapsto> memory_region_init (-1), q \<mapsto> memory_region_init_io (Some unassigned_io_ops) None 65536)"
    and as: "address_spaces u = [\<lparr>as_root = Some p, as_current_map = Some fv\<rparr>, \<lparr>as_root = Some q, as_current_map = io\<rparr>]"
      "fv_ranges fv = []" "dispatch_ok (target_page_bits u) [] (fv_dispatch fv)"
  shows "mem_inv u" "no_alias u" "ram_of u = Map.empty"
proof -
  have root: "sys_root u" "sys_children u = []" "io_root (mr_store u) (system_io u)"
    using u st by (simp_all add: sys_root_def sys_children_def io_root_def leaf_region_def memory_region_init_io_def
        memory_region_init_def mr_zero_def)
  have "shape_inv u" using u root as
    by (simp add: shape_inv_def table_inv_def blocks_of_def blocks_sorted_def ram_inv_def st)
  moreover have "view_inv u" using root(2) as by (simp add: view_inv_def view_of_def fv_wf_def)
  ultimately show "mem_inv u" using u(4) by (simp add: mem_inv_def)
  show "no_alias u" "ram_of u = Map.empty" using u(1) by (auto simp: no_alias_def ram_of_def)
qed

lemma uc_init_run:
  fixes uc :: "'c uc_struct"
  assumes fresh: "fresh_engine uc" and env: "alloc_ok env" "arch_ok env" and bits: "0 < page_bits env uc" "page_bits env uc \<le> 16"
  shows "\<exists>failed (u :: 'c uc_struct) v. uc_init env uc = Some (if failed then UC_ERR_RESOURCE else UC_ERR_OK, v) \<and>
    (failed \<longrightarrow> (\<exists>u. fst (env_cpus_init env u)) \<and> \<not> uc_init_done v) \<and>
    (\<not> failed \<longrightarrow> memory_state v = memory_state u \<and> mem_inv u \<and> no_alias u \<and> ram_of u = Map.empty \<and>
       mapped_blocks u = [] \<and> ram_list u = [] \<and> target_page_bits u = page_bits env uc \<and> invalid_error u = invalid_error uc \<and>
       qemu_host_page_size u = max (env_real_host_page_size env) (push_bit (page_bits env uc) 1))"
proof -
  have keep: "memory_state (env_init_arch env x) = memory_state x" "memory_state (env_tcg_exec_init env x) = memory_state x"
    "memory_state (snd (env_cpus_init env x)) = memory_state x"
    "memory_state (case env_reg_reset env of None \<Rightarrow> x | Some f \<Rightarrow> f x) = memory_state x" for x
    using env(2) by (auto simp: arch_ok_def keeps_memory_def split: option.splits)
  define u0 where "u0 = uc\<lparr>hooks_to_del := (hooks_to_del uc)\<lparr>l_delete_fn := Some hook_delete\<rparr>,
         uc_hook := (\<lambda>i. if i < UC_HOOK_MAX then (uc_hook uc i)\<lparr>l_delete_fn := Some hook_delete\<rparr>
           else uc_hook uc i), ctl_exits := g_tree_new_full\<rparr>"
  define u1 where "u1 = env_init_arch env (init_real_host_page_size env u0)"
  have "memory_state u1 = memory_state (uc\<lparr>qemu_real_host_page_size := env_real_host_page_size env\<rparr>)"
    unfolding u1_def keep(1) by (simp add: memory_state_def u0_def init_real_host_page_size_def)
  then have s1: "mr_store u1 = mr_store uc" "rb_store u1 = rb_store uc" "address_spaces u1 = []" "mapped_blocks u1 = []"
    "mapped_blocks_memory u1 = TableNull" "ram_list u1 = []" "\<not> memory_region_update_pending u1" "\<not> uc_init_done u1"
    "qemu_host_page_size u1 = 0" "qemu_real_host_page_size u1 = env_real_host_page_size env" "invalid_error u1 = invalid_error uc"
    "page_bits env u1 = page_bits env uc"
    using fresh by (auto simp: memory_state_def fresh_engine_def intro: page_bits_cong)
  obtain t where f: "finalize_target_page_bits env u1 = u1\<lparr>init_target_page := t, target_page_bits := page_bits env uc\<rparr>"
    using finalize_frame [of env u1] unfolding s1(12) by blast
  define u2 where "u2 = u1\<lparr>init_target_page := t, target_page_bits := page_bits env uc\<rparr>"
  have fin: "finite (dom (mr_store uc))" "finite (dom (rb_store uc))" using fresh by (simp_all add: fresh_engine_def)
  obtain p q fv fv2 where m: "memory_map_init env u2 = Some (u2\<lparr>system_memory := p, system_io := q,
      mr_store := (mr_store uc)(p \<mapsto> memory_region_init (-1), q \<mapsto> memory_region_init_io (Some unassigned_io_ops) None 65536),
      address_spaces := [\<lparr>as_root = Some p, as_current_map = Some fv\<rparr>, \<lparr>as_root = Some q, as_current_map = Some fv2\<rparr>]\<rparr>)"
    "p \<noteq> q" "fv_ranges fv = []" "dispatch_ok (page_bits env uc) [] (fv_dispatch fv)"
    using memory_map_init_ok [OF env(1), of u2] fin s1 bits by (auto simp: u2_def)
  define u3 where "u3 = page_size_init (target_page_init (u2\<lparr>system_memory := p, system_io := q,
      mr_store := (mr_store uc)(p \<mapsto> memory_region_init (-1), q \<mapsto> memory_region_init_io (Some unassigned_io_ops) None 65536),
      address_spaces := [\<lparr>as_root = Some p, as_current_map = Some fv\<rparr>, \<lparr>as_root = Some q, as_current_map = Some fv2\<rparr>]\<rparr>))"
  define u4 where "u4 = snd (env_cpus_init env (env_tcg_exec_init env u3))"
  define failed where "failed = fst (env_cpus_init env (env_tcg_exec_init env u3))"
  have "cpu_exec_init_all env u1 = memory_map_init env u2" by (simp add: cpu_exec_init_all_def f u2_def)
  then have mi: "machine_initialize env u0 = Some (failed, u4)"
    using m(1) by (simp add: machine_initialize_def u1_def [symmetric] u3_def u4_def failed_def)
  have s4: "memory_state u4 = memory_state u3" by (simp only: u4_def keep)
  have h: "qemu_host_page_size u3 = max (env_real_host_page_size env) (push_bit (page_bits env uc) 1)"
    using s1(9,10) by (auto simp: u3_def page_size_init_def target_page_init_def u2_def Let_def max_def)
  have sel: "mapped_blocks u3 = []" "mapped_blocks_memory u3 = TableNull" "ram_list u3 = []" "\<not> memory_region_update_pending u3"
    "rb_store u3 = rb_store uc" "target_page_bits u3 = page_bits env uc" "target_page_align u3 = mask (page_bits env uc)"
    "system_memory u3 = p" "system_io u3 = q" "\<not> uc_init_done u3" "invalid_error u3 = invalid_error uc"
    "mr_store u3 = (mr_store uc)(p \<mapsto> memory_region_init (-1), q \<mapsto> memory_region_init_io (Some unassigned_io_ops) None 65536)"
    "address_spaces u3 = [\<lparr>as_root = Some p, as_current_map = Some fv\<rparr>, \<lparr>as_root = Some q, as_current_map = Some fv2\<rparr>]"
    using s1 page_align [OF bits(2)] by (simp_all add: u3_def page_size_init_def target_page_init_def u2_def Let_def)
  let ?u = "u3\<lparr>uc_init_done := True\<rparr>"
  have inv: "mem_inv ?u" "no_alias ?u" "ram_of ?u = Map.empty"
    by (rule init_shape [where st = "mr_store uc" and p = p and q = q and fv = fv and io = "Some fv2"];
        use sel fin bits m in simp)+
  define v where "v = (if failed then u4 else (case env_reg_reset env of None \<Rightarrow> u4 | Some f \<Rightarrow> f u4)\<lparr>uc_init_done := True\<rparr>)"
  have run: "uc_init env uc = Some (if failed then UC_ERR_RESOURCE else UC_ERR_OK, v)"
    using mi fresh by (simp add: uc_init_def u0_def [symmetric] fresh_engine_def v_def Let_def)
  have st: "memory_state v = memory_state ?u" if "\<not> failed"
  proof -
    have "memory_state (case env_reg_reset env of None \<Rightarrow> u4 | Some f \<Rightarrow> f u4) = memory_state u3" by (simp only: keep s4)
    then show ?thesis using that by (simp add: v_def memory_state_def)
  qed
  have fail: "(\<exists>u. fst (env_cpus_init env u)) \<and> \<not> uc_init_done v" if failed
    using that s4 sel(10) by (auto simp: failed_def v_def memory_state_def)
  show ?thesis
    by (rule exI [of _ failed], rule exI [of _ ?u], rule exI [of _ v]) (use inv run st fail sel h in simp)
qed

section \<open>Properties\<close>

lemma plain_arch: "arch_ok plain_env" "env_mem_redirect plain_env = None" "\<not> fst (env_cpus_init plain_env u)"
  by (simp_all add: arch_ok_def plain_env_def keeps_memory_def)

lemma zero_fresh: "fresh_engine uc_zero" "page_bits plain_env uc_zero = 12"
  by (simp_all add: fresh_engine_def uc_zero_def page_bits_def finalize_target_page_bits_def plain_env_def)

text \<open>
  C11: the initialisation of a fresh engine returns. Unless the CPU cannot be created, the engine then
  satisfies the invariant of the memory system, with no memory mapped and with pages of the host that
  are no smaller than those of the target; otherwise the result is \<^verbatim>\<open>UC_ERR_RESOURCE\<close> and the engine
  counts as uninitialised.
\<close>

theorem uc_init_establishes:
  fixes uc :: "'c uc_struct"
  assumes "fresh_engine uc" "alloc_ok env" "arch_ok env" "0 < page_bits env uc" "page_bits env uc \<le> 16"
  shows "\<exists>failed uc'. uc_init env uc = Some (if failed then UC_ERR_RESOURCE else UC_ERR_OK, uc') \<and>
    uc_init_done uc' = (\<not> failed) \<and> (failed \<longrightarrow> (\<exists>u. fst (env_cpus_init env u))) \<and>
    (\<not> failed \<longrightarrow> mem_inv uc' \<and> no_alias uc' \<and> ram_of uc' = Map.empty \<and> target_page_bits uc' = page_bits env uc \<and>
       qemu_host_page_size uc' = max (env_real_host_page_size env) (2 ^ page_bits env uc))"
proof -
  obtain failed v and u :: "'c uc_struct" where r: "uc_init env uc = Some (if failed then UC_ERR_RESOURCE else UC_ERR_OK, v)"
    "failed \<longrightarrow> (\<exists>u. fst (env_cpus_init env u)) \<and> \<not> uc_init_done v"
    "\<not> failed \<longrightarrow> memory_state v = memory_state u \<and> mem_inv u \<and> no_alias u \<and> ram_of u = Map.empty \<and>
       mapped_blocks u = [] \<and> ram_list u = [] \<and> target_page_bits u = page_bits env uc \<and> invalid_error u = invalid_error uc \<and>
       qemu_host_page_size u = max (env_real_host_page_size env) (push_bit (page_bits env uc) 1)"
    using uc_init_run [OF assms] by blast
  have "mem_inv v \<and> no_alias v \<and> ram_of v = Map.empty \<and> target_page_bits v = page_bits env uc \<and> uc_init_done v \<and>
      qemu_host_page_size v = max (env_real_host_page_size env) (2 ^ page_bits env uc)" if "\<not> failed"
    using r(3) that mem_inv_state [of v u]
    by (simp add: memory_state_def push_bit_eq_mult mem_inv_def shape_inv_def)
  then show ?thesis using r(1,2) by (intro exI [of _ failed] exI [of _ v]) auto
qed

theorem uc_init_establishes_witness:
  "\<exists>uc'. uc_init plain_env uc_zero = Some (UC_ERR_OK, uc') \<and> mem_inv uc' \<and> qemu_host_page_size uc' = 4096"
proof -
  obtain failed uc' where "uc_init plain_env uc_zero = Some (if failed then UC_ERR_RESOURCE else UC_ERR_OK, uc')"
    "failed \<longrightarrow> (\<exists>u. fst (env_cpus_init plain_env u))"
    "\<not> failed \<longrightarrow> mem_inv uc' \<and> qemu_host_page_size uc' = max (env_real_host_page_size plain_env) (2 ^ 12)"
    using uc_init_establishes [OF zero_fresh(1) plain_alloc(1) plain_arch(1)] zero_fresh(2) by auto
  then show ?thesis using plain_arch(3) by (intro exI [of _ uc']) (simp add: plain_env_def)
qed

end
