(* ===== verification/GuestMem.thy ===== *)
theory GuestMem
  imports RamOffset InitInv
begin

text \<open>
  The memory that the engine promises to its client: a partial map from addresses to bytes, with
  \<^verbatim>\<open>uc_mem_map\<close>, \<^verbatim>\<open>uc_mem_write\<close> and \<^verbatim>\<open>uc_mem_read\<close> as operations on it. The contract is a locale, its
  clients are proved once inside it, and the engine is an interpretation.
\<close>

section \<open>The abstract memory\<close>

type_synonym guest = "u64 \<rightharpoonup> u8"

definition spec_write :: "u64 \<Rightarrow> u8 list \<Rightarrow> guest \<Rightarrow> uc_err \<times> guest" where
  "spec_write a bs m =
    (if INT_MAX < of_nat (length bs) then (UC_ERR_ARG, m)
     else if \<exists>i < length bs. m (a + of_nat i) = None then (UC_ERR_WRITE_UNMAPPED, m)
     else (UC_ERR_OK, overwrite m a bs))"

definition spec_read :: "u64 \<Rightarrow> u64 \<Rightarrow> guest \<Rightarrow> uc_err \<times> u8 list" where
  "spec_read a n m =
    (if INT_MAX < n then (UC_ERR_ARG, [])
     else if \<exists>i < unat n. m (a + of_nat i) = None then (UC_ERR_READ_UNMAPPED, [])
     else (UC_ERR_OK, map (\<lambda>i. the (m (a + of_nat i))) [0 ..< unat n]))"

definition area_free :: "u64 \<Rightarrow> u64 \<Rightarrow> guest \<Rightarrow> bool" where
  "area_free a sz m \<longleftrightarrow> \<not> (\<exists>x. a \<le> x \<and> x \<le> a + sz - 1 \<and> m x \<noteq> None)"

definition spec_map :: "nat \<Rightarrow> u64 \<Rightarrow> u64 \<Rightarrow> u32 \<Rightarrow> guest \<Rightarrow> uc_err \<times> guest" where
  "spec_map bits a sz perms m =
    (if \<not> map_args bits a sz perms then (UC_ERR_ARG, m)
     else if \<not> area_free a sz m then (UC_ERR_MAP, m)
     else (UC_ERR_OK, zero_area a sz m))"

datatype mem_op = OpMap u64 u64 u32 | OpWrite u64 "u8 list" | OpRead u64 u64

type_synonym obs = "uc_err \<times> u8 list"

primrec spec_step :: "nat \<Rightarrow> mem_op \<Rightarrow> guest \<Rightarrow> obs \<times> guest" where
  "spec_step bits (OpMap a sz perms) m = (let (err, m) = spec_map bits a sz perms m in ((err, []), m))"
| "spec_step bits (OpWrite a bs) m = (let (err, m) = spec_write a bs m in ((err, []), m))"
| "spec_step bits (OpRead a n) m = (spec_read a n m, m)"

fun spec_run :: "nat \<Rightarrow> mem_op list \<Rightarrow> guest \<Rightarrow> obs list \<times> guest" where
  "spec_run bits [] m = ([], m)"
| "spec_run bits (op # ops) m =
    (let (ob, m) = spec_step bits op m; (obs, m) = spec_run bits ops m in (ob # obs, m))"

text \<open>A sequence of calls on a state; \<^const>\<open>None\<close> if one of them does not return.\<close>

fun run_ops :: "('op \<Rightarrow> 's \<Rightarrow> ('o \<times> 's) option) \<Rightarrow> 'op list \<Rightarrow> 's \<Rightarrow> ('o list \<times> 's) option" where
  "run_ops step [] s = Some ([], s)"
| "run_ops step (op # ops) s = do {
     (ob, s) \<leftarrow> step op s;
     (obs, s) \<leftarrow> run_ops step ops s;
     Some (ob # obs, s) }"

primrec mem_step ::
  "(u64 \<Rightarrow> u64 \<Rightarrow> 's \<Rightarrow> (uc_err \<times> u8 list \<times> 's) option) \<Rightarrow> (u64 \<Rightarrow> u8 list \<Rightarrow> 's \<Rightarrow> (uc_err \<times> 's) option) \<Rightarrow>
   (u64 \<Rightarrow> u64 \<Rightarrow> u32 \<Rightarrow> 's \<Rightarrow> (uc_err \<times> 's) option) \<Rightarrow> mem_op \<Rightarrow> 's \<Rightarrow> (obs \<times> 's) option" where
  "mem_step rd wr mp (OpMap a sz perms) s = do { (err, s) \<leftarrow> mp a sz perms s; Some ((err, []), s) }"
| "mem_step rd wr mp (OpWrite a bs) s = do { (err, s) \<leftarrow> wr a bs s; Some ((err, []), s) }"
| "mem_step rd wr mp (OpRead a n) s = do { (err, bs, s) \<leftarrow> rd a n s; Some ((err, bs), s) }"

text \<open>What a sequence needs: a table slot for each mapping, and the bytes that it asks for.\<close>

primrec op_maps :: "mem_op \<Rightarrow> nat" where
  "op_maps (OpMap a sz perms) = 1"
| "op_maps (OpWrite a bs) = 0"
| "op_maps (OpRead a n) = 0"

primrec op_bytes :: "mem_op \<Rightarrow> nat" where
  "op_bytes (OpMap a sz perms) = unat sz"
| "op_bytes (OpWrite a bs) = 0"
| "op_bytes (OpRead a n) = 0"

primrec op_fits :: "mem_op \<Rightarrow> bool" where
  "op_fits (OpMap a sz perms) = True"
| "op_fits (OpWrite a bs) = (length bs < 2 ^ 64)"
| "op_fits (OpRead a n) = True"

lemma spec_read_cong: "(\<And>i. i < unat n \<Longrightarrow> m (a + of_nat i) = m' (a + of_nat i)) \<Longrightarrow> spec_read a n m = spec_read a n m'"
  by (auto simp: spec_read_def)

lemma spec_map_refused: "fst (spec_map bits a sz perms m) \<noteq> UC_ERR_OK \<Longrightarrow> snd (spec_map bits a sz perms m) = m"
  by (simp add: spec_map_def split: if_splits)

lemma uint_pow64: "j < 64 \<Longrightarrow> uint (2 ^ j :: u64) = 2 ^ j"
proof -
  assume "j < 64"
  then have "(2 :: int) ^ j < 2 ^ 64" by (intro power_strict_increasing) auto
  then show ?thesis using uint_of_int [of "2 ^ j"] by simp
qed

lemma overwrite_apart: "\<forall>j < length bs. x \<noteq> a + of_nat j \<Longrightarrow> overwrite m a bs x = m x"
  by (auto simp: overwrite_def dest: spec [of _ "unat (x - a)"])

section \<open>The contract\<close>

locale guest_memory =
  fixes inv :: "'s \<Rightarrow> bool" and mem :: "'s \<Rightarrow> guest"
    and rd :: "u64 \<Rightarrow> u64 \<Rightarrow> 's \<Rightarrow> (uc_err \<times> u8 list \<times> 's) option"
    and wr :: "u64 \<Rightarrow> u8 list \<Rightarrow> 's \<Rightarrow> (uc_err \<times> 's) option"
  assumes read_law: "inv s \<Longrightarrow> \<exists>s'. rd a n s = Some (fst (spec_read a n (mem s)), snd (spec_read a n (mem s)), s') \<and>
      inv s' \<and> mem s' = mem s"
    and write_law: "inv s \<Longrightarrow> length bs < 2 ^ 64 \<Longrightarrow> \<exists>s'. wr a bs s = Some (fst (spec_write a bs (mem s)), s') \<and>
      inv s' \<and> mem s' = snd (spec_write a bs (mem s))"
begin

text \<open>A client that writes one area sees another one, apart from it, as before.\<close>

lemma write_elsewhere:
  assumes "inv s" "length bs < 2 ^ 64" "\<forall>i < unat n. \<forall>j < length bs. b + of_nat i \<noteq> a + of_nat j"
  shows "\<exists>err s' s''. wr a bs s = Some (err, s') \<and>
    rd b n s' = Some (fst (spec_read b n (mem s)), snd (spec_read b n (mem s)), s'') \<and> inv s''"
proof -
  obtain s' where w: "wr a bs s = Some (fst (spec_write a bs (mem s)), s')" "inv s'" "mem s' = snd (spec_write a bs (mem s))"
    using write_law [OF assms(1,2)] by blast
  have "mem s' (b + of_nat i) = mem s (b + of_nat i)" if "i < unat n" for i
    using assms(2,3) that by (auto simp: w(3) spec_write_def overwrite_apart)
  then have "spec_read b n (mem s') = spec_read b n (mem s)" by (rule spec_read_cong)
  then show ?thesis using read_law [OF w(2), of b n] w(1) by auto
qed

end

locale mapped_memory = guest_memory +
  fixes bits :: "'s \<Rightarrow> nat" and room :: "'s \<Rightarrow> nat \<Rightarrow> nat \<Rightarrow> bool"
    and mp :: "u64 \<Rightarrow> u64 \<Rightarrow> u32 \<Rightarrow> 's \<Rightarrow> (uc_err \<times> 's) option"
  assumes map_law: "inv s \<Longrightarrow> room s (Suc n) (unat sz + c) \<Longrightarrow> \<exists>s'. mp a sz perms s = Some (fst (spec_map (bits s) a sz perms (mem s)), s') \<and>
      inv s' \<and> mem s' = snd (spec_map (bits s) a sz perms (mem s)) \<and> bits s' = bits s \<and> room s' n c"
    and read_room: "inv s \<Longrightarrow> room s n c \<Longrightarrow> rd a k s = Some (err, bs, s') \<Longrightarrow> bits s' = bits s \<and> room s' n c"
    and write_room: "inv s \<Longrightarrow> room s n c \<Longrightarrow> length bs < 2 ^ 64 \<Longrightarrow> wr a bs s = Some (err, s') \<Longrightarrow> bits s' = bits s \<and> room s' n c"
begin

lemma step_refines:
  assumes "inv s" "room s (op_maps op + n) (op_bytes op + c)" "op_fits op"
  shows "\<exists>s'. mem_step rd wr mp op s = Some (fst (spec_step (bits s) op (mem s)), s') \<and> inv s' \<and>
    mem s' = snd (spec_step (bits s) op (mem s)) \<and> bits s' = bits s \<and> room s' n c"
proof (cases op)
  case (OpMap a sz perms)
  then show ?thesis using map_law [OF assms(1), of n sz c a perms] assms(2) by (auto simp: split_beta)
next
  case (OpWrite a bs)
  then show ?thesis using write_law [OF assms(1), of bs a] write_room [OF assms(1), of n c bs a] assms(2,3)
    by (fastforce simp: split_beta)
next
  case (OpRead a n)
  then show ?thesis using read_law [OF assms(1), of a n] read_room [OF assms(1)] assms(2) by (fastforce simp: split_beta)
qed

lemma run_refines:
  assumes "inv s" "room s (sum_list (map op_maps ops)) (sum_list (map op_bytes ops))" "list_all op_fits ops"
  shows "\<exists>s'. run_ops (mem_step rd wr mp) ops s = Some (fst (spec_run (bits s) ops (mem s)), s') \<and> inv s' \<and>
    mem s' = snd (spec_run (bits s) ops (mem s))"
  using assms
proof (induction ops arbitrary: s)
  case (Cons op ops)
  from step_refines [OF Cons.prems(1), of op "sum_list (map op_maps ops)" "sum_list (map op_bytes ops)"] Cons.prems(2,3)
  obtain s1 where s1: "mem_step rd wr mp op s = Some (fst (spec_step (bits s) op (mem s)), s1)" "inv s1"
    "mem s1 = snd (spec_step (bits s) op (mem s))" "bits s1 = bits s"
    "room s1 (sum_list (map op_maps ops)) (sum_list (map op_bytes ops))" by auto
  obtain s2 where "run_ops (mem_step rd wr mp) ops s1 = Some (fst (spec_run (bits s1) ops (mem s1)), s2)" "inv s2"
    "mem s2 = snd (spec_run (bits s1) ops (mem s1))" using Cons.IH [OF s1(2,5)] Cons.prems(3) by auto
  then show ?case using s1(1,3,4) by (auto simp: split_beta Let_def)
qed simp

end

section \<open>The engine\<close>

definition engine_rd :: "u64 \<Rightarrow> u64 \<Rightarrow> 'c uc_env \<times> 'c uc_struct \<Rightarrow> (uc_err \<times> u8 list \<times> 'c uc_env \<times> 'c uc_struct) option" where
  "engine_rd a n s = map_option (\<lambda>(err, bs, uc). (err, bs, fst s, uc)) (uc_mem_read (fst s) a n (snd s))"

definition engine_wr :: "u64 \<Rightarrow> u8 list \<Rightarrow> 'c uc_env \<times> 'c uc_struct \<Rightarrow> (uc_err \<times> 'c uc_env \<times> 'c uc_struct) option" where
  "engine_wr a bs s = map_option (\<lambda>(err, uc). (err, fst s, uc)) (uc_mem_write (fst s) a bs (of_nat (length bs)) (snd s))"

definition engine_mp :: "u64 \<Rightarrow> u64 \<Rightarrow> u32 \<Rightarrow> 'c uc_env \<times> 'c uc_struct \<Rightarrow> (uc_err \<times> 'c uc_env \<times> 'c uc_struct) option" where
  "engine_mp a sz perms s = map_option (\<lambda>(err, uc). (err, fst s, uc)) (uc_mem_map (fst s) a sz perms (snd s))"

definition engine_inv :: "'c uc_env \<times> 'c uc_struct \<Rightarrow> bool" where
  "engine_inv s \<longleftrightarrow> (let env = fst s; uc = snd s in
     mem_inv uc \<and> no_alias uc \<and> all_ram uc \<and> alloc_ok env \<and> memory_left env \<and> env_mem_redirect env = None \<and>
     invalid_error uc = UC_ERR_OK \<and> offsets_ok (target_page_bits uc) (ram_blocks uc) \<and>
     (\<exists>k < 64. qemu_host_page_size uc = 2 ^ k))"

text \<open>
  Room for \<^term>\<open>n\<close> mappings of \<^term>\<open>c\<close> bytes together: slots of the table, and offsets behind every block. A
  mapping loses less than a host page by rounding its size, and less than 64 pages by the alignment.
\<close>

definition map_slack :: "'c uc_struct \<Rightarrow> int" where
  "map_slack uc = 2 ^ (target_page_bits uc + 6) + uint (qemu_host_page_size uc)"

definition engine_room :: "'c uc_env \<times> 'c uc_struct \<Rightarrow> nat \<Rightarrow> nat \<Rightarrow> bool" where
  "engine_room s n c \<longleftrightarrow> (let uc = snd s in
     length (mapped_blocks uc) + n < 2 ^ target_page_bits uc \<and>
     (\<forall>e \<in> insert 0 (block_end ` set (ram_blocks uc)).
        e + int c + int n * map_slack uc + 2 ^ (target_page_bits uc + 6) \<le> 2 ^ 64))"

lemma all_ram_mapped:
  assumes "shape_inv uc" "all_ram uc"
  shows "mapped uc x \<longleftrightarrow> ram_of uc x \<noteq> None"
proof
  assume "mapped uc x"
  then obtain p mr where p: "p \<in> set (mapped_blocks uc)" "mr_store uc p = Some mr" "mr_covers mr x"
    by (rule mapped_region [OF assms(1)])
  then have "mr_ram mr" using assms(2) by (auto simp: all_ram_def)
  then show "ram_of uc x \<noteq> None" using ram_of_region [OF assms(1) p] by simp
next
  assume "ram_of uc x \<noteq> None"
  then show "mapped uc x" using ram_of_mapped [OF assms(1)] by blast
qed

lemma write_frame_all_ram:
  assumes "write_frame uc uc'" "all_ram uc" shows "all_ram uc'"
  unfolding all_ram_def
proof
  fix p assume "p \<in> set (mapped_blocks uc')"
  then have p: "p \<in> set (mapped_blocks uc)" using assms(1) by (simp add: write_frame_def)
  then obtain ro where "the (mr_store uc' p) = (the (mr_store uc p))\<lparr>mr_readonly := ro\<rparr>"
    using assms(1) by (auto simp: write_frame_def)
  then show "mr_ram (the (mr_store uc' p))" using assms(2) p by (simp add: all_ram_def)
qed

lemma engine_invD:
  assumes "engine_inv (env, uc)"
  shows "mem_inv uc" "no_alias uc" "all_ram uc" "alloc_ok env" "memory_left env" "env_mem_redirect env = None"
    "invalid_error uc = UC_ERR_OK" "offsets_ok (target_page_bits uc) (ram_blocks uc)" "shape_inv uc"
    "\<exists>k < 64. qemu_host_page_size uc = 2 ^ k"
  using assms by (simp_all add: engine_inv_def mem_inv_def)

lemma engine_read_law:
  assumes "engine_inv (env, uc)"
  shows "\<exists>uc'. uc_mem_read env a n uc = Some (fst (spec_read a n (ram_of uc)), snd (spec_read a n (ram_of uc)), uc') \<and>
    engine_inv (env, uc') \<and> ram_of uc' = ram_of uc \<and> target_page_bits uc' = target_page_bits uc \<and>
    (engine_room (env, uc) m c \<longrightarrow> engine_room (env, uc') m c)"
proof -
  note i = engine_invD [OF assms]
  consider "INT_MAX < n" | "n \<le> INT_MAX" "\<exists>j < unat n. ram_of uc (a + of_nat j) = None"
    | "n \<le> INT_MAX" "\<forall>j < unat n. ram_of uc (a + of_nat j) \<noteq> None" by force
  then show ?thesis
  proof cases
    case 1
    then show ?thesis using access_refusals [OF i(1,6), of n a] assms by (auto simp: spec_read_def)
  next
    case 2
    then have "uc_mem_read env a n uc = Some (UC_ERR_READ_UNMAPPED, [], uc)"
      using access_refusals [OF i(1,6), of n a] all_ram_mapped [OF i(9,3)] by auto
    then show ?thesis using assms 2 by (auto simp: spec_read_def)
  next
    case 3
    obtain ass where r: "uc_mem_read env a n uc = Some (UC_ERR_OK, map (\<lambda>i. the (ram_of uc (a + of_nat i))) [0 ..< unat n],
        uc\<lparr>address_spaces := ass\<rparr>)" "mem_inv (uc\<lparr>address_spaces := ass\<rparr>)" using uc_mem_read_ram [OF i(1,6) 3] by blast
    have "ram_of (uc\<lparr>address_spaces := ass\<rparr>) = ram_of uc" by (rule ext) (simp add: ram_of_def ram_host_def Let_def cong: option.case_cong)
    then show ?thesis using r 3 assms
      by (intro exI [of _ "uc\<lparr>address_spaces := ass\<rparr>"])
         (auto simp: spec_read_def engine_inv_def engine_room_def map_slack_def all_ram_def no_alias_def ram_host_def ram_blocks_def Let_def)
  qed
qed

lemma engine_write_law:
  assumes "engine_inv (env, uc)" "length bs < 2 ^ 64"
  shows "\<exists>uc'. uc_mem_write env a bs (of_nat (length bs)) uc = Some (fst (spec_write a bs (ram_of uc)), uc') \<and>
    engine_inv (env, uc') \<and> ram_of uc' = snd (spec_write a bs (ram_of uc)) \<and> target_page_bits uc' = target_page_bits uc \<and>
    (engine_room (env, uc) m c \<longrightarrow> engine_room (env, uc') m c)"
proof -
  note i = engine_invD [OF assms(1)]
  let ?n = "of_nat (length bs) :: u64"
  have n: "unat ?n = length bs" using assms(2) by (simp add: unat_of_nat)
  consider "INT_MAX < ?n" | "?n \<le> INT_MAX" "\<exists>j < length bs. ram_of uc (a + of_nat j) = None"
    | "?n \<le> INT_MAX" "\<forall>j < unat ?n. ram_of uc (a + of_nat j) \<noteq> None" using n by force
  then show ?thesis
  proof cases
    case 1
    then show ?thesis using access_refusals [OF i(1,6), of ?n a bs] assms by (auto simp: spec_write_def)
  next
    case 2
    then have "uc_mem_write env a bs ?n uc = Some (UC_ERR_WRITE_UNMAPPED, uc)"
      using access_refusals [OF i(1,6), of ?n a bs] all_ram_mapped [OF i(9,3)] n by auto
    then show ?thesis using assms 2 by (auto simp: spec_write_def)
  next
    case 3
    obtain uc' where r: "uc_mem_write env a bs ?n uc = Some (UC_ERR_OK, uc')" "mem_inv uc'" "write_frame uc uc'"
      "ram_of uc' = overwrite (ram_of uc) a bs" using uc_mem_write_ram [OF i(1,2,6) 3 n [symmetric]] by blast
    have s: "ram_list uc' = ram_list uc" "target_page_bits uc' = target_page_bits uc" "qemu_host_page_size uc' = qemu_host_page_size uc"
      "invalid_error uc' = invalid_error uc" "rb_store uc' = rb_store uc" "mapped_blocks uc' = mapped_blocks uc"
      using r(3) by (auto simp: write_frame_def ram_setup_def)
    have "all_ram uc'" by (rule write_frame_all_ram [OF r(3) i(3)])
    moreover have "no_alias uc'" by (rule write_frame_no_alias [OF r(3) i(2)])
    ultimately show ?thesis using r 3 assms n s
      by (intro exI [of _ uc']) (auto simp: spec_write_def engine_inv_def engine_room_def map_slack_def ram_blocks_def Let_def)
  qed
qed

lemma ram_blocks_frame:
  assumes "ram_inv uc" "rb_store uc q = None" "rb_store v = (rb_store uc)(q \<mapsto> b)" "set (ram_list v) = insert q (set (ram_list uc))"
  shows "set (ram_blocks v) = insert b (set (ram_blocks uc))"
proof -
  have "q \<notin> set (ram_list uc)" using assms(1,2) by (auto simp: ram_inv_def)
  then show ?thesis using assms(3,4) by (auto simp: ram_blocks_def)
qed

text \<open>The arithmetic of one mapping: the new block starts behind a block or at zero.\<close>

lemma room_step:
  assumes room: "engine_room (env, uc) (Suc n) (unat sz + c)" and off: "off = 0 \<or> (\<exists>b \<in> set (ram_blocks uc). off < block_end b + 2 ^ (target_page_bits uc + 6))"
    and len: "len < uint sz + uint (qemu_host_page_size uc)"
  shows "off + len + int c + int n * map_slack uc + 2 ^ (target_page_bits uc + 6) \<le> 2 ^ 64"
proof -
  have r: "e + int (unat sz + c) + int (Suc n) * map_slack uc + 2 ^ (target_page_bits uc + 6) \<le> 2 ^ 64"
    if "e = 0 \<or> e \<in> block_end ` set (ram_blocks uc)" for e
    using room that by (auto simp: engine_room_def)
  have s: "int (Suc n) * map_slack uc = int n * map_slack uc + map_slack uc" by (simp add: algebra_simps)
  have u: "int (unat sz + c) = uint sz + int c" by simp
  have al: "(0 :: int) < 2 ^ (target_page_bits uc + 6)" by simp
  have "\<exists>e. (e = 0 \<or> e \<in> block_end ` set (ram_blocks uc)) \<and> off < e + 2 ^ (target_page_bits uc + 6)"
    using off
  proof
    assume "off = 0"
    then show ?thesis using al by (intro exI [of _ 0]) simp
  qed blast
  then obtain e where e: "e = 0 \<or> e \<in> block_end ` set (ram_blocks uc)" "off < e + 2 ^ (target_page_bits uc + 6)" by blast
  have "map_slack uc = 2 ^ (target_page_bits uc + 6) + uint (qemu_host_page_size uc)" by (simp only: map_slack_def)
  then show ?thesis using r [OF e(1)] e(2) len unfolding s u by linarith
qed

lemma room_mono:
  assumes "engine_room s (Suc n) (k + c)" shows "engine_room s n c"
proof -
  have "int n * map_slack (snd s) \<le> int (Suc n) * map_slack (snd s)"
    by (intro mult_right_mono) (simp_all add: map_slack_def)
  then have "e + int c + int n * map_slack (snd s) + al \<le> 2 ^ 64"
    if "e + int (k + c) + int (Suc n) * map_slack (snd s) + al \<le> 2 ^ 64" for e al :: int
    using that unfolding of_nat_add by linarith
  then show ?thesis using assms unfolding engine_room_def Let_def by (intro conjI ballI; linarith?) blast
qed

lemma engine_map_law:
  assumes inv: "engine_inv (env, uc)" and room: "engine_room (env, uc) (Suc n) (unat sz + c)"
  shows "\<exists>uc'. uc_mem_map env a sz perms uc = Some (fst (spec_map (target_page_bits uc) a sz perms (ram_of uc)), uc') \<and>
    engine_inv (env, uc') \<and> ram_of uc' = snd (spec_map (target_page_bits uc) a sz perms (ram_of uc)) \<and>
    target_page_bits uc' = target_page_bits uc \<and> engine_room (env, uc') n c"
proof -
  note i = engine_invD [OF inv]
  let ?bits = "target_page_bits uc"
  define err where "err = fst (spec_map ?bits a sz perms (ram_of uc))"
  have e: "err = (if \<not> map_args ?bits a sz perms then UC_ERR_ARG
      else if \<exists>x. a \<le> x \<and> x \<le> a + sz - 1 \<and> mapped uc x then UC_ERR_MAP else UC_ERR_OK)"
    by (simp only: err_def spec_map_def area_free_def all_ram_mapped [OF i(9,3)] not_not if_distrib [of fst] fst_conv)
  have chk: "mem_map_check uc a sz perms = Some err" unfolding e by (rule mem_map_check_value [OF i(1,6), THEN conjunct1])
  then have bad: "err \<noteq> UC_ERR_OK \<Longrightarrow> uc_mem_map env a sz perms uc = Some (err, uc)"
    using mem_map_check_value [OF i(1,6), of a sz perms] by blast
  show ?thesis
  proof (cases "err = UC_ERR_OK")
    case False
    then have "snd (spec_map ?bits a sz perms (ram_of uc)) = ram_of uc" unfolding err_def by (rule spec_map_refused)
    then show ?thesis using bad [OF False] inv room_mono [OF room] by (auto simp: err_def)
  next
    case True
    then have m: "snd (spec_map ?bits a sz perms (ram_of uc)) = zero_area a sz (ram_of uc)" "sz \<noteq> 0"
      by (simp_all add: err_def spec_map_def map_args_def split: if_splits)
    have bits: "?bits \<le> 16" using i(9) by (simp add: shape_inv_def)
    obtain k where k: "k < 64" "qemu_host_page_size uc = 2 ^ k" using i(10) by blast
    have uk: "uint (qemu_host_page_size uc) = 2 ^ k" unfolding k(2) by (rule uint_pow64 [OF k(1)])
    define len where "len = ROUND_UP sz (qemu_host_page_size uc)"
    have slack: "0 \<le> int n * map_slack uc" "(0 :: int) < 2 ^ (?bits + 6)" by (simp_all add: map_slack_def)
    note step = room_step [OF room]
    have "0 + (uint sz + 2 ^ k - 1) + int c + int n * map_slack uc + 2 ^ (?bits + 6) \<le> 2 ^ 64"
      by (rule step) (simp_all add: uk)
    then have "uint sz + 2 ^ k \<le> 2 ^ 64" using slack by linarith
    note len = uint_round_up [OF k(1) this, folded k(2), folded len_def]
    have small: "uint len < uint sz + uint (qemu_host_page_size uc)" using len(2) uk by simp
    have "len \<noteq> 0" using len(1) m(2) uint_0_iff [of sz] uint_ge_0 [of sz] by auto
    moreover have "\<forall>b \<in> set (ram_blocks uc). block_end b + 2 ^ (?bits + 6) + uint len \<le> 2 ^ 64"
    proof
      fix b assume "b \<in> set (ram_blocks uc)"
      then have "block_end b = 0 \<or> (\<exists>c \<in> set (ram_blocks uc). block_end b < block_end c + 2 ^ (?bits + 6))"
        using slack(2) by (intro disjI2 bexI [of _ b]) simp_all
      from step [OF this small] show "block_end b + 2 ^ (?bits + 6) + uint len \<le> 2 ^ 64" using slack by linarith
    qed
    ultimately have "ram_room uc len" using find_ram_offset_found [OF i(8) bits] by (simp add: ram_room_def)
    moreover have "sz \<le> len" using len(1) by (simp add: word_le_def)
    moreover have "Suc (length (mapped_blocks uc)) < 2 ^ ?bits" using room by (simp add: engine_room_def)
    ultimately obtain v where v: "uc_mem_map env a sz perms uc = Some (UC_ERR_OK, v)" "mem_inv v" "no_alias v"
      "ram_of v = zero_area a sz (ram_of uc)" "map_frame len uc v"
      using mem_map_post [OF i(1,2,4-7) _ len_def] chk True by blast
    obtain q b where f: "rb_store uc q = None" "rb_store v = (rb_store uc)(q \<mapsto> b)" "set (ram_list v) = insert q (set (ram_list uc))"
      "rb_max_length b = len" "find_ram_offset ?bits (ram_blocks uc) len = Some (rb_offset b)"
      and same: "target_page_bits v = ?bits" "qemu_host_page_size v = qemu_host_page_size uc" "invalid_error v = invalid_error uc"
        "length (mapped_blocks v) = Suc (length (mapped_blocks uc))" "all_ram v"
      using v(5) i(3) by (auto simp: map_frame_def)
    have blocks: "set (ram_blocks v) = insert b (set (ram_blocks uc))"
      using ram_blocks_frame [OF _ f(1-3)] i(9) by (simp add: shape_inv_def)
    have e: "block_end b + int c + int n * map_slack uc + 2 ^ (?bits + 6) \<le> 2 ^ 64"
      using step [OF _ small, of "uint (rb_offset b)"] find_ram_offset_apart [OF i(8) bits f(5)]
      by (auto simp: block_end_def f(4))
    have "offsets_ok ?bits (ram_blocks v)"
      by (rule offsets_ok_insert [OF i(8) bits _ _ _ blocks]) (use e slack f(4,5) \<open>len \<noteq> 0\<close> in simp_all)
    then have "engine_inv (env, v)" using v(2,3) i same by (simp add: engine_inv_def)
    moreover have "engine_room (env, v) n c"
      using room_mono [OF room] e room unfolding engine_room_def Let_def snd_conv map_slack_def same blocks by simp
    ultimately show ?thesis using v(1,4) same(1) m(1) True by (auto simp: err_def)
  qed
qed

interpretation em: mapped_memory engine_inv "\<lambda>s. ram_of (snd s)" engine_rd engine_wr
  "\<lambda>s. target_page_bits (snd s)" engine_room engine_mp
proof unfold_locales
  fix s :: "'a uc_env \<times> 'a uc_struct" and a n assume "engine_inv s"
  then show "\<exists>s'. engine_rd a n s = Some (fst (spec_read a n (ram_of (snd s))), snd (spec_read a n (ram_of (snd s))), s') \<and>
      engine_inv s' \<and> ram_of (snd s') = ram_of (snd s)"
    using engine_read_law [of "fst s" "snd s" a n] by (auto simp: engine_rd_def)
next
  fix s :: "'a uc_env \<times> 'a uc_struct" and a and bs :: "u8 list" assume "engine_inv s" "length bs < 2 ^ 64"
  then show "\<exists>s'. engine_wr a bs s = Some (fst (spec_write a bs (ram_of (snd s))), s') \<and> engine_inv s' \<and>
      ram_of (snd s') = snd (spec_write a bs (ram_of (snd s)))"
    using engine_write_law [of "fst s" "snd s" bs a] by (auto simp: engine_wr_def)
next
  fix s :: "'a uc_env \<times> 'a uc_struct" and n c a perms and sz :: u64 assume "engine_inv s" "engine_room s (Suc n) (unat sz + c)"
  then show "\<exists>s'. engine_mp a sz perms s = Some (fst (spec_map (target_page_bits (snd s)) a sz perms (ram_of (snd s))), s') \<and>
      engine_inv s' \<and> ram_of (snd s') = snd (spec_map (target_page_bits (snd s)) a sz perms (ram_of (snd s))) \<and>
      target_page_bits (snd s') = target_page_bits (snd s) \<and> engine_room s' n c"
    using engine_map_law [of "fst s" "snd s" n sz c a perms] by (auto simp: engine_mp_def)
next
  fix s s' :: "'a uc_env \<times> 'a uc_struct" and n c a k err bs
  assume "engine_inv s" "engine_room s n c" "engine_rd a k s = Some (err, bs, s')"
  then show "target_page_bits (snd s') = target_page_bits (snd s) \<and> engine_room s' n c"
    using engine_read_law [of "fst s" "snd s" a k n c] by (auto simp: engine_rd_def)
next
  fix s s' :: "'a uc_env \<times> 'a uc_struct" and n c a err and bs :: "u8 list"
  assume "engine_inv s" "engine_room s n c" "length bs < 2 ^ 64" "engine_wr a bs s = Some (err, s')"
  then show "target_page_bits (snd s') = target_page_bits (snd s) \<and> engine_room s' n c"
    using engine_write_law [of "fst s" "snd s" bs a n c] by (auto simp: engine_wr_def)
qed

section \<open>From a fresh engine\<close>

text \<open>The first call of a sequence initialises the engine.\<close>

abbreviation engine_op :: "mem_op \<Rightarrow> 'c uc_env \<times> 'c uc_struct \<Rightarrow> (obs \<times> 'c uc_env \<times> 'c uc_struct) option" where
  "engine_op \<equiv> mem_step engine_rd engine_wr engine_mp"

lemma UC_INIT_first:
  assumes "\<not> uc_init_done uc" "uc_init env uc = Some (UC_ERR_OK, uc1)" "uc_init_done uc1"
  shows "UC_INIT env fail uc k = UC_INIT env fail uc1 k"
  using assms by (simp add: UC_INIT_def)

lemma engine_op_first:
  assumes "\<not> uc_init_done uc" "uc_init env uc = Some (UC_ERR_OK, uc1)" "uc_init_done uc1"
  shows "engine_op op (env, uc) = engine_op op (env, uc1)"
  by (cases op) (simp_all add: UC_INIT_first [OF assms] engine_rd_def engine_wr_def engine_mp_def uc_mem_read_def uc_mem_write_def uc_mem_map_def)

lemma fresh_ready:
  fixes uc :: "'c uc_struct"
  assumes fresh: "fresh_engine uc" "invalid_error uc = UC_ERR_OK"
    and env: "alloc_ok env" "memory_left env" "arch_ok env" "env_mem_redirect env = None" "\<forall>u. \<not> fst (env_cpus_init env u)"
    and pages: "env_real_host_page_size env = 2 ^ k" "k < 64" "0 < page_bits env uc" "page_bits env uc \<le> 16"
  obtains uc1 where "uc_init env uc = Some (UC_ERR_OK, uc1)" "engine_inv (env, uc1)" "ram_of uc1 = Map.empty" "mapped_blocks uc1 = []"
    "ram_list uc1 = []" "target_page_bits uc1 = page_bits env uc" "qemu_host_page_size uc1 = max (2 ^ k) (2 ^ page_bits env uc)"
proof -
  obtain failed v and u :: "'c uc_struct" where r: "uc_init env uc = Some (if failed then UC_ERR_RESOURCE else UC_ERR_OK, v)"
    "failed \<longrightarrow> (\<exists>u. fst (env_cpus_init env u))"
    "\<not> failed \<longrightarrow> memory_state v = memory_state u \<and> mem_inv u \<and> no_alias u \<and> ram_of u = Map.empty \<and>
       mapped_blocks u = [] \<and> ram_list u = [] \<and> target_page_bits u = page_bits env uc \<and> invalid_error u = invalid_error uc \<and>
       qemu_host_page_size u = max (env_real_host_page_size env) (push_bit (page_bits env uc) 1)"
    using uc_init_run [OF fresh(1) env(1,3) pages(3,4)] by blast
  then have nf: "\<not> failed" using env(5) by blast
  then have s: "memory_state v = memory_state u" "mem_inv u" "no_alias u" "ram_of u = Map.empty" "mapped_blocks v = []" "ram_list v = []"
    "target_page_bits v = page_bits env uc" "invalid_error v = UC_ERR_OK"
    "qemu_host_page_size v = max (2 ^ k) (2 ^ page_bits env uc)"
    using r(3) fresh(2) pages(1) by (simp_all add: memory_state_def push_bit_eq_mult)
  have "\<exists>j < 64. qemu_host_page_size v = 2 ^ j"
    using s(9) pages(2,4) by (cases "(2 ^ k :: u64) \<le> 2 ^ page_bits env uc") (auto simp: max_def intro: exI [of _ k] exI [of _ "page_bits env uc"])
  then have "engine_inv (env, v)"
    using s mem_inv_state [OF s(1)] env by (simp add: engine_inv_def all_ram_def ram_blocks_def offsets_ok_def)
  then show thesis using that [of v] r(1) nf s mem_inv_state(3) [OF s(1)] by simp
qed

lemma engine_op_env: "engine_op op s = Some (ob, s') \<Longrightarrow> fst s' = fst s"
  by (cases op) (auto simp: engine_rd_def engine_wr_def engine_mp_def bind_eq_Some_conv)

lemma run_ops_env: "run_ops engine_op ops s = Some (obs, s') \<Longrightarrow> fst s' = fst s"
  by (induction ops arbitrary: s obs) (auto simp: bind_eq_Some_conv dest: engine_op_env)

section \<open>Properties\<close>

text \<open>
  C1: a client of the engine sees a plain memory. From a fresh engine, any sequence of calls of
  \<^verbatim>\<open>uc_mem_map\<close>, \<^verbatim>\<open>uc_mem_write\<close> and \<^verbatim>\<open>uc_mem_read\<close>, also with arguments that are refused, returns; its
  error codes and the bytes read are those of the abstract memory, and so is the memory at the end.
  The sequence must make fewer mappings than a page has bytes, the most sections that the engine can
  number, and the bytes that it maps, with the rounding of each mapping, must fit the offsets of RAM
  blocks.
\<close>

theorem engine_run_refines:
  fixes uc :: "'c uc_struct"
  assumes "fresh_engine uc" "invalid_error uc = UC_ERR_OK"
    and "alloc_ok env" "memory_left env" "arch_ok env" "env_mem_redirect env = None" "\<forall>u. \<not> fst (env_cpus_init env u)"
    and "env_real_host_page_size env = 2 ^ k" "k < 64" "0 < page_bits env uc" "page_bits env uc \<le> 16"
    and "list_all op_fits ops" "sum_list (map op_maps ops) < 2 ^ page_bits env uc"
    and "int (sum_list (map op_bytes ops)) + (int (sum_list (map op_maps ops)) + 1) *
      (2 ^ (page_bits env uc + 6) + max (2 ^ k) (2 ^ page_bits env uc)) \<le> 2 ^ 64"
  shows "\<exists>uc'. run_ops engine_op ops (env, uc) = Some (fst (spec_run (page_bits env uc) ops Map.empty), env, uc') \<and>
    ram_of uc' = snd (spec_run (page_bits env uc) ops Map.empty)"
proof (cases ops)
  case Nil
  then show ?thesis using assms(1) by (auto simp: fresh_engine_def ram_of_def)
next
  case (Cons op ops')
  let ?bits = "page_bits env uc" and ?n = "sum_list (map op_maps ops)" and ?c = "sum_list (map op_bytes ops)"
  obtain uc1 where i: "uc_init env uc = Some (UC_ERR_OK, uc1)" "engine_inv (env, uc1)" "ram_of uc1 = Map.empty" "mapped_blocks uc1 = []"
    "ram_list uc1 = []" "target_page_bits uc1 = ?bits" "qemu_host_page_size uc1 = max (2 ^ k) (2 ^ ?bits)"
    by (rule fresh_ready [OF assms(1-11)])
  have "uint (max (2 ^ k) (2 ^ ?bits) :: u64) = max (2 ^ k) (2 ^ ?bits)"
    using uint_pow64 [OF assms(9)] uint_pow64 [of ?bits] assms(11) by (simp add: max_def word_le_def)
  then have "map_slack uc1 = 2 ^ (?bits + 6) + max (2 ^ k) (2 ^ ?bits)" by (simp only: map_slack_def i)
  moreover have "(0 :: int) \<le> max (2 ^ k) (2 ^ ?bits)" by (simp add: le_max_iff_disj)
  ultimately have "int ?c + int ?n * map_slack uc1 + 2 ^ (?bits + 6) \<le> 2 ^ 64"
    using assms(14) by (simp add: distrib_right)
  then have "engine_room (env, uc1) ?n ?c" using i(4-6) assms(13) by (simp add: engine_room_def ram_blocks_def Let_def)
  from em.run_refines [OF i(2) this assms(12)] obtain s where s: "run_ops engine_op ops (env, uc1) =
      Some (fst (spec_run ?bits ops Map.empty), s)" "ram_of (snd s) = snd (spec_run ?bits ops Map.empty)" by (auto simp: i(3,6))
  have "run_ops engine_op ops (env, uc) = run_ops engine_op ops (env, uc1)"
    using engine_op_first [OF _ i(1)] assms(1) engine_invD(9) [OF i(2)]
    by (simp add: Cons fresh_engine_def shape_inv_def)
  moreover have "fst s = env" using run_ops_env [OF s(1)] by simp
  ultimately show ?thesis using s by (cases s) auto
qed

theorem engine_run_refines_witness:
  "\<exists>uc'. run_ops engine_op [OpMap 16384 8192 7, OpWrite 16384 [1, 2], OpRead 16384 2, OpMap 20480 4096 7] (plain_env, uc_zero) =
      Some ([(UC_ERR_OK, []), (UC_ERR_OK, []), (UC_ERR_OK, [1, 2]), (UC_ERR_MAP, [])], plain_env, uc') \<and> ram_of uc' 16385 = Some 2"
proof -
  let ?ops = "[OpMap 16384 8192 7, OpWrite 16384 [1, 2], OpRead 16384 2, OpMap 20480 4096 7]"
  define m where "m = zero_area 16384 8192 Map.empty"
  have m: "m (16384 + x) = Some 0" if "x \<le> 8191" for x
    using that unfolding m_def zero_area_def by (simp add: word_le_nat_alt unat_word_ariths)
  have "spec_run 12 ?ops Map.empty = ([(UC_ERR_OK, []), (UC_ERR_OK, []), (UC_ERR_OK, [1, 2]), (UC_ERR_MAP, [])], overwrite m 16384 [1, 2])"
  proof -
    have "spec_map 12 16384 8192 7 Map.empty = (UC_ERR_OK, m)"
      by (simp add: spec_map_def map_args_def area_free_def UC_PROT_ALL_def m_def)
    moreover have "spec_write 16384 [1, 2] m = (UC_ERR_OK, overwrite m 16384 [1, 2])"
      using m [of 0] m [of 1] by (auto simp: spec_write_def INT_MAX_def less_Suc_eq)
    moreover have "spec_read 16384 2 (overwrite m 16384 [1, 2]) = (UC_ERR_OK, [1, 2])"
      by (auto simp: spec_read_def INT_MAX_def overwrite_def less_2_cases_iff upt_rec)
    moreover have "spec_map 12 20480 4096 7 (overwrite m 16384 [1, 2]) = (UC_ERR_MAP, overwrite m 16384 [1, 2])"
    proof -
      have "overwrite m 16384 [1, 2] 20480 \<noteq> None" using m [of 4096] by (simp add: overwrite_def)
      then have "\<not> area_free 20480 4096 (overwrite m 16384 [1, 2])" unfolding area_free_def by (simp del: not_None_eq) (rule exI [of _ 20480], simp)
      then show ?thesis by (simp add: spec_map_def map_args_def UC_PROT_ALL_def)
    qed
    ultimately show ?thesis by simp
  qed
  moreover have "env_real_host_page_size plain_env = 2 ^ 12" "invalid_error (uc_zero :: unit uc_struct) = UC_ERR_OK"
    by (simp_all add: plain_env_def uc_zero_def)
  ultimately obtain uc' where "run_ops engine_op ?ops (plain_env, uc_zero) =
      Some ([(UC_ERR_OK, []), (UC_ERR_OK, []), (UC_ERR_OK, [1, 2]), (UC_ERR_MAP, [])], plain_env, uc')"
    "ram_of uc' = overwrite m 16384 [1, 2]"
    using engine_run_refines [OF zero_fresh(1) _ plain_alloc plain_arch(1,2), of 12 ?ops] plain_arch(3) zero_fresh(2) by auto
  then show ?thesis by (intro exI [of _ uc']) (simp add: overwrite_def)
qed

text \<open>
  C8: a write, whether it succeeds or is refused, does not disturb another area: reading an area apart
  from it gives the same error code and the same bytes before and after the write.
\<close>

theorem write_leaves_others:
  assumes "engine_inv (env, uc)" "length bs < 2 ^ 64" "\<forall>i < unat n. \<forall>j < length bs. b + of_nat i \<noteq> a + of_nat j"
  shows "\<exists>err ob bytes uc1 uc2 uc3. uc_mem_write env a bs (of_nat (length bs)) uc = Some (err, uc1) \<and>
    uc_mem_read env b n uc = Some (ob, bytes, uc2) \<and> uc_mem_read env b n uc1 = Some (ob, bytes, uc3)"
proof -
  obtain err s' s'' where "engine_wr a bs (env, uc) = Some (err, s')"
    "engine_rd b n s' = Some (fst (spec_read b n (ram_of uc)), snd (spec_read b n (ram_of uc)), s'')"
    using em.write_elsewhere [OF assms] by auto
  moreover obtain s2 where "engine_rd b n (env, uc) = Some (fst (spec_read b n (ram_of uc)), snd (spec_read b n (ram_of uc)), s2)"
    using em.read_law [OF assms(1), of b n] by auto
  ultimately show ?thesis by (auto simp: engine_wr_def engine_rd_def)
qed

theorem write_leaves_others_witness:
  "\<exists>uc err ob bytes uc1 uc3. uc_mem_map plain_env 16384 8192 7 uc_zero = Some (UC_ERR_OK, uc) \<and>
    uc_mem_write plain_env 16384 [1, 2] 2 uc = Some (err, uc1) \<and> uc_mem_read plain_env 20480 2 uc1 = Some (ob, bytes, uc3)"
proof -
  have z: "invalid_error (uc_zero :: unit uc_struct) = UC_ERR_OK" "\<forall>u. \<not> fst (env_cpus_init plain_env u)"
    "env_real_host_page_size plain_env = 2 ^ 12" using plain_arch(3) by (simp_all add: plain_env_def uc_zero_def)
  obtain uc1 where i: "uc_init plain_env uc_zero = Some (UC_ERR_OK, uc1)" "engine_inv (plain_env, uc1)" "ram_of uc1 = Map.empty"
    "mapped_blocks uc1 = []" "ram_list uc1 = []" "target_page_bits uc1 = 12" "qemu_host_page_size uc1 = 4096"
    by (rule fresh_ready [OF zero_fresh(1) z(1) plain_alloc plain_arch(1,2) z(2,3)]) (simp_all add: zero_fresh(2))
  have room: "engine_room (plain_env, uc1) (Suc 0) (unat (8192 :: u64) + 0)"
    using i(4-7) by (simp add: engine_room_def ram_blocks_def map_slack_def)
  obtain uc where u: "uc_mem_map plain_env 16384 8192 7 uc1 = Some (UC_ERR_OK, uc)" "engine_inv (plain_env, uc)"
    using engine_map_law [OF i(2) room, of 16384 7]
    by (auto simp: i(3,6) spec_map_def map_args_def area_free_def UC_PROT_ALL_def)
  have "uc_mem_map plain_env 16384 8192 7 uc_zero = uc_mem_map plain_env 16384 8192 7 uc1"
    unfolding uc_mem_map_def
    by (rule UC_INIT_first [OF _ i(1)]) (use engine_invD(9) [OF i(2)] in \<open>simp_all add: uc_zero_def shape_inv_def\<close>)
  moreover have "\<forall>i < unat (2 :: u64). \<forall>j < length [1 :: u8, 2]. (20480 :: u64) + of_nat i \<noteq> 16384 + of_nat j"
    by (auto simp: less_Suc_eq less_2_cases_iff)
  ultimately show ?thesis using u write_leaves_others [OF u(2), of "[1, 2]" 2 20480 16384] by auto
qed

end
