(* ===== verification/MemUnmap.thy ===== *)
theory MemUnmap
  imports GuestMem
begin

text \<open>
  Unmapping: \<^verbatim>\<open>uc_mem_unmap\<close> of a mapped region frees the region and its RAM block, takes exactly its
  addresses from the memory of the guest, and keeps the invariant.
\<close>

section \<open>Taking a region out\<close>

lemma sorted_wrt_remove_one: "sorted_wrt P xs \<Longrightarrow> sorted_wrt P (remove1 x xs)"
  by (induction xs) (auto dest: set_remove1_subset [THEN subsetD])

lemma blocks_sorted_remove:
  assumes "blocks_sorted (map f xs)" "distinct xs" "\<And>x. x \<noteq> p \<Longrightarrow> x \<in> set xs \<Longrightarrow> g x = f x"
  shows "blocks_sorted (map g (remove1 p xs))"
proof -
  have eq: "map g (remove1 p xs) = map f (remove1 p xs)" using assms(2,3) by auto
  have "sorted_wrt (\<lambda>m n. mr_last (f m) < mr_addr (f n)) (remove1 p xs)"
    using assms(1) by (simp add: blocks_sorted_def sorted_wrt_map sorted_wrt_remove_one)
  then show ?thesis unfolding eq using assms(1) set_remove1_subset [of p xs]
    by (auto simp: blocks_sorted_def sorted_wrt_map)
qed

lemma shape_remove:
  assumes inv: "shape_inv uc" and p: "p \<in> set (mapped_blocks uc)" "mr_store uc p = Some mr" "mr_ram mr" "mr_ram_block mr = Some q"
    and sys: "mr_store uc (system_memory uc) = Some sys"
    and st: "mr_store w = (mr_store uc)(p \<mapsto> mr', system_memory uc \<mapsto> sys\<lparr>mr_subregions := remove1 p (mr_subregions sys)\<rparr>)"
    and same: "system_memory w = system_memory uc" "system_io w = system_io uc" "uc_init_done w = uc_init_done uc"
      "target_page_bits w = target_page_bits uc" "target_page_align w = target_page_align uc"
      "map as_root (address_spaces w) = map as_root (address_spaces uc)" "mapped_blocks_memory w = mapped_blocks_memory uc"
    and tab: "mapped_blocks w = remove1 p (mapped_blocks uc)" "ram_list w = remove1 q (ram_list uc)" "rb_store w = (rb_store uc)(q := None)"
  shows "shape_inv w"
proof -
  have neq: "p \<noteq> system_memory uc" "p \<noteq> system_io uc" "system_memory uc \<notin> set (mapped_blocks uc)" "system_io uc \<notin> set (mapped_blocks uc)"
    "system_io uc \<noteq> system_memory uc"
    and d: "distinct (mapped_blocks uc)" and ri: "ram_inv uc" using inv p(1) by (auto simp: shape_inv_def)
  have dr: "distinct (ram_list uc)" using ri by (simp add: ram_inv_def)
  have setm: "set (mapped_blocks w) = set (mapped_blocks uc) - {p}" and setr: "set (ram_list w) = set (ram_list uc) - {q}"
    using d dr by (simp_all add: tab)
  have old: "mr_store w x = mr_store uc x" if "x \<in> set (mapped_blocks uc)" "x \<noteq> p" for x using that neq(3) by (auto simp: st)
  have pq: "q \<in> set (ram_list uc)" "rb_mr (the (rb_store uc q)) = p" using ri p by (simp_all add: ram_inv_def)
  have own: "q' \<in> set (ram_list uc) \<and> rb_mr (the (rb_store uc q')) = x"
    if "x \<in> set (mapped_blocks uc)" "mr_store uc x = Some r" "mr_ram r" "mr_ram_block r = Some q'" for x r q'
    using ri that by (simp add: ram_inv_def)
  have sorted: "blocks_sorted (blocks_of w)"
    unfolding blocks_of_def tab(1)
    by (rule blocks_sorted_remove [where f = "\<lambda>x. the (mr_store uc x)"])
       (use inv d old in \<open>auto simp: shape_inv_def table_inv_def blocks_of_def\<close>)
  have "table_inv w" using inv sorted setm old by (auto simp: table_inv_def shape_inv_def same(7))
  moreover have "block_ok w (the (mr_store w x))" if x: "x \<in> set (mapped_blocks w)" for x
  proof -
    have x': "x \<in> set (mapped_blocks uc)" "x \<noteq> p" using x setm by auto
    obtain r where r: "mr_store uc x = Some r" "block_ok uc r" by (rule shape_block [OF inv x'(1)])
    have "rb_store w q' = rb_store uc q'" if "mr_ram r" "mr_ram_block r = Some q'" for q'
      using own [OF x'(1) r(1) that] pq(2) x'(2) by (auto simp: tab(3))
    then show ?thesis unfolding old [OF x'] r(1) option.sel by (rule block_ok_keep [OF r(2) same(1,4)])
  qed
  moreover have "sys_root w"
    using inv sys neq setm by (auto simp: shape_inv_def sys_root_def st same)
  moreover have "io_root (mr_store w) (system_io w)" using inv neq by (auto simp: shape_inv_def io_root_def st same)
  moreover have "ram_inv w"
  proof -
    have "\<exists>b r. rb_store w x = Some b \<and> rb_mr b \<in> set (mapped_blocks w) \<and> mr_store w (rb_mr b) = Some r \<and> mr_ram r \<and>
        mr_ram_block r = Some x" if "x \<in> set (ram_list w)" for x
    proof -
      have x: "x \<in> set (ram_list uc)" "x \<noteq> q" using that setr by auto
      then obtain b r where b: "rb_store uc x = Some b" "rb_mr b \<in> set (mapped_blocks uc)" "mr_store uc (rb_mr b) = Some r"
        "mr_ram r" "mr_ram_block r = Some x" using ri by (auto simp: ram_inv_def)
      have "rb_mr b \<noteq> p" using b(3,5) p(2,4) x(2) by auto
      then show ?thesis using b x setm old [OF b(2)] by (intro exI [of _ b] exI [of _ r]) (simp add: tab(3))
    qed
    moreover have "q' \<in> set (ram_list w) \<and> rb_mr (the (rb_store w q')) = x"
      if "x \<in> set (mapped_blocks w)" "mr_store w x = Some r" "mr_ram r" "mr_ram_block r = Some q'" for x r q'
    proof -
      have x: "x \<in> set (mapped_blocks uc)" "x \<noteq> p" using that setm by auto
      then have "q' \<in> set (ram_list uc) \<and> rb_mr (the (rb_store uc q')) = x" using own old that by simp
      moreover from this have "q' \<noteq> q" using pq(2) x(2) by auto
      ultimately show ?thesis using setr by (simp add: tab(3))
    qed
    moreover have "finite (dom (mr_store w))" "finite (dom (rb_store w))" "distinct (ram_list w)"
      using ri dr by (simp_all add: ram_inv_def st tab)
    ultimately show ?thesis by (simp add: ram_inv_def)
  qed
  moreover have "length (mapped_blocks w) < 2 ^ target_page_bits w"
    using inv by (auto simp: shape_inv_def tab(1) length_remove1 same(4))
  ultimately show ?thesis using inv neq d by (simp add: shape_inv_def same setm tab(1) distinct_remove1)
qed

text \<open>A region that is not in the table can be freed.\<close>

lemma mem_inv_forget:
  assumes "mem_inv u" "p \<notin> set (mapped_blocks u)" "p \<noteq> system_memory u" "p \<noteq> system_io u"
  shows "mem_inv (u\<lparr>mr_store := (mr_store u)(p := None)\<rparr>)"
proof -
  let ?u = "u\<lparr>mr_store := (mr_store u)(p := None)\<rparr>"
  have sh: "shape_inv u" using assms(1) by (rule mem_inv_shape)
  have ch: "sys_children ?u = sys_children u" using assms(3) by (simp add: sys_children_def)
  have "p \<notin> set (sys_children u)" using shape_topo(2) [OF sh] assms(2) by simp
  then have "child_range (mr_store ?u) ` set (sys_children u) = child_range (mr_store u) ` set (sys_children u)"
    by (intro image_cong) (auto simp: child_range_def)
  then have "view_inv ?u" using assms(1) unfolding mem_inv_def view_inv_def ch view_of_def by simp
  moreover have keep: "mr_store ?u x = mr_store u x" if "x \<in> set (mapped_blocks u)" for x using that assms(2) by auto
  have "blocks_of ?u = blocks_of u" using keep by (simp add: blocks_of_def)
  then have "table_inv ?u" using sh keep by (simp add: shape_inv_def table_inv_def)
  moreover have "ram_inv ?u" by (rule ram_inv_cong [of u]) (use sh keep in \<open>simp_all add: shape_inv_def ram_inv_def\<close>)
  moreover have "\<forall>x \<in> set (mapped_blocks u). block_ok ?u (the (mr_store ?u x))"
    using sh keep by (simp add: shape_inv_def block_ok_def)
  ultimately show ?thesis using sh assms
    by (simp add: mem_inv_def shape_inv_def sys_root_def io_root_def)
qed

section \<open>Unmapping a region\<close>

text \<open>The pages of the region are flushed one by one; the loop ends because the borders are page borders.\<close>

lemma flush_pages_total:
  assumes "target_page_size uc = 2 ^ bits" "bits \<le> 16" "2 ^ bits dvd uint addr" "2 ^ bits dvd uint stop"
  shows "\<exists>cpu. flush_pages env addr stop uc = Some (uc\<lparr>uc_cpu := cpu\<rparr>)"
  using assms
proof (induction "nat (uint stop - uint addr)" arbitrary: addr uc rule: less_induct)
  case less
  show ?case
  proof (cases "addr < stop")
    case False
    then show ?thesis by (intro exI [of _ "uc_cpu uc"]) (simp add: flush_pages.simps)
  next
    case True
    have page: "uint (ucast (target_page_size uc) :: u64) = 2 ^ bits"
    proof -
      have "(ucast (2 ^ bits :: u32) :: u64) = 2 ^ bits"
        using less.prems(2) by (intro bit_word_eqI) (auto simp: bit_simps)
      then show ?thesis using less.prems(1,2) uint_pow64 [of bits] by simp
    qed
    have "2 ^ bits dvd uint stop - uint addr" using less.prems(3,4) by (rule dvd_diff [rotated])
    then have le: "2 ^ bits \<le> uint stop - uint addr" using True by (intro zdvd_imp_le) (auto simp: word_less_def)
    let ?a = "addr + ucast (target_page_size uc)" and ?u = "tlb_flush_page_uc env addr uc"
    have a: "uint ?a = uint addr + 2 ^ bits"
      using page le u64_range [of stop] uint_of_int [of "uint addr + 2 ^ bits"] by (simp add: uint_plus_if')
    obtain c where u: "?u = uc\<lparr>uc_cpu := c\<rparr>" by (auto simp: tlb_flush_page_uc_def upd_cpu_def)
    have "(0 :: int) < 2 ^ bits" by simp
    then have "nat (uint stop - uint ?a) < nat (uint stop - uint addr)" using a le by linarith
    from less.hyps [OF this, of ?u] less.prems a
    obtain cpu where "flush_pages env ?a stop ?u = Some (?u\<lparr>uc_cpu := cpu\<rparr>)" by (auto simp: u)
    then show ?thesis using True by (intro exI [of _ cpu]) (simp add: flush_pages.simps [of env addr] u)
  qed
qed

lemma memory_unmap_ok:
  assumes inv: "mem_inv uc" and p: "p \<in> set (mapped_blocks uc)" "mr_store uc p = Some mr" "mr_ram mr"
    and d: "mr_destructor mr = memory_region_destructor_ram" and pg: "target_page_size uc = 2 ^ target_page_bits uc"
  shows "\<exists>w sys q. memory_unmap env p uc = Some w \<and> mem_inv w \<and> mr_ram_block mr = Some q \<and>
    mr_store w = (mr_store uc)(system_memory uc \<mapsto> sys, p := None) \<and> mapped_blocks w = remove1 p (mapped_blocks uc) \<and>
    rb_store w = (rb_store uc)(q := None) \<and> host_mem w = host_mem uc"
proof -
  have sh: "shape_inv uc" using inv by (rule mem_inv_shape)
  have ok: "block_ok uc mr" by (rule shape_block_ok [OF sh p(1,2)])
  then obtain q where q: "mr_ram_block mr = Some q" and c: "mr_container mr = Some (system_memory uc)"
    using p(3) by (auto simp: block_ok_def)
  obtain sys where sys: "mr_store uc (system_memory uc) = Some sys" using sh by (auto simp: shape_inv_def sys_root_def)
  have ps: "p \<noteq> system_memory uc" "p \<noteq> system_io uc" using sh p(1) by (auto simp: shape_inv_def)
  have "\<exists>cpu. (if uc_cpu uc \<noteq> None then flush_pages env (mr_addr mr) (mr_end mr) uc else Some uc) = Some (uc\<lparr>uc_cpu := cpu\<rparr>)"
  proof (cases "uc_cpu uc = None")
    case True
    then show ?thesis by (intro exI [of _ None]) simp
  next
    case False
    have "2 ^ target_page_bits uc dvd uint (mr_end mr)"
    proof -
      have "(2 :: int) ^ target_page_bits uc dvd 2 ^ 64" using sh by (intro le_imp_power_dvd) (simp add: shape_inv_def)
      moreover have "2 ^ target_page_bits uc dvd uint (mr_addr mr) + mr_size mr" using ok by (auto simp: block_ok_def)
      moreover have "uint (mr_end mr) = (uint (mr_addr mr) + mr_size mr) mod 2 ^ 64"
        using ok by (simp add: block_ok_def uint_word_ariths uint_word_of_int mod_add_right_eq)
      ultimately show ?thesis by (simp only: dvd_mod)
    qed
    then show ?thesis using flush_pages_total [OF pg, of "mr_addr mr" "mr_end mr" env] sh ok False
      by (auto simp: shape_inv_def block_ok_def)
  qed
  then obtain cpu where flush: "(if uc_cpu uc \<noteq> None then flush_pages env (mr_addr mr) (mr_end mr) uc else Some uc) =
      Some (uc\<lparr>uc_cpu := cpu\<rparr>)" by blast
  let ?sys = "sys\<lparr>mr_subregions := remove1 p (mr_subregions sys)\<rparr>"
  let ?st = "(mr_store uc)(p \<mapsto> mr\<lparr>mr_container := None\<rparr>, system_memory uc \<mapsto> ?sys)"
  define u1 where "u1 = uc\<lparr>uc_cpu := cpu, mr_store := ?st, memory_region_update_pending := True\<rparr>"
  have del: "memory_region_del_subregion env (system_memory uc) p (uc\<lparr>uc_cpu := cpu\<rparr>) = memory_region_transaction_commit env u1"
    using p(2) c sys ps(1) by (simp add: memory_region_del_subregion_def upd_mr_def u1_def)
  have shape: "shape_inv w" if w: "mr_store w = ?st" "system_memory w = system_memory uc" "system_io w = system_io uc"
      "uc_init_done w = uc_init_done uc" "target_page_bits w = target_page_bits uc" "target_page_align w = target_page_align uc"
      "map as_root (address_spaces w) = map as_root (address_spaces uc)" "mapped_blocks_memory w = mapped_blocks_memory uc"
      "mapped_blocks w = remove1 p (mapped_blocks uc)" "ram_list w = remove1 q (ram_list uc)" "rb_store w = (rb_store uc)(q := None)"
    for w :: "'a uc_struct"
    by (rule shape_remove [OF sh p q sys w])
  let ?f = "\<lambda>u. u\<lparr>mapped_blocks := remove1 p (mapped_blocks uc), ram_list := remove1 q (ram_list uc), ram_mru_block := None,
    rb_store := (rb_store uc)(q := None)\<rparr>"
  have "shape_inv (?f u1)" by (rule shape) (simp_all add: u1_def)
  from shape_topo(1) [OF this] have "topo_inv u1" by (simp add: topo_inv_def sys_children_def)
  from commit_flat [OF this, of env] obtain ass where cm: "memory_region_transaction_commit env u1 =
      Some ((if tcg_listener u1 then tlb_flush_uc env else id) (u1\<lparr>address_spaces := ass,
        flat_view_gen := Suc (flat_view_gen u1), memory_region_update_pending := False\<rparr>))"
    "topo_inv (u1\<lparr>address_spaces := ass\<rparr>)" "view_inv (u1\<lparr>address_spaces := ass\<rparr>)" by (auto simp: u1_def)
  define cpu' where "cpu' = (if tcg_listener u1
    then map_option (\<lambda>cpu. cpu\<lparr>cpu_arch := env_tlb_flush env (cpu_arch cpu)\<rparr>) (uc_cpu u1) else uc_cpu u1)"
  have v: "memory_region_transaction_commit env u1 = Some (u1\<lparr>address_spaces := ass,
      flat_view_gen := Suc (flat_view_gen u1), memory_region_update_pending := False, uc_cpu := cpu'\<rparr>)"
    using cm(1) by (simp add: cpu'_def tlb_flush_uc_def upd_cpu_def)
  let ?v = "?f (u1\<lparr>address_spaces := ass, flat_view_gen := Suc (flat_view_gen u1), memory_region_update_pending := False, uc_cpu := cpu'\<rparr>)"
  have "shape_inv ?v" by (rule shape) (use cm(2) sh in \<open>simp_all add: u1_def topo_inv_def shape_inv_def\<close>)
  moreover have "view_inv ?v" using cm(3) by (simp add: view_inv_def sys_children_def)
  ultimately have "mem_inv ?v" by (simp add: mem_inv_def)
  then have "mem_inv (?v\<lparr>mr_store := (mr_store ?v)(p := None)\<rparr>)"
    by (rule mem_inv_forget) (use ps sh in \<open>simp_all add: u1_def shape_inv_def\<close>)
  moreover have "memory_unmap env p uc = Some (?v\<lparr>mr_store := (mr_store ?v)(p := None)\<rparr>)"
    using p(1,2) flush del v d q
    by (simp add: memory_unmap_def u1_def mr_destruct_def qemu_ram_free_def Let_def)
  moreover have "mr_store (?v\<lparr>mr_store := (mr_store ?v)(p := None)\<rparr>) = (mr_store uc)(system_memory uc \<mapsto> ?sys, p := None)"
    by (rule ext) (simp add: u1_def)
  ultimately show ?thesis using q
    by (intro exI [of _ "?v\<lparr>mr_store := (mr_store ?v)(p := None)\<rparr>"] exI [of _ ?sys] exI [of _ q]) (simp add: u1_def)
qed

section \<open>The memory after unmapping\<close>

lemma unmap_memory:
  assumes uc: "shape_inv uc" "no_alias uc" and p: "p \<in> set (mapped_blocks uc)" "mr_store uc p = Some mr" "mr_ram_block mr = Some q" "mr_ram mr"
    and w: "shape_inv w" "mr_store w = (mr_store uc)(system_memory uc \<mapsto> sys, p := None)" "mapped_blocks w = remove1 p (mapped_blocks uc)"
      "rb_store w = (rb_store uc)(q := None)" "host_mem w = host_mem uc"
  shows "no_alias w" "ram_of w x = (if mr_covers mr x then None else ram_of uc x)"
proof -
  have set: "set (mapped_blocks w) = set (mapped_blocks uc) - {p}" using uc(1) by (simp add: w(3) shape_inv_def)
  have old: "mr_store w y = mr_store uc y" if "y \<in> set (mapped_blocks w)" for y
    using that set uc(1) by (auto simp: w(2) shape_inv_def)
  have pq: "rb_mr (the (rb_store uc q)) = p" using uc(1) p by (simp add: shape_inv_def ram_inv_def)
  have host: "ram_host w r = ram_host uc r" if y: "y \<in> set (mapped_blocks w)" "mr_store uc y = Some r" "mr_ram r" for y r
  proof -
    have y': "y \<in> set (mapped_blocks uc)" "y \<noteq> p" using y(1) set by auto
    then obtain q' where q': "mr_ram_block r = Some q'" using shape_block_ok [OF uc(1) y'(1) y(2)] y(3) by (auto simp: block_ok_def)
    then have "rb_mr (the (rb_store uc q')) = y" using uc(1) y'(1) y(2,3) by (simp add: shape_inv_def ram_inv_def)
    then have "q' \<noteq> q" using pq y'(2) by auto
    then show ?thesis by (simp add: ram_host_def q' w(4))
  qed
  show "no_alias w"
  proof -
    have "ram_host w (the (mr_store w y)) = ram_host uc (the (mr_store uc y))" if "y \<in> set (mapped_blocks w)" "mr_ram (the (mr_store w y))" for y
    proof -
      have "y \<in> set (mapped_blocks uc)" using that(1) set by simp
      then obtain r where "mr_store uc y = Some r" by (rule shape_block [OF uc(1)])
      then show ?thesis using host [OF that(1)] that old by simp
    qed
    then show ?thesis using uc(2) unfolding no_alias_def Let_def by (auto simp: set old)
  qed
  show "ram_of w x = (if mr_covers mr x then None else ram_of uc x)"
  proof (cases "mapped w x")
    case False
    then have "mr_covers mr x \<or> \<not> mapped uc x"
      using p(2) old set unfolding mapped_def blocks_of_def by fastforce
    then show ?thesis using False by (auto simp: ram_of_unmapped)
  next
    case True
    then obtain y r where y: "y \<in> set (mapped_blocks w)" "mr_store w y = Some r" "mr_covers r x" by (rule mapped_region [OF w(1)])
    have y': "y \<in> set (mapped_blocks uc)" "y \<noteq> p" "mr_store uc y = Some r" using y set old by auto
    have "\<not> mr_covers mr x" using shape_unique [OF uc(1) p(1) y'(1) p(2) y'(3) _ y(3)] y'(2) by blast
    then show ?thesis
      using ram_of_region [OF w(1) y] ram_of_region [OF uc(1) y'(1,3) y(3)] host [OF y(1) y'(3)] by (simp add: w(5))
  qed
qed

lemma mapping_of_region:
  assumes "shape_inv uc" "env_mem_redirect env = None" "p \<in> set (mapped_blocks uc)" "mr_store uc p = Some mr" "mr_covers mr a"
  shows "memory_mapping env uc a = Some (Some p)"
proof -
  obtain p' mr' where "memory_mapping env uc a = Some (Some p')" "p' \<in> set (mapped_blocks uc)" "mr_store uc p' = Some mr'" "mr_covers mr' a"
    by (rule mapping_region [OF assms(1,2) region_mapped [OF assms(3-5)]])
  then show ?thesis using shape_unique [OF assms(1,3) _ assms(4) _ assms(5)] by blast
qed

section \<open>Properties\<close>

definition demo_unmap :: "unit uc_struct" where
  "demo_unmap = demo_shape\<lparr>target_page_size := 4096,
     mr_store := (mr_store demo_shape)(3 \<mapsto> (the (mr_store demo_shape 3))\<lparr>mr_destructor := memory_region_destructor_ram\<rparr>)\<rparr>"

lemma demo_unmap_shape: "shape_inv demo_unmap"
proof -
  have m: "(4095 :: u32) = mask 12" by (simp add: mask_eq_decr_exp)
  show ?thesis
    by (simp add: demo_unmap_def shape_inv_def demo_shape_def uc_zero_def sys_root_def io_root_def table_inv_def blocks_of_def
        blocks_sorted_def block_ok_def ram_inv_def leaf_region_def memory_region_init_def memory_region_init_io_def
        mr_zero_def mr_last_def m UC_PROT_WRITE_def)
qed

text \<open>
  C9: unmapping a region of RAM succeeds. Exactly the addresses of the region leave the memory of the
  guest, the region and its RAM block are freed, and the invariant holds again.
\<close>

theorem mem_unmap_correct:
  assumes "mem_inv uc" "no_alias uc" "env_mem_redirect env = None" "target_page_size uc = 2 ^ target_page_bits uc"
    and "p \<in> set (mapped_blocks uc)" "mr_store uc p = Some mr" "mr_ram mr" "mr_destructor mr = memory_region_destructor_ram"
  shows "\<exists>uc'. uc_mem_unmap env (mr_addr mr) (word_of_int (mr_size mr)) uc = Some (UC_ERR_OK, uc') \<and> mem_inv uc' \<and> no_alias uc' \<and>
    mapped_blocks uc' = remove1 p (mapped_blocks uc) \<and> mr_store uc' p = None \<and> rb_store uc' (the (mr_ram_block mr)) = None \<and>
    ram_of uc' = (\<lambda>x. if mr_covers mr x then None else ram_of uc x)"
proof -
  have sh: "shape_inv uc" using assms(1) by (rule mem_inv_shape)
  have ok: "block_ok uc mr" by (rule shape_block_ok [OF sh assms(5,6)])
  note geo = block_geometry [OF block_ok_geometry [OF ok, THEN conjunct1] block_ok_geometry [OF ok, THEN conjunct2]]
  let ?a = "mr_addr mr" and ?sz = "word_of_int (mr_size mr) :: u64"
  have size: "0 < mr_size mr" "mr_size mr < 2 ^ 64" "uint ?a + mr_size mr \<le> 2 ^ 64" "mr_end mr = ?a + ?sz"
    using ok by (simp_all add: block_ok_def leaf_region_def)
  have usz: "uint ?sz = mr_size mr" using size by (intro uint_of_int) simp_all
  then have sz: "?sz \<noteq> 0" "0 < ?sz" using size(1) by (auto simp: word_less_def)
  have al: "?a AND ucast (target_page_align uc) = 0" "?sz AND ucast (target_page_align uc) = 0"
    using dvd_aligned [of "target_page_bits uc"] ok usz sh by (simp_all add: block_ok_def shape_inv_def)
  have area: "\<forall>i < unat ?sz. mapped uc (?a + of_nat i)"
  proof (intro allI impI)
    fix i assume "i < unat ?sz"
    then have i: "int i < mr_size mr" using usz by (metis nat_less_as_int of_nat_less_iff unat_eq_nat_uint uint_nat)
    then have "uint (?a + of_nat i) = uint ?a + int i"
      using size uint_of_int [of "uint ?a + int i"] by simp
    then show "mapped uc (?a + of_nat i)" using i geo(2) by (intro region_mapped [OF assms(5,6)]) simp
  qed
  then have chk: "check_mem_area env uc ?a ?sz = Some True" using check_mem_area_exact [OF sh assms(3)] by simp
  have "mr_covers mr ?a" using geo(2) size(1) by simp
  then have map: "memory_mapping env uc ?a = Some (Some p)" by (rule mapping_of_region [OF sh assms(3,5,6)])
  obtain w sys q where w: "memory_unmap env p uc = Some w" "mem_inv w" "mr_ram_block mr = Some q"
    "mr_store w = (mr_store uc)(system_memory uc \<mapsto> sys, p := None)" "mapped_blocks w = remove1 p (mapped_blocks uc)"
    "rb_store w = (rb_store uc)(q := None)" "host_mem w = host_mem uc"
    using memory_unmap_ok [OF assms(1,5-8,4), of env] by blast
  have "uc_mem_unmap_loop f env ?a ?sz 0 uc = Some (UC_ERR_OK, w)" for f
    using map w(1) assms(6,7) sz(2) size(4)
    by (subst uc_mem_unmap_loop.simps) (simp add: split_region_def Let_def uc_mem_unmap_loop.simps [of _ _ _ _ ?sz])
  then have "uc_mem_unmap env ?a ?sz uc = Some (UC_ERR_OK, w)"
    using sh al sz(1) chk no_redirect [OF assms(3)]
    by (simp add: uc_mem_unmap_def unmap_nesting_def numeral_2_eq_2 uc_mem_unmap_with_def shape_inv_def)
  then show ?thesis
    using unmap_memory [OF sh assms(2,5,6) w(3) assms(7) mem_inv_shape [OF w(2)] w(4-7)] w(2-6) by (intro exI [of _ w]) auto
qed

theorem mem_unmap_correct_witness:
  "\<exists>uc uc' :: unit uc_struct. uc_mem_unmap plain_env 4096 8192 uc = Some (UC_ERR_OK, uc') \<and> mapped_blocks uc = [3] \<and>
    mapped_blocks uc' = [] \<and> ram_of uc' 4096 = None"
proof -
  obtain ass cpu where i: "mem_inv (demo_unmap\<lparr>address_spaces := ass, flat_view_gen := Suc (flat_view_gen demo_unmap),
      memory_region_update_pending := False, uc_cpu := cpu\<rparr>)"
    using commit_mem_inv [OF demo_unmap_shape, of plain_env] by (auto simp: demo_unmap_def demo_shape_def)
  let ?uc = "demo_unmap\<lparr>address_spaces := ass, flat_view_gen := Suc (flat_view_gen demo_unmap),
      memory_region_update_pending := False, uc_cpu := cpu\<rparr>"
  let ?mr = "(memory_region_init 8192)\<lparr>mr_ram := True, mr_terminates := True, mr_addr := 4096, mr_end := 12288,
         mr_container := Some 1, mr_ram_block := Some 5, mr_perms := 7, mr_destructor := memory_region_destructor_ram\<rparr>"
  have d: "no_alias ?uc" "target_page_size ?uc = 2 ^ target_page_bits ?uc" "3 \<in> set (mapped_blocks ?uc)" "mr_store ?uc 3 = Some ?mr"
    by (simp_all add: no_alias_def demo_unmap_def demo_shape_def)
  have m: "mr_ram ?mr" "mr_destructor ?mr = memory_region_destructor_ram" "mr_addr ?mr = 4096" "mr_size ?mr = 8192" "mr_covers ?mr 4096"
    by (simp_all add: memory_region_init_def mr_covers_def mr_last_def)
  have "env_mem_redirect plain_env = None" by (simp add: plain_env_def)
  from mem_unmap_correct [OF i d(1) this d(2-4) m(1,2)] obtain uc' where "uc_mem_unmap plain_env 4096 8192 ?uc = Some (UC_ERR_OK, uc')"
    "mapped_blocks uc' = remove1 3 (mapped_blocks ?uc)" "ram_of uc' = (\<lambda>x. if mr_covers ?mr x then None else ram_of ?uc x)"
    unfolding m(3,4) by auto
  moreover have "mapped_blocks ?uc = [3]" by (simp add: demo_unmap_def demo_shape_def)
  ultimately show ?thesis using m(5) by (intro exI [of _ ?uc] exI [of _ uc']) simp
qed

end
