(* ===== verification/UcHooks.thy ===== *)
theory UcHooks
  imports UcMem
begin

text \<open>
  The hooks of \<^verbatim>\<open>uc.c\<close> and \<^verbatim>\<open>include/uc_priv.h\<close>: registering a hook in the lists of its types, marking
  it as deleted, the delayed removal with reference counts, the cache of instrumented regions, and the
  helpers that run the callbacks of a code hook. \<^const>\<open>None\<close> is the use of a dangling pointer, a failed
  assertion or a loop that does not end.
\<close>

section \<open>Hook types\<close>

definition UC_HOOK_INSN_IDX :: nat where "UC_HOOK_INSN_IDX = 1"
definition UC_HOOK_CODE_IDX :: nat where "UC_HOOK_CODE_IDX = 2"
definition UC_HOOK_BLOCK_IDX :: nat where "UC_HOOK_BLOCK_IDX = 3"
definition UC_HOOK_TCG_OPCODE_IDX :: nat where "UC_HOOK_TCG_OPCODE_IDX = 16"

definition UC_HOOK_INSN :: u32 where "UC_HOOK_INSN = 2"
definition UC_HOOK_CODE :: u32 where "UC_HOOK_CODE = 4"
definition UC_HOOK_TCG_OPCODE :: u32 where "UC_HOOK_TCG_OPCODE = 0x10000"

definition UC_HOOK_IDX_MASK :: u32 where "UC_HOOK_IDX_MASK = 63"
definition UC_HOOK_FLAG_NO_STOP :: u32 where "UC_HOOK_FLAG_NO_STOP = 64"
definition UC_HOOK_FLAG_MASK :: u32 where "UC_HOOK_FLAG_MASK = NOT UC_HOOK_IDX_MASK"

definition hook_zero :: hook where
  "hook_zero = \<lparr>h_type = 0, h_insn = 0, h_refs = 0, h_op = 0, h_op_flags = 0, h_to_delete = False,
     h_begin = 0, h_end = 0, h_callback = 0, h_user_data = 0, h_hooked_regions = []\<rparr>"

definition upd_hook :: "hook_ptr \<Rightarrow> (hook \<Rightarrow> hook) \<Rightarrow> 'c uc_struct \<Rightarrow> 'c uc_struct option" where
  "upd_hook p f uc =
    (case hook_heap uc p of
       None \<Rightarrow> None | Some h \<Rightarrow> Some (uc\<lparr>hook_heap := (hook_heap uc)(p \<mapsto> f h)\<rparr>))"

section \<open>Adding a hook\<close>

text \<open>\<^verbatim>\<open>hook_insert\<close> and \<^verbatim>\<open>hook_append\<close> on a list; the list is returned, and the caller stores it.\<close>

definition hook_insert ::
  "'c uc_env \<Rightarrow> hook_list \<Rightarrow> hook_ptr \<Rightarrow> 'c uc_struct \<Rightarrow> (nat option \<times> hook_list \<times> 'c uc_struct) option" where
  "hook_insert env l p uc =
    (let (item, l) = list_insert (env_new_item env uc l) l p in
     case item of
       None \<Rightarrow> Some (None, l, uc)
     | Some _ \<Rightarrow> do { uc \<leftarrow> upd_hook p (\<lambda>h. h\<lparr>h_refs := h_refs h + 1\<rparr>) uc; Some (item, l, uc) })"

definition hook_append ::
  "'c uc_env \<Rightarrow> hook_list \<Rightarrow> hook_ptr \<Rightarrow> 'c uc_struct \<Rightarrow> (nat option \<times> hook_list \<times> 'c uc_struct) option" where
  "hook_append env l p uc =
    (let (item, l) = list_append (env_new_item env uc l) l p in
     case item of
       None \<Rightarrow> Some (None, l, uc)
     | Some _ \<Rightarrow> do { uc \<leftarrow> upd_hook p (\<lambda>h. h\<lparr>h_refs := h_refs h + 1\<rparr>) uc; Some (item, l, uc) })"

text \<open>The step all three branches of \<^verbatim>\<open>uc_hook_add\<close> share: into list \<^term>\<open>i\<close>, at its begin or its end.\<close>

definition hook_link :: "'c uc_env \<Rightarrow> nat \<Rightarrow> hook_ptr \<Rightarrow> 'c uc_struct \<Rightarrow> (bool \<times> 'c uc_struct) option" where
  "hook_link env i p uc = do {
     (item, l, uc) \<leftarrow> (if hook_insert_mode uc then hook_insert env (uc_hook uc i) p uc
       else hook_append env (uc_hook uc i) p uc);
     let uc = uc\<lparr>uc_hook := (uc_hook uc)(i := l)\<rparr>;
     (case item of
        None \<Rightarrow> Some (False, uc\<lparr>hook_heap := (hook_heap uc)(p := None)\<rparr>)
      | Some _ \<Rightarrow> Some (True, uc\<lparr>hooks_count := (hooks_count uc)(i := hooks_count uc i + 1)\<rparr>)) }"

text \<open>The loop over the bits of the type; \<^term>\<open>t\<close> is \<^verbatim>\<open>type >> i\<close>.\<close>

function hook_add_loop :: "'c uc_env \<Rightarrow> hook_ptr \<Rightarrow> int \<Rightarrow> nat \<Rightarrow> 'c uc_struct \<Rightarrow> (bool \<times> 'c uc_struct) option" where
  "hook_add_loop env p t i uc =
    (if 0 < t then
       if odd t \<and> i < UC_HOOK_MAX then
         (case hook_link env i p uc of
            None \<Rightarrow> None
          | Some (ok, uc) \<Rightarrow> if \<not> ok then Some (False, uc) else hook_add_loop env p (t div 2) (Suc i) uc)
       else hook_add_loop env p (t div 2) (Suc i) uc
     else Some (True, uc))"
  by pat_completeness auto
termination by (relation "measure (\<lambda>(_, _, t, _, _). nat t)") auto

declare hook_add_loop.simps [simp del]

text \<open>The optional arguments of \<^verbatim>\<open>uc_hook_add\<close>: the instruction, or the opcode and its flags.\<close>

record hook_args =
  arg_insn :: u32
  arg_op :: u32
  arg_op_flags :: u32

definition uc_hook_add ::
  "'c uc_env \<Rightarrow> u32 \<Rightarrow> nat \<Rightarrow> nat \<Rightarrow> u64 \<Rightarrow> u64 \<Rightarrow> hook_args \<Rightarrow> 'c uc_struct \<Rightarrow>
    (uc_err \<times> hook_ptr option \<times> 'c uc_struct) option" where
  "uc_hook_add env type callback user_data begin end_addr args uc =
    UC_INIT env (\<lambda>err uc. (err, None, uc)) uc (\<lambda>uc.
     case env_new_hook env uc of
       None \<Rightarrow> Some (UC_ERR_NOMEM, None, uc)
     | Some p \<Rightarrow>
         let h = hook_zero\<lparr>h_begin := begin, h_end := end_addr, h_type := type, h_callback := callback,
               h_user_data := user_data\<rparr>;
             freed = (\<lambda>uc. uc\<lparr>hook_heap := (hook_heap uc)(p := None)\<rparr>) in
         if type AND UC_HOOK_INSN \<noteq> 0 then do {
           let uc = uc\<lparr>hook_heap := (hook_heap uc)(p \<mapsto> h\<lparr>h_insn := arg_insn args\<rparr>)\<rparr>;
           let valid = (case env_insn_hook_validate env of None \<Rightarrow> True | Some f \<Rightarrow> f (arg_insn args));
           if \<not> valid then Some (UC_ERR_HOOK, Some p, freed uc)
           else do {
             (ok, uc) \<leftarrow> hook_link env UC_HOOK_INSN_IDX p uc;
             Some (if ok then UC_ERR_OK else UC_ERR_NOMEM, Some p, uc) } }
         else if type AND UC_HOOK_TCG_OPCODE \<noteq> 0 then do {
           let uc = uc\<lparr>hook_heap := (hook_heap uc)(p \<mapsto>
             h\<lparr>h_op := arg_op args, h_op_flags := arg_op_flags args\<rparr>)\<rparr>;
           let valid = (case env_opcode_hook_invalidate env of
             None \<Rightarrow> True | Some f \<Rightarrow> f (arg_op args) (arg_op_flags args));
           if \<not> valid then Some (UC_ERR_HOOK, Some p, freed uc)
           else do {
             (ok, uc) \<leftarrow> hook_link env UC_HOOK_TCG_OPCODE_IDX p uc;
             Some (if ok then UC_ERR_OK else UC_ERR_NOMEM, Some p, uc) } }
         else do {
           let uc = uc\<lparr>hook_heap := (hook_heap uc)(p \<mapsto> h)\<rparr>;
           (ok, uc) \<leftarrow> hook_add_loop env p (sint type) 0 uc;
           if \<not> ok then Some (UC_ERR_NOMEM, Some p, uc)
           else do {
             h \<leftarrow> hook_heap uc p;
             Some (UC_ERR_OK, Some p, if h_refs h = 0 then freed uc else uc) } })"

section \<open>Deleting a hook\<close>

definition hook_invalidate_region :: "'c uc_env \<Rightarrow> HookedRegion \<Rightarrow> 'c uc_struct \<Rightarrow> 'c uc_struct" where
  "hook_invalidate_region env r uc = env_invalidate_tb env (hr_start r) (hr_length r) uc"

text \<open>The body of the loop of \<^verbatim>\<open>uc_hook_del\<close> for one list.\<close>

definition hook_unlink :: "'c uc_env \<Rightarrow> hook_ptr \<Rightarrow> nat \<Rightarrow> 'c uc_struct \<Rightarrow> 'c uc_struct option" where
  "hook_unlink env p i uc = do {
     found \<leftarrow> list_exists (uc_hook uc i) p;
     if found then do {
       h \<leftarrow> hook_heap uc p;
       let uc = fold (hook_invalidate_region env) (h_hooked_regions h) uc;
       uc \<leftarrow> upd_hook p (\<lambda>h. h\<lparr>h_hooked_regions := [], h_to_delete := True\<rparr>) uc;
       let uc = uc\<lparr>hooks_count := (hooks_count uc)(i := hooks_count uc i - 1)\<rparr>;
       (item, l, uc) \<leftarrow> hook_append env (hooks_to_del uc) p uc;
       Some (uc\<lparr>hooks_to_del := l\<rparr>) }
     else Some uc }"

definition uc_hook_del :: "'c uc_env \<Rightarrow> hook_ptr \<Rightarrow> 'c uc_struct \<Rightarrow> (uc_err \<times> 'c uc_struct) option" where
  "uc_hook_del env hh uc = UC_INIT env Pair uc (\<lambda>uc. do {
     uc \<leftarrow> foldM (hook_unlink env hh) [0 ..< UC_HOOK_MAX] uc;
     Some (UC_ERR_OK, uc) })"

text \<open>The inner loop of \<^verbatim>\<open>clear_deleted_hooks\<close>: out of the first list that has the hook.\<close>

fun remove_first_list :: "hook_ptr \<Rightarrow> nat list \<Rightarrow> 'c uc_struct \<Rightarrow> 'c uc_struct option" where
  "remove_first_list p [] uc = Some uc"
| "remove_first_list p (i # is) uc = do {
     (removed, l, hs) \<leftarrow> list_remove (uc_hook uc i) p (hook_heap uc);
     let uc = uc\<lparr>uc_hook := (uc_hook uc)(i := l), hook_heap := hs\<rparr>;
     if removed then Some uc else remove_first_list p is uc }"

partial_function (option) clear_deleted_loop :: "nat option \<Rightarrow> 'c uc_struct \<Rightarrow> 'c uc_struct option" where
  [code]: "clear_deleted_loop cur uc =
    (case cur of
       None \<Rightarrow> Some uc
     | Some c \<Rightarrow>
         (case l_nodes (hooks_to_del uc) c of
            None \<Rightarrow> None
          | Some it \<Rightarrow>
              (case hook_heap uc (li_data it) of
                 None \<Rightarrow> None
               | Some h \<Rightarrow>
                   if \<not> h_to_delete h then None
                   else
                     (case remove_first_list (li_data it) [0 ..< UC_HOOK_MAX] uc of
                        None \<Rightarrow> None
                      | Some uc \<Rightarrow> clear_deleted_loop (li_next it) uc))))"

definition clear_deleted_hooks :: "'c uc_struct \<Rightarrow> 'c uc_struct option" where
  "clear_deleted_hooks uc = do {
     uc \<leftarrow> clear_deleted_loop (l_head (hooks_to_del uc)) uc;
     (l, hs) \<leftarrow> list_clear (hooks_to_del uc) (hook_heap uc);
     Some (uc\<lparr>hooks_to_del := l, hook_heap := hs\<rparr>) }"

section \<open>Bounds and instrumented regions\<close>

definition HOOK_BOUND_CHECK :: "hook \<Rightarrow> u64 \<Rightarrow> bool" where
  "HOOK_BOUND_CHECK hh addr \<longleftrightarrow>
    ((h_begin hh \<le> addr \<and> addr \<le> h_end hh) \<or> h_end hh < h_begin hh) \<and> \<not> h_to_delete hh"

partial_function (option) hook_exists_bounded_loop ::
  "hook_list \<Rightarrow> hook_store \<Rightarrow> nat option \<Rightarrow> u64 \<Rightarrow> bool option" where
  [code]: "hook_exists_bounded_loop l hs cur addr =
    (case cur of
       None \<Rightarrow> Some False
     | Some c \<Rightarrow>
         (case l_nodes l c of
            None \<Rightarrow> None
          | Some it \<Rightarrow>
              (case hs (li_data it) of
                 None \<Rightarrow> None
               | Some h \<Rightarrow>
                   if HOOK_BOUND_CHECK h addr then Some True
                   else hook_exists_bounded_loop l hs (li_next it) addr)))"

definition hook_exists_bounded :: "'c uc_struct \<Rightarrow> nat \<Rightarrow> u64 \<Rightarrow> bool option" where
  "hook_exists_bounded uc i addr =
    hook_exists_bounded_loop (uc_hook uc i) (hook_heap uc) (l_head (uc_hook uc i)) addr"

definition HOOK_EXISTS :: "'c uc_struct \<Rightarrow> nat \<Rightarrow> bool" where
  "HOOK_EXISTS uc i \<longleftrightarrow> l_head (uc_hook uc i) \<noteq> None"

definition hooked_regions_add :: "u64 \<Rightarrow> u64 \<Rightarrow> hook \<Rightarrow> hook" where
  "hooked_regions_add start len h =
    (let r = \<lparr>hr_start = start, hr_length = len\<rparr> in
     if r \<in> set (h_hooked_regions h) then h else h\<lparr>h_hooked_regions := r # h_hooked_regions h\<rparr>)"

partial_function (option) hooked_regions_check_single ::
  "hook_list \<Rightarrow> nat option \<Rightarrow> u64 \<Rightarrow> u64 \<Rightarrow> hook_store \<Rightarrow> hook_store option" where
  [code]: "hooked_regions_check_single l cur start len hs =
    (case cur of
       None \<Rightarrow> Some hs
     | Some c \<Rightarrow>
         (case l_nodes l c of
            None \<Rightarrow> None
          | Some it \<Rightarrow>
              (case hs (li_data it) of
                 None \<Rightarrow> None
               | Some h \<Rightarrow>
                   hooked_regions_check_single l (li_next it) start len
                     (if HOOK_BOUND_CHECK h start then hs(li_data it \<mapsto> hooked_regions_add start len h)
                      else hs))))"

definition hooked_regions_check :: "u64 \<Rightarrow> u64 \<Rightarrow> 'c uc_struct \<Rightarrow> 'c uc_struct option" where
  "hooked_regions_check start len uc = do {
     let c = uc_hook uc UC_HOOK_CODE_IDX;
     hs \<leftarrow> hooked_regions_check_single c (l_head c) start len (hook_heap uc);
     let b = uc_hook uc UC_HOOK_BLOCK_IDX;
     hs \<leftarrow> hooked_regions_check_single b (l_head b) start len hs;
     Some (uc\<lparr>hook_heap := hs\<rparr>) }"

section \<open>Running callbacks\<close>

text \<open>
  A callback is a number: 0 is \<^verbatim>\<open>hook_count_cb\<close>, the counter that \<^verbatim>\<open>uc_emu_start\<close> registers, and the others
  are functions of the client.
\<close>

definition HOOK_COUNT_CB :: nat where "HOOK_COUNT_CB = 0"

definition hook_count_cb :: "'c uc_env \<Rightarrow> 'c uc_struct \<Rightarrow> 'c uc_struct option" where
  "hook_count_cb env uc =
    (let uc = uc\<lparr>emu_counter := emu_counter uc + 1\<rparr> in
     if emu_count uc < emu_counter uc then map_option snd (uc_emu_stop env uc) else Some uc)"

definition run_code_callback :: "'c uc_env \<Rightarrow> hook \<Rightarrow> u64 \<Rightarrow> u32 \<Rightarrow> 'c uc_struct \<Rightarrow> 'c uc_struct option" where
  "run_code_callback env h address sz uc =
    (if h_callback h = HOOK_COUNT_CB then hook_count_cb env uc
     else Some (env_callback env (h_callback h) address [] sz (h_user_data h) uc))"

definition helper_uc_traceopcode ::
  "'c uc_env \<Rightarrow> hook_ptr \<Rightarrow> u64 \<Rightarrow> u64 \<Rightarrow> u32 \<Rightarrow> u64 \<Rightarrow> 'c uc_struct \<Rightarrow> 'c uc_struct option" where
  "helper_uc_traceopcode env p arg1 arg2 sz address uc =
    (if stop_request uc then Some uc
     else do {
       h \<leftarrow> hook_heap uc p;
       if h_to_delete h then Some uc
       else Some (env_callback env (h_callback h) address [arg1, arg2] sz (h_user_data h) uc) })"

partial_function (option) tracecode_loop ::
  "'c uc_env \<Rightarrow> u32 \<Rightarrow> nat \<Rightarrow> u32 \<Rightarrow> u64 \<Rightarrow> nat option \<Rightarrow> 'c uc_struct \<Rightarrow> 'c uc_struct option" where
  [code]: "tracecode_loop env sz index hook_flags address cur uc =
    (case cur of
       None \<Rightarrow> Some uc
     | Some c \<Rightarrow>
         (case l_nodes (uc_hook uc index) c of
            None \<Rightarrow> None
          | Some it \<Rightarrow>
              (case hook_heap uc (li_data it) of
                 None \<Rightarrow> None
               | Some h \<Rightarrow>
                   if h_to_delete h then tracecode_loop env sz index hook_flags address (li_next it) uc
                   else if sz = 0 then
                     (if index = UC_HOOK_CODE_IDX \<and> count_hook uc \<noteq> 0
                      then run_code_callback env h address sz uc else Some uc)
                   else
                     (case (if HOOK_BOUND_CHECK h address then run_code_callback env h address sz uc
                            else Some uc) of
                        None \<Rightarrow> None
                      | Some uc \<Rightarrow>
                          if stop_request uc \<and> hook_flags AND UC_HOOK_FLAG_NO_STOP = 0 then Some uc
                          else
                            (case l_nodes (uc_hook uc index) c of
                               None \<Rightarrow> None
                             | Some it \<Rightarrow> tracecode_loop env sz index hook_flags address (li_next it) uc)))))"

definition helper_uc_tracecode ::
  "'c uc_env \<Rightarrow> u32 \<Rightarrow> u32 \<Rightarrow> u64 \<Rightarrow> 'c uc_struct \<Rightarrow> 'c uc_struct option" where
  "helper_uc_tracecode env sz index address uc =
    (let hook_flags = index AND UC_HOOK_FLAG_MASK;
         index = unat (index AND UC_HOOK_IDX_MASK) in
     if stop_request uc \<and> hook_flags AND UC_HOOK_FLAG_NO_STOP = 0 then Some uc
     else tracecode_loop env sz index hook_flags address (l_head (uc_hook uc index)) uc)"

section \<open>Exits\<close>

text \<open>
  The exits are the keys of a tree ordered by \<^verbatim>\<open>uc_exits_cmp\<close>, each with the value 1. A key is the address
  that the pointer in the tree refers to.
\<close>

definition uc_exits_cmp :: "u64 \<Rightarrow> u64 \<Rightarrow> int" where
  "uc_exits_cmp lhs rhs = (if lhs < rhs then -1 else if lhs = rhs then 0 else 1)"

definition uc_add_exit :: "u64 \<Rightarrow> 'c uc_struct \<Rightarrow> 'c uc_struct option" where
  "uc_add_exit addr uc = do {
     tree \<leftarrow> g_tree_insert uc_exits_cmp (ctl_exits uc) addr 1;
     Some (uc\<lparr>ctl_exits := tree\<rparr>) }"

definition uc_addr_is_exit :: "'c uc_struct \<Rightarrow> u64 \<Rightarrow> bool" where
  "uc_addr_is_exit uc addr \<longleftrightarrow>
    (if use_exits uc then g_tree_lookup uc_exits_cmp (ctl_exits uc) addr = Some 1 else uc_exits uc (nested_level uc - 1) = addr)"

interpretation exits: key_order uc_exits_cmp
  by unfold_locales (auto simp: uc_exits_cmp_def split: if_splits)

end
