(* ===== verification/HookInv.thy ===== *)
theory HookInv
  imports UcHooks
begin

text \<open>
  The invariant of the hook lists: every list is well formed and holds a hook at most once, the
  reference count of a hook is the number of lists that hold it, and a hook that waits for its
  deletion has one entry in \<^verbatim>\<open>hooks_to_del\<close> for every list it is still in. Adding, deleting and clearing
  hooks keep it, and clearing leaves exactly the live hooks. Running the hooks of an instruction follows
  an inductive relation, also when the callbacks add and delete hooks.
\<close>

section \<open>The invariant\<close>

definition hook_lists :: "(nat \<Rightarrow> hook_list) \<Rightarrow> (nat \<Rightarrow> hook_ptr list) \<Rightarrow> bool" where
  "hook_lists uh L \<longleftrightarrow>
    (\<forall>i < UC_HOOK_MAX. list_rep (uh i) (L i) \<and> distinct (L i) \<and> run_delete_fn (uh i) = hook_delete)"

definition listed :: "(nat \<Rightarrow> hook_ptr list) \<Rightarrow> hook_ptr \<Rightarrow> int" where
  "listed L p = (\<Sum>i < UC_HOOK_MAX. of_bool (p \<in> set (L i)))"

definition refs_ok :: "hook_store \<Rightarrow> (hook_ptr \<Rightarrow> int) \<Rightarrow> bool" where
  "refs_ok hs r \<longleftrightarrow>
    (\<forall>p. case hs p of None \<Rightarrow> r p = 0 | Some h \<Rightarrow> h_refs h = r p \<and> 0 < r p)"

definition marked :: "hook_store \<Rightarrow> hook_ptr \<Rightarrow> bool" where
  "marked hs p \<longleftrightarrow> (case hs p of None \<Rightarrow> False | Some h \<Rightarrow> h_to_delete h)"

definition hook_state :: "'c uc_struct \<Rightarrow> (nat \<Rightarrow> hook_ptr list) \<Rightarrow> hook_ptr list \<Rightarrow> bool" where
  "hook_state uc L D \<longleftrightarrow>
    hook_lists (uc_hook uc) L \<and> list_rep (hooks_to_del uc) D \<and> run_delete_fn (hooks_to_del uc) = hook_delete \<and>
    refs_ok (hook_heap uc) (\<lambda>p. listed L p + int (count_list D p)) \<and>
    (\<forall>p \<in> set D. marked (hook_heap uc) p) \<and>
    (\<forall>p. marked (hook_heap uc) p \<longrightarrow> listed L p \<le> int (count_list D p))"

text \<open>\<^verbatim>\<open>hooks_count\<close> is the number of live hooks of each list.\<close>

definition hook_counts :: "'c uc_struct \<Rightarrow> (nat \<Rightarrow> hook_ptr list) \<Rightarrow> bool" where
  "hook_counts uc L \<longleftrightarrow>
    (\<forall>i < UC_HOOK_MAX. hooks_count uc i = int (length (filter (\<lambda>p. \<not> marked (hook_heap uc) p) (L i))))"

text \<open>What \<^verbatim>\<open>malloc\<close> promises for a list node, as long as there is memory.\<close>

definition item_alloc :: "'c uc_env \<Rightarrow> bool" where
  "item_alloc env \<longleftrightarrow> (\<forall>uc l xs. list_rep l xs \<longrightarrow> (\<exists>n. env_new_item env uc l = Some n \<and> list_fresh l n))"

section \<open>Counting references\<close>

lemma listed_nonneg: "0 \<le> listed L p"
  by (simp add: listed_def sum_nonneg)

lemma listed_pos: "0 < listed L p \<longleftrightarrow> (\<exists>i < UC_HOOK_MAX. p \<in> set (L i))"
proof
  assume "0 < listed L p"
  moreover have "listed L p = 0" if "\<forall>i < UC_HOOK_MAX. p \<notin> set (L i)"
    unfolding listed_def using that by (intro sum.neutral) simp
  ultimately show "\<exists>i < UC_HOOK_MAX. p \<in> set (L i)" by force
next
  assume "\<exists>i < UC_HOOK_MAX. p \<in> set (L i)"
  then obtain i where "i < UC_HOOK_MAX" "p \<in> set (L i)" by blast
  then show "0 < listed L p" unfolding listed_def
    by (intro sum_pos2 [where i = i]) auto
qed

lemma listed_upd:
  assumes "i < UC_HOOK_MAX"
  shows "listed (L(i := xs)) p = listed L p - of_bool (p \<in> set (L i)) + of_bool (p \<in> set xs)"
proof -
  have "listed (L(i := xs)) p = of_bool (p \<in> set xs) + (\<Sum>j \<in> {..< UC_HOOK_MAX} - {i}. of_bool (p \<in> set (L j)))"
    unfolding listed_def using assms by (subst sum.remove [of _ i]) (auto intro!: sum.cong)
  moreover have "listed L p = of_bool (p \<in> set (L i)) + (\<Sum>j \<in> {..< UC_HOOK_MAX} - {i}. of_bool (p \<in> set (L j)))"
    unfolding listed_def using assms by (subst sum.remove [of _ i]) auto
  ultimately show ?thesis by simp
qed

lemma refs_okD: "refs_ok hs r \<Longrightarrow> 0 < r p \<Longrightarrow> \<exists>h. hs p = Some h \<and> h_refs h = r p"
  unfolding refs_ok_def by (erule allE [of _ p]) (auto split: option.splits)

lemma refs_ok_Some: "refs_ok hs r \<Longrightarrow> hs p = Some h \<Longrightarrow> h_refs h = r p"
  unfolding refs_ok_def by (erule allE [of _ p]) simp

lemma refs_ok_None: "refs_ok hs r \<Longrightarrow> hs p = None \<longleftrightarrow> r p = 0"
  unfolding refs_ok_def by (erule allE [of _ p]) (auto split: option.splits)

lemma hook_delete_refs:
  assumes "refs_ok hs r" "0 < r p"
  shows "refs_ok (hook_delete p hs) (r(p := r p - 1))"
proof -
  obtain h where "hs p = Some h" "h_refs h = r p" using refs_okD [OF assms] by blast
  note h = this
  show ?thesis unfolding refs_ok_def
  proof
    fix q
    have "case hs q of None \<Rightarrow> r q = 0 | Some h \<Rightarrow> h_refs h = r q \<and> 0 < r q"
      using assms(1) unfolding refs_ok_def by blast
    then show "case hook_delete p hs q of None \<Rightarrow> (r(p := r p - 1)) q = 0
      | Some h \<Rightarrow> h_refs h = (r(p := r p - 1)) q \<and> 0 < (r(p := r p - 1)) q"
      using h assms(2) by (cases "q = p") (auto simp: hook_delete_def Let_def split: option.splits)
  qed
qed

lemma hook_delete_marked: "refs_ok (hook_delete p hs) r \<Longrightarrow> 0 < r q \<Longrightarrow> marked (hook_delete p hs) q = marked hs q"
  by (drule refs_okD, assumption) (auto simp: hook_delete_def marked_def Let_def split: option.splits if_splits)

lemma marked_hook_delete: "marked (hook_delete p hs) q \<Longrightarrow> marked hs q"
  by (auto simp: hook_delete_def marked_def Let_def split: option.splits if_splits)

lemma hook_delete_kept: "hook_delete p hs q = Some h' \<Longrightarrow> \<exists>h. hs q = Some h \<and> h' = h\<lparr>h_refs := h_refs h'\<rparr>"
  by (auto simp: hook_delete_def Let_def split: option.splits if_splits)

lemma refs_ok_cong: "refs_ok hs r \<Longrightarrow> (\<And>p. r p = r' p) \<Longrightarrow> refs_ok hs r'"
  by (metis ext)

lemma fold_hook_delete:
  assumes "refs_ok hs (\<lambda>p. r p + int (count_list D p))" "\<And>p. 0 \<le> r p"
  shows "refs_ok (fold hook_delete D hs) r \<and>
    (\<forall>q h'. fold hook_delete D hs q = Some h' \<longrightarrow> (\<exists>h. hs q = Some h \<and> h' = h\<lparr>h_refs := h_refs h'\<rparr>))"
  using assms(1)
proof (induction D arbitrary: hs)
  case Nil
  then show ?case by simp
next
  case (Cons d D)
  have "0 < r d + int (count_list (d # D) d)" using assms(2) [of d] by simp
  from hook_delete_refs [OF Cons.prems this]
  have "refs_ok (hook_delete d hs) (\<lambda>p. r p + int (count_list D p))" by (rule refs_ok_cong) auto
  note IH = Cons.IH [OF this]
  have "\<exists>h. hs q = Some h \<and> h' = h\<lparr>h_refs := h_refs h'\<rparr>" if "fold hook_delete (d # D) hs q = Some h'" for q h'
  proof -
    from that IH obtain h1 where h1: "hook_delete d hs q = Some h1" "h' = h1\<lparr>h_refs := h_refs h'\<rparr>" by auto
    from hook_delete_kept [OF h1(1)] obtain h where h: "hs q = Some h" "h1 = h\<lparr>h_refs := h_refs h1\<rparr>" by blast
    have "h' = h\<lparr>h_refs := h_refs h'\<rparr>" by (subst h1(2), subst h(2)) simp
    with h(1) show ?thesis by blast
  qed
  with IH show ?case by simp
qed

section \<open>Clearing deleted hooks\<close>

text \<open>\<^verbatim>\<open>list_remove\<close> over the lists: the hook leaves the first list that has it, with one reference.\<close>

lemma hook_lists_remove:
  assumes "hook_lists uh L" "i < UC_HOOK_MAX"
  shows "\<exists>l. list_remove (uh i) p hs = Some (p \<in> set (L i), l, if p \<in> set (L i) then hook_delete p hs else hs) \<and>
    hook_lists (uh(i := l)) (L(i := remove1 p (L i)))"
proof -
  have i: "list_rep (uh i) (L i)" "run_delete_fn (uh i) = hook_delete" using assms by (auto simp: hook_lists_def)
  from hl.rem_ok [OF i(1), of p hs] obtain l where l:
    "list_remove (uh i) p hs = Some (p \<in> set (L i), l, if p \<in> set (L i) then hook_delete p hs else hs)"
    "list_rep l (remove1 p (L i))" "run_delete_fn l = hook_delete" unfolding i(2) by blast
  have "hook_lists (uh(i := l)) (L(i := remove1 p (L i)))"
    using assms(1) l(2,3) by (auto simp: hook_lists_def)
  with l(1) show ?thesis by blast
qed

lemma remove_first_list_ok:
  assumes "hook_lists (uc_hook uc) L" "set is \<subseteq> {..< UC_HOOK_MAX}"
  shows "(\<exists>uh. remove_first_list p is uc = Some (uc\<lparr>uc_hook := uh\<rparr>) \<and> hook_lists uh L \<and>
      (\<forall>i \<in> set is. p \<notin> set (L i))) \<or>
    (\<exists>uh. \<exists>i \<in> set is. remove_first_list p is uc =
        Some (uc\<lparr>uc_hook := uh, hook_heap := hook_delete p (hook_heap uc)\<rparr>) \<and>
      p \<in> set (L i) \<and> hook_lists uh (L(i := remove1 p (L i))))"
  using assms
proof (induction "is" arbitrary: uc)
  case Nil
  then show ?case by (intro disjI1 exI [of _ "uc_hook uc"]) simp
next
  case (Cons i "is")
  from Cons.prems have i: "i < UC_HOOK_MAX" by simp
  from hook_lists_remove [OF Cons.prems(1) i, of p "hook_heap uc"] obtain l where
    l: "list_remove (uc_hook uc i) p (hook_heap uc) =
      Some (p \<in> set (L i), l, if p \<in> set (L i) then hook_delete p (hook_heap uc) else hook_heap uc)"
    "hook_lists ((uc_hook uc)(i := l)) (L(i := remove1 p (L i)))" by blast
  show ?case
  proof (cases "p \<in> set (L i)")
    case True
    with l have "remove_first_list p (i # is) uc =
        Some (uc\<lparr>uc_hook := (uc_hook uc)(i := l), hook_heap := hook_delete p (hook_heap uc)\<rparr>)" by simp
    with True l(2) show ?thesis by (meson list.set_intros(1))
  next
    case False
    let ?uc = "uc\<lparr>uc_hook := (uc_hook uc)(i := l)\<rparr>"
    have step: "remove_first_list p (i # is) uc = remove_first_list p is ?uc" using l(1) False by simp
    have "hook_lists (uc_hook ?uc) L" using l(2) False by (simp add: remove1_idem)
    moreover have "set is \<subseteq> {..< UC_HOOK_MAX}" using Cons.prems(2) by simp
    ultimately consider
      (out) uh where "remove_first_list p is ?uc = Some (?uc\<lparr>uc_hook := uh\<rparr>)" "hook_lists uh L"
        "\<forall>i \<in> set is. p \<notin> set (L i)"
    | (removed) uh j where "j \<in> set is" "remove_first_list p is ?uc =
        Some (?uc\<lparr>uc_hook := uh, hook_heap := hook_delete p (hook_heap ?uc)\<rparr>)" "p \<in> set (L j)"
        "hook_lists uh (L(j := remove1 p (L j)))" using Cons.IH [of ?uc] by blast
    then show ?thesis
    proof cases
      case out
      with False step show ?thesis by (intro disjI1 exI [of _ uh]) simp
    next
      case removed
      with step show ?thesis by (intro disjI2 exI [of _ uh] bexI [of _ j]) (simp_all add: fun_upd_def)
    qed
  qed
qed

text \<open>One round of the loop, for a hook that still has an entry in \<^verbatim>\<open>hooks_to_del\<close>.\<close>

lemma clear_round:
  assumes lists: "hook_lists (uc_hook uc) L" and refs: "refs_ok (hook_heap uc) (\<lambda>q. listed L q + int (count_list D q))"
    and p: "p \<in> set D"
  shows "\<exists>uh hs L'. remove_first_list p [0 ..< UC_HOOK_MAX] uc = Some (uc\<lparr>uc_hook := uh, hook_heap := hs\<rparr>) \<and>
    hook_lists uh L' \<and> refs_ok hs (\<lambda>q. listed L' q + int (count_list D q)) \<and>
    (\<forall>q. marked hs q = marked (hook_heap uc) q) \<and>
    (\<forall>q. listed L' q = listed L q - of_bool (q = p \<and> 0 < listed L p)) \<and>
    (\<forall>i P. \<not> P p \<longrightarrow> filter P (L' i) = filter P (L i)) \<and>
    (\<forall>q h'. hs q = Some h' \<longrightarrow> (\<exists>h. hook_heap uc q = Some h \<and> h' = h\<lparr>h_refs := h_refs h'\<rparr>))"
proof -
  have sub: "set [0 ..< UC_HOOK_MAX] \<subseteq> {..< UC_HOOK_MAX}" by auto
  from remove_first_list_ok [OF lists sub, of p] consider
    (out) uh where "remove_first_list p [0 ..< UC_HOOK_MAX] uc = Some (uc\<lparr>uc_hook := uh\<rparr>)" "hook_lists uh L"
      "\<forall>i \<in> set [0 ..< UC_HOOK_MAX]. p \<notin> set (L i)"
  | (removed) uh i where "i \<in> set [0 ..< UC_HOOK_MAX]" "remove_first_list p [0 ..< UC_HOOK_MAX] uc =
      Some (uc\<lparr>uc_hook := uh, hook_heap := hook_delete p (hook_heap uc)\<rparr>)" "p \<in> set (L i)"
      "hook_lists uh (L(i := remove1 p (L i)))" by blast
  then show ?thesis
  proof cases
    case out
    then have "\<not> 0 < listed L p" by (auto simp: listed_pos)
    with out refs show ?thesis
      by (intro exI [of _ uh] exI [of _ "hook_heap uc"] exI [of _ L]) auto
  next
    case removed
    define L' where "L' = L(i := remove1 p (L i))"
    have i: "i < UC_HOOK_MAX" "p \<in> set (L i)" "L' = L(i := remove1 p (L i))" using removed by (auto simp: L'_def)
    then have pos: "0 < listed L p" by (auto simp: listed_pos)
    have dist: "distinct (L i)" using lists i(1) by (simp add: hook_lists_def)
    have l': "listed L' q = listed L q - of_bool (q = p)" for q
      using i dist by (auto simp: listed_upd)
    have D: "0 < count_list D p" using p by (simp add: count_list_0_iff flip: neq0_conv)
    have "refs_ok (hook_delete p (hook_heap uc)) (\<lambda>q. listed L' q + int (count_list D q))"
      using hook_delete_refs [OF refs, of p] listed_nonneg [of L p] D
      by (auto elim!: refs_ok_cong simp: l')
    note hs = this
    have m: "marked (hook_delete p (hook_heap uc)) q = marked (hook_heap uc) q" for q
    proof (cases "q = p")
      case True
      then show ?thesis using hook_delete_marked [OF hs, of q] D listed_nonneg [of L' q] by auto
    next
      case False
      then show ?thesis by (auto simp: hook_delete_def marked_def Let_def split: option.splits)
    qed
    have f: "filter P (L' j) = filter P (L j)" if "\<not> P p" for j P
      using that by (auto simp: i(3) filter_remove1 remove1_idem)
    show ?thesis
      using removed hs m l' f pos hook_delete_kept [of p "hook_heap uc"]
      by (intro exI [of _ uh] exI [of _ "hook_delete p (hook_heap uc)"] exI [of _ L']) (simp add: L'_def)
  qed
qed

text \<open>The loop over \<^verbatim>\<open>hooks_to_del\<close>: what is left of it has an entry for every list a marked hook is in.\<close>

lemma clear_deleted_loop_ok:
  assumes "hook_lists (uc_hook uc) L" "refs_ok (hook_heap uc) (\<lambda>q. listed L q + int (count_list D q))"
    and "lpath (l_nodes (hooks_to_del uc)) cur ns xs None" "set xs \<subseteq> set D" "\<forall>p \<in> set D. marked (hook_heap uc) p"
    and "\<forall>p. marked (hook_heap uc) p \<longrightarrow> listed L p \<le> int (count_list xs p)"
  shows "\<exists>uh hs L'. clear_deleted_loop cur uc = Some (uc\<lparr>uc_hook := uh, hook_heap := hs\<rparr>) \<and>
    hook_lists uh L' \<and> refs_ok hs (\<lambda>q. listed L' q + int (count_list D q)) \<and>
    (\<forall>q. marked hs q = marked (hook_heap uc) q) \<and> (\<forall>q. marked hs q \<longrightarrow> listed L' q \<le> 0) \<and>
    (\<forall>i. filter (\<lambda>q. \<not> marked (hook_heap uc) q) (L' i) = filter (\<lambda>q. \<not> marked (hook_heap uc) q) (L i)) \<and>
    (\<forall>q h'. hs q = Some h' \<longrightarrow> (\<exists>h. hook_heap uc q = Some h \<and> h' = h\<lparr>h_refs := h_refs h'\<rparr>))"
  using assms
proof (induction ns arbitrary: cur xs uc L)
  case Nil
  then have "clear_deleted_loop cur uc = Some uc" by (subst clear_deleted_loop.simps) simp
  with Nil show ?case
    by (intro exI [of _ "uc_hook uc"] exI [of _ "hook_heap uc"] exI [of _ L]) auto
next
  case (Cons n ns)
  from Cons.prems(3) obtain x xs' it where x: "xs = x # xs'" "cur = Some n" "l_nodes (hooks_to_del uc) n = Some it"
    "li_data it = x" "lpath (l_nodes (hooks_to_del uc)) (li_next it) ns xs' None"
    by (cases xs) (auto split: option.splits)
  have xD: "x \<in> set D" "set xs' \<subseteq> set D" using Cons.prems(4) x(1) by auto
  obtain h where h: "hook_heap uc x = Some h" "h_to_delete h" using Cons.prems(5) xD by (auto simp: marked_def split: option.splits)
  from clear_round [OF Cons.prems(1,2) xD(1)] obtain uh hs L1 where r:
    "remove_first_list x [0 ..< UC_HOOK_MAX] uc = Some (uc\<lparr>uc_hook := uh, hook_heap := hs\<rparr>)" "hook_lists uh L1"
    "refs_ok hs (\<lambda>q. listed L1 q + int (count_list D q))" "\<forall>q. marked hs q = marked (hook_heap uc) q"
    "\<forall>q. listed L1 q = listed L q - of_bool (q = x \<and> 0 < listed L x)"
    "\<forall>i P. \<not> P x \<longrightarrow> filter P (L1 i) = filter P (L i)"
    "\<forall>q h'. hs q = Some h' \<longrightarrow> (\<exists>h. hook_heap uc q = Some h \<and> h' = h\<lparr>h_refs := h_refs h'\<rparr>)"
    by blast
  let ?uc = "uc\<lparr>uc_hook := uh, hook_heap := hs\<rparr>"
  have step: "clear_deleted_loop cur uc = clear_deleted_loop (li_next it) ?uc"
    using x(2-4) h r(1) by (subst clear_deleted_loop.simps) simp
  have cnt: "listed L1 q \<le> int (count_list xs' q)" if "marked hs q" for q
    using Cons.prems(6) that r(4,5) x(1) listed_nonneg [of L q] by (cases "q = x") auto
  have "\<exists>uh' hs' L'. clear_deleted_loop (li_next it) ?uc = Some (?uc\<lparr>uc_hook := uh', hook_heap := hs'\<rparr>) \<and>
    hook_lists uh' L' \<and> refs_ok hs' (\<lambda>q. listed L' q + int (count_list D q)) \<and>
    (\<forall>q. marked hs' q = marked (hook_heap ?uc) q) \<and> (\<forall>q. marked hs' q \<longrightarrow> listed L' q \<le> 0) \<and>
    (\<forall>i. filter (\<lambda>q. \<not> marked (hook_heap ?uc) q) (L' i) = filter (\<lambda>q. \<not> marked (hook_heap ?uc) q) (L1 i)) \<and>
    (\<forall>q h'. hs' q = Some h' \<longrightarrow> (\<exists>h. hook_heap ?uc q = Some h \<and> h' = h\<lparr>h_refs := h_refs h'\<rparr>))"
    by (rule Cons.IH [where xs = xs']) (use r(2,3,4) x(5) xD(2) Cons.prems(5) cnt in auto)
  then obtain uh' hs' L' where s: "clear_deleted_loop (li_next it) ?uc = Some (uc\<lparr>uc_hook := uh', hook_heap := hs'\<rparr>)"
    "hook_lists uh' L'" "refs_ok hs' (\<lambda>q. listed L' q + int (count_list D q))"
    "\<forall>q. marked hs' q = marked hs q" "\<forall>q. marked hs' q \<longrightarrow> listed L' q \<le> 0"
    "\<forall>i. filter (\<lambda>q. \<not> marked hs q) (L' i) = filter (\<lambda>q. \<not> marked hs q) (L1 i)"
    "\<forall>q h'. hs' q = Some h' \<longrightarrow> (\<exists>h. hs q = Some h \<and> h' = h\<lparr>h_refs := h_refs h'\<rparr>)" by auto
  have fl: "filter (\<lambda>q. \<not> marked (hook_heap uc) q) (L' i) = filter (\<lambda>q. \<not> marked (hook_heap uc) q) (L i)" for i
    using s(6) r(4) r(6) [rule_format, of "\<lambda>q. \<not> marked (hook_heap uc) q"] h by (simp add: marked_def)
  have kept: "\<exists>h. hook_heap uc q = Some h \<and> h' = h\<lparr>h_refs := h_refs h'\<rparr>" if "hs' q = Some h'" for q h'
  proof -
    from s(7) that obtain h1 where h1: "hs q = Some h1" "h' = h1\<lparr>h_refs := h_refs h'\<rparr>" by blast
    from r(7) h1(1) obtain h where h: "hook_heap uc q = Some h" "h1 = h\<lparr>h_refs := h_refs h1\<rparr>" by blast
    have "h' = h\<lparr>h_refs := h_refs h'\<rparr>" by (subst h1(2), subst h(2)) simp
    with h(1) show ?thesis by blast
  qed
  show ?case using step s(1-5) r(4) fl kept by (intro exI [of _ uh'] exI [of _ hs'] exI [of _ L']) simp
qed

lemma listed_filter:
  "listed (\<lambda>i. filter P (L i)) p = (if P p then listed L p else 0)"
  by (simp add: listed_def)

lemma refs_ok_marked: "refs_ok hs r \<Longrightarrow> marked hs p \<Longrightarrow> 0 < r p"
  unfolding refs_ok_def marked_def by (erule allE [of _ p]) (auto split: option.splits)

lemma clear_deleted_hooks_ok:
  assumes st: "hook_state uc L D"
  shows "\<exists>uc'. clear_deleted_hooks uc = Some uc' \<and>
    hook_state uc' (\<lambda>i. if i < UC_HOOK_MAX then filter (\<lambda>p. \<not> marked (hook_heap uc) p) (L i) else L i) [] \<and>
    (hook_counts uc L \<longrightarrow>
      hook_counts uc' (\<lambda>i. if i < UC_HOOK_MAX then filter (\<lambda>p. \<not> marked (hook_heap uc) p) (L i) else L i)) \<and>
    uc_init_done uc' = uc_init_done uc \<and>
    (\<forall>p. marked (hook_heap uc) p \<longrightarrow> hook_heap uc' p = None) \<and>
    (\<forall>p. \<not> marked (hook_heap uc) p \<longrightarrow> hook_heap uc' p = hook_heap uc p)"
proof -
  let ?live = "\<lambda>p. \<not> marked (hook_heap uc) p"
  from st obtain ns where ns: "lpath (l_nodes (hooks_to_del uc)) (l_head (hooks_to_del uc)) ns D None"
    by (auto simp: hook_state_def list_rep_def list_nodes_def)
  from st have D: "list_rep (hooks_to_del uc) D" "run_delete_fn (hooks_to_del uc) = hook_delete"
    by (auto simp: hook_state_def)
  have "\<exists>uh hs L'. clear_deleted_loop (l_head (hooks_to_del uc)) uc = Some (uc\<lparr>uc_hook := uh, hook_heap := hs\<rparr>) \<and>
    hook_lists uh L' \<and> refs_ok hs (\<lambda>q. listed L' q + int (count_list D q)) \<and>
    (\<forall>q. marked hs q = marked (hook_heap uc) q) \<and> (\<forall>q. marked hs q \<longrightarrow> listed L' q \<le> 0) \<and>
    (\<forall>i. filter ?live (L' i) = filter ?live (L i)) \<and>
    (\<forall>q h'. hs q = Some h' \<longrightarrow> (\<exists>h. hook_heap uc q = Some h \<and> h' = h\<lparr>h_refs := h_refs h'\<rparr>))"
    by (rule clear_deleted_loop_ok [OF _ _ ns]) (use st in \<open>auto simp: hook_state_def\<close>)
  then obtain uh hs L' where l: "clear_deleted_loop (l_head (hooks_to_del uc)) uc = Some (uc\<lparr>uc_hook := uh, hook_heap := hs\<rparr>)"
    "hook_lists uh L'" "refs_ok hs (\<lambda>q. listed L' q + int (count_list D q))"
    "\<forall>q. marked hs q = marked (hook_heap uc) q" "\<forall>q. marked hs q \<longrightarrow> listed L' q \<le> 0"
    "\<forall>i. filter ?live (L' i) = filter ?live (L i)"
    "\<forall>q h'. hs q = Some h' \<longrightarrow> (\<exists>h. hook_heap uc q = Some h \<and> h' = h\<lparr>h_refs := h_refs h'\<rparr>)" by blast
  define L'' where "L'' = (\<lambda>i. if i < UC_HOOK_MAX then filter ?live (L i) else L i)"
  have L'': "L' i = L'' i" if "i < UC_HOOK_MAX" for i
  proof -
    have "\<not> marked hs q" if "q \<in> set (L' i)" for q
      using that \<open>i < UC_HOOK_MAX\<close> l(5) listed_pos [of L' q] by force
    then have "filter ?live (L' i) = L' i" using l(4) by (auto simp: filter_id_conv)
    with l(6) that show ?thesis by (simp add: L''_def)
  qed
  then have eq: "listed L' = listed L''" by (simp add: listed_def fun_eq_iff)
  from hl.clr_ok [OF D(1), of hs] obtain l0 where c: "list_clear (hooks_to_del uc) hs = Some (l0, fold hook_delete D hs)"
    "list_rep l0 []" "run_delete_fn l0 = hook_delete" unfolding D(2) by blast
  from fold_hook_delete [OF l(3) listed_nonneg] have
    f: "refs_ok (fold hook_delete D hs) (listed L'')"
    "\<forall>q h'. fold hook_delete D hs q = Some h' \<longrightarrow> (\<exists>h. hs q = Some h \<and> h' = h\<lparr>h_refs := h_refs h'\<rparr>)"
    by (simp_all add: eq)
  let ?hs = "fold hook_delete D hs"
  have gone: "?hs p = None" if "marked (hook_heap uc) p" for p
  proof -
    have "listed L'' p \<le> 0" using that l(4,5) eq by simp
    with listed_nonneg [of L'' p] show ?thesis using refs_ok_None [OF f(1), of p] by simp
  qed
  have same: "?hs p = hook_heap uc p" if "?live p" for p
  proof -
    have pD: "p \<notin> set D" using st that by (auto simp: hook_state_def)
    then have cp: "count_list D p = 0" by (simp add: count_list_0_iff)
    have lp: "listed L'' p = listed L p" using that by (simp add: L''_def listed_def)
    have r0: "refs_ok (hook_heap uc) (\<lambda>q. listed L q + int (count_list D q))" using st by (simp add: hook_state_def)
    show ?thesis
    proof (cases "?hs p")
      case None
      then have "listed L p = 0" using refs_ok_None [OF f(1), of p] lp by simp
      then show ?thesis using None refs_ok_None [OF r0, of p] cp by simp
    next
      case (Some h')
      obtain h1 where h1: "hs p = Some h1" "h' = h1\<lparr>h_refs := h_refs h'\<rparr>" using f(2) Some by blast
      obtain h where h: "hook_heap uc p = Some h" "h1 = h\<lparr>h_refs := h_refs h1\<rparr>" using l(7) h1(1) by blast
      have "h_refs h' = listed L p" using refs_ok_Some [OF f(1) Some] lp by simp
      moreover have "h_refs h = listed L p" using refs_ok_Some [OF r0 h(1)] cp by simp
      moreover have "h' = h\<lparr>h_refs := h_refs h'\<rparr>" by (subst h1(2), subst h(2)) simp
      ultimately show ?thesis using Some h(1) by simp
    qed
  qed
  have none: "\<not> marked ?hs p" for p using gone [of p] same [of p] by (cases "?live p") (auto simp: marked_def)
  have "hook_lists uh L''" using l(2) L'' by (simp add: hook_lists_def)
  then have "hook_state (uc\<lparr>uc_hook := uh, hooks_to_del := l0, hook_heap := ?hs\<rparr>) L'' []"
    using c(2,3) f(1) none by (simp add: hook_state_def)
  moreover have "clear_deleted_hooks uc = Some (uc\<lparr>uc_hook := uh, hooks_to_del := l0, hook_heap := ?hs\<rparr>)"
    using l(1) c(1) by (simp add: clear_deleted_hooks_def)
  moreover have "hook_counts (uc\<lparr>uc_hook := uh, hooks_to_del := l0, hook_heap := ?hs\<rparr>) L''" if "hook_counts uc L"
    using that none by (simp add: hook_counts_def L''_def)
  ultimately show ?thesis using gone same unfolding L''_def
    by (intro exI [of _ "uc\<lparr>uc_hook := uh, hooks_to_del := l0, hook_heap := ?hs\<rparr>"]) simp
qed

section \<open>Deleting a hook\<close>

text \<open>What \<^verbatim>\<open>uc->uc_invalidate_tb\<close> promises: it works on translated code, not on the hooks.\<close>

definition tb_frame :: "'c uc_env \<Rightarrow> bool" where
  "tb_frame env \<longleftrightarrow> (\<forall>start len uc. let uc' = env_invalidate_tb env start len uc in
    uc_hook uc' = uc_hook uc \<and> hooks_to_del uc' = hooks_to_del uc \<and> hook_heap uc' = hook_heap uc \<and>
    hooks_count uc' = hooks_count uc \<and> uc_init_done uc' = uc_init_done uc)"

lemma invalidate_regions_frame:
  assumes "tb_frame env"
  shows "let uc' = fold (hook_invalidate_region env) rs uc in
    uc_hook uc' = uc_hook uc \<and> hooks_to_del uc' = hooks_to_del uc \<and> hook_heap uc' = hook_heap uc \<and>
    hooks_count uc' = hooks_count uc \<and> uc_init_done uc' = uc_init_done uc"
proof (induction rs arbitrary: uc)
  case (Cons r rs)
  show ?case using Cons.IH [of "hook_invalidate_region env r uc"] assms
    by (simp add: tb_frame_def hook_invalidate_region_def Let_def)
qed simp

definition drop_hook :: "hook \<Rightarrow> int \<Rightarrow> hook" where
  "drop_hook h n = h\<lparr>h_hooked_regions := [], h_to_delete := True, h_refs := h_refs h + n\<rparr>"

lemma drop_hook_drop: "drop_hook (drop_hook h m) n = drop_hook h (m + n)"
  by (simp add: drop_hook_def)

lemma hook_unlink_ok:
  assumes env: "tb_frame env" "item_alloc env" and l: "list_rep (uc_hook uc i) xs" and p: "p \<in> set xs"
    and h: "hook_heap uc p = Some h" and D: "list_rep (hooks_to_del uc) D"
  shows "\<exists>uc'. hook_unlink env p i uc = Some uc' \<and> uc_hook uc' = uc_hook uc \<and>
    hook_heap uc' = (hook_heap uc)(p \<mapsto> drop_hook h 1) \<and>
    hooks_count uc' = (hooks_count uc)(i := hooks_count uc i - 1) \<and>
    list_rep (hooks_to_del uc') (D @ [p]) \<and> run_delete_fn (hooks_to_del uc') = run_delete_fn (hooks_to_del uc) \<and>
    uc_init_done uc' = uc_init_done uc"
proof -
  define uc1 where "uc1 = fold (hook_invalidate_region env) (h_hooked_regions h) uc"
  have f: "uc_hook uc1 = uc_hook uc" "hooks_to_del uc1 = hooks_to_del uc" "hook_heap uc1 = hook_heap uc"
    "hooks_count uc1 = hooks_count uc" "uc_init_done uc1 = uc_init_done uc"
    using invalidate_regions_frame [OF env(1), of "h_hooked_regions h" uc] by (simp_all add: uc1_def Let_def)
  define uc2 where "uc2 = uc1\<lparr>hook_heap := (hook_heap uc)(p \<mapsto> h\<lparr>h_hooked_regions := [], h_to_delete := True\<rparr>),
    hooks_count := (hooks_count uc)(i := hooks_count uc i - 1)\<rparr>"
  from env(2) D obtain n where n: "env_new_item env uc2 (hooks_to_del uc) = Some n" "list_fresh (hooks_to_del uc) n"
    unfolding item_alloc_def by blast
  from hl.app_ok [OF D n(2), of p] obtain l' where l': "list_append (Some n) (hooks_to_del uc) p = (Some n, l')"
    "list_rep l' (D @ [p])" "run_delete_fn l' = run_delete_fn (hooks_to_del uc)" by blast
  have found: "list_exists (uc_hook uc i) p = Some True" using hl.mem_ok [OF l, of p] p by simp
  have "hook_unlink env p i uc = Some (uc2\<lparr>hook_heap := (hook_heap uc)(p \<mapsto> drop_hook h 1), hooks_to_del := l'\<rparr>)"
    using found h n(1) l'(1) f
    by (simp add: hook_unlink_def uc1_def [symmetric] upd_hook_def hook_append_def uc2_def drop_hook_def)
  then show ?thesis using l' f by (simp add: uc2_def)
qed

lemma hook_unlink_absent:
  assumes "list_rep (uc_hook uc i) xs" "p \<notin> set xs" shows "hook_unlink env p i uc = Some uc"
  using hl.mem_ok [OF assms(1), of p] assms(2) by (simp add: hook_unlink_def)

lemma hook_unlink_loop:
  assumes env: "tb_frame env" "item_alloc env"
  shows "hook_lists (uc_hook uc) L \<Longrightarrow> set is \<subseteq> {..< UC_HOOK_MAX} \<Longrightarrow> distinct is \<Longrightarrow>
    hook_heap uc p = Some h \<Longrightarrow> list_rep (hooks_to_del uc) D \<Longrightarrow>
    m = length (filter (\<lambda>i. p \<in> set (L i)) is) \<Longrightarrow>
    \<exists>uc'. foldM (hook_unlink env p) is uc = Some uc' \<and> uc_hook uc' = uc_hook uc \<and>
      hook_heap uc' = (if m = 0 then hook_heap uc else (hook_heap uc)(p \<mapsto> drop_hook h (int m))) \<and>
      list_rep (hooks_to_del uc') (D @ replicate m p) \<and>
      run_delete_fn (hooks_to_del uc') = run_delete_fn (hooks_to_del uc) \<and>
      (\<forall>i. hooks_count uc' i = hooks_count uc i - of_bool (i \<in> set is \<and> p \<in> set (L i))) \<and>
      uc_init_done uc' = uc_init_done uc"
proof (induction "is" arbitrary: uc h D m)
  case Nil
  then show ?case by simp
next
  case (Cons i "is")
  have i: "list_rep (uc_hook uc i) (L i)" "i \<notin> set is" using Cons.prems by (auto simp: hook_lists_def)
  have sub: "set is \<subseteq> {..< UC_HOOK_MAX}" "distinct is" using Cons.prems by auto
  show ?case
  proof (cases "p \<in> set (L i)")
    case False
    with hook_unlink_absent [OF i(1)] have "foldM (hook_unlink env p) (i # is) uc = foldM (hook_unlink env p) is uc"
      by simp
    then show ?thesis using Cons.IH [OF Cons.prems(1) sub Cons.prems(4,5), of m] Cons.prems(6) False by force
  next
    case True
    let ?m = "length (filter (\<lambda>i. p \<in> set (L i)) is)"
    from hook_unlink_ok [OF env i(1) True Cons.prems(4,5)] obtain uc1 where u: "hook_unlink env p i uc = Some uc1"
      "uc_hook uc1 = uc_hook uc" "hook_heap uc1 = (hook_heap uc)(p \<mapsto> drop_hook h 1)"
      "hooks_count uc1 = (hooks_count uc)(i := hooks_count uc i - 1)" "list_rep (hooks_to_del uc1) (D @ [p])"
      "run_delete_fn (hooks_to_del uc1) = run_delete_fn (hooks_to_del uc)" "uc_init_done uc1 = uc_init_done uc" by blast
    have "hook_lists (uc_hook uc1) L" "hook_heap uc1 p = Some (drop_hook h 1)" using u Cons.prems(1) by simp_all
    from Cons.IH [OF this(1) sub this(2) u(5) refl] obtain uc' where v:
      "foldM (hook_unlink env p) is uc1 = Some uc'" "uc_hook uc' = uc_hook uc1"
      "hook_heap uc' = (if ?m = 0 then hook_heap uc1 else (hook_heap uc1)(p \<mapsto> drop_hook (drop_hook h 1) (int ?m)))"
      "list_rep (hooks_to_del uc') ((D @ [p]) @ replicate ?m p)"
      "run_delete_fn (hooks_to_del uc') = run_delete_fn (hooks_to_del uc1)"
      "\<forall>j. hooks_count uc' j = hooks_count uc1 j - of_bool (j \<in> set is \<and> p \<in> set (L j))"
      "uc_init_done uc' = uc_init_done uc1" by blast
    have m: "m = Suc ?m" using Cons.prems(6) True by simp
    have "hook_heap uc' = (hook_heap uc)(p \<mapsto> drop_hook h (int m))"
      using v(3) u(3) by (auto simp: drop_hook_drop m)
    moreover have "(D @ [p]) @ replicate ?m p = D @ replicate m p" by (simp add: m)
    moreover have "hooks_count uc' j = hooks_count uc j - of_bool (j \<in> set (i # is) \<and> p \<in> set (L j))" for j
      using v(6) u(4) True i(2) by simp
    ultimately show ?thesis using u v m by (intro exI [of _ uc']) simp
  qed
qed

lemma listed_length: "listed L p = int (length (filter (\<lambda>i. p \<in> set (L i)) [0 ..< UC_HOOK_MAX]))"
proof -
  have "(\<Sum>i < n. of_bool (p \<in> set (L i))) = int (length (filter (\<lambda>i. p \<in> set (L i)) [0 ..< n]))" for n
    by (induction n) auto
  then show ?thesis by (simp only: listed_def)
qed

lemma length_filter_without:
  "distinct xs \<Longrightarrow> P p \<Longrightarrow>
    int (length (filter (\<lambda>q. P q \<and> q \<noteq> p) xs)) = int (length (filter P xs)) - of_bool (p \<in> set xs)"
  by (induction xs) auto

lemma count_list_rep: "count_list (replicate n x) y = (if x = y then n else 0)"
  by (induction n) auto

lemma uc_hook_del_ok:
  assumes env: "tb_frame env" "item_alloc env" and st: "hook_state uc L D" and init: "uc_init_done uc"
    and h: "hook_heap uc p = Some h"
  shows "\<exists>uc'. uc_hook_del env p uc = Some (UC_ERR_OK, uc') \<and> uc_init_done uc' \<and>
    hook_state uc' L (D @ replicate (nat (listed L p)) p) \<and>
    (hook_counts uc L \<and> \<not> h_to_delete h \<longrightarrow> hook_counts uc' L) \<and>
    hook_heap uc' = (if listed L p = 0 then hook_heap uc else (hook_heap uc)(p \<mapsto> drop_hook h (listed L p))) \<and>
    uc_hook uc' = uc_hook uc"
proof -
  have hl: "hook_lists (uc_hook uc) L" and D: "list_rep (hooks_to_del uc) D" "run_delete_fn (hooks_to_del uc) = hook_delete"
    and refs: "refs_ok (hook_heap uc) (\<lambda>q. listed L q + int (count_list D q))"
    using st by (auto simp: hook_state_def)
  let ?m = "length (filter (\<lambda>i. p \<in> set (L i)) [0 ..< UC_HOOK_MAX])"
  have m: "listed L p = int ?m" by (rule listed_length)
  then have m0: "?m = 0 \<longleftrightarrow> listed L p = 0" by linarith
  have "set [0 ..< UC_HOOK_MAX] \<subseteq> {..< UC_HOOK_MAX}" "distinct [0 ..< UC_HOOK_MAX]" by auto
  from hook_unlink_loop [OF env hl this h D(1) refl] obtain uc' where u:
    "foldM (hook_unlink env p) [0 ..< UC_HOOK_MAX] uc = Some uc'" "uc_hook uc' = uc_hook uc"
    "hook_heap uc' = (if listed L p = 0 then hook_heap uc else (hook_heap uc)(p \<mapsto> drop_hook h (listed L p)))"
    "list_rep (hooks_to_del uc') (D @ replicate ?m p)"
    "run_delete_fn (hooks_to_del uc') = hook_delete"
    "\<forall>i. hooks_count uc' i = hooks_count uc i - of_bool (i \<in> set [0 ..< UC_HOOK_MAX] \<and> p \<in> set (L i))"
    "uc_init_done uc' = uc_init_done uc"
    unfolding D(2) m0 m [symmetric] by blast
  have mk: "marked (hook_heap uc') q \<longleftrightarrow> marked (hook_heap uc) q \<or> (q = p \<and> listed L p \<noteq> 0)" for q
    by (auto simp: u(3) marked_def drop_hook_def)
  have cnt: "int (count_list (D @ replicate ?m p) q) = int (count_list D q) + (if q = p then listed L p else 0)" for q
    by (auto simp: m count_list_rep)
  have "refs_ok (hook_heap uc') (\<lambda>q. listed L q + int (count_list (D @ replicate ?m p) q))"
    unfolding refs_ok_def
  proof
    fix q
    have "case hook_heap uc q of None \<Rightarrow> listed L q + int (count_list D q) = 0
      | Some h \<Rightarrow> h_refs h = listed L q + int (count_list D q) \<and> 0 < listed L q + int (count_list D q)"
      using refs unfolding refs_ok_def by blast
    then show "case hook_heap uc' q of None \<Rightarrow> listed L q + int (count_list (D @ replicate ?m p) q) = 0
      | Some h \<Rightarrow> h_refs h = listed L q + int (count_list (D @ replicate ?m p) q) \<and>
          0 < listed L q + int (count_list (D @ replicate ?m p) q)"
      unfolding cnt u(3) using h listed_nonneg [of L p]
      by (cases "q = p") (auto simp: drop_hook_def split: option.splits)
  qed
  moreover have "\<forall>q \<in> set (D @ replicate ?m p). marked (hook_heap uc') q"
    using st mk m0 by (auto simp: hook_state_def)
  moreover have "listed L q \<le> int (count_list (D @ replicate ?m p) q)" if "marked (hook_heap uc') q" for q
    unfolding cnt using st that mk listed_nonneg [of L p] by (auto simp: hook_state_def)
  ultimately have st': "hook_state uc' L (D @ replicate ?m p)" using hl u(2,4,5) by (simp add: hook_state_def)
  have counts: "hook_counts uc' L" if c: "hook_counts uc L" "\<not> h_to_delete h"
    unfolding hook_counts_def
  proof (intro allI impI)
    fix i assume i: "i < UC_HOOK_MAX"
    have um: "\<not> marked (hook_heap uc) p" using h c(2) by (simp add: marked_def)
    have "distinct (L i)" using hl i by (simp add: hook_lists_def)
    from length_filter_without [OF this, of "\<lambda>q. \<not> marked (hook_heap uc) q" p] um
    have eq: "int (length (filter (\<lambda>q. \<not> marked (hook_heap uc) q \<and> q \<noteq> p) (L i))) =
        int (length (filter (\<lambda>q. \<not> marked (hook_heap uc) q) (L i))) - of_bool (p \<in> set (L i))" by simp
    have "p \<notin> set (L i)" if "listed L p = 0" using listed_pos [of L p] that i by auto
    then have "filter (\<lambda>q. \<not> marked (hook_heap uc') q) (L i) = filter (\<lambda>q. \<not> marked (hook_heap uc) q \<and> q \<noteq> p) (L i)"
      by (auto simp: mk intro!: filter_cong)
    then show "hooks_count uc' i = int (length (filter (\<lambda>q. \<not> marked (hook_heap uc') q) (L i)))"
      using c(1) i u(6) eq by (simp add: hook_counts_def)
  qed
  have "uc_hook_del env p uc = Some (UC_ERR_OK, uc')" using u(1) init by (simp add: uc_hook_del_def)
  with st' counts u(2,3,7) init m show ?thesis by auto
qed

lemma uc_hook_del_unknown:
  assumes st: "hook_state uc L D" and init: "uc_init_done uc" and h: "hook_heap uc p = None"
  shows "uc_hook_del env p uc = Some (UC_ERR_OK, uc)"
proof -
  have refs: "refs_ok (hook_heap uc) (\<lambda>q. listed L q + int (count_list D q))" using st by (simp add: hook_state_def)
  have "listed L p = 0" using refs_ok_None [OF refs, of p] h listed_nonneg [of L p] by auto
  then have "\<forall>i < UC_HOOK_MAX. p \<notin> set (L i)" using listed_pos [of L p] by auto
  then have "hook_unlink env p i uc = Some uc" if "i < UC_HOOK_MAX" for i
    using that st hook_unlink_absent [of uc i "L i"] by (auto simp: hook_state_def hook_lists_def)
  then have "set is \<subseteq> {..< UC_HOOK_MAX} \<Longrightarrow> foldM (hook_unlink env p) is uc = Some uc" for "is"
    by (induction "is") auto
  from this [of "[0 ..< UC_HOOK_MAX]"] have "foldM (hook_unlink env p) [0 ..< UC_HOOK_MAX] uc = Some uc"
    by (simp add: lessThan_atLeast0)
  with init show ?thesis by (simp add: uc_hook_del_def)
qed

section \<open>Adding a hook\<close>

definition link_hook :: "bool \<Rightarrow> hook_ptr \<Rightarrow> hook_ptr list \<Rightarrow> hook_ptr list" where
  "link_hook first p xs = (if first then p # xs else xs @ [p])"

lemma link_hook_set [simp]: "set (link_hook b p xs) = insert p (set xs)"
  by (simp add: link_hook_def)

lemma link_hook_distinct [simp]: "distinct (link_hook b p xs) \<longleftrightarrow> p \<notin> set xs \<and> distinct xs"
  by (auto simp: link_hook_def)

lemma link_hook_filter: "filter P (link_hook b p xs) = (if P p then link_hook b p (filter P xs) else filter P xs)"
  by (simp add: link_hook_def)

lemma link_hook_length [simp]: "length (link_hook b p xs) = Suc (length xs)"
  by (simp add: link_hook_def)

text \<open>A list that has grown at its ends only: the nodes of the old list are still linked in their order.\<close>

definition list_ext :: "('d, 's) clist \<Rightarrow> ('d, 's) clist \<Rightarrow> bool" where
  "list_ext l l' \<longleftrightarrow> (\<forall>ns xs. list_nodes l ns xs \<longrightarrow>
    (\<exists>np xp nq xq. list_nodes l' (np @ ns @ nq) (xp @ xs @ xq) \<and> length np = length xp))"

lemma list_ext_refl [simp]: "list_ext l l"
  unfolding list_ext_def by (intro allI impI exI [of _ "[]"]) simp

lemma list_ext_trans: "list_ext l l' \<Longrightarrow> list_ext l' l'' \<Longrightarrow> list_ext l l''"
  unfolding list_ext_def
proof (intro allI impI)
  fix ns xs
  assume e: "\<forall>ns xs. list_nodes l ns xs \<longrightarrow> (\<exists>np xp nq xq. list_nodes l' (np @ ns @ nq) (xp @ xs @ xq) \<and> length np = length xp)"
    "\<forall>ns xs. list_nodes l' ns xs \<longrightarrow> (\<exists>np xp nq xq. list_nodes l'' (np @ ns @ nq) (xp @ xs @ xq) \<and> length np = length xp)"
    and n: "list_nodes l ns xs"
  from e(1) n obtain np xp nq xq where 1: "list_nodes l' (np @ ns @ nq) (xp @ xs @ xq)" "length np = length xp" by blast
  from e(2) [rule_format, OF 1(1)] obtain mp yp mq yq where
    "list_nodes l'' (mp @ (np @ ns @ nq) @ mq) (yp @ (xp @ xs @ xq) @ yq)" "length mp = length yp" by blast
  then show "\<exists>np xp nq xq. list_nodes l'' (np @ ns @ nq) (xp @ xs @ xq) \<and> length np = length xp"
    using 1(2) by (intro exI [of _ "mp @ np"] exI [of _ "yp @ xp"] exI [of _ "nq @ mq"] exI [of _ "xq @ yq"]) simp
qed

lemma list_insert_ext: "list_fresh l n \<Longrightarrow> list_insert (Some n) l d = (r, l') \<Longrightarrow> list_ext l l'"
  unfolding list_ext_def
proof (intro allI impI)
  fix ns xs assume a: "list_fresh l n" "list_insert (Some n) l d = (r, l')" "list_nodes l ns xs"
  then have "n \<notin> set ns" by (auto simp: list_fresh_def list_nodes_def)
  then have "list_nodes l' (n # ns) (d # xs)" using list_insert_nodes [OF a(3), of n d] a(2) by simp
  then show "\<exists>np xp nq xq. list_nodes l' (np @ ns @ nq) (xp @ xs @ xq) \<and> length np = length xp"
    by (intro exI [of _ "[n]"] exI [of _ "[d]"] exI [of _ "[]"]) simp
qed

lemma list_append_ext: "list_fresh l n \<Longrightarrow> list_append (Some n) l d = (r, l') \<Longrightarrow> list_ext l l'"
  unfolding list_ext_def
proof (intro allI impI)
  fix ns xs assume a: "list_fresh l n" "list_append (Some n) l d = (r, l')" "list_nodes l ns xs"
  then have "n \<notin> set ns" by (auto simp: list_fresh_def list_nodes_def)
  then have "list_nodes l' (ns @ [n]) (xs @ [d])" using list_append_nodes [OF a(3), of n d] a(2) by simp
  then show "\<exists>np xp nq xq. list_nodes l' (np @ ns @ nq) (xp @ xs @ xq) \<and> length np = length xp"
    by (intro exI [of _ "[]"] exI [of _ "[n]"] exI [of _ "[d]"]) simp
qed

lemma hook_link_ok:
  assumes "item_alloc env" "list_rep (uc_hook uc i) xs" and h: "hook_heap uc p = Some h"
  shows "\<exists>l. hook_link env i p uc = Some (True, uc\<lparr>hook_heap := (hook_heap uc)(p \<mapsto> h\<lparr>h_refs := h_refs h + 1\<rparr>),
      uc_hook := (uc_hook uc)(i := l), hooks_count := (hooks_count uc)(i := hooks_count uc i + 1)\<rparr>) \<and>
    list_rep l (link_hook (hook_insert_mode uc) p xs) \<and> run_delete_fn l = run_delete_fn (uc_hook uc i) \<and>
    list_ext (uc_hook uc i) l"
proof -
  from assms(1,2) obtain n where n: "env_new_item env uc (uc_hook uc i) = Some n" "list_fresh (uc_hook uc i) n"
    unfolding item_alloc_def by blast
  show ?thesis
  proof (cases "hook_insert_mode uc")
    case True
    from hl.ins_ok [OF assms(2) n(2), of p] obtain l where "list_insert (Some n) (uc_hook uc i) p = (Some n, l)"
      "list_rep l (p # xs)" "run_delete_fn l = run_delete_fn (uc_hook uc i)" by blast
    with True n(1) h list_insert_ext [OF n(2)] show ?thesis
      by (intro exI [of _ l]) (simp add: hook_link_def hook_insert_def upd_hook_def link_hook_def)
  next
    case False
    from hl.app_ok [OF assms(2) n(2), of p] obtain l where "list_append (Some n) (uc_hook uc i) p = (Some n, l)"
      "list_rep l (xs @ [p])" "run_delete_fn l = run_delete_fn (uc_hook uc i)" by blast
    with False n(1) h list_append_ext [OF n(2)] show ?thesis
      by (intro exI [of _ l]) (simp add: hook_link_def hook_append_def upd_hook_def link_hook_def)
  qed
qed

text \<open>The lists a type selects, and linking a hook into several lists.\<close>

function hook_indices :: "int \<Rightarrow> nat \<Rightarrow> nat list" where
  "hook_indices t i =
    (if 0 < t then (if odd t \<and> i < UC_HOOK_MAX then i # hook_indices (t div 2) (Suc i)
       else hook_indices (t div 2) (Suc i)) else [])"
  by pat_completeness auto
termination by (relation "measure (\<lambda>(t, _). nat t)") auto

declare hook_indices.simps [simp del]

fun link_all :: "'c uc_env \<Rightarrow> hook_ptr \<Rightarrow> nat list \<Rightarrow> 'c uc_struct \<Rightarrow> (bool \<times> 'c uc_struct) option" where
  "link_all env p [] uc = Some (True, uc)"
| "link_all env p (i # is) uc =
    (case hook_link env i p uc of
       None \<Rightarrow> None | Some (ok, uc) \<Rightarrow> if \<not> ok then Some (False, uc) else link_all env p is uc)"

lemma hook_add_loop_link: "hook_add_loop env p t i uc = link_all env p (hook_indices t i) uc"
proof (induction t i arbitrary: uc rule: hook_indices.induct)
  case (1 t i)
  show ?case
  proof (cases "0 < t \<and> odd t \<and> i < UC_HOOK_MAX")
    case True
    with 1 show ?thesis
      by (subst hook_add_loop.simps, subst hook_indices.simps) (auto split: option.split prod.split)
  next
    case False
    with 1 show ?thesis by (subst hook_add_loop.simps, subst hook_indices.simps) auto
  qed
qed

lemma hook_indices_iff: "j \<in> set (hook_indices t i) \<longleftrightarrow> 0 < t \<and> i \<le> j \<and> j < UC_HOOK_MAX \<and> odd (t div 2 ^ (j - i))"
proof (induction t i rule: hook_indices.induct)
  case (1 t i)
  have half: "t div 2 div 2 ^ (j - Suc i) = t div 2 ^ (j - i)" if "i < j"
  proof -
    have "j - i = Suc (j - Suc i)" using that by simp
    then show ?thesis by (simp add: zdiv_zmult2_eq)
  qed
  have neg: "\<not> (0 < t \<and> \<not> 0 < t div 2 \<and> i < j \<and> odd (t div 2 ^ (j - i)))"
  proof
    assume a: "0 < t \<and> \<not> 0 < t div 2 \<and> i < j \<and> odd (t div 2 ^ (j - i))"
    then have "0 < t" "\<not> 0 < t div 2" by auto
    then have "t div 2 = 0" by presburger
    with a half show False by simp
  qed
  have IH: "j \<in> set (hook_indices (t div 2) (Suc i)) \<longleftrightarrow>
      0 < t div 2 \<and> Suc i \<le> j \<and> j < UC_HOOK_MAX \<and> odd (t div 2 div 2 ^ (j - Suc i))" if "0 < t"
    using 1 that by blast
  show ?case
    by (subst hook_indices.simps) (use IH half neg in \<open>auto simp: le_less\<close>)
qed

lemma hook_indices_distinct: "distinct (hook_indices t i)"
proof (induction t i rule: hook_indices.induct)
  case (1 t i)
  then show ?case by (subst hook_indices.simps) (auto simp: hook_indices_iff)
qed

lemma hook_lists_link:
  assumes "hook_lists uh L" "i < UC_HOOK_MAX" "list_rep l (link_hook b p (L i))" "run_delete_fn l = run_delete_fn (uh i)"
    and "p \<notin> set (L i)"
  shows "hook_lists (uh(i := l)) (L(i := link_hook b p (L i)))"
  using assms by (auto simp: hook_lists_def)

lemma link_all_ok:
  assumes env: "item_alloc env"
  shows "hook_lists (uc_hook uc) L \<Longrightarrow> set is \<subseteq> {..< UC_HOOK_MAX} \<Longrightarrow> distinct is \<Longrightarrow>
    hook_heap uc p = Some h \<Longrightarrow> \<forall>i \<in> set is. p \<notin> set (L i) \<Longrightarrow>
    \<exists>uh. link_all env p is uc = Some (True, uc\<lparr>
        hook_heap := (hook_heap uc)(p \<mapsto> h\<lparr>h_refs := h_refs h + int (length is)\<rparr>), uc_hook := uh,
        hooks_count := (\<lambda>i. hooks_count uc i + of_bool (i \<in> set is))\<rparr>) \<and>
      hook_lists uh (\<lambda>i. if i \<in> set is then link_hook (hook_insert_mode uc) p (L i) else L i) \<and>
      (\<forall>i. list_ext (uc_hook uc i) (uh i))"
proof (induction "is" arbitrary: uc L h)
  case Nil
  then show ?case by (intro exI [of _ "uc_hook uc"]) (simp add: fun_upd_idem)
next
  case (Cons i "is")
  have i: "list_rep (uc_hook uc i) (L i)" "i < UC_HOOK_MAX" using Cons.prems by (auto simp: hook_lists_def)
  let ?h = "h\<lparr>h_refs := h_refs h + 1\<rparr>"
  from hook_link_ok [OF env i(1) Cons.prems(4)] obtain l where l: "hook_link env i p uc = Some (True, uc\<lparr>
      hook_heap := (hook_heap uc)(p \<mapsto> ?h), uc_hook := (uc_hook uc)(i := l),
      hooks_count := (hooks_count uc)(i := hooks_count uc i + 1)\<rparr>)"
    "list_rep l (link_hook (hook_insert_mode uc) p (L i))" "run_delete_fn l = run_delete_fn (uc_hook uc i)"
    "list_ext (uc_hook uc i) l" by blast
  let ?uc = "uc\<lparr>hook_heap := (hook_heap uc)(p \<mapsto> ?h), uc_hook := (uc_hook uc)(i := l),
      hooks_count := (hooks_count uc)(i := hooks_count uc i + 1)\<rparr>"
  let ?L = "L(i := link_hook (hook_insert_mode uc) p (L i))"
  have "hook_lists (uc_hook ?uc) ?L"
    using hook_lists_link [OF Cons.prems(1) i(2) l(2,3)] Cons.prems(5) by simp
  moreover have "set is \<subseteq> {..< UC_HOOK_MAX}" "distinct is" "hook_heap ?uc p = Some ?h" "\<forall>j \<in> set is. p \<notin> set (?L j)"
    using Cons.prems by auto
  ultimately obtain uh where u: "link_all env p is ?uc = Some (True, ?uc\<lparr>
      hook_heap := (hook_heap ?uc)(p \<mapsto> ?h\<lparr>h_refs := h_refs ?h + int (length is)\<rparr>), uc_hook := uh,
      hooks_count := (\<lambda>j. hooks_count ?uc j + of_bool (j \<in> set is))\<rparr>)"
    "hook_lists uh (\<lambda>j. if j \<in> set is then link_hook (hook_insert_mode ?uc) p (?L j) else ?L j)"
    "\<forall>j. list_ext (uc_hook ?uc j) (uh j)"
    using Cons.IH [of ?uc ?L ?h] by blast
  have "list_ext (uc_hook uc j) (uc_hook ?uc j)" for j using l(4) by simp
  then have ext: "\<forall>j. list_ext (uc_hook uc j) (uh j)" using u(3) list_ext_trans by blast
  have cnt: "(\<lambda>j. hooks_count ?uc j + of_bool (j \<in> set is)) = (\<lambda>j. hooks_count uc j + of_bool (j \<in> set (i # is)))"
    using Cons.prems(3) by (auto simp: fun_eq_iff)
  have lists: "(\<lambda>j. if j \<in> set is then link_hook (hook_insert_mode ?uc) p (?L j) else ?L j) =
      (\<lambda>j. if j \<in> set (i # is) then link_hook (hook_insert_mode uc) p (L j) else L j)"
    using Cons.prems(3) by (auto simp: fun_eq_iff)
  have heap: "(hook_heap ?uc)(p \<mapsto> ?h\<lparr>h_refs := h_refs ?h + int (length is)\<rparr>) =
      (hook_heap uc)(p \<mapsto> h\<lparr>h_refs := h_refs h + int (length (i # is))\<rparr>)"
    by (simp add: algebra_simps)
  have rec: "?uc\<lparr>hook_heap := a, uc_hook := b, hooks_count := c\<rparr> = uc\<lparr>hook_heap := a, uc_hook := b, hooks_count := c\<rparr>" for a b c
    by simp
  have "link_all env p (i # is) uc = link_all env p is ?uc" by (simp add: l(1))
  then show ?case using u(2) ext by (intro exI [of _ uh]) (simp only: u(1) heap cnt lists rec simp_thms)
qed

text \<open>The lists that \<^verbatim>\<open>uc_hook_add\<close> puts a hook of a given type in, and the types the target accepts.\<close>

definition hook_targets :: "u32 \<Rightarrow> nat list" where
  "hook_targets type =
    (if type AND UC_HOOK_INSN \<noteq> 0 then [UC_HOOK_INSN_IDX]
     else if type AND UC_HOOK_TCG_OPCODE \<noteq> 0 then [UC_HOOK_TCG_OPCODE_IDX]
     else hook_indices (sint type) 0)"

definition hook_accepted :: "'c uc_env \<Rightarrow> u32 \<Rightarrow> hook_args \<Rightarrow> bool" where
  "hook_accepted env type args \<longleftrightarrow>
    (if type AND UC_HOOK_INSN \<noteq> 0
     then (case env_insn_hook_validate env of None \<Rightarrow> True | Some f \<Rightarrow> f (arg_insn args))
     else if type AND UC_HOOK_TCG_OPCODE \<noteq> 0
     then (case env_opcode_hook_invalidate env of None \<Rightarrow> True | Some f \<Rightarrow> f (arg_op args) (arg_op_flags args))
     else True)"

definition new_hook :: "u32 \<Rightarrow> nat \<Rightarrow> nat \<Rightarrow> u64 \<Rightarrow> u64 \<Rightarrow> hook_args \<Rightarrow> hook" where
  "new_hook type callback user_data begin end_addr args =
    (let h = hook_zero\<lparr>h_begin := begin, h_end := end_addr, h_type := type, h_callback := callback,
           h_user_data := user_data\<rparr> in
     if type AND UC_HOOK_INSN \<noteq> 0 then h\<lparr>h_insn := arg_insn args\<rparr>
     else if type AND UC_HOOK_TCG_OPCODE \<noteq> 0 then h\<lparr>h_op := arg_op args, h_op_flags := arg_op_flags args\<rparr>
     else h)"

lemma hook_targets_ok: "set (hook_targets type) \<subseteq> {..< UC_HOOK_MAX}" "distinct (hook_targets type)"
  by (auto simp: hook_targets_def hook_indices_iff hook_indices_distinct UC_HOOK_INSN_IDX_def
      UC_HOOK_TCG_OPCODE_IDX_def UC_HOOK_MAX_def)

lemma uc_hook_add_link:
  assumes "uc_init_done uc" "env_new_hook env uc = Some p" "hook_accepted env type args"
    and "link_all env p (hook_targets type)
      (uc\<lparr>hook_heap := (hook_heap uc)(p \<mapsto> new_hook type callback user_data begin end_addr args)\<rparr>) = Some (True, uc')"
    and "hook_heap uc' p = Some h" "0 < h_refs h"
  shows "uc_hook_add env type callback user_data begin end_addr args uc = Some (UC_ERR_OK, Some p, uc')"
  using assms
  by (auto simp: uc_hook_add_def hook_targets_def hook_accepted_def new_hook_def hook_add_loop_link Let_def
      split: if_splits option.splits prod.splits)

lemma listed_link:
  assumes "set is \<subseteq> {..< UC_HOOK_MAX}" "distinct is" "\<forall>i \<in> set is. p \<notin> set (L i)"
  shows "listed (\<lambda>i. if i \<in> set is then link_hook b p (L i) else L i) q = listed L q + (if q = p then int (length is) else 0)"
proof -
  have "listed (\<lambda>i. if i \<in> set is then link_hook b p (L i) else L i) q =
      (\<Sum>i < UC_HOOK_MAX. of_bool (q \<in> set (L i)) + of_bool (q = p \<and> i \<in> set is))"
    unfolding listed_def using assms(3) by (intro sum.cong) auto
  also have "\<dots> = listed L q + (\<Sum>i < UC_HOOK_MAX. of_bool (q = p \<and> i \<in> set is))"
    by (simp only: sum.distrib listed_def)
  also have "(\<Sum>i < UC_HOOK_MAX. of_bool (q = p \<and> i \<in> set is)) = (if q = p then int (card (set is)) else 0)"
    using assms(1) by (auto simp: of_bool_def sum.If_cases Int_absorb1 intro!: arg_cong [of _ _ card])
  finally show ?thesis using assms(2) by (simp add: distinct_card)
qed

lemma uc_hook_add_ok:
  assumes st: "hook_state uc L D" and init: "uc_init_done uc" and env: "item_alloc env"
    and p: "env_new_hook env uc = Some p" "hook_heap uc p = None"
    and acc: "hook_accepted env type args" and ne: "hook_targets type \<noteq> []"
  shows "\<exists>uc'. uc_hook_add env type callback user_data begin end_addr args uc = Some (UC_ERR_OK, Some p, uc') \<and>
    hook_state uc' (\<lambda>i. if i \<in> set (hook_targets type) then link_hook (hook_insert_mode uc) p (L i) else L i) D \<and>
    (hook_counts uc L \<longrightarrow> hook_counts uc'
      (\<lambda>i. if i \<in> set (hook_targets type) then link_hook (hook_insert_mode uc) p (L i) else L i)) \<and>
    uc_init_done uc' \<and>
    hook_heap uc' = (hook_heap uc)(p \<mapsto> (new_hook type callback user_data begin end_addr args)\<lparr>
      h_refs := int (length (hook_targets type))\<rparr>) \<and>
    (\<forall>i. list_ext (uc_hook uc i) (uc_hook uc' i))"
proof -
  let ?h = "new_hook type callback user_data begin end_addr args" and ?is = "hook_targets type"
  let ?uc = "uc\<lparr>hook_heap := (hook_heap uc)(p \<mapsto> ?h)\<rparr>"
  let ?L = "\<lambda>i. if i \<in> set ?is then link_hook (hook_insert_mode uc) p (L i) else L i"
  have hl: "hook_lists (uc_hook uc) L" and refs: "refs_ok (hook_heap uc) (\<lambda>q. listed L q + int (count_list D q))"
    and um: "\<not> marked (hook_heap uc) p"
    using st p(2) by (auto simp: hook_state_def marked_def)
  have h0: "h_refs ?h = 0" "\<not> h_to_delete ?h" by (auto simp: new_hook_def hook_zero_def Let_def)
  have zero: "listed L p + int (count_list D p) = 0" using refs_ok_None [OF refs, of p] p(2) by simp
  then have l0: "listed L p = 0" "count_list D p = 0" using listed_nonneg [of L p] by auto
  then have out: "p \<notin> set (L i)" if "i < UC_HOOK_MAX" for i using listed_pos [of L p] that by auto
  then have notin: "\<forall>i \<in> set ?is. p \<notin> set (L i)" using hook_targets_ok(1) by blast
  have heap: "(hook_heap ?uc)(p \<mapsto> ?h\<lparr>h_refs := h_refs ?h + n\<rparr>) = (hook_heap uc)(p \<mapsto> ?h\<lparr>h_refs := n\<rparr>)" for n
    using h0 by simp
  have rec: "?uc\<lparr>hook_heap := a, uc_hook := b, hooks_count := c\<rparr> = uc\<lparr>hook_heap := a, uc_hook := b, hooks_count := c\<rparr>" for a b c
    by simp
  have sel: "hook_insert_mode ?uc = hook_insert_mode uc" "hooks_count ?uc = hooks_count uc" by simp_all
  have "hook_lists (uc_hook ?uc) L" "hook_heap ?uc p = Some ?h" using hl by simp_all
  from link_all_ok [OF env this(1) hook_targets_ok this(2) notin] obtain uh where u:
    "link_all env p ?is ?uc = Some (True, uc\<lparr>hook_heap := (hook_heap uc)(p \<mapsto> ?h\<lparr>h_refs := int (length ?is)\<rparr>),
      uc_hook := uh, hooks_count := (\<lambda>i. hooks_count uc i + of_bool (i \<in> set ?is))\<rparr>)" "hook_lists uh ?L"
    "\<forall>i. list_ext (uc_hook uc i) (uh i)"
    unfolding heap rec sel by auto
  let ?hs = "(hook_heap uc)(p \<mapsto> ?h\<lparr>h_refs := int (length ?is)\<rparr>)"
  let ?uc' = "uc\<lparr>hook_heap := ?hs, uc_hook := uh, hooks_count := (\<lambda>i. hooks_count uc i + of_bool (i \<in> set ?is))\<rparr>"
  have mk: "marked ?hs q = marked (hook_heap uc) q" for q using h0 um by (auto simp: marked_def)
  have li: "listed ?L q = listed L q + (if q = p then int (length ?is) else 0)" for q
    by (rule listed_link [OF hook_targets_ok notin])
  have "refs_ok ?hs (\<lambda>q. listed ?L q + int (count_list D q))"
    unfolding refs_ok_def
  proof
    fix q
    have "case hook_heap uc q of None \<Rightarrow> listed L q + int (count_list D q) = 0
      | Some h \<Rightarrow> h_refs h = listed L q + int (count_list D q) \<and> 0 < listed L q + int (count_list D q)"
      using refs unfolding refs_ok_def by blast
    then show "case ?hs q of None \<Rightarrow> listed ?L q + int (count_list D q) = 0
      | Some h \<Rightarrow> h_refs h = listed ?L q + int (count_list D q) \<and> 0 < listed ?L q + int (count_list D q)"
      unfolding li using l0 ne by (cases "q = p") (auto split: option.splits)
  qed
  moreover have "listed ?L q \<le> int (count_list D q)" if "marked ?hs q" for q
    unfolding li using st that um mk by (auto simp: hook_state_def)
  ultimately have "hook_state ?uc' ?L D" using st u(2) mk by (simp add: hook_state_def)
  moreover have "uc_hook_add env type callback user_data begin end_addr args uc = Some (UC_ERR_OK, Some p, ?uc')"
    by (rule uc_hook_add_link [OF init p(1) acc u(1)]) (use ne in auto)
  moreover have "hook_counts ?uc' ?L" if "hook_counts uc L"
    using that um by (auto simp: hook_counts_def mk link_hook_filter)
  ultimately show ?thesis using init u(3) by (intro exI [of _ ?uc']) simp
qed

section \<open>Sequences of operations\<close>

text \<open>A hook that no list takes is freed again, and the engine is as before.\<close>

lemma uc_hook_add_refused:
  assumes init: "uc_init_done uc" and p: "env_new_hook env uc = Some p" "hook_heap uc p = None"
    and no: "\<not> hook_accepted env type args \<or> hook_targets type = []"
  shows "uc_hook_add env type callback user_data begin end_addr args uc =
    Some (if hook_accepted env type args then UC_ERR_OK else UC_ERR_HOOK, Some p, uc)"
proof -
  have id: "uc\<lparr>hook_heap := (hook_heap uc)(p := None)\<rparr> = uc"
    using p(2) by (simp add: fun_upd_idem)
  consider (insn) "type AND UC_HOOK_INSN \<noteq> 0" | (tcg) "type AND UC_HOOK_INSN = 0" "type AND UC_HOOK_TCG_OPCODE \<noteq> 0"
    | (other) "type AND UC_HOOK_INSN = 0" "type AND UC_HOOK_TCG_OPCODE = 0" by blast
  then show ?thesis
  proof cases
    case insn
    then have "\<not> hook_accepted env type args" using no by (simp add: hook_targets_def)
    then show ?thesis using insn init p(1) by (simp add: uc_hook_add_def hook_accepted_def id)
  next
    case tcg
    then have "\<not> hook_accepted env type args" using no by (simp add: hook_targets_def)
    then show ?thesis using tcg init p(1) by (simp add: uc_hook_add_def hook_accepted_def id)
  next
    case other
    then have "hook_indices (sint type) 0 = []" using no by (simp add: hook_targets_def hook_accepted_def)
    then show ?thesis using other init p(1)
      by (simp add: uc_hook_add_def hook_accepted_def hook_add_loop_link id hook_zero_def)
  qed
qed

lemma hook_state_finite:
  assumes "hook_state uc L D" shows "finite (dom (hook_heap uc))"
proof -
  have refs: "refs_ok (hook_heap uc) (\<lambda>q. listed L q + int (count_list D q))" using assms by (simp add: hook_state_def)
  have "dom (hook_heap uc) \<subseteq> (\<Union>i \<in> {..< UC_HOOK_MAX}. set (L i)) \<union> set D"
  proof
    fix p assume "p \<in> dom (hook_heap uc)"
    then have "listed L p + int (count_list D p) \<noteq> 0" using refs_ok_None [OF refs, of p] by auto
    then have "0 < listed L p \<or> count_list D p \<noteq> 0" using listed_nonneg [of L p] by auto
    then show "p \<in> (\<Union>i \<in> {..< UC_HOOK_MAX}. set (L i)) \<union> set D"
      using listed_pos [of L p] by (auto simp: count_list_0_iff)
  qed
  then show ?thesis by (rule finite_subset) simp
qed

text \<open>What a client of the interface and the engine do with hooks.\<close>

datatype hook_op = AddHook u32 nat nat u64 u64 hook_args | DelHook hook_ptr | ClearHooks

fun hook_step :: "'c uc_env \<Rightarrow> hook_op \<Rightarrow> 'c uc_struct \<Rightarrow> 'c uc_struct option" where
  "hook_step env (AddHook type callback user_data begin end_addr args) uc =
    map_option (snd \<circ> snd) (uc_hook_add env type callback user_data begin end_addr args uc)"
| "hook_step env (DelHook p) uc = map_option snd (uc_hook_del env p uc)"
| "hook_step env ClearHooks uc = clear_deleted_hooks uc"

text \<open>What \<^verbatim>\<open>calloc\<close> promises for a hook.\<close>

definition hook_alloc :: "'c uc_env \<Rightarrow> bool" where
  "hook_alloc env \<longleftrightarrow>
    (\<forall>uc p. finite (dom (hook_heap uc)) \<longrightarrow> env_new_hook env uc = Some p \<longrightarrow> hook_heap uc p = None)"

definition hook_inv :: "'c uc_struct \<Rightarrow> bool" where
  "hook_inv uc \<longleftrightarrow> uc_init_done uc \<and> (\<exists>L D. hook_state uc L D)"

lemma hook_step_inv:
  assumes env: "tb_frame env" "item_alloc env" "hook_alloc env" and inv: "hook_inv uc"
  shows "\<exists>uc'. hook_step env op uc = Some uc' \<and> hook_inv uc'"
proof -
  from inv obtain L D where st: "hook_state uc L D" and init: "uc_init_done uc" by (auto simp: hook_inv_def)
  show ?thesis
  proof (cases op)
    case (AddHook type callback user_data start end_addr args)
    show ?thesis
    proof (cases "env_new_hook env uc")
      case None
      then show ?thesis using AddHook inv init by (simp add: uc_hook_add_def)
    next
      case (Some p)
      then have p: "hook_heap uc p = None" using env(3) hook_state_finite [OF st] by (auto simp: hook_alloc_def)
      show ?thesis
      proof (cases "hook_accepted env type args \<and> hook_targets type \<noteq> []")
        case True
        then show ?thesis
          using uc_hook_add_ok [OF st init env(2) Some p, of type args callback user_data start end_addr] AddHook
          by (auto simp: hook_inv_def)
      next
        case False
        then show ?thesis
          using uc_hook_add_refused [OF init Some p, of type args callback user_data start end_addr] AddHook inv by auto
      qed
    qed
  next
    case (DelHook p)
    show ?thesis
    proof (cases "hook_heap uc p")
      case None
      then show ?thesis using uc_hook_del_unknown [OF st init None, of env] DelHook inv by simp
    next
      case (Some h)
      then show ?thesis using uc_hook_del_ok [OF env(1,2) st init Some] DelHook by (auto simp: hook_inv_def)
    qed
  next
    case ClearHooks
    then show ?thesis using clear_deleted_hooks_ok [OF st] init by (auto simp: hook_inv_def)
  qed
qed

section \<open>Correctness of the hooks\<close>

text \<open>An initialised engine without hooks, for the examples.\<close>

lemma fresh_above: "finite A \<Longrightarrow> Suc (Max (insert 0 A)) \<notin> (A :: nat set)"
  by (metis Max_ge Suc_n_not_le_n finite_insert insertI2)

lemma plain_hook_env: "tb_frame plain_env" "item_alloc plain_env" "hook_alloc plain_env"
proof -
  show "tb_frame plain_env" by (simp add: tb_frame_def plain_env_def Let_def)
  have "list_fresh l (Suc (Max (insert 0 (dom (l_nodes l)))))" if "list_rep l xs" for l :: hook_list and xs
  proof -
    have "finite (dom (l_nodes l))" using that by (auto simp: list_rep_def list_nodes_def)
    from fresh_above [OF this] show ?thesis by (auto simp: list_fresh_def)
  qed
  then show "item_alloc plain_env" by (auto simp: item_alloc_def plain_env_def)
  show "hook_alloc plain_env"
    using fresh_above by (auto simp: hook_alloc_def plain_env_def)
qed

definition demo_hooks :: "unit uc_struct" where
  "demo_hooks = uc_zero\<lparr>uc_init_done := True, uc_hook := (\<lambda>_. clist_zero\<lparr>l_delete_fn := Some hook_delete\<rparr>),
     hooks_to_del := clist_zero\<lparr>l_delete_fn := Some hook_delete\<rparr>\<rparr>"

lemma demo_hooks_state: "hook_state demo_hooks (\<lambda>_. []) []" "hook_counts demo_hooks (\<lambda>_. [])" "uc_init_done demo_hooks"
proof -
  have "list_rep (clist_zero\<lparr>l_delete_fn := Some hook_delete\<rparr> :: hook_list) []"
    by (auto simp: list_rep_def list_nodes_def clist_zero_def)
  moreover have "run_delete_fn (clist_zero\<lparr>l_delete_fn := Some hook_delete\<rparr>) = hook_delete"
    by (simp add: run_delete_fn_def clist_zero_def fun_eq_iff)
  ultimately show "hook_state demo_hooks (\<lambda>_. []) []"
    by (simp add: hook_state_def hook_lists_def demo_hooks_def uc_zero_def refs_ok_def listed_def marked_def)
qed (simp_all add: hook_counts_def demo_hooks_def uc_zero_def)

lemma demo_hook_added:
  obtains uc h where "uc_init_done uc" "hook_state uc (\<lambda>i. if i = 2 \<or> i = 3 then [1] else []) []"
    "hook_heap uc 1 = Some h" "\<not> h_to_delete h" "uc_hook_add plain_env 12 7 0 1 0
      \<lparr>arg_insn = 0, arg_op = 0, arg_op_flags = 0\<rparr> demo_hooks = Some (UC_ERR_OK, Some 1, uc)"
    "h_callback h = 7"
proof -
  have t: "hook_targets 12 = [2, 3]"
    by (simp add: hook_targets_def UC_HOOK_INSN_def UC_HOOK_TCG_OPCODE_def hook_indices.simps UC_HOOK_MAX_def)
  have new: "env_new_hook plain_env demo_hooks = Some 1" "hook_heap demo_hooks 1 = None"
    by (simp_all add: plain_env_def demo_hooks_def uc_zero_def)
  have acc: "hook_accepted plain_env 12 \<lparr>arg_insn = 0, arg_op = 0, arg_op_flags = 0\<rparr>"
    by (simp add: hook_accepted_def plain_env_def)
  have mode: "\<not> hook_insert_mode demo_hooks" by (simp add: demo_hooks_def uc_zero_def)
  from uc_hook_add_ok [OF demo_hooks_state(1,3) plain_hook_env(2) new acc, of 7 0 1 0] t mode
  show ?thesis by (auto simp: link_hook_def new_hook_def hook_zero_def Let_def cong: if_cong intro: that)
qed

lemma demo_hook_deleted:
  obtains uc :: "unit uc_struct" where "hook_state uc (\<lambda>i. if i = 2 \<or> i = 3 then [1] else []) [1, 1]" "marked (hook_heap uc) 1"
proof -
  obtain uc :: "unit uc_struct" and h where uc: "uc_init_done uc" "hook_state uc (\<lambda>i. if i = 2 \<or> i = 3 then [1] else []) []"
    "hook_heap uc 1 = Some h" by (rule demo_hook_added) blast
  have l: "listed (\<lambda>i. if i = 2 \<or> i = 3 then [1] else []) 1 = 2"
    by (simp add: listed_def UC_HOOK_MAX_def lessThan_nat_numeral lessThan_Suc)
  from uc_hook_del_ok [OF plain_hook_env(1,2) uc(2,1,3), unfolded l] obtain uc' :: "unit uc_struct" where
    "hook_state uc' (\<lambda>i. if i = 2 \<or> i = 3 then [1] else []) ([] @ replicate (nat 2) 1)"
    "hook_heap uc' = (if 2 = (0 :: int) then hook_heap uc else (hook_heap uc)(1 \<mapsto> drop_hook h 2))" by blast
  then show ?thesis by (intro that [of uc']) (simp_all add: marked_def drop_hook_def numeral_2_eq_2)
qed

text \<open>
  C13: whatever sequence of additions, deletions (also of handles already deleted or never handed out)
  and clearings a client and the engine perform, every operation returns: no hook is used after it is
  freed and no loop runs on. The invariant holds after each: reference counts are exact, every hook in a
  list is alive, and every hook in the store is in a list.
\<close>

theorem hook_operations_safe:
  assumes "tb_frame env" "item_alloc env" "hook_alloc env" "hook_inv uc"
  shows "\<exists>uc'. foldM (hook_step env) ops uc = Some uc' \<and> hook_inv uc'"
  by (rule foldM_total) (use assms hook_step_inv in blast)+

theorem hook_operations_safe_witness:
  "\<exists>uc'. foldM (hook_step plain_env)
    [AddHook UC_HOOK_CODE 7 0 1 0 \<lparr>arg_insn = 0, arg_op = 0, arg_op_flags = 0\<rparr>, DelHook 1, DelHook 1, ClearHooks] demo_hooks =
    Some uc' \<and> hook_inv uc'"
  by (rule hook_operations_safe [OF plain_hook_env]) (use demo_hooks_state in \<open>auto simp: hook_inv_def\<close>)

text \<open>
  C20: \<^verbatim>\<open>uc_hook_add\<close> puts an accepted hook into exactly the lists its type selects, at the begin or at
  the end as the engine is set up, with one reference per list, and leaves every other hook alone. The
  counts of live hooks stay right.
\<close>

theorem hook_add_correct:
  assumes "hook_state uc L D" "uc_init_done uc" "item_alloc env" "env_new_hook env uc = Some p" "hook_heap uc p = None"
    and "hook_accepted env type args" "hook_targets type \<noteq> []"
  shows "\<exists>uc'. uc_hook_add env type callback user_data begin end_addr args uc = Some (UC_ERR_OK, Some p, uc') \<and>
    hook_state uc' (\<lambda>i. if i \<in> set (hook_targets type) then link_hook (hook_insert_mode uc) p (L i) else L i) D \<and>
    (hook_counts uc L \<longrightarrow> hook_counts uc'
      (\<lambda>i. if i \<in> set (hook_targets type) then link_hook (hook_insert_mode uc) p (L i) else L i)) \<and>
    hook_heap uc' = (hook_heap uc)(p \<mapsto> (new_hook type callback user_data begin end_addr args)\<lparr>
      h_refs := int (length (hook_targets type))\<rparr>)"
  using uc_hook_add_ok [OF assms] by blast

theorem hook_add_correct_witness:
  "\<exists>uc'. uc_hook_add plain_env 12 7 0 1 0 \<lparr>arg_insn = 0, arg_op = 0, arg_op_flags = 0\<rparr> demo_hooks =
      Some (UC_ERR_OK, Some 1, uc') \<and>
    hook_state uc' (\<lambda>i. if i = 2 \<or> i = 3 then [1] else []) []"
proof -
  have t: "hook_targets 12 = [2, 3]"
    by (simp add: hook_targets_def UC_HOOK_INSN_def UC_HOOK_TCG_OPCODE_def hook_indices.simps UC_HOOK_MAX_def)
  have new: "env_new_hook plain_env demo_hooks = Some 1" "hook_heap demo_hooks 1 = None"
    by (simp_all add: plain_env_def demo_hooks_def uc_zero_def)
  have acc: "hook_accepted plain_env 12 \<lparr>arg_insn = 0, arg_op = 0, arg_op_flags = 0\<rparr>"
    by (simp add: hook_accepted_def plain_env_def)
  have mode: "\<not> hook_insert_mode demo_hooks" by (simp add: demo_hooks_def uc_zero_def)
  show ?thesis
    using hook_add_correct [OF demo_hooks_state(1,3) plain_hook_env(2) new acc, of 7 0 1 0] t mode
    by (auto simp: link_hook_def cong: if_cong)
qed

text \<open>
  C21: \<^verbatim>\<open>uc_hook_del\<close> marks a hook as deleted and forgets the regions it has instrumented; the hook stays
  in its lists and in memory, with one more reference for each entry in \<^verbatim>\<open>hooks_to_del\<close>, so that a callback
  that is running may delete its own hook. An unknown handle changes nothing.
\<close>

theorem hook_del_correct:
  assumes "tb_frame env" "item_alloc env" "hook_state uc L D" "uc_init_done uc"
  shows "(\<forall>h. hook_heap uc p = Some h \<and> \<not> h_to_delete h \<longrightarrow>
      (\<exists>uc'. uc_hook_del env p uc = Some (UC_ERR_OK, uc') \<and>
        hook_state uc' L (D @ replicate (nat (listed L p)) p) \<and> (hook_counts uc L \<longrightarrow> hook_counts uc' L) \<and>
        hook_heap uc' = (hook_heap uc)(p \<mapsto> h\<lparr>h_hooked_regions := [], h_to_delete := True, h_refs := 2 * h_refs h\<rparr>))) \<and>
    (hook_heap uc p = None \<longrightarrow> uc_hook_del env p uc = Some (UC_ERR_OK, uc))"
proof (intro conjI allI impI)
  fix h assume h: "hook_heap uc p = Some h \<and> \<not> h_to_delete h"
  have refs: "refs_ok (hook_heap uc) (\<lambda>q. listed L q + int (count_list D q))" using assms(3) by (simp add: hook_state_def)
  have "p \<notin> set D" using assms(3) h by (auto simp: hook_state_def marked_def)
  then have l: "h_refs h = listed L p" "listed L p \<noteq> 0"
    using refs_ok_Some [OF refs, of p h] refs_ok_None [OF refs, of p] h by (auto simp: count_list_0_iff)
  then have "drop_hook h (listed L p) = h\<lparr>h_hooked_regions := [], h_to_delete := True, h_refs := 2 * h_refs h\<rparr>"
    by (simp add: drop_hook_def)
  with uc_hook_del_ok [OF assms, of p h] h l
  show "\<exists>uc'. uc_hook_del env p uc = Some (UC_ERR_OK, uc') \<and>
        hook_state uc' L (D @ replicate (nat (listed L p)) p) \<and> (hook_counts uc L \<longrightarrow> hook_counts uc' L) \<and>
        hook_heap uc' = (hook_heap uc)(p \<mapsto> h\<lparr>h_hooked_regions := [], h_to_delete := True, h_refs := 2 * h_refs h\<rparr>)"
    by auto
qed (use uc_hook_del_unknown [OF assms(3,4)] in blast)

theorem hook_del_correct_witness:
  "\<exists>uc uc' :: unit uc_struct. \<not> marked (hook_heap uc) 1 \<and> uc_hook_del plain_env 1 uc = Some (UC_ERR_OK, uc') \<and>
    marked (hook_heap uc') 1"
proof -
  obtain uc :: "unit uc_struct" and h where uc: "uc_init_done uc" "hook_state uc (\<lambda>i. if i = 2 \<or> i = 3 then [1] else []) []"
    "hook_heap uc 1 = Some h" "\<not> h_to_delete h" by (rule demo_hook_added) blast
  from hook_del_correct [OF plain_hook_env(1,2) uc(2,1), of 1] uc(3,4) obtain uc' where
    "uc_hook_del plain_env 1 uc = Some (UC_ERR_OK, uc')"
    "hook_heap uc' = (hook_heap uc)(1 \<mapsto> h\<lparr>h_hooked_regions := [], h_to_delete := True, h_refs := 2 * h_refs h\<rparr>)"
    by blast
  with uc(3,4) show ?thesis by (intro exI [of _ uc] exI [of _ uc']) (simp add: marked_def)
qed

text \<open>
  C14: \<^verbatim>\<open>clear_deleted_hooks\<close> always returns. Afterwards the lists hold exactly the hooks that were not
  marked, in their order, the marked hooks are freed, the others unchanged, and \<^verbatim>\<open>hooks_to_del\<close> is empty.
\<close>

theorem clear_deleted_hooks_correct:
  assumes "hook_state uc L D"
  shows "\<exists>uc'. clear_deleted_hooks uc = Some uc' \<and>
    hook_state uc' (\<lambda>i. if i < UC_HOOK_MAX then filter (\<lambda>p. \<not> marked (hook_heap uc) p) (L i) else L i) [] \<and>
    (\<forall>p. hook_heap uc' p = (if marked (hook_heap uc) p then None else hook_heap uc p))"
  using clear_deleted_hooks_ok [OF assms] by auto

theorem clear_deleted_hooks_correct_witness:
  "\<exists>uc uc' :: unit uc_struct. hook_heap uc 1 \<noteq> None \<and> clear_deleted_hooks uc = Some uc' \<and> hook_heap uc' 1 = None"
proof -
  obtain uc :: "unit uc_struct" where uc: "hook_state uc (\<lambda>i. if i = 2 \<or> i = 3 then [1] else []) [1, 1]"
    "marked (hook_heap uc) 1" by (rule demo_hook_deleted)
  then have "hook_heap uc 1 \<noteq> None" by (auto simp: marked_def split: option.splits)
  with clear_deleted_hooks_correct [OF uc(1)] uc(2) show ?thesis by metis
qed

section \<open>Running hooks\<close>

text \<open>
  What one step of a client may do to the hooks of an initialised engine while it is in a callback: add a
  hook, delete a hook, or anything else that leaves the hooks alone. A callback is a sequence of such
  steps. (Clearing the deleted hooks is what the engine does after the emulation.)
\<close>

definition hooks_same :: "'c uc_struct \<Rightarrow> 'c uc_struct \<Rightarrow> bool" where
  "hooks_same uc uc' \<longleftrightarrow> uc_hook uc' = uc_hook uc \<and> hook_heap uc' = hook_heap uc \<and>
    hooks_to_del uc' = hooks_to_del uc \<and> uc_init_done uc' = uc_init_done uc"

inductive client_step :: "'c uc_env \<Rightarrow> 'c uc_struct \<Rightarrow> 'c uc_struct \<Rightarrow> bool" for env where
  other: "hooks_same uc uc' \<Longrightarrow> client_step env uc uc'"
| add: "hook_step env (AddHook type callback user_data begin end_addr args) uc = Some uc' \<Longrightarrow> client_step env uc uc'"
| delete: "hook_step env (DelHook p) uc = Some uc' \<Longrightarrow> client_step env uc uc'"

definition client_callbacks :: "'c uc_env \<Rightarrow> bool" where
  "client_callbacks env \<longleftrightarrow> tb_frame env \<and> item_alloc env \<and> hook_alloc env \<and>
    (\<forall>cb a args sz u uc. hook_inv uc \<longrightarrow> (client_step env)\<^sup>*\<^sup>* uc (env_callback env cb a args sz u uc))"

text \<open>Every list only grows at its ends, so that the hook being run stays where it is.\<close>

definition lists_ext :: "'c uc_struct \<Rightarrow> 'c uc_struct \<Rightarrow> bool" where
  "lists_ext uc uc' \<longleftrightarrow> (\<forall>i. list_ext (uc_hook uc i) (uc_hook uc' i))"

lemma hooks_same_inv: "hooks_same uc uc' \<Longrightarrow> hook_inv uc \<Longrightarrow> hook_inv uc' \<and> lists_ext uc uc'"
  by (simp add: hooks_same_def hook_inv_def hook_state_def lists_ext_def)

lemma client_step_inv:
  assumes env: "tb_frame env" "item_alloc env" "hook_alloc env" and "client_step env uc uc'" "hook_inv uc"
  shows "hook_inv uc' \<and> lists_ext uc uc'"
  using assms(4,5)
proof (induction rule: client_step.induct)
  case (other uc uc')
  then show ?case by (rule hooks_same_inv)
next
  case (add type callback user_data start end_addr args uc uc')
  from add(2) obtain L D where st: "hook_state uc L D" and init: "uc_init_done uc" by (auto simp: hook_inv_def)
  have inv: "hook_inv uc'" using hook_step_inv [OF env add(2)] add(1) by (metis option.inject)
  show ?case
  proof (cases "env_new_hook env uc")
    case None
    then show ?thesis using add init by (simp add: uc_hook_add_def lists_ext_def)
  next
    case (Some p)
    then have p: "hook_heap uc p = None" using env(3) hook_state_finite [OF st] by (auto simp: hook_alloc_def)
    show ?thesis
    proof (cases "hook_accepted env type args \<and> hook_targets type \<noteq> []")
      case True
      then show ?thesis
        using uc_hook_add_ok [OF st init env(2) Some p, of type args callback user_data start end_addr] add(1) inv
        by (auto simp: lists_ext_def)
    next
      case False
      then show ?thesis
        using uc_hook_add_refused [OF init Some p, of type args callback user_data start end_addr] add(1) inv
        by (auto simp: lists_ext_def)
    qed
  qed
next
  case (delete p uc uc')
  from delete(2) obtain L D where st: "hook_state uc L D" and init: "uc_init_done uc" by (auto simp: hook_inv_def)
  have inv: "hook_inv uc'" using hook_step_inv [OF env delete(2)] delete(1) by (metis option.inject)
  show ?case
  proof (cases "hook_heap uc p")
    case None
    then show ?thesis using uc_hook_del_unknown [OF st init None, of env] delete(1) inv by (simp add: lists_ext_def)
  next
    case (Some h)
    then show ?thesis using uc_hook_del_ok [OF env(1,2) st init Some] delete(1) inv by (auto simp: lists_ext_def)
  qed
qed

lemma client_steps_inv:
  assumes env: "tb_frame env" "item_alloc env" "hook_alloc env" and "(client_step env)\<^sup>*\<^sup>* uc uc'" "hook_inv uc"
  shows "hook_inv uc' \<and> lists_ext uc uc'"
  using assms(4)
proof (induction rule: rtranclp_induct)
  case (step y z)
  then show ?case using client_step_inv [OF env step(2)] unfolding lists_ext_def by (meson list_ext_trans)
qed (simp add: assms(5) lists_ext_def)

lemma run_code_callback_inv:
  assumes env: "client_callbacks env" and inv: "hook_inv uc"
  shows "\<exists>uc'. run_code_callback env h address sz uc = Some uc' \<and> hook_inv uc' \<and> lists_ext uc uc'"
proof (cases "h_callback h = HOOK_COUNT_CB")
  case True
  have "uc_init_done uc" using inv by (simp add: hook_inv_def)
  then have "\<exists>uc'. hook_count_cb env uc = Some uc' \<and> hooks_same uc uc'"
    by (auto simp: hook_count_cb_def hooks_same_def Let_def uc_emu_stop_def upd_cpu_def)
  then obtain uc' where "hook_count_cb env uc = Some uc'" "hooks_same uc uc'" by blast
  then show ?thesis using True hooks_same_inv [OF _ inv] by (simp add: run_code_callback_def)
next
  case False
  then show ?thesis using env inv client_steps_inv [of env uc]
    by (simp add: run_code_callback_def client_callbacks_def)
qed

text \<open>
  The callbacks that \<^verbatim>\<open>helper_uc_tracecode\<close> runs, over the abstract lists. A hook that is marked as deleted or
  whose range does not cover the address is skipped; a range whose end is below its begin covers every address. Otherwise
  the callback runs; the hooks after this one are then those of the list as the callback has left it,
  and the first request to stop ends the round unless the block is marked as not stoppable.
\<close>

definition hook_live_at :: "u64 \<Rightarrow> hook \<Rightarrow> bool" where
  "hook_live_at address h \<longleftrightarrow> \<not> h_to_delete h \<and> (h_begin h \<le> address \<and> address \<le> h_end h \<or> h_end h < h_begin h)"

definition stopping :: "u32 \<Rightarrow> 'c uc_struct \<Rightarrow> bool" where
  "stopping fl uc \<longleftrightarrow> stop_request uc \<and> fl AND UC_HOOK_FLAG_NO_STOP = 0"

inductive hook_run :: "'c uc_env \<Rightarrow> u32 \<Rightarrow> u32 \<Rightarrow> u64 \<Rightarrow> nat \<Rightarrow> hook_ptr list \<Rightarrow> 'c uc_struct \<Rightarrow> 'c uc_struct \<Rightarrow> bool"
  for env sz fl address i where
  finished: "hook_run env sz fl address i [] uc uc"
| skipped: "hook_heap uc p = Some h \<Longrightarrow> \<not> hook_live_at address h \<Longrightarrow> hook_run env sz fl address i ps uc uc' \<Longrightarrow>
    hook_run env sz fl address i (p # ps) uc uc'"
| stopped: "hook_heap uc p = Some h \<Longrightarrow> hook_live_at address h \<Longrightarrow> run_code_callback env h address sz uc = Some uc' \<Longrightarrow>
    stopping fl uc' \<Longrightarrow> hook_run env sz fl address i (p # ps) uc uc'"
| called: "hook_heap uc p = Some h \<Longrightarrow> hook_live_at address h \<Longrightarrow> run_code_callback env h address sz uc = Some uc1 \<Longrightarrow>
    \<not> stopping fl uc1 \<Longrightarrow> list_rep (uc_hook uc1 i) (rs @ p # qs) \<Longrightarrow> p \<notin> set rs \<Longrightarrow>
    hook_run env sz fl address i qs uc1 uc' \<Longrightarrow> hook_run env sz fl address i (p # ps) uc uc'"

text \<open>A cursor into a list: the hooks that are still to come.\<close>

definition cursor :: "hook_list \<Rightarrow> nat option \<Rightarrow> hook_ptr list \<Rightarrow> bool" where
  "cursor l cur ps \<longleftrightarrow> (\<exists>ns xs ms. list_nodes l (ns @ ms) (xs @ ps) \<and> length ns = length xs \<and>
    cur = (case ms of [] \<Rightarrow> None | m # _ \<Rightarrow> Some m))"

lemma cursor_head: "list_rep l xs \<Longrightarrow> cursor l (l_head l) xs"
  unfolding cursor_def list_rep_def
  by (metis append_Nil list.size(3) list_nodes_def lpath_head)

lemma cursor_path:
  assumes "list_nodes l (ns @ ms) (xs @ ps)" "length ns = length xs"
  shows "lpath (l_nodes l) (case ms of [] \<Rightarrow> None | m # _ \<Rightarrow> Some m) ms ps None"
proof -
  from assms obtain q where "lpath (l_nodes l) q ms ps None"
    unfolding list_nodes_def using lpath_append [OF assms(2)] by blast
  then show ?thesis using lpath_head by metis
qed

lemma cursor_Nil: "cursor l cur [] \<Longrightarrow> cur = None"
  unfolding cursor_def
proof (elim exE conjE)
  fix ns xs ms
  assume n: "list_nodes l (ns @ ms) (xs @ [])" "length ns = length xs" and c: "cur = (case ms of [] \<Rightarrow> None | m # _ \<Rightarrow> Some m)"
  have "ms = []" using lpath_length [OF cursor_path [OF n]] by simp
  then show "cur = None" using c by simp
qed

lemma cursor_Cons:
  assumes "cursor l cur (p # ps)"
  obtains c it where "cur = Some c" "l_nodes l c = Some it" "li_data it = p" "cursor l (li_next it) ps"
proof -
  from assms obtain ns xs ms where n: "list_nodes l (ns @ ms) (xs @ p # ps)" "length ns = length xs"
    "cur = (case ms of [] \<Rightarrow> None | m # _ \<Rightarrow> Some m)" by (auto simp: cursor_def)
  from cursor_path [OF n(1,2)] obtain c ms' it where m: "ms = c # ms'" "l_nodes l c = Some it" "li_data it = p"
    "lpath (l_nodes l) (li_next it) ms' ps None" by (cases ms) (auto split: option.splits)
  have "list_nodes l ((ns @ [c]) @ ms') ((xs @ [p]) @ ps)" using n(1) m(1) by simp
  then have "cursor l (li_next it) ps"
    unfolding cursor_def using n(2) lpath_head [OF m(4)] by (intro exI [of _ "ns @ [c]"] exI [of _ "xs @ [p]"] exI [of _ ms']) simp
  then show thesis using that n(3) m by simp
qed

lemma lpath_unique: "lpath h p ns xs None \<Longrightarrow> lpath h p ms ys None \<Longrightarrow> ns = ms \<and> xs = ys"
proof (induction h p ns xs "None :: nat option" arbitrary: ms ys rule: lpath.induct)
  case (2 h p n ns x xs)
  then show ?case by (cases ms; cases ys) (auto split: option.splits)
qed auto

lemma cursor_ext:
  assumes c: "cursor l cur (p # ps)" and ext: "list_ext l l'" and l': "list_rep l' (rs @ p # qs)" "distinct (rs @ p # qs)"
  shows "cursor l' cur (p # qs)"
proof -
  from c obtain ns xs ms where n: "list_nodes l (ns @ ms) (xs @ p # ps)" "length ns = length xs"
    "cur = (case ms of [] \<Rightarrow> None | m # _ \<Rightarrow> Some m)" by (auto simp: cursor_def)
  from ext n(1) obtain np xp nq xq where e: "list_nodes l' (np @ (ns @ ms) @ nq) (xp @ (xs @ p # ps) @ xq)"
    "length np = length xp" unfolding list_ext_def by blast
  from l'(1) obtain N where "list_nodes l' N (rs @ p # qs)" by (auto simp: list_rep_def)
  with e(1) have "xp @ (xs @ p # ps) @ xq = rs @ p # qs"
    unfolding list_nodes_def using lpath_unique by blast
  then have eq: "(xp @ xs) @ p # (ps @ xq) = rs @ p # qs" by simp
  then have "xp @ xs = rs \<and> ps @ xq = qs" using l'(2) by (auto simp: append_eq_append_conv2 Cons_eq_append_conv append_eq_Cons_conv)
  moreover obtain m ms' where "ms = m # ms'" using cursor_path [OF n(1,2)] by (cases ms) auto
  ultimately show ?thesis unfolding cursor_def using e n(2,3)
    by (intro exI [of _ "np @ ns"] exI [of _ "xp @ xs"] exI [of _ "ms @ nq"]) auto
qed

lemma list_rep_unique: "list_rep l xs \<Longrightarrow> list_rep l ys \<Longrightarrow> xs = ys"
  unfolding list_rep_def list_nodes_def using lpath_unique by blast

lemma hook_inv_list:
  assumes "hook_inv uc" "i < UC_HOOK_MAX" "list_rep (uc_hook uc i) xs"
  shows "distinct xs" "\<And>p. p \<in> set xs \<Longrightarrow> \<exists>h. hook_heap uc p = Some h"
proof -
  from assms(1) obtain L D where st: "hook_state uc L D" by (auto simp: hook_inv_def)
  then have l: "list_rep (uc_hook uc i) (L i)" "distinct (L i)"
    and refs: "refs_ok (hook_heap uc) (\<lambda>q. listed L q + int (count_list D q))"
    using assms(2) by (auto simp: hook_state_def hook_lists_def)
  have xs: "xs = L i" by (rule list_rep_unique [OF assms(3) l(1)])
  then show "distinct xs" using l(2) by simp
  show "\<exists>h. hook_heap uc p = Some h" if "p \<in> set xs" for p
  proof -
    have "0 < listed L p" using that xs assms(2) by (auto simp: listed_pos)
    then show ?thesis using refs_okD [OF refs, of p] by auto
  qed
qed

lemma cursor_list: "cursor l cur ps \<Longrightarrow> \<exists>xs. list_rep l (xs @ ps)"
  by (auto simp: cursor_def list_rep_def)

text \<open>One step of the loop at a hook.\<close>

lemma trace_step:
  assumes env: "client_callbacks env" and inv: "hook_inv uc" and i: "i < UC_HOOK_MAX"
    and cur: "cursor (uc_hook uc i) cur (p # ps)"
  obtains c it h uc1 where "cur = Some c" "l_nodes (uc_hook uc i) c = Some it" "li_data it = p" "hook_heap uc p = Some h"
    "cursor (uc_hook uc i) (li_next it) ps" "run_code_callback env h address sz uc = Some uc1" "hook_inv uc1"
    "\<exists>rs qs. list_rep (uc_hook uc1 i) (rs @ p # qs) \<and> p \<notin> set rs"
    "\<And>rs qs. list_rep (uc_hook uc1 i) (rs @ p # qs) \<Longrightarrow> \<exists>it1. l_nodes (uc_hook uc1 i) c = Some it1 \<and> cursor (uc_hook uc1 i) (li_next it1) qs"
proof -
  from cur obtain c it where c: "cur = Some c" "l_nodes (uc_hook uc i) c = Some it" "li_data it = p"
    "cursor (uc_hook uc i) (li_next it) ps" by (rule cursor_Cons)
  obtain xs where xs: "list_rep (uc_hook uc i) (xs @ p # ps)" using cursor_list [OF cur] by blast
  from hook_inv_list(2) [OF inv i xs] obtain h where h: "hook_heap uc p = Some h" by auto
  from run_code_callback_inv [OF env inv, of h address sz] obtain uc1 where
    u: "run_code_callback env h address sz uc = Some uc1" "hook_inv uc1" "list_ext (uc_hook uc i) (uc_hook uc1 i)"
    by (auto simp: lists_ext_def)
  from xs u(3) obtain zs where zs: "list_rep (uc_hook uc1 i) zs" "p \<in> set zs"
    unfolding list_ext_def list_rep_def by (metis Un_iff list.set_intros(1) set_append)
  have split: "\<exists>rs qs. list_rep (uc_hook uc1 i) (rs @ p # qs) \<and> p \<notin> set rs"
    using split_list_first [OF zs(2)] zs(1) by blast
  have at: "\<exists>it1. l_nodes (uc_hook uc1 i) c = Some it1 \<and> cursor (uc_hook uc1 i) (li_next it1) qs"
    if l: "list_rep (uc_hook uc1 i) (rs @ p # qs)" for rs qs
  proof -
    have "cursor (uc_hook uc1 i) cur (p # qs)"
      by (rule cursor_ext [OF cur u(3) l hook_inv_list(1) [OF u(2) i l]])
    then show ?thesis using c(1) by (auto elim: cursor_Cons)
  qed
  show thesis by (rule that [OF c(1,2,3) h c(4) u(1,2) split at])
qed

lemma live_bound_check: "hook_live_at address h \<longleftrightarrow> \<not> h_to_delete h \<and> HOOK_BOUND_CHECK h address"
  by (auto simp: hook_live_at_def HOOK_BOUND_CHECK_def)

lemma tracecode_loop_Nil: "tracecode_loop env sz i fl address None uc = Some uc"
  by (simp add: tracecode_loop.simps)

lemma hook_run_loop:
  assumes env: "client_callbacks env" "sz \<noteq> 0" and i: "i < UC_HOOK_MAX"
    and "hook_run env sz fl address i ps uc uc'"
  shows "hook_inv uc \<Longrightarrow> cursor (uc_hook uc i) cur ps \<Longrightarrow> \<not> stopping fl uc \<Longrightarrow>
    tracecode_loop env sz i fl address cur uc = Some uc'"
  using assms(4)
proof (induction arbitrary: cur rule: hook_run.induct)
  case (finished uc)
  then show ?case using cursor_Nil tracecode_loop_Nil by metis
next
  case (skipped uc p h ps uc')
  from trace_step [OF env(1) skipped.prems(1) i skipped.prems(2), of address sz] obtain c it where
    c: "cur = Some c" "l_nodes (uc_hook uc i) c = Some it" "li_data it = p" "cursor (uc_hook uc i) (li_next it) ps" by metis
  have "tracecode_loop env sz i fl address (li_next it) uc = Some uc'"
    using skipped.IH [OF skipped.prems(1) c(4) skipped.prems(3)] .
  then show ?case using c skipped.hyps(1,2) skipped.prems(3) env(2)
    by (subst tracecode_loop.simps) (auto simp: live_bound_check stopping_def)
next
  case (stopped uc p h uc' ps)
  from trace_step [OF env(1) stopped.prems(1) i stopped.prems(2), of address sz] obtain c it where
    c: "cur = Some c" "l_nodes (uc_hook uc i) c = Some it" "li_data it = p" by metis
  then show ?case using stopped.hyps env(2)
    by (subst tracecode_loop.simps) (auto simp: live_bound_check stopping_def)
next
  case (called uc p h uc1 rs qs uc' ps)
  from trace_step [OF env(1) called.prems(1) i called.prems(2), of address sz] obtain c it h1 u where
    c: "cur = Some c" "l_nodes (uc_hook uc i) c = Some it" "li_data it = p" "hook_heap uc p = Some h1"
      "run_code_callback env h1 address sz uc = Some u" "hook_inv u"
    and at: "\<And>rs qs. list_rep (uc_hook u i) (rs @ p # qs) \<Longrightarrow>
      \<exists>it1. l_nodes (uc_hook u i) c = Some it1 \<and> cursor (uc_hook u i) (li_next it1) qs" by metis
  have u: "u = uc1" using c(4,5) called.hyps(1,3) by simp
  from at [unfolded u, OF called.hyps(5)] obtain it1 where it1: "l_nodes (uc_hook uc1 i) c = Some it1"
    "cursor (uc_hook uc1 i) (li_next it1) qs" by blast
  have "tracecode_loop env sz i fl address (li_next it1) uc1 = Some uc'"
    using called.IH [OF c(6) [unfolded u] it1(2) called.hyps(4)] .
  then show ?case using c(1-3) it1 called.hyps(1-4) env(2)
    by (subst tracecode_loop.simps) (auto simp: live_bound_check stopping_def)
qed

lemma loop_hook_run:
  assumes env: "client_callbacks env" "sz \<noteq> 0" and i: "i < UC_HOOK_MAX"
    and "tracecode_loop env sz i fl address cur uc = Some uc'"
    and "hook_inv uc" "cursor (uc_hook uc i) cur ps" "\<not> stopping fl uc"
  shows "hook_run env sz fl address i ps uc uc'"
proof -
  have "env' = env \<and> sz' = sz \<and> i' = i \<and> fl' = fl \<and> address' = address \<longrightarrow>
      (\<forall>ps. hook_inv uc \<and> cursor (uc_hook uc i) cur ps \<and> \<not> stopping fl uc \<longrightarrow> hook_run env sz fl address i ps uc uc')"
    if "tracecode_loop env' sz' i' fl' address' cur uc = Some uc'" for env' sz' i' fl' address' cur uc uc'
  proof (rule tracecode_loop.raw_induct [OF _ that, where P = "\<lambda>env' sz' i' fl' address' cur uc uc'.
      env' = env \<and> sz' = sz \<and> i' = i \<and> fl' = fl \<and> address' = address \<longrightarrow>
      (\<forall>ps. hook_inv uc \<and> cursor (uc_hook uc i) cur ps \<and> \<not> stopping fl uc \<longrightarrow> hook_run env sz fl address i ps uc uc')"], goal_cases)
    case (1 f env' sz' i' fl' address' cur uc uc')
    have IH: "hook_run env sz fl address i ps uc uc'"
      if "f env sz i fl address cur uc = Some uc'" "hook_inv uc" "cursor (uc_hook uc i) cur ps" "\<not> stopping fl uc" for cur uc ps
      using 1(1) [OF that(1)] that(2-4) by blast
    show ?case
    proof (intro impI allI)
      fix ps
      assume e: "env' = env \<and> sz' = sz \<and> i' = i \<and> fl' = fl \<and> address' = address"
        and h: "hook_inv uc \<and> cursor (uc_hook uc i) cur ps \<and> \<not> stopping fl uc"
      note body = 1(2) [simplified e]
      show "hook_run env sz fl address i ps uc uc'"
      proof (cases ps)
        case Nil
        then have "cur = None" using h cursor_Nil by blast
        then show ?thesis using body Nil by (simp add: hook_run.finished)
      next
        case (Cons p qs)
        from h Cons have "hook_inv uc" "cursor (uc_hook uc i) cur (p # qs)" by auto
        from trace_step [OF env(1) this(1) i this(2), of address sz] obtain c it hk uc1 where
          c: "cur = Some c" "l_nodes (uc_hook uc i) c = Some it" "li_data it = p" "hook_heap uc p = Some hk"
            "cursor (uc_hook uc i) (li_next it) qs" "run_code_callback env hk address sz uc = Some uc1" "hook_inv uc1"
            "\<exists>rs qs. list_rep (uc_hook uc1 i) (rs @ p # qs) \<and> p \<notin> set rs"
          and at: "\<And>rs qs. list_rep (uc_hook uc1 i) (rs @ p # qs) \<Longrightarrow>
            \<exists>it1. l_nodes (uc_hook uc1 i) c = Some it1 \<and> cursor (uc_hook uc1 i) (li_next it1) qs" by blast
        consider (skip) "\<not> hook_live_at address hk" | (stop) "hook_live_at address hk" "stopping fl uc1"
          | (call) "hook_live_at address hk" "\<not> stopping fl uc1" by blast
        then show ?thesis
        proof cases
          case skip
          then have "f env sz i fl address (li_next it) uc = Some uc'"
            using body c(1-4) env(2) h by (auto simp: live_bound_check stopping_def split: if_splits)
          then show ?thesis using IH [of "li_next it" uc qs] h c(4,5) skip Cons by (auto intro: hook_run.skipped)
        next
          case stop
          then have "uc' = uc1"
            using body c(1-4,6) env(2) by (simp add: live_bound_check stopping_def)
          then show ?thesis using stop c(4,6) Cons by (auto intro: hook_run.stopped)
        next
          case call
          from c(8) obtain rs zs where l: "list_rep (uc_hook uc1 i) (rs @ p # zs)" "p \<notin> set rs" by blast
          from at [OF l(1)] obtain it1 where it1: "l_nodes (uc_hook uc1 i) c = Some it1"
            "cursor (uc_hook uc1 i) (li_next it1) zs" by blast
          have "f env sz i fl address (li_next it1) uc1 = Some uc'"
            using body c(1-4,6) env(2) call it1(1) by (auto simp: live_bound_check stopping_def)
          then have "hook_run env sz fl address i zs uc1 uc'" using IH it1(2) c(7) call(2) by blast
          then show ?thesis using hook_run.called [OF c(4) call(1) c(6) call(2) l] Cons by blast
        qed
      qed
    qed
  qed
  then show ?thesis using assms(4-7) by blast
qed

lemma hook_run_exists:
  assumes env: "client_callbacks env" and kept: "\<forall>cb a args s u v. hook_inv v \<longrightarrow> uc_hook (env_callback env cb a args s u v) = uc_hook v"
    and i: "i < UC_HOOK_MAX"
  shows "hook_inv uc \<Longrightarrow> cursor (uc_hook uc i) cur ps \<Longrightarrow> \<exists>uc'. hook_run env sz fl address i ps uc uc'"
proof (induction ps arbitrary: uc cur)
  case (Cons p ps)
  have "\<exists>n h uc1. hook_heap uc p = Some h \<and> cursor (uc_hook uc i) n ps \<and>
      run_code_callback env h address sz uc = Some uc1 \<and> hook_inv uc1"
    by (rule trace_step [OF env Cons.prems(1) i Cons.prems(2), of address sz]) (intro exI conjI, assumption+)
  then obtain n h uc1 where h: "hook_heap uc p = Some h" "cursor (uc_hook uc i) n ps"
      "run_code_callback env h address sz uc = Some uc1" "hook_inv uc1" by blast
  have same: "uc_hook uc1 = uc_hook uc"
  proof (cases "h_callback h = HOOK_COUNT_CB")
    case True
    then show ?thesis using h(3) Cons.prems(1)
      by (auto simp: run_code_callback_def hook_count_cb_def hook_inv_def Let_def uc_emu_stop_def upd_cpu_def split: if_splits)
  next
    case False
    then show ?thesis using h(3) kept Cons.prems(1) by (auto simp: run_code_callback_def)
  qed
  obtain xs where xs: "list_rep (uc_hook uc i) (xs @ p # ps)" using cursor_list [OF Cons.prems(2)] by blast
  have "p \<notin> set xs" using hook_inv_list(1) [OF Cons.prems(1) i xs] by simp
  moreover have "\<exists>uc'. hook_run env sz fl address i ps uc1 uc'" using Cons.IH [of uc1] h(2,4) same by metis
  moreover have "\<exists>uc'. hook_run env sz fl address i ps uc uc'" using Cons.IH [OF Cons.prems(1) h(2)] .
  ultimately show ?case
    using hook_run.skipped [OF h(1)] hook_run.stopped [OF h(1) _ h(3)] hook_run.called [OF h(1) _ h(3)] xs same by metis
qed (blast intro: hook_run.finished)

text \<open>With callbacks that leave the hooks alone, it is known beforehand which of them run.\<close>

fun run_callbacks :: "'c uc_env \<Rightarrow> u32 \<Rightarrow> u32 \<Rightarrow> u64 \<Rightarrow> hook list \<Rightarrow> 'c uc_struct \<Rightarrow> 'c uc_struct option" where
  "run_callbacks env sz fl address [] uc = Some uc"
| "run_callbacks env sz fl address (h # hs) uc = do {
     uc \<leftarrow> run_code_callback env h address sz uc;
     if stopping fl uc then Some uc else run_callbacks env sz fl address hs uc }"

definition callback_frame :: "'c uc_env \<Rightarrow> bool" where
  "callback_frame env \<longleftrightarrow> (\<forall>cb a args sz u uc. let uc' = env_callback env cb a args sz u uc in
    uc_hook uc' = uc_hook uc \<and> hook_heap uc' = hook_heap uc \<and> uc_init_done uc' = uc_init_done uc)"

lemma run_code_callback_frame:
  assumes "callback_frame env" "uc_init_done uc"
  shows "\<exists>uc'. run_code_callback env h address sz uc = Some uc' \<and>
    uc_hook uc' = uc_hook uc \<and> hook_heap uc' = hook_heap uc \<and> uc_init_done uc'"
  using assms
  by (auto simp: run_code_callback_def hook_count_cb_def callback_frame_def Let_def uc_emu_stop_def upd_cpu_def)

lemma tracecode_loop_run:
  assumes "callback_frame env" "sz \<noteq> 0"
  shows "uc_init_done uc \<Longrightarrow> lpath (l_nodes (uc_hook uc index)) cur ns xs None \<Longrightarrow>
    \<forall>p \<in> set xs. hook_heap uc p \<noteq> None \<Longrightarrow> \<not> stopping fl uc \<Longrightarrow>
    tracecode_loop env sz index fl address cur uc =
      run_callbacks env sz fl address (filter (hook_live_at address) (map (\<lambda>p. the (hook_heap uc p)) xs)) uc"
proof (induction ns arbitrary: cur xs uc)
  case Nil
  then show ?case by (subst tracecode_loop.simps) simp
next
  case (Cons n ns)
  from Cons.prems(2) obtain x xs' it where x: "xs = x # xs'" "cur = Some n" "l_nodes (uc_hook uc index) n = Some it"
    "li_data it = x" "lpath (l_nodes (uc_hook uc index)) (li_next it) ns xs' None"
    by (cases xs) (auto split: option.splits)
  obtain h where h: "hook_heap uc x = Some h" using Cons.prems(3) x(1) by auto
  have IH: "tracecode_loop env sz index fl address (li_next it) v =
      run_callbacks env sz fl address (filter (hook_live_at address) (map (\<lambda>p. the (hook_heap uc p)) xs')) v"
    if "uc_hook v = uc_hook uc" "hook_heap v = hook_heap uc" "uc_init_done v" "\<not> stopping fl v" for v
    using Cons.IH [of v "li_next it" xs'] that x(1,5) Cons.prems(3) by simp
  show ?case
  proof (cases "hook_live_at address h")
    case False
    then have "tracecode_loop env sz index fl address cur uc = tracecode_loop env sz index fl address (li_next it) uc"
      using x h assms(2) Cons.prems(4) by (subst tracecode_loop.simps) (auto simp: live_bound_check stopping_def)
    then show ?thesis using IH [of uc] Cons.prems(1,4) False x(1) h by simp
  next
    case True
    from run_code_callback_frame [OF assms(1) Cons.prems(1), of h address sz] obtain v where
      v: "run_code_callback env h address sz uc = Some v" "uc_hook v = uc_hook uc" "hook_heap v = hook_heap uc" "uc_init_done v"
      by blast
    then have "tracecode_loop env sz index fl address cur uc =
        (if stopping fl v then Some v else tracecode_loop env sz index fl address (li_next it) v)"
      using x h assms(2) True by (subst tracecode_loop.simps) (auto simp: live_bound_check stopping_def)
    then show ?thesis using IH [of v] v True x(1) h by simp
  qed
qed

text \<open>
  C22: for an instruction, \<^verbatim>\<open>helper_uc_tracecode\<close> walks the hooks of its list as \<^const>\<open>hook_run\<close> describes,
  also when the callbacks add and delete hooks themselves: it skips the deleted hooks and those whose
  range does not cover the address, runs the others in the order of the list, hooks that a callback
  has appended included, and stops after the first that requests it. It returns if no callback adds a
  hook. If the callbacks leave the hooks alone, exactly the live hooks of the list that cover the address
  run, in order, up to the first request to stop.
\<close>

theorem trace_code_correct:
  fixes uc :: "'c uc_struct"
  assumes st: "hook_state uc L D" and init: "uc_init_done uc" and env: "client_callbacks env" and sz: "sz \<noteq> 0"
    and i: "unat (index AND UC_HOOK_IDX_MASK) < UC_HOOK_MAX"
  shows "let i = unat (index AND UC_HOOK_IDX_MASK); fl = index AND UC_HOOK_FLAG_MASK in
    (\<forall>uc'. helper_uc_tracecode env sz index address uc = Some uc' \<longleftrightarrow>
      (if stopping fl uc then uc' = uc else hook_run env sz fl address i (L i) uc uc')) \<and>
    ((\<forall>cb a args s u v. hook_inv v \<longrightarrow> uc_hook (env_callback env cb a args s u v) = uc_hook v) \<longrightarrow>
      (\<exists>uc'. helper_uc_tracecode env sz index address uc = Some uc')) \<and>
    (callback_frame env \<longrightarrow> helper_uc_tracecode env sz index address uc =
      (if stopping fl uc then Some uc
       else run_callbacks env sz fl address (filter (hook_live_at address) (map (\<lambda>p. the (hook_heap uc p)) (L i))) uc))"
proof -
  define j where "j = unat (index AND UC_HOOK_IDX_MASK)"
  define fl where "fl = index AND UC_HOOK_FLAG_MASK"
  have inv: "hook_inv uc" using st init by (auto simp: hook_inv_def)
  have l: "list_rep (uc_hook uc j) (L j)" using st i by (simp add: hook_state_def hook_lists_def j_def)
  have j: "j < UC_HOOK_MAX" using i by (simp add: j_def)
  note cur = cursor_head [OF l]
  have helper: "helper_uc_tracecode env sz index address uc =
      (if stopping fl uc then Some uc else tracecode_loop env sz j fl address (l_head (uc_hook uc j)) uc)"
    by (simp add: helper_uc_tracecode_def stopping_def j_def fl_def Let_def)
  have run: "tracecode_loop env sz j fl address (l_head (uc_hook uc j)) uc = Some uc' \<longleftrightarrow>
      hook_run env sz fl address j (L j) uc uc'" if "\<not> stopping fl uc" for uc'
    using hook_run_loop [OF env sz j _ inv cur that] loop_hook_run [OF env sz j _ inv cur that] by blast
  have ret: "\<exists>uc'. helper_uc_tracecode env sz index address uc = Some uc'"
    if "\<forall>cb a args s u v. hook_inv v \<longrightarrow> uc_hook (env_callback env cb a args s u v) = uc_hook v"
    using hook_run_exists [OF env that j inv cur, of sz fl address] run unfolding helper by auto
  obtain ns where "lpath (l_nodes (uc_hook uc j)) (l_head (uc_hook uc j)) ns (L j) None"
    using l by (auto simp: list_rep_def list_nodes_def)
  moreover have "\<forall>p \<in> set (L j). hook_heap uc p \<noteq> None" using hook_inv_list(2) [OF inv j l] by auto
  ultimately have frame: "callback_frame env \<longrightarrow> helper_uc_tracecode env sz index address uc =
      (if stopping fl uc then Some uc
       else run_callbacks env sz fl address (filter (hook_live_at address) (map (\<lambda>p. the (hook_heap uc p)) (L j))) uc)"
    using tracecode_loop_run [of env sz uc j] init sz unfolding helper by simp
  show ?thesis
    unfolding Let_def j_def [symmetric] fl_def [symmetric] using run ret frame unfolding helper by auto
qed

text \<open>A callback that deletes its own hook.\<close>

definition deleting_env :: "unit uc_env" where
  "deleting_env = plain_env\<lparr>env_callback := (\<lambda>cb a args sz u uc. snd (the (uc_hook_del plain_env 1 uc)))\<rparr>"

lemma deleting_env_del: "uc_init_done uc \<Longrightarrow> uc_hook_del deleting_env p uc = uc_hook_del plain_env p uc"
proof -
  have "env_invalidate_tb deleting_env = env_invalidate_tb plain_env" "env_new_item deleting_env = env_new_item plain_env"
    by (simp_all add: deleting_env_def)
  then have "hook_unlink deleting_env p = hook_unlink plain_env p"
    unfolding hook_unlink_def hook_append_def hook_invalidate_region_def by (simp only:)
  then show "uc_init_done uc \<Longrightarrow> uc_hook_del deleting_env p uc = uc_hook_del plain_env p uc"
    by (simp add: uc_hook_del_def)
qed

lemma deleting_env_del_ok:
  assumes "hook_inv (uc :: unit uc_struct)"
  shows "\<exists>uc'. uc_hook_del plain_env 1 uc = Some (UC_ERR_OK, uc') \<and> uc_hook uc' = uc_hook uc"
proof -
  from assms obtain L D where st: "hook_state uc L D" and init: "uc_init_done uc" by (auto simp: hook_inv_def)
  show ?thesis
  proof (cases "hook_heap uc 1")
    case None
    then show ?thesis using uc_hook_del_unknown [OF st init] by auto
  next
    case (Some h)
    then show ?thesis using uc_hook_del_ok [OF plain_hook_env(1,2) st init] by blast
  qed
qed

lemma deleting_env_ok: "client_callbacks deleting_env"
  "hook_inv uc \<Longrightarrow> uc_hook (env_callback deleting_env cb a args sz u uc) = uc_hook uc"
proof -
  have "client_step deleting_env uc (env_callback deleting_env cb a args sz u uc)" if "hook_inv uc" for cb a args sz u uc
  proof -
    have "uc_init_done uc" using that by (simp add: hook_inv_def)
    then have "hook_step deleting_env (DelHook 1) uc = Some (env_callback deleting_env cb a args sz u uc)"
      using deleting_env_del_ok [OF that] by (auto simp: deleting_env_del, simp add: deleting_env_def)
    then show ?thesis by (rule client_step.delete)
  qed
  moreover have "tb_frame deleting_env" "item_alloc deleting_env" "hook_alloc deleting_env"
    using plain_hook_env by (simp_all add: deleting_env_def tb_frame_def item_alloc_def hook_alloc_def)
  ultimately show "client_callbacks deleting_env" by (simp add: client_callbacks_def r_into_rtranclp)
  show "uc_hook (env_callback deleting_env cb a args sz u uc) = uc_hook uc" if "hook_inv uc"
    using deleting_env_del_ok [OF that] by (auto simp: deleting_env_def)
qed

theorem trace_code_correct_witness:
  "\<exists>uc uc' :: unit uc_struct. hook_state uc (\<lambda>i. if i = 2 \<or> i = 3 then [1] else []) [] \<and> \<not> stop_request uc \<and>
    helper_uc_tracecode deleting_env 4 2 100 uc = Some uc' \<and> hook_run deleting_env 4 0 100 2 [1] uc uc'"
proof -
  obtain uc :: "unit uc_struct" and h where uc: "uc_init_done uc" "hook_state uc (\<lambda>i. if i = 2 \<or> i = 3 then [1] else []) []"
    "hook_heap uc 1 = Some h" by (rule demo_hook_added) blast
  define v where "v = uc\<lparr>stop_request := False\<rparr>"
  have v: "uc_init_done v" "hook_state v (\<lambda>i. if i = 2 \<or> i = 3 then [1] else []) []" "\<not> stop_request v"
    using uc by (simp_all add: v_def hook_state_def)
  have m: "unat (2 AND UC_HOOK_IDX_MASK) = 2" "2 AND UC_HOOK_FLAG_MASK = (0 :: u32)" "2 < UC_HOOK_MAX"
    by (simp_all add: UC_HOOK_IDX_MASK_def UC_HOOK_FLAG_MASK_def UC_HOOK_MAX_def)
  from trace_code_correct [OF v(2,1) deleting_env_ok(1), of 4 2 100] deleting_env_ok(2) v(3)
  have "(\<exists>uc'. helper_uc_tracecode deleting_env 4 2 100 v = Some uc') \<and>
    (\<forall>uc'. helper_uc_tracecode deleting_env 4 2 100 v = Some uc' \<longleftrightarrow> hook_run deleting_env 4 0 100 2 [1] v uc')"
    by (auto simp: m stopping_def Let_def)
  then show ?thesis using v(2,3) by blast
qed

end
