(* ===== verification/CpuExec.thy ===== *)
theory CpuExec
  imports UcHooks
begin

text \<open>
  The execution loop: \<^verbatim>\<open>qemu/accel/tcg/cpu-exec.c\<close>, \<^verbatim>\<open>qemu/softmmu/cpus.c\<close> and \<^verbatim>\<open>qemu/hw/core/cpu.c\<close>.
  Finding, translating and executing a block of guest code are parameters of the environment; the
  model has the handling of exceptions, interrupts and exit requests around them. The CPU of the
  engine is \<^verbatim>\<open>uc->cpu\<close>; a missing CPU and a loop that does not end are \<^const>\<open>None\<close>.
\<close>

section \<open>Constants\<close>

definition EXCP_INTERRUPT :: int where "EXCP_INTERRUPT = 0x10000"
definition EXCP_HLT :: int where "EXCP_HLT = 0x10001"
definition EXCP_DEBUG :: int where "EXCP_DEBUG = 0x10002"
definition EXCP_HALTED :: int where "EXCP_HALTED = 0x10003"

definition CPU_INTERRUPT_EXITTB :: u32 where "CPU_INTERRUPT_EXITTB = 4"
definition CPU_INTERRUPT_DEBUG :: u32 where "CPU_INTERRUPT_DEBUG = 0x80"
definition CPU_INTERRUPT_RESET :: u32 where "CPU_INTERRUPT_RESET = 0x400"

definition UC_HOOK_INTR_IDX :: nat where "UC_HOOK_INTR_IDX = 0"
definition UC_HOOK_INSN_INVALID_IDX :: nat where "UC_HOOK_INSN_INVALID_IDX = 14"

section \<open>The CPU\<close>

definition cpu_resume :: "'c CPUState \<Rightarrow> 'c CPUState" where
  "cpu_resume cpu = cpu\<lparr>cpu_stop := False, cpu_stopped := False\<rparr>"

definition cpu_stop_uc :: "'c uc_struct \<Rightarrow> 'c uc_struct" where
  "cpu_stop_uc = upd_cpu (\<lambda>cpu. cpu_exit (cpu\<lparr>cpu_stop := False, cpu_stopped := True\<rparr>))"

definition cpu_is_stopped :: "'c CPUState \<Rightarrow> bool" where
  "cpu_is_stopped cpu = cpu_stopped cpu"

definition cpu_can_run :: "'c CPUState \<Rightarrow> bool" where
  "cpu_can_run cpu = (if cpu_stop cpu then False else if cpu_is_stopped cpu then False else True)"

definition cpu_handle_guest_debug :: "'c CPUState \<Rightarrow> 'c CPUState" where
  "cpu_handle_guest_debug cpu = cpu\<lparr>cpu_stopped := True\<rparr>"

definition qemu_init_vcpu :: "'c CPUState \<Rightarrow> 'c CPUState" where
  "qemu_init_vcpu cpu = cpu\<lparr>cpu_stopped := True, cpu_created := True\<rparr>"

section \<open>Exceptions\<close>

definition cpu_handle_halt :: "'c uc_env \<Rightarrow> 'c CPUState \<Rightarrow> bool \<times> 'c CPUState" where
  "cpu_handle_halt env cpu =
    (if cpu_halted cpu then
       if \<not> env_has_work env cpu then (True, cpu) else (False, cpu\<lparr>cpu_halted := False\<rparr>)
     else (False, cpu))"

text \<open>The callbacks for an invalid instruction, until one handles it.\<close>

partial_function (option) insn_invalid_loop ::
  "'c uc_env \<Rightarrow> nat option \<Rightarrow> 'c uc_struct \<Rightarrow> (bool \<times> 'c uc_struct) option" where
  [code]: "insn_invalid_loop env cur uc =
    (case cur of
       None \<Rightarrow> Some (False, uc)
     | Some c \<Rightarrow>
         (case l_nodes (uc_hook uc UC_HOOK_INSN_INVALID_IDX) c of
            None \<Rightarrow> None
          | Some it \<Rightarrow>
              (case hook_heap uc (li_data it) of
                 None \<Rightarrow> None
               | Some h \<Rightarrow>
                   if h_to_delete h then insn_invalid_loop env (li_next it) uc
                   else
                     let (catched, uc) = env_insn_invalid_cb env (h_callback h) (h_user_data h) uc in
                     if catched then Some (True, uc)
                     else
                       (case l_nodes (uc_hook uc UC_HOOK_INSN_INVALID_IDX) c of
                          None \<Rightarrow> None
                        | Some it \<Rightarrow> insn_invalid_loop env (li_next it) uc))))"

text \<open>The callbacks for an interrupt: all of them run.\<close>

partial_function (option) intr_loop ::
  "'c uc_env \<Rightarrow> bool \<Rightarrow> nat option \<Rightarrow> 'c uc_struct \<Rightarrow> (bool \<times> 'c uc_struct) option" where
  [code]: "intr_loop env catched cur uc =
    (case cur of
       None \<Rightarrow> Some (catched, uc)
     | Some c \<Rightarrow>
         (case l_nodes (uc_hook uc UC_HOOK_INTR_IDX) c of
            None \<Rightarrow> None
          | Some it \<Rightarrow>
              (case hook_heap uc (li_data it) of
                 None \<Rightarrow> None
               | Some h \<Rightarrow>
                   if h_to_delete h then intr_loop env catched (li_next it) uc
                   else
                     (case uc_cpu uc of
                        None \<Rightarrow> None
                      | Some cpu \<Rightarrow>
                          let uc = env_callback env (h_callback h)
                            (word_of_int (cpu_exception_index cpu)) [] 0 (h_user_data h) uc in
                          (case l_nodes (uc_hook uc UC_HOOK_INTR_IDX) c of
                             None \<Rightarrow> None
                           | Some it \<Rightarrow> intr_loop env True (li_next it) uc)))))"

text \<open>The exceptions that the ARM target takes as invalid instructions.\<close>

definition EXCP_UDEF :: int where "EXCP_UDEF = 1"
definition EXCP_YIELD :: int where "EXCP_YIELD = 0x10004"
definition EXCP_INVSTATE :: int where "EXCP_INVSTATE = 18"

definition arm_stop_interrupt :: "'c uc_struct \<Rightarrow> int \<Rightarrow> bool \<times> 'c uc_struct" where
  "arm_stop_interrupt uc intno =
    (if intno = EXCP_UDEF \<or> intno = EXCP_YIELD then (True, uc)
     else if intno = EXCP_INVSTATE then (True, uc\<lparr>invalid_error := UC_ERR_EXCEPTION\<rparr>)
     else (False, uc))"

text \<open>
  \<^verbatim>\<open>cpu_handle_exception\<close>: the first component says whether the loop ends, and the second is then its
  result.
\<close>

definition cpu_handle_exception :: "'c uc_env \<Rightarrow> 'c uc_struct \<Rightarrow> (bool \<times> int \<times> 'c uc_struct) option" where
  "cpu_handle_exception env uc = do {
     cpu \<leftarrow> uc_cpu uc;
     let (stop, uc) = (case env_stop_interrupt env of
         None \<Rightarrow> (False, uc)
       | Some f \<Rightarrow> f uc (cpu_exception_index cpu));
     cpu \<leftarrow> uc_cpu uc;
     let index = cpu_exception_index cpu;
     if stop then do {
       (catched, uc) \<leftarrow> insn_invalid_loop env (l_head (uc_hook uc UC_HOOK_INSN_INVALID_IDX)) uc;
       Some (True, EXCP_HLT, if \<not> catched then uc\<lparr>invalid_error := UC_ERR_INSN_INVALID\<rparr> else uc) }
     else if index < 0 then Some (False, EXCP_INTERRUPT, uc)
     else if EXCP_INTERRUPT \<le> index then do {
       let uc = (if index = EXCP_DEBUG then env_debug_excp_handler env uc else uc);
       Some (True, index, upd_cpu (\<lambda>cpu. cpu\<lparr>cpu_exception_index := -1\<rparr>) uc) }
     else do {
       let uc = env_intr_fixup env uc;
       (catched, uc) \<leftarrow> intr_loop env False (l_head (uc_hook uc UC_HOOK_INTR_IDX)) uc;
       if \<not> catched
       then Some (True, EXCP_HLT,
         upd_cpu (\<lambda>cpu. cpu\<lparr>cpu_halted := True\<rparr>) (uc\<lparr>invalid_error := UC_ERR_EXCEPTION\<rparr>))
       else Some (False, EXCP_INTERRUPT, upd_cpu (\<lambda>cpu. cpu\<lparr>cpu_exception_index := -1\<rparr>) uc) } }"

section \<open>Interrupts and exit requests\<close>

text \<open>
  The part of \<^verbatim>\<open>cpu_handle_interrupt\<close> for a pending request, without single stepping: \<^const>\<open>True\<close> if it
  ends the loop.
\<close>

definition handle_interrupt_request :: "'c uc_env \<Rightarrow> 'c CPUState \<Rightarrow> 'c uc_struct \<Rightarrow> bool \<times> 'c uc_struct" where
  "handle_interrupt_request env cpu uc =
    (let req = cpu_interrupt_request cpu in
     if req AND CPU_INTERRUPT_DEBUG \<noteq> 0
     then (True, upd_cpu (\<lambda>cpu. cpu\<lparr>cpu_interrupt_request := cpu_interrupt_request cpu AND NOT CPU_INTERRUPT_DEBUG,
       cpu_exception_index := EXCP_DEBUG\<rparr>) uc)
     else if req AND CPU_INTERRUPT_RESET \<noteq> 0 then (True, env_cpu_reset env uc)
     else
       let (handled, uc) = env_cpu_exec_interrupt env req uc;
           uc = (if handled then upd_cpu (\<lambda>cpu. cpu\<lparr>cpu_exception_index := -1\<rparr>) uc else uc) in
       (False, upd_cpu (\<lambda>cpu. if cpu_interrupt_request cpu AND CPU_INTERRUPT_EXITTB \<noteq> 0
         then cpu\<lparr>cpu_interrupt_request := cpu_interrupt_request cpu AND NOT CPU_INTERRUPT_EXITTB\<rparr> else cpu) uc))"

definition cpu_handle_interrupt :: "'c uc_env \<Rightarrow> 'c uc_struct \<Rightarrow> (bool \<times> 'c uc_struct) option" where
  "cpu_handle_interrupt env uc = do {
     let uc = upd_cpu (\<lambda>cpu. cpu\<lparr>cpu_icount_decr_high := 0\<rparr>) uc;
     cpu \<leftarrow> uc_cpu uc;
     let (leave, uc) = (if cpu_interrupt_request cpu \<noteq> 0 then handle_interrupt_request env cpu uc
       else (False, uc));
     if leave then Some (True, uc)
     else do {
       cpu \<leftarrow> uc_cpu uc;
       if cpu_exit_request cpu
       then Some (True, upd_cpu (\<lambda>cpu. cpu\<lparr>cpu_exit_request := False,
         cpu_exception_index :=
           (if cpu_exception_index cpu = -1 then EXCP_INTERRUPT else cpu_exception_index cpu)\<rparr>) uc)
       else Some (False, uc) } }"

section \<open>The loops\<close>

text \<open>
  The two nested loops of \<^verbatim>\<open>cpu_exec\<close>: \<^term>\<open>inner\<close> says which one is about to test its condition. A
  \<^verbatim>\<open>siglongjmp\<close> comes back before the outer loop.
\<close>

partial_function (option) cpu_exec_loop :: "'c uc_env \<Rightarrow> bool \<Rightarrow> 'c uc_struct \<Rightarrow> (int \<times> 'c uc_struct) option" where
  [code]: "cpu_exec_loop env inner uc =
    (if \<not> inner then
       (case cpu_handle_exception env uc of
          None \<Rightarrow> None
        | Some (done, ret, uc) \<Rightarrow> if done then Some (ret, uc) else cpu_exec_loop env True uc)
     else
       (case cpu_handle_interrupt env uc of
          None \<Rightarrow> None
        | Some (leave, uc) \<Rightarrow>
            if leave then cpu_exec_loop env False uc
            else
              (case env_tb_find env uc of
                 (TbLongjmp, uc) \<Rightarrow> cpu_exec_loop env False uc
               | (TbReturn, uc) \<Rightarrow>
                   (case uc_cpu uc of
                      None \<Rightarrow> None
                    | Some cpu \<Rightarrow>
                        if cpu_exit_request cpu then cpu_exec_loop env True uc
                        else
                          (case env_tb_exec env uc of
                             (TbLongjmp, uc) \<Rightarrow> cpu_exec_loop env False uc
                           | (TbReturn, uc) \<Rightarrow> cpu_exec_loop env True uc)))))"

definition cpu_exec :: "'c uc_env \<Rightarrow> 'c uc_struct \<Rightarrow> (int \<times> 'c uc_struct) option" where
  "cpu_exec env uc = do {
     cpu \<leftarrow> uc_cpu uc;
     let (halt, cpu) = cpu_handle_halt env cpu;
     let uc = uc\<lparr>uc_cpu := Some cpu\<rparr>;
     if halt then Some (EXCP_HALTED, uc)
     else do {
       let uc = upd_cpu (\<lambda>cpu. cpu\<lparr>cpu_arch := env_cpu_exec_enter env (cpu_arch cpu)\<rparr>) uc;
       (ret, uc) \<leftarrow> cpu_exec_loop env False uc;
       Some (ret, upd_cpu (\<lambda>cpu. cpu\<lparr>cpu_tcg_exit_req := False,
         cpu_arch := env_cpu_exec_exit env (cpu_arch cpu)\<rparr>) uc) } }"

text \<open>\<^verbatim>\<open>tcg_cpu_exec\<close>: the loop, and the resets after it.\<close>

partial_function (option) tcg_cpu_exec_loop :: "'c uc_env \<Rightarrow> 'c uc_struct \<Rightarrow> (bool \<times> 'c uc_struct) option" where
  [code]: "tcg_cpu_exec_loop env uc =
    (if uc_exit_request uc then Some (False, uc)
     else
       (case uc_cpu uc of
          None \<Rightarrow> None
        | Some cpu \<Rightarrow>
            if cpu_can_run cpu then
              (case cpu_exec env (uc\<lparr>quit_request := False\<rparr>) of
                 None \<Rightarrow> None
               | Some (r, uc) \<Rightarrow>
                   let stopping = (\<not> quit_request uc \<and> stop_request uc);
                       uc = (if quit_request uc
                         then upd_cpu (\<lambda>cpu. cpu_resume (cpu\<lparr>cpu_halted := False, cpu_exit_request := False,
                             cpu_exception_index := -1\<rparr>)) (uc\<lparr>stop_request := False\<rparr>)
                         else uc) in
                   if stopping then Some (True, uc)
                   else if invalid_error uc \<noteq> UC_ERR_OK then Some (True, uc)
                   else if r = EXCP_DEBUG then Some (False, upd_cpu cpu_handle_guest_debug uc)
                   else if r = EXCP_HLT then Some (True, uc)
                   else tcg_cpu_exec_loop env uc)
            else if cpu_stop cpu \<or> cpu_stopped cpu then Some (False, uc)
            else tcg_cpu_exec_loop env uc))"

definition tcg_cpu_exec :: "'c uc_env \<Rightarrow> 'c uc_struct \<Rightarrow> (bool \<times> 'c uc_struct) option" where
  "tcg_cpu_exec env uc = do {
     (finish, uc) \<leftarrow> tcg_cpu_exec_loop env uc;
     Some (finish, upd_cpu (\<lambda>cpu. cpu\<lparr>cpu_exit_request := False, cpu_icount_decr_high := 0,
       cpu_tcg_exit_req := False\<rparr>) (uc\<lparr>uc_exit_request := False\<rparr>)) }"

partial_function (option) vcpu_loop :: "'c uc_env \<Rightarrow> 'c uc_struct \<Rightarrow> 'c uc_struct option" where
  [code]: "vcpu_loop env uc =
    (case tcg_cpu_exec env uc of
       None \<Rightarrow> None
     | Some (finish, uc) \<Rightarrow> if finish then Some uc else vcpu_loop env uc)"

definition uc_exit_invalidate_iter :: "'c uc_env \<Rightarrow> u64 \<Rightarrow> 'c uc_struct \<Rightarrow> 'c uc_struct" where
  "uc_exit_invalidate_iter env ex uc = (if ex \<noteq> 0 then env_invalidate_tb env (ex - 1) 1 uc else uc)"

definition resume_all_vcpus :: "'c uc_env \<Rightarrow> 'c uc_struct \<Rightarrow> 'c uc_struct option" where
  "resume_all_vcpus env uc = do {
     let uc = upd_cpu (\<lambda>cpu. (cpu_resume (cpu\<lparr>cpu_halted := False, cpu_exit_request := False,
       cpu_exception_index := -1\<rparr>))\<lparr>cpu_created := True\<rparr>) uc;
     uc \<leftarrow> vcpu_loop env uc;
     uc \<leftarrow> (if use_exits uc
       then g_tree_foreach (ctl_exits uc) (\<lambda>key val uc. Some (uc_exit_invalidate_iter env key uc, False)) uc
       else Some (uc_exit_invalidate_iter env (uc_exits uc (nested_level uc - 1)) uc));
     Some (upd_cpu (\<lambda>cpu. cpu\<lparr>cpu_created := False\<rparr>) uc) }"

definition vm_start :: "'c uc_env \<Rightarrow> 'c uc_struct \<Rightarrow> 'c uc_struct option" where
  "vm_start env uc = resume_all_vcpus env uc"

end
