(* ===== verification/ExecInv.thy ===== *)
theory ExecInv
  imports CpuExec HookInv
begin

text \<open>
  The execution loop as a machine that takes one step per iteration, and what follows for requests to
  stop and for exceptions: after \<^verbatim>\<open>uc_emu_stop\<close> no further block of guest code runs and the emulation ends,
  no block runs while an exit or an exception is pending, and an exception ends the emulation exactly if no
  live hook takes it.
\<close>

section \<open>Steps of the loop\<close>

text \<open>A configuration says which of the two nested loops is about to test its condition.\<close>

inductive exec_step :: "'c uc_env \<Rightarrow> bool \<times> 'c uc_struct \<Rightarrow> bool \<times> 'c uc_struct \<Rightarrow> bool" for env where
  no_exception: "cpu_handle_exception env uc = Some (False, ret, uc') \<Longrightarrow> exec_step env (False, uc) (True, uc')"
| interrupted: "cpu_handle_interrupt env uc = Some (True, uc') \<Longrightarrow> exec_step env (True, uc) (False, uc')"
| find_jump: "cpu_handle_interrupt env uc = Some (False, uc1) \<Longrightarrow> env_tb_find env uc1 = (TbLongjmp, uc') \<Longrightarrow>
    exec_step env (True, uc) (False, uc')"
| exit_requested: "cpu_handle_interrupt env uc = Some (False, uc1) \<Longrightarrow> env_tb_find env uc1 = (TbReturn, uc') \<Longrightarrow>
    uc_cpu uc' = Some cpu \<Longrightarrow> cpu_exit_request cpu \<Longrightarrow> exec_step env (True, uc) (True, uc')"
| block_jump: "cpu_handle_interrupt env uc = Some (False, uc1) \<Longrightarrow> env_tb_find env uc1 = (TbReturn, uc2) \<Longrightarrow>
    uc_cpu uc2 = Some cpu \<Longrightarrow> \<not> cpu_exit_request cpu \<Longrightarrow> env_tb_exec env uc2 = (TbLongjmp, uc') \<Longrightarrow>
    exec_step env (True, uc) (False, uc')"
| block: "cpu_handle_interrupt env uc = Some (False, uc1) \<Longrightarrow> env_tb_find env uc1 = (TbReturn, uc2) \<Longrightarrow>
    uc_cpu uc2 = Some cpu \<Longrightarrow> \<not> cpu_exit_request cpu \<Longrightarrow> env_tb_exec env uc2 = (TbReturn, uc') \<Longrightarrow>
    exec_step env (True, uc) (True, uc')"

inductive_cases exec_step_outer: "exec_step env (False, uc) c"
inductive_cases exec_step_inner: "exec_step env (True, uc) c"

text \<open>The loop leaves through the handling of an exception only.\<close>

definition exec_result :: "'c uc_env \<Rightarrow> bool \<times> 'c uc_struct \<Rightarrow> int \<times> 'c uc_struct \<Rightarrow> bool" where
  "exec_result env c r \<longleftrightarrow> \<not> fst c \<and> cpu_handle_exception env (snd c) = Some (True, fst r, snd r)"

lemma exec_step_loop: "exec_step env c c' \<Longrightarrow> cpu_exec_loop env (fst c) (snd c) = cpu_exec_loop env (fst c') (snd c')"
  by (induction rule: exec_step.induct; subst cpu_exec_loop.simps; simp)

lemma exec_steps_loop: "(exec_step env)\<^sup>*\<^sup>* c c' \<Longrightarrow> cpu_exec_loop env (fst c) (snd c) = cpu_exec_loop env (fst c') (snd c')"
  by (induction rule: rtranclp_induct) (simp_all add: exec_step_loop)

lemma exec_result_loop: "exec_result env c r \<Longrightarrow> cpu_exec_loop env (fst c) (snd c) = Some r"
  by (subst cpu_exec_loop.simps) (simp add: exec_result_def)

lemma cpu_exec_loop_reaches:
  assumes "cpu_exec_loop env inner uc = Some r"
  shows "\<exists>c. (exec_step env)\<^sup>*\<^sup>* (inner, uc) c \<and> exec_result env c r"
proof (rule cpu_exec_loop.raw_induct [OF _ assms, where P = "\<lambda>env inner uc r. \<exists>c. (exec_step env)\<^sup>*\<^sup>* (inner, uc) c \<and> exec_result env c r"], goal_cases)
  case (1 f env inner uc r)
  have go: "\<exists>c. (exec_step env)\<^sup>*\<^sup>* (inner, uc) c \<and> exec_result env c r"
    if "exec_step env (inner, uc) (i, v)" "f env i v = Some r" for i v
    using 1(1) [OF that(2)] that(1) by (meson converse_rtranclp_into_rtranclp)
  show ?case
  proof (cases inner)
    case False
    from 1(2) False obtain leave ret v where e: "cpu_handle_exception env uc = Some (leave, ret, v)"
      "if leave then r = (ret, v) else f env True v = Some r"
      by (auto split: option.splits if_splits)
    show ?thesis
    proof (cases leave)
      case True
      with e False show ?thesis by (intro exI [of _ "(inner, uc)"]) (auto simp: exec_result_def)
    next
      case False
      with e go exec_step.no_exception [of env uc ret v] \<open>\<not> inner\<close> show ?thesis by auto
    qed
  next
    case True
    from 1(2) True obtain leave v where i: "cpu_handle_interrupt env uc = Some (leave, v)"
      by (auto split: option.splits)
    show ?thesis
    proof (cases leave)
      case True
      with i 1(2) \<open>inner\<close> go exec_step.interrupted [of env uc v] show ?thesis by auto
    next
      case False
      obtain o1 v1 where o1: "env_tb_find env v = (o1, v1)" by fastforce
      obtain o2 v2 where o2: "env_tb_exec env v1 = (o2, v2)" by fastforce
      note steps = exec_step.find_jump [of env uc v v1] exec_step.exit_requested [of env uc v v1]
        exec_step.block_jump [of env uc v v1 _ v2] exec_step.block [of env uc v v1 _ v2]
      show ?thesis
        using 1(2) True False i o1 o2 go steps
        by (cases o1; cases o2) (auto split: option.splits if_splits)
    qed
  qed
qed

section \<open>Stopping\<close>

text \<open>What the target promises: the internal exceptions of the loop are not its invalid instructions.\<close>

definition internal_not_invalid :: "'c uc_env \<Rightarrow> bool" where
  "internal_not_invalid env \<longleftrightarrow>
    (case env_stop_interrupt env of None \<Rightarrow> True | Some f \<Rightarrow> \<forall>uc. f uc EXCP_INTERRUPT = (False, uc))"

lemma arm_internal_not_invalid: "internal_not_invalid (env\<lparr>env_stop_interrupt := Some arm_stop_interrupt\<rparr>)"
  by (simp add: internal_not_invalid_def arm_stop_interrupt_def EXCP_INTERRUPT_def EXCP_UDEF_def EXCP_YIELD_def EXCP_INVSTATE_def)

text \<open>
  The error that \<^verbatim>\<open>arm_stop_interrupt\<close> chooses for an invalid state does not survive: without a hook for
  invalid instructions \<^verbatim>\<open>cpu_handle_exception\<close> overwrites it.
\<close>

lemma arm_invalid_state_error:
  assumes "uc_cpu uc = Some cpu" "cpu_exception_index cpu = EXCP_INVSTATE" "l_head (uc_hook uc UC_HOOK_INSN_INVALID_IDX) = None"
  shows "invalid_error (snd (arm_stop_interrupt uc EXCP_INVSTATE)) = UC_ERR_EXCEPTION"
    and "\<exists>uc'. cpu_handle_exception (env\<lparr>env_stop_interrupt := Some arm_stop_interrupt\<rparr>) uc = Some (True, EXCP_HLT, uc') \<and>
      invalid_error uc' = UC_ERR_INSN_INVALID"
  using assms
  by (simp_all add: arm_stop_interrupt_def EXCP_UDEF_def EXCP_YIELD_def EXCP_INVSTATE_def cpu_handle_exception_def
      insn_invalid_loop.simps)

definition stop_pending :: "'c uc_struct \<Rightarrow> bool" where
  "stop_pending uc \<longleftrightarrow>
    (case uc_cpu uc of
       None \<Rightarrow> False
     | Some cpu \<Rightarrow> cpu_exit_request cpu \<and> cpu_interrupt_request cpu = 0 \<and> cpu_exception_index cpu = -1)"

definition after_stop :: "'c uc_struct \<Rightarrow> 'c uc_struct" where
  "after_stop = upd_cpu (\<lambda>cpu. cpu\<lparr>cpu_icount_decr_high := 0, cpu_exit_request := False, cpu_exception_index := -1\<rparr>)"

lemma stop_pending_loop:
  assumes "internal_not_invalid env" "stop_pending uc"
  shows "cpu_exec_loop env True uc = Some (EXCP_INTERRUPT, after_stop uc)"
proof -
  from assms(2) obtain cpu where cpu: "uc_cpu uc = Some cpu" "cpu_exit_request cpu" "cpu_interrupt_request cpu = 0"
    "cpu_exception_index cpu = -1" by (auto simp: stop_pending_def split: option.splits)
  let ?uc = "upd_cpu (\<lambda>cpu. cpu\<lparr>cpu_icount_decr_high := 0, cpu_exit_request := False, cpu_exception_index := EXCP_INTERRUPT\<rparr>) uc"
  have "cpu_handle_interrupt env uc = Some (True, ?uc)"
    using cpu by (simp add: cpu_handle_interrupt_def upd_cpu_def)
  then have "cpu_exec_loop env True uc = cpu_exec_loop env False ?uc" by (subst cpu_exec_loop.simps) simp
  moreover have "cpu_handle_exception env ?uc = Some (True, EXCP_INTERRUPT, after_stop uc)"
    using cpu assms(1)
    by (auto simp: cpu_handle_exception_def upd_cpu_def after_stop_def internal_not_invalid_def EXCP_INTERRUPT_def
        EXCP_DEBUG_def split: option.splits)
  ultimately show ?thesis by (subst (asm) (2) cpu_exec_loop.simps) simp
qed

text \<open>The state in which \<^verbatim>\<open>tcg_cpu_exec\<close> enters the loop for a CPU that may run.\<close>

definition exec_entered :: "'c uc_env \<Rightarrow> 'c uc_struct \<Rightarrow> 'c uc_struct" where
  "exec_entered env uc = upd_cpu (\<lambda>cpu. (cpu\<lparr>cpu_halted := False\<rparr>)
     \<lparr>cpu_arch := env_cpu_exec_enter env (cpu_arch cpu)\<rparr>) (uc\<lparr>quit_request := False\<rparr>)"

lemma cpu_exec_entered:
  assumes "uc_cpu uc = Some cpu" "\<not> cpu_halted cpu \<or> env_has_work env cpu"
    and "(exec_step env)\<^sup>*\<^sup>* (False, exec_entered env uc) (True, v)" "internal_not_invalid env" "stop_pending v"
  shows "cpu_exec env (uc\<lparr>quit_request := False\<rparr>) = Some (EXCP_INTERRUPT,
    upd_cpu (\<lambda>cpu. cpu\<lparr>cpu_tcg_exit_req := False, cpu_arch := env_cpu_exec_exit env (cpu_arch cpu)\<rparr>) (after_stop v))"
proof -
  have loop: "cpu_exec_loop env False (exec_entered env uc) = Some (EXCP_INTERRUPT, after_stop v)"
    using exec_steps_loop [OF assms(3)] stop_pending_loop [OF assms(4,5)] by simp
  have h: "cpu\<lparr>cpu_halted := False\<rparr> = cpu" if "\<not> cpu_halted cpu" using that by simp
  have "exec_entered env uc = uc\<lparr>quit_request := False, uc_cpu := Some ((snd (cpu_handle_halt env cpu))
      \<lparr>cpu_arch := env_cpu_exec_enter env (cpu_arch cpu)\<rparr>)\<rparr>"
    using assms(1,2) h by (auto simp: exec_entered_def upd_cpu_def cpu_handle_halt_def)
  moreover have "\<not> fst (cpu_handle_halt env cpu)" "cpu_arch (snd (cpu_handle_halt env cpu)) = cpu_arch cpu"
    using assms(2) by (auto simp: cpu_handle_halt_def)
  ultimately show ?thesis using loop assms(1)
    by (simp add: cpu_exec_def upd_cpu_def case_prod_unfold)
qed

lemma tcg_cpu_exec_stop:
  assumes "uc_cpu uc = Some cpu" "\<not> uc_exit_request uc" "cpu_can_run cpu" "\<not> cpu_halted cpu \<or> env_has_work env cpu"
    and "(exec_step env)\<^sup>*\<^sup>* (False, exec_entered env uc) (True, v)" "internal_not_invalid env" "stop_pending v"
    and "stop_request v" "\<not> quit_request v"
  shows "\<exists>uc'. tcg_cpu_exec env uc = Some (True, uc') \<and> stop_request uc' \<and>
    (\<exists>c. uc_cpu uc' = Some c \<and> \<not> cpu_exit_request c \<and> \<not> cpu_tcg_exit_req c)"
proof -
  have "tcg_cpu_exec_loop env uc = Some (True,
      upd_cpu (\<lambda>cpu. cpu\<lparr>cpu_tcg_exit_req := False, cpu_arch := env_cpu_exec_exit env (cpu_arch cpu)\<rparr>) (after_stop v))"
    using cpu_exec_entered [OF assms(1,4,5,6,7)] assms(1,2,3,8,9)
    by (subst tcg_cpu_exec_loop.simps) (simp add: upd_cpu_def after_stop_def)
  moreover obtain c where "uc_cpu v = Some c" using assms(7) by (auto simp: stop_pending_def split: option.splits)
  ultimately show ?thesis using assms(8) by (simp add: tcg_cpu_exec_def upd_cpu_def after_stop_def)
qed

lemma uc_emu_stop_pending:
  assumes "uc_init_done w" "\<not> emulation_done w" "uc_cpu w = Some c" "cpu_interrupt_request c = 0" "cpu_exception_index c = -1"
    and "uc_emu_stop env w = Some (UC_ERR_OK, v)"
  shows "stop_pending v" "stop_request v" "quit_request v = quit_request w"
  using assms by (auto simp: uc_emu_stop_def stop_pending_def upd_cpu_def cpu_exit_def)

lemma cpu_exec_loop_iff:
  "cpu_exec_loop env inner uc = Some r \<longleftrightarrow> (\<exists>c. (exec_step env)\<^sup>*\<^sup>* (inner, uc) c \<and> exec_result env c r)"
  using cpu_exec_loop_reaches [of env inner uc r] exec_steps_loop [of env "(inner, uc)"] exec_result_loop [of env]
  by fastforce

text \<open>
  C19: once \<^verbatim>\<open>uc_emu_stop\<close> has been called while guest code runs, the emulation ends: when control comes
  back to the loop, with no interrupt or exception pending, it runs no further block, \<^verbatim>\<open>tcg_cpu_exec\<close> and the
  loop of \<^verbatim>\<open>resume_all_vcpus\<close> return, and the exit requests of the CPU are cleared for the next start.
\<close>

theorem emu_stop_ends_emulation:
  assumes "uc_cpu uc = Some cpu" "\<not> uc_exit_request uc" "cpu_can_run cpu" "\<not> cpu_halted cpu \<or> env_has_work env cpu"
    and "internal_not_invalid env"
    and "uc_init_done w" "\<not> emulation_done w" "\<not> quit_request w" "uc_cpu w = Some c" "cpu_interrupt_request c = 0"
      "cpu_exception_index c = -1"
    and "uc_emu_stop env w = Some (UC_ERR_OK, v)" "(exec_step env)\<^sup>*\<^sup>* (False, exec_entered env uc) (True, v)"
  shows "\<exists>uc'. vcpu_loop env uc = Some uc' \<and> stop_request uc' \<and>
    (\<exists>c. uc_cpu uc' = Some c \<and> \<not> cpu_exit_request c \<and> \<not> cpu_tcg_exit_req c)"
proof -
  note v = uc_emu_stop_pending [OF assms(6,7,9,10,11,12)]
  from tcg_cpu_exec_stop [OF assms(1-4,13,5) v(1,2)] v(3) assms(8) obtain uc' where
    "tcg_cpu_exec env uc = Some (True, uc')" "stop_request uc'"
    "\<exists>c. uc_cpu uc' = Some c \<and> \<not> cpu_exit_request c \<and> \<not> cpu_tcg_exit_req c" by auto
  then show ?thesis by (subst vcpu_loop.simps) simp
qed

definition demo_cpu :: "unit CPUState" where
  "demo_cpu = \<lparr>cpu_created = True, cpu_stop = False, cpu_stopped = False, cpu_halted = False, cpu_exit_request = False,
     cpu_tcg_exit_req = False, cpu_icount_decr_high = 0, cpu_exception_index = -1, cpu_interrupt_request = 0, cpu_arch = ()\<rparr>"

definition demo_running :: "unit uc_struct" where
  "demo_running = demo_hooks\<lparr>uc_cpu := Some demo_cpu\<rparr>"

text \<open>Guest code whose first block calls a hook that stops the emulation.\<close>

definition stopping_env :: "unit uc_env" where
  "stopping_env = plain_env\<lparr>env_tb_exec := (\<lambda>uc. (TbReturn, snd (the (uc_emu_stop plain_env uc))))\<rparr>"

theorem emu_stop_ends_emulation_witness:
  "\<exists>uc'. vcpu_loop stopping_env demo_running = Some uc' \<and> stop_request uc'"
proof -
  let ?v = "snd (the (uc_emu_stop plain_env demo_running))"
  have sim: "exec_entered stopping_env demo_running = demo_running"
    by (simp add: exec_entered_def stopping_env_def plain_env_def demo_running_def demo_cpu_def upd_cpu_def demo_hooks_def uc_zero_def)
  have "cpu_handle_exception stopping_env demo_running = Some (False, EXCP_INTERRUPT, demo_running)"
    by (simp add: cpu_handle_exception_def stopping_env_def plain_env_def demo_running_def demo_cpu_def)
  then have s1: "exec_step stopping_env (False, demo_running) (True, demo_running)" by (rule exec_step.no_exception)
  have "cpu_handle_interrupt stopping_env demo_running = Some (False, demo_running)"
    by (simp add: cpu_handle_interrupt_def demo_running_def demo_cpu_def upd_cpu_def)
  then have s2: "exec_step stopping_env (True, demo_running) (True, ?v)"
    by (rule exec_step.block [where cpu = demo_cpu]) (simp_all add: stopping_env_def plain_env_def demo_running_def demo_cpu_def)
  have reach: "(exec_step stopping_env)\<^sup>*\<^sup>* (False, exec_entered stopping_env demo_running) (True, ?v)"
    unfolding sim using s1 s2 by (meson converse_rtranclp_into_rtranclp rtranclp.rtrancl_refl)
  have stop: "uc_emu_stop stopping_env demo_running = Some (UC_ERR_OK, ?v)"
    by (simp add: uc_emu_stop_def demo_running_def demo_hooks_def uc_zero_def)
  have "\<exists>uc'. vcpu_loop stopping_env demo_running = Some uc' \<and> stop_request uc' \<and>
    (\<exists>c. uc_cpu uc' = Some c \<and> \<not> cpu_exit_request c \<and> \<not> cpu_tcg_exit_req c)"
    by (rule emu_stop_ends_emulation [where cpu = demo_cpu and c = demo_cpu, OF _ _ _ _ _ _ _ _ _ _ _ stop reach])
       (simp_all add: demo_running_def demo_cpu_def demo_hooks_def uc_zero_def cpu_can_run_def cpu_is_stopped_def
         internal_not_invalid_def stopping_env_def plain_env_def)
  then show ?thesis by blast
qed

section \<open>When guest code runs\<close>

text \<open>
  What the target promises about exceptions: finding or executing a block and delivering an interrupt
  report an exception by jumping out (\<^verbatim>\<open>cpu_loop_exit\<close>), and do not come back with one pending.
\<close>

definition no_exception_pending :: "'c uc_struct \<Rightarrow> bool" where
  "no_exception_pending uc \<longleftrightarrow> (case uc_cpu uc of None \<Rightarrow> True | Some cpu \<Rightarrow> cpu_exception_index cpu < 0)"

definition exceptions_jump :: "'c uc_env \<Rightarrow> bool" where
  "exceptions_jump env \<longleftrightarrow>
    (\<forall>uc uc'. no_exception_pending uc \<longrightarrow>
      (env_tb_find env uc = (TbReturn, uc') \<longrightarrow> no_exception_pending uc') \<and>
      (env_tb_exec env uc = (TbReturn, uc') \<longrightarrow> no_exception_pending uc') \<and>
      (\<forall>req. no_exception_pending (snd (env_cpu_exec_interrupt env req uc))))"

definition may_execute :: "'c uc_env \<Rightarrow> 'c uc_struct \<Rightarrow> bool" where
  "may_execute env uc \<longleftrightarrow>
    (case uc_cpu uc of
       None \<Rightarrow> False
     | Some cpu \<Rightarrow> \<not> cpu_exit_request cpu \<and> (exceptions_jump env \<longrightarrow> cpu_exception_index cpu < 0))"

lemma no_exception_upd:
  "(\<And>cpu. cpu_exception_index cpu < 0 \<Longrightarrow> cpu_exception_index (f cpu) < 0) \<Longrightarrow> no_exception_pending uc \<Longrightarrow>
    no_exception_pending (upd_cpu f uc)"
  by (simp add: no_exception_pending_def upd_cpu_def split: option.splits)

lemma handle_exception_clears:
  assumes "cpu_handle_exception env uc = Some (False, ret, uc')"
  shows "no_exception_pending uc'"
proof -
  from assms obtain cpu where cpu: "uc_cpu uc = Some cpu" by (cases "uc_cpu uc") (simp_all add: cpu_handle_exception_def)
  obtain stop u where s: "(case env_stop_interrupt env of None \<Rightarrow> (False, uc) | Some f \<Rightarrow> f uc (cpu_exception_index cpu)) = (stop, u)"
    by fastforce
  from assms cpu s obtain cpu1 where u: "uc_cpu u = Some cpu1" by (cases "uc_cpu u") (simp_all add: cpu_handle_exception_def)
  note body = assms [unfolded cpu_handle_exception_def]
  consider (stop) stop | (neg) "\<not> stop" "cpu_exception_index cpu1 < 0"
    | (internal) "\<not> stop" "\<not> cpu_exception_index cpu1 < 0" "EXCP_INTERRUPT \<le> cpu_exception_index cpu1"
    | (guest) "\<not> stop" "\<not> cpu_exception_index cpu1 < 0" "\<not> EXCP_INTERRUPT \<le> cpu_exception_index cpu1" by blast
  then show ?thesis
  proof cases
    case stop
    with body show ?thesis by (simp add: cpu s u split: bind_splits prod.splits)
  next
    case neg
    with body u show ?thesis by (simp add: cpu s no_exception_pending_def)
  next
    case internal
    with body show ?thesis by (simp add: cpu s u Let_def)
  next
    case guest
    with body obtain v where "uc' = upd_cpu (\<lambda>cpu. cpu\<lparr>cpu_exception_index := -1\<rparr>) v"
      by (auto simp: cpu s u Let_def split: bind_splits prod.splits if_splits)
    then show ?thesis by (simp add: no_exception_pending_def upd_cpu_def split: option.splits)
  qed
qed

lemma handle_interrupt_keeps:
  assumes "exceptions_jump env" "no_exception_pending uc" "cpu_handle_interrupt env uc = Some (False, uc')"
  shows "no_exception_pending uc'"
proof -
  define uc0 where "uc0 = upd_cpu (\<lambda>cpu. cpu\<lparr>cpu_icount_decr_high := 0\<rparr>) uc"
  have 0: "no_exception_pending uc0" unfolding uc0_def by (rule no_exception_upd) (use assms(2) in simp_all)
  from assms(3) obtain cpu where cpu: "uc_cpu uc0 = Some cpu"
    by (auto simp: cpu_handle_interrupt_def uc0_def [symmetric] split: bind_splits)
  show ?thesis
  proof (cases "cpu_interrupt_request cpu = 0")
    case True
    then show ?thesis using assms(3) cpu 0
      by (auto simp: cpu_handle_interrupt_def uc0_def [symmetric] split: if_splits bind_splits)
  next
    case False
    obtain handled u where u: "env_cpu_exec_interrupt env (cpu_interrupt_request cpu) uc0 = (handled, u)" by fastforce
    have 1: "no_exception_pending u" using assms(1) 0 u unfolding exceptions_jump_def by (metis snd_conv)
    let ?u = "if handled then upd_cpu (\<lambda>cpu. cpu\<lparr>cpu_exception_index := -1\<rparr>) u else u"
    have 2: "no_exception_pending ?u" using 1 by (auto intro: no_exception_upd)
    have "handle_interrupt_request env cpu uc0 = (False, uc')"
      using assms(3) cpu False
      by (auto simp: cpu_handle_interrupt_def uc0_def [symmetric] split: if_splits bind_splits prod.splits)
    then have "uc' = upd_cpu (\<lambda>cpu. if cpu_interrupt_request cpu AND CPU_INTERRUPT_EXITTB \<noteq> 0
         then cpu\<lparr>cpu_interrupt_request := cpu_interrupt_request cpu AND NOT CPU_INTERRUPT_EXITTB\<rparr> else cpu) ?u"
      using u by (auto simp: handle_interrupt_request_def Let_def split: if_splits)
    then show ?thesis using 2 by (auto intro: no_exception_upd)
  qed
qed

text \<open>In the inner loop no exception is pending.\<close>

definition exec_inv :: "'c uc_env \<Rightarrow> bool \<times> 'c uc_struct \<Rightarrow> bool" where
  "exec_inv env c \<longleftrightarrow> (exceptions_jump env \<and> fst c \<longrightarrow> no_exception_pending (snd c))"

lemma exec_step_inv:
  assumes "exec_step env c c'" "exec_inv env c" shows "exec_inv env c'"
  using assms
proof (induction rule: exec_step.induct)
  case (exit_requested uc uc1 uc' cpu)
  have "no_exception_pending uc'" if e: "exceptions_jump env"
  proof -
    have "no_exception_pending uc1"
      using handle_interrupt_keeps [OF e _ exit_requested(1)] exit_requested.prems e by (simp add: exec_inv_def)
    then show ?thesis using e exit_requested(2) unfolding exceptions_jump_def by blast
  qed
  then show ?case by (simp add: exec_inv_def)
next
  case (block uc uc1 uc2 cpu uc')
  have "no_exception_pending uc'" if e: "exceptions_jump env"
  proof -
    have "no_exception_pending uc1" using handle_interrupt_keeps [OF e _ block(1)] block.prems e by (simp add: exec_inv_def)
    then have "no_exception_pending uc2" using e block(2) unfolding exceptions_jump_def by blast
    then show ?thesis using e block(5) unfolding exceptions_jump_def by blast
  qed
  then show ?case by (simp add: exec_inv_def)
qed (auto simp: exec_inv_def intro: handle_exception_clears)

lemma exec_step_guarded:
  assumes "exec_inv env (True, uc)" "cpu_handle_interrupt env uc = Some (False, uc1)" "env_tb_find env uc1 = (TbReturn, uc2)"
    and "uc_cpu uc2 = Some cpu" "\<not> cpu_exit_request cpu"
  shows "may_execute env uc2"
proof -
  have "cpu_exception_index cpu < 0" if e: "exceptions_jump env"
  proof -
    have "no_exception_pending uc1" using handle_interrupt_keeps [OF e _ assms(2)] assms(1) e by (simp add: exec_inv_def)
    then have "no_exception_pending uc2" using e assms(3) unfolding exceptions_jump_def by blast
    then show ?thesis using assms(4) by (simp add: no_exception_pending_def)
  qed
  then show ?thesis using assms(4,5) by (simp add: may_execute_def)
qed

text \<open>Two ways of executing blocks that agree wherever a block may run.\<close>

lemma option_eqI: "(\<And>r. a = Some r \<Longrightarrow> b = Some r) \<Longrightarrow> (\<And>r. b = Some r \<Longrightarrow> a = Some r) \<Longrightarrow> a = b"
  by (cases a; cases b) auto

lemma intr_loop_callback:
  assumes "intr_loop env catched cur uc = Some r" "env_callback env' = env_callback env"
  shows "intr_loop env' catched cur uc = Some r"
proof -
  have "env_callback env' = env_callback env \<longrightarrow> intr_loop env' catched cur uc = Some r"
  proof (rule intr_loop.raw_induct [OF _ assms(1), where P = "\<lambda>env catched cur uc r. env_callback env' = env_callback env \<longrightarrow> intr_loop env' catched cur uc = Some r"], goal_cases)
    case (1 f env catched cur uc r)
    then have IH: "env_callback env' = env_callback env \<Longrightarrow> f env catched cur uc = Some r \<Longrightarrow> intr_loop env' catched cur uc = Some r" for catched cur uc by blast
    show ?case
      using 1(2) by (subst intr_loop.simps) (auto simp: Let_def intro: IH split: option.splits if_splits prod.splits)
  qed
  then show ?thesis using assms(2) by simp
qed

lemma insn_invalid_loop_callback:
  assumes "insn_invalid_loop env cur uc = Some r" "env_insn_invalid_cb env' = env_insn_invalid_cb env"
  shows "insn_invalid_loop env' cur uc = Some r"
proof -
  have "env_insn_invalid_cb env' = env_insn_invalid_cb env \<longrightarrow> insn_invalid_loop env' cur uc = Some r"
  proof (rule insn_invalid_loop.raw_induct [OF _ assms(1), where P = "\<lambda>env cur uc r. env_insn_invalid_cb env' = env_insn_invalid_cb env \<longrightarrow> insn_invalid_loop env' cur uc = Some r"], goal_cases)
    case (1 f env cur uc r)
    then have IH: "env_insn_invalid_cb env' = env_insn_invalid_cb env \<Longrightarrow> f env cur uc = Some r \<Longrightarrow> insn_invalid_loop env' cur uc = Some r" for cur uc by blast
    show ?case
      using 1(2) by (subst insn_invalid_loop.simps) (auto simp: Let_def intro: IH split: option.splits if_splits prod.splits)
  qed
  then show ?thesis using assms(2) by simp
qed

lemma handlers_tb_exec:
  "cpu_handle_exception (env\<lparr>env_tb_exec := f\<rparr>) uc = cpu_handle_exception env uc"
  "cpu_handle_interrupt (env\<lparr>env_tb_exec := f\<rparr>) uc = cpu_handle_interrupt env uc"
proof -
  let ?env = "env\<lparr>env_tb_exec := f\<rparr>"
  have "intr_loop ?env catched cur uc = intr_loop env catched cur uc" for catched cur uc
    by (rule option_eqI) (erule intr_loop_callback, simp)+
  then have i: "intr_loop ?env = intr_loop env" by (intro ext)
  have "insn_invalid_loop ?env cur uc = insn_invalid_loop env cur uc" for cur uc
    by (rule option_eqI) (erule insn_invalid_loop_callback, simp)+
  then have n: "insn_invalid_loop ?env = insn_invalid_loop env" by (intro ext)
  have s: "env_stop_interrupt ?env = env_stop_interrupt env" "env_debug_excp_handler ?env = env_debug_excp_handler env"
    "env_intr_fixup ?env = env_intr_fixup env" "env_cpu_reset ?env = env_cpu_reset env"
    "env_cpu_exec_interrupt ?env = env_cpu_exec_interrupt env" by simp_all
  show "cpu_handle_exception ?env uc = cpu_handle_exception env uc" unfolding cpu_handle_exception_def i n s ..
  show "cpu_handle_interrupt ?env uc = cpu_handle_interrupt env uc"
    unfolding cpu_handle_interrupt_def handle_interrupt_request_def s ..
qed

lemma exec_step_agree:
  assumes agree: "\<forall>uc. may_execute env uc \<longrightarrow> f uc = env_tb_exec env uc" and inv: "exec_inv env c"
  shows "exec_step (env\<lparr>env_tb_exec := f\<rparr>) c c' \<longleftrightarrow> exec_step env c c'"
proof
  assume "exec_step (env\<lparr>env_tb_exec := f\<rparr>) c c'"
  then show "exec_step env c c'" using inv
  proof (induction rule: exec_step.induct)
    case (block_jump uc uc1 uc2 cpu uc')
    note s = block_jump(1-5) [unfolded handlers_tb_exec, simplified]
    have "env_tb_exec env uc2 = (TbLongjmp, uc')"
      using agree exec_step_guarded [OF block_jump.prems s(1,2,3,4)] s(5) by metis
    then show ?case by (rule exec_step.block_jump [OF s(1-4)])
  next
    case (block uc uc1 uc2 cpu uc')
    note s = block(1-5) [unfolded handlers_tb_exec, simplified]
    have "env_tb_exec env uc2 = (TbReturn, uc')"
      using agree exec_step_guarded [OF block.prems s(1,2,3,4)] s(5) by metis
    then show ?case by (rule exec_step.block [OF s(1-4)])
  qed (simp add: handlers_tb_exec; blast intro: exec_step.intros)+
next
  assume "exec_step env c c'"
  then show "exec_step (env\<lparr>env_tb_exec := f\<rparr>) c c'" using inv
  proof (induction rule: exec_step.induct)
    case (block_jump uc uc1 uc2 cpu uc')
    have "f uc2 = (TbLongjmp, uc')"
      using agree exec_step_guarded [OF block_jump.prems block_jump(1,2,3,4)] block_jump(5) by metis
    then show ?case using block_jump(1-4) by (intro exec_step.block_jump [of _ uc uc1 uc2 cpu]) (simp_all add: handlers_tb_exec)
  next
    case (block uc uc1 uc2 cpu uc')
    have "f uc2 = (TbReturn, uc')"
      using agree exec_step_guarded [OF block.prems block(1,2,3,4)] block(5) by metis
    then show ?case using block(1-4) by (intro exec_step.block [of _ uc uc1 uc2 cpu]) (simp_all add: handlers_tb_exec)
  qed (rule exec_step.intros; simp add: handlers_tb_exec)+
qed

lemma exec_steps_agree:
  assumes agree: "\<forall>uc. may_execute env uc \<longrightarrow> f uc = env_tb_exec env uc" and "exec_inv env c"
  shows "(exec_step (env\<lparr>env_tb_exec := f\<rparr>))\<^sup>*\<^sup>* c c' \<longleftrightarrow> (exec_step env)\<^sup>*\<^sup>* c c'"
proof
  assume "(exec_step (env\<lparr>env_tb_exec := f\<rparr>))\<^sup>*\<^sup>* c c'"
  then have "(exec_step env)\<^sup>*\<^sup>* c c' \<and> exec_inv env c'"
  proof (induction rule: rtranclp_induct)
    case (step y z)
    then have "exec_step env y z" using exec_step_agree [OF agree] by blast
    then show ?case using step.IH exec_step_inv by (metis rtranclp.rtrancl_into_rtrancl)
  qed (simp add: assms(2))
  then show "(exec_step env)\<^sup>*\<^sup>* c c'" by blast
next
  assume "(exec_step env)\<^sup>*\<^sup>* c c'"
  then have "(exec_step (env\<lparr>env_tb_exec := f\<rparr>))\<^sup>*\<^sup>* c c' \<and> exec_inv env c'"
  proof (induction rule: rtranclp_induct)
    case (step y z)
    then have "exec_step (env\<lparr>env_tb_exec := f\<rparr>) y z" using exec_step_agree [OF agree] by blast
    then show ?case using step exec_step_inv by (metis rtranclp.rtrancl_into_rtrancl)
  qed (simp add: assms(2))
  then show "(exec_step (env\<lparr>env_tb_exec := f\<rparr>))\<^sup>*\<^sup>* c c'" by blast
qed

lemma cpu_exec_agree:
  assumes agree: "\<forall>uc. may_execute env uc \<longrightarrow> f uc = env_tb_exec env uc"
  shows "cpu_exec (env\<lparr>env_tb_exec := f\<rparr>) uc = cpu_exec env uc"
proof -
  let ?env = "env\<lparr>env_tb_exec := f\<rparr>"
  have res: "exec_result ?env = exec_result env" by (intro ext) (simp add: exec_result_def handlers_tb_exec)
  have inv: "exec_inv env (False, u)" for u by (simp add: exec_inv_def)
  have iff: "cpu_exec_loop ?env False u = Some r \<longleftrightarrow> cpu_exec_loop env False u = Some r" for u r
    by (simp only: cpu_exec_loop_iff exec_steps_agree [OF agree inv] res)
  have l: "cpu_exec_loop ?env False = cpu_exec_loop env False"
  proof (rule ext)
    show "cpu_exec_loop ?env False u = cpu_exec_loop env False u" for u
      by (rule option_eqI) (simp_all only: iff)
  qed
  have s: "cpu_handle_halt ?env = cpu_handle_halt env" "env_cpu_exec_enter ?env = env_cpu_exec_enter env"
    "env_cpu_exec_exit ?env = env_cpu_exec_exit env" by (simp_all add: cpu_handle_halt_def fun_eq_iff)
  show ?thesis unfolding cpu_exec_def l s ..
qed

lemma tcg_cpu_exec_loop_agree:
  assumes "tcg_cpu_exec_loop env uc = Some r" "cpu_exec env' = cpu_exec env"
  shows "tcg_cpu_exec_loop env' uc = Some r"
proof -
  have "cpu_exec env' = cpu_exec env \<longrightarrow> tcg_cpu_exec_loop env' uc = Some r"
  proof (rule tcg_cpu_exec_loop.raw_induct [OF _ assms(1), where P = "\<lambda>env uc r. cpu_exec env' = cpu_exec env \<longrightarrow> tcg_cpu_exec_loop env' uc = Some r"], goal_cases)
    case (1 f env uc r)
    then have IH: "cpu_exec env' = cpu_exec env \<Longrightarrow> f env uc = Some r \<Longrightarrow> tcg_cpu_exec_loop env' uc = Some r" for uc by blast
    show ?case
    proof (intro impI)
      assume h: "cpu_exec env' = cpu_exec env"
      note body = 1(2)
      consider (exit) "uc_exit_request uc" | (none) "\<not> uc_exit_request uc" "uc_cpu uc = None"
        | (run) cpu where "\<not> uc_exit_request uc" "uc_cpu uc = Some cpu" "cpu_can_run cpu"
        | (wait) cpu where "\<not> uc_exit_request uc" "uc_cpu uc = Some cpu" "\<not> cpu_can_run cpu" by fastforce
      then show "tcg_cpu_exec_loop env' uc = Some r"
      proof cases
        case run
        with body obtain k u where k: "cpu_exec env (uc\<lparr>quit_request := False\<rparr>) = Some (k, u)"
          by (cases "cpu_exec env (uc\<lparr>quit_request := False\<rparr>)") auto
        define v where "v = (if quit_request u
            then upd_cpu (\<lambda>cpu. cpu_resume (cpu\<lparr>cpu_halted := False, cpu_exit_request := False,
              cpu_exception_index := -1\<rparr>)) (u\<lparr>stop_request := False\<rparr>) else u)"
        have "(if \<not> quit_request u \<and> stop_request u then Some (True, v)
            else if invalid_error v \<noteq> UC_ERR_OK then Some (True, v)
            else if k = EXCP_DEBUG then Some (False, upd_cpu cpu_handle_guest_debug v)
            else if k = EXCP_HLT then Some (True, v) else f env v) = Some r"
          using body run k by (simp add: v_def Let_def cong: if_cong)
        then have "(if \<not> quit_request u \<and> stop_request u then Some (True, v)
            else if invalid_error v \<noteq> UC_ERR_OK then Some (True, v)
            else if k = EXCP_DEBUG then Some (False, upd_cpu cpu_handle_guest_debug v)
            else if k = EXCP_HLT then Some (True, v) else tcg_cpu_exec_loop env' v) = Some r"
          using IH [OF h, of v] by presburger
        then show ?thesis using run k by (subst tcg_cpu_exec_loop.simps) (simp add: v_def Let_def h cong: if_cong)
      next
        case wait
        then show ?thesis using body IH [OF h, of uc]
          by (cases "cpu_stop cpu \<or> cpu_stopped cpu") (subst tcg_cpu_exec_loop.simps, simp)+
      qed (use body in \<open>subst tcg_cpu_exec_loop.simps; simp\<close>)+
    qed
  qed
  then show ?thesis using assms(2) by simp
qed

lemma vcpu_loop_agree:
  assumes "vcpu_loop env uc = Some r" "tcg_cpu_exec env' = tcg_cpu_exec env"
  shows "vcpu_loop env' uc = Some r"
proof -
  have "tcg_cpu_exec env' = tcg_cpu_exec env \<longrightarrow> vcpu_loop env' uc = Some r"
  proof (rule vcpu_loop.raw_induct [OF _ assms(1), where P = "\<lambda>env uc r. tcg_cpu_exec env' = tcg_cpu_exec env \<longrightarrow> vcpu_loop env' uc = Some r"], goal_cases)
    case (1 f env uc r)
    then have IH: "tcg_cpu_exec env' = tcg_cpu_exec env \<Longrightarrow> f env uc = Some r \<Longrightarrow> vcpu_loop env' uc = Some r" for uc by blast
    show ?case
      using 1(2) by (subst vcpu_loop.simps) (auto simp: Let_def intro: IH split: option.splits if_splits prod.splits)
  qed
  then show ?thesis using assms(2) by simp
qed

lemma vm_start_agree:
  assumes "\<And>uc. cpu_exec (env\<lparr>env_tb_exec := f\<rparr>) uc = cpu_exec env uc"
  shows "vm_start (env\<lparr>env_tb_exec := f\<rparr>) uc = vm_start env uc"
proof -
  let ?env = "env\<lparr>env_tb_exec := f\<rparr>"
  have c: "cpu_exec ?env = cpu_exec env" using assms by (rule ext)
  have "tcg_cpu_exec_loop ?env u = tcg_cpu_exec_loop env u" for u
    by (rule option_eqI) (erule tcg_cpu_exec_loop_agree, simp add: c)+
  then have t: "tcg_cpu_exec ?env = tcg_cpu_exec env" by (intro ext) (simp add: tcg_cpu_exec_def)
  have "vcpu_loop ?env u = vcpu_loop env u" for u
    by (rule option_eqI) (erule vcpu_loop_agree, simp add: t)+
  then have v: "vcpu_loop ?env = vcpu_loop env" by (rule ext)
  have i: "uc_exit_invalidate_iter ?env = uc_exit_invalidate_iter env"
    by (intro ext) (simp add: uc_exit_invalidate_iter_def)
  show ?thesis unfolding vm_start_def resume_all_vcpus_def v i ..
qed

text \<open>What the loop returns.\<close>

lemma handle_exception_leaves:
  assumes "cpu_handle_exception env uc = Some (True, ret, uc')"
  shows "ret = EXCP_HLT \<or> EXCP_INTERRUPT \<le> ret \<and> no_exception_pending uc'"
proof -
  from assms obtain cpu where cpu: "uc_cpu uc = Some cpu" by (cases "uc_cpu uc") (simp_all add: cpu_handle_exception_def)
  obtain stop u where s: "(case env_stop_interrupt env of None \<Rightarrow> (False, uc) | Some f \<Rightarrow> f uc (cpu_exception_index cpu)) = (stop, u)"
    by fastforce
  from assms cpu s obtain cpu1 where u: "uc_cpu u = Some cpu1" by (cases "uc_cpu u") (simp_all add: cpu_handle_exception_def)
  note body = assms [unfolded cpu_handle_exception_def]
  show ?thesis
  proof (cases "\<not> stop \<and> \<not> cpu_exception_index cpu1 < 0 \<and> EXCP_INTERRUPT \<le> cpu_exception_index cpu1")
    case True
    with body obtain v where "uc' = upd_cpu (\<lambda>cpu. cpu\<lparr>cpu_exception_index := -1\<rparr>) v" "ret = cpu_exception_index cpu1"
      by (auto simp: cpu s u Let_def)
    then show ?thesis using True by (simp add: no_exception_pending_def upd_cpu_def split: option.splits)
  next
    case False
    with body show ?thesis by (auto simp: cpu s u Let_def split: bind_splits prod.splits if_splits)
  qed
qed


text \<open>A block that stops the emulation, and one that in addition goes wrong if it runs when it must not.\<close>

definition quitting_env :: "unit uc_env" where
  "quitting_env = plain_env\<lparr>env_tb_exec := (\<lambda>uc. (TbReturn, upd_cpu cpu_exit (uc\<lparr>stop_request := True\<rparr>)))\<rparr>"

definition trapping_exec :: "unit uc_struct \<Rightarrow> tb_outcome \<times> unit uc_struct" where
  "trapping_exec uc =
    (case uc_cpu uc of
       None \<Rightarrow> (TbLongjmp, uc_zero)
     | Some cpu \<Rightarrow> if cpu_exit_request cpu \<or> 0 \<le> cpu_exception_index cpu then (TbLongjmp, uc_zero)
         else env_tb_exec quitting_env uc)"


section \<open>Exceptions\<close>

definition exception_frame :: "'c uc_env \<Rightarrow> bool" where
  "exception_frame env \<longleftrightarrow> callback_frame env \<and>
    (\<forall>cb a args sz u uc. uc_cpu uc \<noteq> None \<longrightarrow> uc_cpu (env_callback env cb a args sz u uc) \<noteq> None) \<and>
    (\<forall>uc. uc_hook (env_intr_fixup env uc) = uc_hook uc \<and> hook_heap (env_intr_fixup env uc) = hook_heap uc \<and>
      (uc_cpu uc \<noteq> None \<longrightarrow> uc_cpu (env_intr_fixup env uc) \<noteq> None))"

lemma intr_loop_ok:
  assumes env: "exception_frame env"
  shows "lpath (l_nodes (uc_hook uc UC_HOOK_INTR_IDX)) cur ns xs None \<Longrightarrow> \<forall>p \<in> set xs. hook_heap uc p \<noteq> None \<Longrightarrow>
    uc_cpu uc \<noteq> None \<Longrightarrow>
    \<exists>uc'. intr_loop env catched cur uc = Some (catched \<or> (\<exists>p \<in> set xs. \<not> marked (hook_heap uc) p), uc') \<and> uc_cpu uc' \<noteq> None"
proof (induction ns arbitrary: cur xs uc catched)
  case Nil
  then show ?case by (subst intr_loop.simps) simp
next
  case (Cons n ns)
  from Cons.prems(1) obtain x xs' it where x: "xs = x # xs'" "cur = Some n"
    "l_nodes (uc_hook uc UC_HOOK_INTR_IDX) n = Some it" "li_data it = x"
    "lpath (l_nodes (uc_hook uc UC_HOOK_INTR_IDX)) (li_next it) ns xs' None"
    by (cases xs) (auto split: option.splits)
  obtain h where h: "hook_heap uc x = Some h" using Cons.prems(2) x(1) by auto
  obtain cpu where cpu: "uc_cpu uc = Some cpu" using Cons.prems(3) by auto
  show ?case
  proof (cases "h_to_delete h")
    case True
    then have "intr_loop env catched cur uc = intr_loop env catched (li_next it) uc"
      using x h by (subst intr_loop.simps) simp
    moreover have "marked (hook_heap uc) x" using h True by (simp add: marked_def)
    ultimately show ?thesis using Cons.IH [OF x(5) _ Cons.prems(3), of catched] Cons.prems(2) x(1) by simp
  next
    case False
    let ?uc = "env_callback env (h_callback h) (word_of_int (cpu_exception_index cpu)) [] 0 (h_user_data h) uc"
    have f: "uc_hook ?uc = uc_hook uc" "hook_heap ?uc = hook_heap uc" "uc_cpu ?uc \<noteq> None"
      using env Cons.prems(3) unfolding exception_frame_def callback_frame_def Let_def by blast+
    have "intr_loop env catched cur uc = intr_loop env True (li_next it) ?uc"
      using x h False cpu f by (subst intr_loop.simps) simp
    moreover have "\<not> marked (hook_heap uc) x" using h False by (simp add: marked_def)
    ultimately show ?thesis using Cons.IH [of ?uc "li_next it" xs' True] Cons.prems(2) x(1,5) f by simp
  qed
qed

text \<open>
  C25: an exception of the guest that \<^verbatim>\<open>stop_interrupt\<close> does not take as an invalid instruction runs the
  interrupt hooks, whose callbacks leave the hooks alone. If the list has a live hook, the exception counts
  as handled and the loop goes on; otherwise the CPU halts and the emulation ends with
  \<^verbatim>\<open>UC_ERR_EXCEPTION\<close>.
\<close>

theorem exception_needs_hook:
  assumes st: "hook_state uc L D" and env: "exception_frame env"
    and cpu: "uc_cpu uc = Some cpu" "0 \<le> cpu_exception_index cpu" "cpu_exception_index cpu < EXCP_INTERRUPT"
    and valid: "case env_stop_interrupt env of None \<Rightarrow> True | Some f \<Rightarrow> f uc (cpu_exception_index cpu) = (False, uc)"
  shows "\<exists>uc'. if \<exists>p \<in> set (L UC_HOOK_INTR_IDX). \<not> marked (hook_heap uc) p
    then cpu_handle_exception env uc = Some (False, EXCP_INTERRUPT, uc') \<and>
      map_option cpu_exception_index (uc_cpu uc') = Some (-1)
    else cpu_handle_exception env uc = Some (True, EXCP_HLT, uc') \<and> invalid_error uc' = UC_ERR_EXCEPTION \<and>
      map_option cpu_halted (uc_cpu uc') = Some True"
proof -
  let ?uc = "env_intr_fixup env uc"
  have f: "uc_hook ?uc = uc_hook uc" "hook_heap ?uc = hook_heap uc" "uc_cpu ?uc \<noteq> None"
    using env cpu(1) unfolding exception_frame_def by blast+
  have refs: "refs_ok (hook_heap uc) (\<lambda>q. listed L q + int (count_list D q))" using st by (simp add: hook_state_def)
  have i: "UC_HOOK_INTR_IDX < UC_HOOK_MAX" by (simp add: UC_HOOK_INTR_IDX_def UC_HOOK_MAX_def)
  then obtain ns where ns: "lpath (l_nodes (uc_hook ?uc UC_HOOK_INTR_IDX)) (l_head (uc_hook ?uc UC_HOOK_INTR_IDX)) ns
      (L UC_HOOK_INTR_IDX) None"
    using st f(1) by (auto simp: hook_state_def hook_lists_def list_rep_def list_nodes_def)
  have "hook_heap ?uc p \<noteq> None" if "p \<in> set (L UC_HOOK_INTR_IDX)" for p
  proof -
    have "0 < listed L p" using that i by (auto simp: listed_pos)
    then show ?thesis using refs_ok_None [OF refs, of p] f(2) by auto
  qed
  with intr_loop_ok [OF env ns, of False] f(3) obtain uc' where l:
    "intr_loop env False (l_head (uc_hook ?uc UC_HOOK_INTR_IDX)) ?uc =
      Some (\<exists>p \<in> set (L UC_HOOK_INTR_IDX). \<not> marked (hook_heap uc) p, uc')" "uc_cpu uc' \<noteq> None"
    unfolding f(2) by auto
  have "(case env_stop_interrupt env of None \<Rightarrow> (False, uc) | Some f \<Rightarrow> f uc (cpu_exception_index cpu)) = (False, uc)"
    using valid by (auto split: option.splits)
  with cpu l show ?thesis
    by (cases "\<exists>p \<in> set (L UC_HOOK_INTR_IDX). \<not> marked (hook_heap uc) p")
       (auto simp: cpu_handle_exception_def upd_cpu_def Let_def)
qed

theorem exception_needs_hook_witness:
  "\<exists>uc'. cpu_handle_exception plain_env (demo_running\<lparr>uc_cpu := Some (demo_cpu\<lparr>cpu_exception_index := 2\<rparr>)\<rparr>) =
      Some (True, EXCP_HLT, uc') \<and> invalid_error uc' = UC_ERR_EXCEPTION"
proof -
  have "hook_state (demo_running\<lparr>uc_cpu := Some (demo_cpu\<lparr>cpu_exception_index := 2\<rparr>)\<rparr>) (\<lambda>_. []) []"
    using demo_hooks_state(1) by (simp add: hook_state_def demo_running_def)
  moreover have "exception_frame plain_env"
    by (simp add: exception_frame_def callback_frame_def plain_env_def Let_def)
  ultimately show ?thesis
    using exception_needs_hook [of "demo_running\<lparr>uc_cpu := Some (demo_cpu\<lparr>cpu_exception_index := 2\<rparr>)\<rparr>" "\<lambda>_. []" "[]" plain_env]
    by (auto simp: EXCP_INTERRUPT_def plain_env_def)
qed

end
