(* ===== verification/UcEngine.thy ===== *)
theory UcEngine
  imports CpuExec
begin

text \<open>
  The engine interface of \<^verbatim>\<open>uc.c\<close>: opening and closing an engine, registers, starting and stopping
  emulation, queries, contexts and \<^verbatim>\<open>uc_ctl\<close>. The architectures compiled in are a parameter
  \<^verbatim>\<open>cfg\<close>; this repository builds \<^verbatim>\<open>arm\<close> and \<^verbatim>\<open>aarch64\<close>.
\<close>

section \<open>Architectures and modes\<close>

datatype config_flag =
    UNICORN_HAS_M68K | UNICORN_HAS_X86 | UNICORN_HAS_ARM | UNICORN_HAS_ARM64 | UNICORN_HAS_MIPS
  | UNICORN_HAS_MIPSEL | UNICORN_HAS_MIPS64 | UNICORN_HAS_MIPS64EL | UNICORN_HAS_SPARC
  | UNICORN_HAS_PPC | UNICORN_HAS_RISCV | UNICORN_HAS_S390X | UNICORN_HAS_TRICORE

definition tank_config :: "config_flag set" where
  "tank_config = {UNICORN_HAS_ARM, UNICORN_HAS_ARM64}"

definition UC_ARCH_ARM :: u32 where "UC_ARCH_ARM = 1"
definition UC_ARCH_ARM64 :: u32 where "UC_ARCH_ARM64 = 2"
definition UC_ARCH_MIPS :: u32 where "UC_ARCH_MIPS = 3"
definition UC_ARCH_X86 :: u32 where "UC_ARCH_X86 = 4"
definition UC_ARCH_PPC :: u32 where "UC_ARCH_PPC = 5"
definition UC_ARCH_SPARC :: u32 where "UC_ARCH_SPARC = 6"
definition UC_ARCH_M68K :: u32 where "UC_ARCH_M68K = 7"
definition UC_ARCH_RISCV :: u32 where "UC_ARCH_RISCV = 8"
definition UC_ARCH_S390X :: u32 where "UC_ARCH_S390X = 9"
definition UC_ARCH_TRICORE :: u32 where "UC_ARCH_TRICORE = 10"
definition UC_ARCH_MAX :: u32 where "UC_ARCH_MAX = 11"

lemmas uc_arch_defs = UC_ARCH_ARM_def UC_ARCH_ARM64_def UC_ARCH_MIPS_def UC_ARCH_X86_def UC_ARCH_PPC_def
  UC_ARCH_SPARC_def UC_ARCH_M68K_def UC_ARCH_RISCV_def UC_ARCH_S390X_def UC_ARCH_TRICORE_def UC_ARCH_MAX_def

definition UC_MODE_BIG_ENDIAN :: u32 where "UC_MODE_BIG_ENDIAN = 0x40000000"
definition UC_MODE_THUMB :: u32 where "UC_MODE_THUMB = 16"
definition UC_MODE_16 :: u32 where "UC_MODE_16 = 2"
definition UC_MODE_32 :: u32 where "UC_MODE_32 = 4"
definition UC_MODE_64 :: u32 where "UC_MODE_64 = 8"
definition UC_MODE_V8 :: u32 where "UC_MODE_V8 = 64"

definition UC_MODE_ARM_MASK :: u32 where
  "UC_MODE_ARM_MASK = 16 OR 32 OR 128 OR 256 OR 512 OR UC_MODE_BIG_ENDIAN OR 1024"
definition UC_MODE_MIPS_MASK :: u32 where "UC_MODE_MIPS_MASK = 4 OR 8 OR UC_MODE_BIG_ENDIAN"
definition UC_MODE_X86_MASK :: u32 where "UC_MODE_X86_MASK = UC_MODE_16 OR UC_MODE_32 OR UC_MODE_64"
definition UC_MODE_PPC_MASK :: u32 where "UC_MODE_PPC_MASK = 4 OR 8 OR UC_MODE_BIG_ENDIAN"
definition UC_MODE_SPARC_MASK :: u32 where "UC_MODE_SPARC_MASK = 4 OR 8 OR UC_MODE_BIG_ENDIAN"
definition UC_MODE_M68K_MASK :: u32 where "UC_MODE_M68K_MASK = UC_MODE_BIG_ENDIAN"
definition UC_MODE_RISCV_MASK :: u32 where "UC_MODE_RISCV_MASK = 4 OR 8"
definition UC_MODE_S390X_MASK :: u32 where "UC_MODE_S390X_MASK = UC_MODE_BIG_ENDIAN"
definition UC_MODE_TRICORE_MASK :: u32 where "UC_MODE_TRICORE_MASK = 0"

section \<open>Versions and errors\<close>

definition uc_version :: u32 where
  "uc_version = push_bit 24 2 + push_bit 16 0 + push_bit 8 1 + 255"

definition uc_errno :: "'c uc_struct \<Rightarrow> uc_err" where
  "uc_errno uc = uc_errnum uc"

definition uc_strerror :: "uc_err \<Rightarrow> string" where
  "uc_strerror code =
    (case code of
       UC_ERR_OK \<Rightarrow> ''OK (UC_ERR_OK)''
     | UC_ERR_NOMEM \<Rightarrow> ''No memory available or memory not present (UC_ERR_NOMEM)''
     | UC_ERR_ARCH \<Rightarrow> ''Invalid/unsupported architecture (UC_ERR_ARCH)''
     | UC_ERR_HANDLE \<Rightarrow> ''Invalid handle (UC_ERR_HANDLE)''
     | UC_ERR_MODE \<Rightarrow> ''Invalid mode (UC_ERR_MODE)''
     | UC_ERR_VERSION \<Rightarrow> ''Different API version between core & binding (UC_ERR_VERSION)''
     | UC_ERR_READ_UNMAPPED \<Rightarrow> ''Invalid memory read (UC_ERR_READ_UNMAPPED)''
     | UC_ERR_WRITE_UNMAPPED \<Rightarrow> ''Invalid memory write (UC_ERR_WRITE_UNMAPPED)''
     | UC_ERR_FETCH_UNMAPPED \<Rightarrow> ''Invalid memory fetch (UC_ERR_FETCH_UNMAPPED)''
     | UC_ERR_HOOK \<Rightarrow> ''Invalid hook type (UC_ERR_HOOK)''
     | UC_ERR_INSN_INVALID \<Rightarrow> ''Invalid instruction (UC_ERR_INSN_INVALID)''
     | UC_ERR_MAP \<Rightarrow> ''Invalid memory mapping (UC_ERR_MAP)''
     | UC_ERR_WRITE_PROT \<Rightarrow> ''Write to write-protected memory (UC_ERR_WRITE_PROT)''
     | UC_ERR_READ_PROT \<Rightarrow> ''Read from non-readable memory (UC_ERR_READ_PROT)''
     | UC_ERR_FETCH_PROT \<Rightarrow> ''Fetch from non-executable memory (UC_ERR_FETCH_PROT)''
     | UC_ERR_ARG \<Rightarrow> ''Invalid argument (UC_ERR_ARG)''
     | UC_ERR_READ_UNALIGNED \<Rightarrow> ''Read from unaligned memory (UC_ERR_READ_UNALIGNED)''
     | UC_ERR_WRITE_UNALIGNED \<Rightarrow> ''Write to unaligned memory (UC_ERR_WRITE_UNALIGNED)''
     | UC_ERR_FETCH_UNALIGNED \<Rightarrow> ''Fetch from unaligned memory (UC_ERR_FETCH_UNALIGNED)''
     | UC_ERR_RESOURCE \<Rightarrow> ''Insufficient resource (UC_ERR_RESOURCE)''
     | UC_ERR_EXCEPTION \<Rightarrow> ''Unhandled CPU exception (UC_ERR_EXCEPTION)''
     | _ \<Rightarrow> ''Unknown error code'')"

definition uc_arch_supported :: "config_flag set \<Rightarrow> u32 \<Rightarrow> bool" where
  "uc_arch_supported cfg arch \<longleftrightarrow>
    arch = UC_ARCH_ARM \<and> UNICORN_HAS_ARM \<in> cfg \<or> arch = UC_ARCH_ARM64 \<and> UNICORN_HAS_ARM64 \<in> cfg \<or>
    arch = UC_ARCH_M68K \<and> UNICORN_HAS_M68K \<in> cfg \<or> arch = UC_ARCH_MIPS \<and> UNICORN_HAS_MIPS \<in> cfg \<or>
    arch = UC_ARCH_PPC \<and> UNICORN_HAS_PPC \<in> cfg \<or> arch = UC_ARCH_SPARC \<and> UNICORN_HAS_SPARC \<in> cfg \<or>
    arch = UC_ARCH_X86 \<and> UNICORN_HAS_X86 \<in> cfg \<or> arch = UC_ARCH_RISCV \<and> UNICORN_HAS_RISCV \<in> cfg \<or>
    arch = UC_ARCH_S390X \<and> UNICORN_HAS_S390X \<in> cfg \<or> arch = UC_ARCH_TRICORE \<and> UNICORN_HAS_TRICORE \<in> cfg"

section \<open>Opening an engine\<close>

text \<open>
  The \<^verbatim>\<open>switch\<close> of \<^verbatim>\<open>uc_open\<close>: a mode the architecture refuses, or whether \<^verbatim>\<open>init_arch\<close> is set. For
  \<^verbatim>\<open>UC_ARCH_MIPS\<close> it depends on the endianness and the width.
\<close>

definition mips_init_arch :: "config_flag set \<Rightarrow> u32 \<Rightarrow> bool" where
  "mips_init_arch cfg mode \<longleftrightarrow>
    (if mode AND UC_MODE_BIG_ENDIAN \<noteq> 0
     then UNICORN_HAS_MIPS \<in> cfg \<and> mode AND 4 \<noteq> 0 \<or> UNICORN_HAS_MIPS64 \<in> cfg \<and> mode AND 8 \<noteq> 0
     else UNICORN_HAS_MIPSEL \<in> cfg \<and> mode AND 4 \<noteq> 0 \<or> UNICORN_HAS_MIPS64EL \<in> cfg \<and> mode AND 8 \<noteq> 0)"

definition open_arch :: "config_flag set \<Rightarrow> u32 \<Rightarrow> u32 \<Rightarrow> uc_err" where
  "open_arch cfg arch mode =
    (let big = (mode AND UC_MODE_BIG_ENDIAN \<noteq> 0);
         bad = (\<lambda>msk. mode AND NOT msk \<noteq> 0);
         width = (mode AND (4 OR 8) \<noteq> 0) in
     if arch = UC_ARCH_M68K \<and> UNICORN_HAS_M68K \<in> cfg
     then (if bad UC_MODE_M68K_MASK \<or> \<not> big then UC_ERR_MODE else UC_ERR_OK)
     else if arch = UC_ARCH_X86 \<and> UNICORN_HAS_X86 \<in> cfg
     then (if bad UC_MODE_X86_MASK \<or> big \<or> mode AND (UC_MODE_16 OR UC_MODE_32 OR UC_MODE_64) = 0
       then UC_ERR_MODE else UC_ERR_OK)
     else if arch = UC_ARCH_ARM \<and> UNICORN_HAS_ARM \<in> cfg
     then (if bad UC_MODE_ARM_MASK then UC_ERR_MODE else UC_ERR_OK)
     else if arch = UC_ARCH_ARM64 \<and> UNICORN_HAS_ARM64 \<in> cfg
     then (if bad UC_MODE_ARM_MASK then UC_ERR_MODE else UC_ERR_OK)
     else if arch = UC_ARCH_MIPS \<and>
       cfg \<inter> {UNICORN_HAS_MIPS, UNICORN_HAS_MIPSEL, UNICORN_HAS_MIPS64, UNICORN_HAS_MIPS64EL} \<noteq> {}
     then (if bad UC_MODE_MIPS_MASK \<or> \<not> width then UC_ERR_MODE
       else if mips_init_arch cfg mode then UC_ERR_OK else UC_ERR_ARCH)
     else if arch = UC_ARCH_SPARC \<and> UNICORN_HAS_SPARC \<in> cfg
     then (if bad UC_MODE_SPARC_MASK \<or> \<not> big \<or> \<not> width then UC_ERR_MODE else UC_ERR_OK)
     else if arch = UC_ARCH_PPC \<and> UNICORN_HAS_PPC \<in> cfg
     then (if bad UC_MODE_PPC_MASK \<or> \<not> big \<or> \<not> width then UC_ERR_MODE else UC_ERR_OK)
     else if arch = UC_ARCH_RISCV \<and> UNICORN_HAS_RISCV \<in> cfg
     then (if bad UC_MODE_RISCV_MASK \<or> \<not> width then UC_ERR_MODE else UC_ERR_OK)
     else if arch = UC_ARCH_S390X \<and> UNICORN_HAS_S390X \<in> cfg
     then (if bad UC_MODE_S390X_MASK \<or> \<not> big then UC_ERR_MODE else UC_ERR_OK)
     else if arch = UC_ARCH_TRICORE \<and> UNICORN_HAS_TRICORE \<in> cfg
     then (if bad UC_MODE_TRICORE_MASK then UC_ERR_MODE else UC_ERR_OK)
     else UC_ERR_ARCH)"

definition uc_open ::
  "config_flag set \<Rightarrow> bool \<Rightarrow> u32 \<Rightarrow> u32 \<Rightarrow> uc_err \<times> 'c uc_struct option" where
  "uc_open cfg calloc_ok arch mode =
    (if arch < UC_ARCH_MAX then
       if \<not> calloc_ok then (UC_ERR_NOMEM, None)
       else
         let uc = uc_zero\<lparr>uc_errnum := UC_ERR_OK, uc_arch := arch, uc_mode := mode,
           uc_thumb := (arch = UC_ARCH_ARM \<and> UNICORN_HAS_ARM \<in> cfg \<and> mode AND UC_MODE_THUMB \<noteq> 0)\<rparr> in
         (case open_arch cfg arch mode of
            UC_ERR_OK \<Rightarrow> (UC_ERR_OK, Some (uc\<lparr>uc_init_done := False, uc_cpu_model := 0x7fffffff\<rparr>))
          | err \<Rightarrow> (err, None))
     else (UC_ERR_ARCH, None))"

section \<open>Closing an engine\<close>

text \<open>
  \<^verbatim>\<open>uc_close\<close>, up to the final \<^verbatim>\<open>free(uc)\<close>: the hooks and regions left in the stores are what it leaks.
\<close>

definition uc_close :: "'c uc_env \<Rightarrow> 'c uc_struct \<Rightarrow> (uc_err \<times> 'c uc_struct) option" where
  "uc_close env uc =
    (if \<not> uc_init_done uc then Some (UC_ERR_OK, uc)
     else do {
       uc \<leftarrow> memory_free env uc;
       uc \<leftarrow> address_space_destroy env 0 uc;
       uc \<leftarrow> address_space_destroy env 0 uc;
       let uc = uc\<lparr>uc_cpu := None\<rparr>;
       let uc = uc\<lparr>mr_store := (mr_store uc)(system_memory uc := None, system_io uc := None),
         init_target_page := None\<rparr>;
       uc \<leftarrow> clear_deleted_hooks uc;
       uc \<leftarrow> foldM (\<lambda>i uc. do {
           (l, hs) \<leftarrow> list_clear (uc_hook uc i) (hook_heap uc);
           Some (uc\<lparr>uc_hook := (uc_hook uc)(i := l), hook_heap := hs\<rparr>) }) [0 ..< UC_HOOK_MAX] uc;
       Some (UC_ERR_OK, uc\<lparr>mapped_blocks := [], mapped_blocks_memory := TableNull, ctl_exits := g_tree_new_full\<rparr>) })"

section \<open>Registers\<close>

definition uc_reg_read_batch ::
  "'c uc_env \<Rightarrow> u32 list \<Rightarrow> 'c uc_struct \<Rightarrow> (uc_err \<times> u64 list \<times> 'c uc_struct) option" where
  "uc_reg_read_batch env ids uc = UC_INIT env (\<lambda>err uc. (err, [], uc)) uc (\<lambda>uc.
     case env_reg_read env of
       None \<Rightarrow> Some (UC_ERR_HANDLE, [], uc)
     | Some f \<Rightarrow> let (err, vals) = f ids uc in Some (err, vals, uc))"

definition uc_reg_write_batch ::
  "'c uc_env \<Rightarrow> (u32 \<times> u64) list \<Rightarrow> 'c uc_struct \<Rightarrow> (uc_err \<times> 'c uc_struct) option" where
  "uc_reg_write_batch env vals uc = UC_INIT env Pair uc (\<lambda>uc.
     case env_reg_write env of
       None \<Rightarrow> Some (UC_ERR_HANDLE, uc)
     | Some f \<Rightarrow> Some (f vals uc))"

definition uc_reg_read :: "'c uc_env \<Rightarrow> u32 \<Rightarrow> 'c uc_struct \<Rightarrow> (uc_err \<times> u64 list \<times> 'c uc_struct) option" where
  "uc_reg_read env regid uc = UC_INIT env (\<lambda>err uc. (err, [], uc)) uc (uc_reg_read_batch env [regid])"

definition uc_reg_write :: "'c uc_env \<Rightarrow> u32 \<Rightarrow> u64 \<Rightarrow> 'c uc_struct \<Rightarrow> (uc_err \<times> 'c uc_struct) option" where
  "uc_reg_write env regid val uc = UC_INIT env Pair uc (uc_reg_write_batch env [(regid, val)])"

section \<open>Emulation\<close>

text \<open>
  The thread of \<^verbatim>\<open>_timeout_fn\<close>: at every wake-up it sees the engine and the clock; \<^term>\<open>wakes\<close> is the
  sequence of what it sees (emulation done, nanoseconds passed). The result says whether it stops the
  emulation.
\<close>

fun timeout_fn :: "u64 \<Rightarrow> (bool \<times> u64) list \<Rightarrow> bool option" where
  "timeout_fn timeout [] = None"
| "timeout_fn timeout ((emu_done, elapsed) # wakes) =
    (if emu_done then Some False
     else if elapsed < timeout then timeout_fn timeout wakes
     else Some True)"

definition timeout_stop :: "'c uc_env \<Rightarrow> 'c uc_struct \<Rightarrow> 'c uc_struct option" where
  "timeout_stop env uc =
    (if \<not> emulation_done uc then map_option snd (uc_emu_stop env (uc\<lparr>timed_out := True\<rparr>)) else Some uc)"

definition UC_ARM_REG_R15 :: u32 where "UC_ARM_REG_R15 = 11"
definition UC_ARM64_REG_PC :: u32 where "UC_ARM64_REG_PC = 260"

text \<open>
  The \<^verbatim>\<open>switch\<close> of \<^verbatim>\<open>uc_emu_start\<close> that sets the program counter, for every architecture but the 16-bit
  mode of x86: the register and the value written to it.
\<close>

definition start_pc :: "config_flag set \<Rightarrow> u32 \<Rightarrow> u32 \<Rightarrow> u64 \<Rightarrow> (u32 \<times> u64) option" where
  "start_pc cfg arch mode begin =
    (let begin32 = begin AND 0xffffffff in
     if arch = UC_ARCH_M68K \<and> UNICORN_HAS_M68K \<in> cfg then Some (18, begin32)
     else if arch = UC_ARCH_X86 \<and> UNICORN_HAS_X86 \<in> cfg then
       if mode = UC_MODE_32 then Some (26, begin32)
       else if mode = UC_MODE_64 then Some (41, begin) else None
     else if arch = UC_ARCH_ARM \<and> UNICORN_HAS_ARM \<in> cfg then Some (UC_ARM_REG_R15, begin32)
     else if arch = UC_ARCH_ARM64 \<and> UNICORN_HAS_ARM64 \<in> cfg then Some (UC_ARM64_REG_PC, begin)
     else if arch = UC_ARCH_MIPS \<and> UNICORN_HAS_MIPS \<in> cfg then Some (1, begin32)
     else if arch = UC_ARCH_SPARC \<and> UNICORN_HAS_SPARC \<in> cfg then Some (88, begin)
     else if arch = UC_ARCH_PPC \<and> UNICORN_HAS_PPC \<in> cfg
     then Some (1, if mode AND 8 \<noteq> 0 then begin else begin32)
     else if arch = UC_ARCH_RISCV \<and> UNICORN_HAS_RISCV \<in> cfg
     then Some (190, if mode AND 8 \<noteq> 0 then begin else begin32)
     else if arch = UC_ARCH_S390X \<and> UNICORN_HAS_S390X \<in> cfg then Some (65, begin)
     else if arch = UC_ARCH_TRICORE \<and> UNICORN_HAS_TRICORE \<in> cfg then Some (40, begin32)
     else None)"

definition set_start_pc :: "config_flag set \<Rightarrow> 'c uc_env \<Rightarrow> u64 \<Rightarrow> 'c uc_struct \<Rightarrow> 'c uc_struct option" where
  "set_start_pc cfg env begin uc =
    (if uc_arch uc = UC_ARCH_X86 \<and> UNICORN_HAS_X86 \<in> cfg \<and> uc_mode uc = UC_MODE_16 then do {
       (_, vals, uc) \<leftarrow> uc_reg_read env 11 uc;
       cs \<leftarrow> (case vals of [] \<Rightarrow> None | cs # _ \<Rightarrow> Some (ucast cs :: u16));
       map_option snd (uc_reg_write env 34 (ucast (ucast (begin - ucast cs * 16) :: u16)) uc) }
     else
       (case start_pc cfg (uc_arch uc) (uc_mode uc) begin of
          None \<Rightarrow> Some uc
        | Some (reg, val) \<Rightarrow> map_option snd (uc_reg_write env reg val uc)))"

definition no_args :: hook_args where
  "no_args = \<lparr>arg_insn = 0, arg_op = 0, arg_op_flags = 0\<rparr>"

text \<open>Removing and installing the hook that counts instructions.\<close>

definition remove_count_hook :: "'c uc_env \<Rightarrow> u64 \<Rightarrow> 'c uc_struct \<Rightarrow> 'c uc_struct option" where
  "remove_count_hook env count uc =
    (if count = 0 \<and> count_hook uc \<noteq> 0 then do {
       (_, uc) \<leftarrow> uc_hook_del env (count_hook uc) uc;
       Some (upd_cpu (\<lambda>cpu. cpu\<lparr>cpu_arch := env_tb_flush env (cpu_arch cpu)\<rparr>) (uc\<lparr>count_hook := 0\<rparr>)) }
     else Some uc)"

definition install_count_hook :: "'c uc_env \<Rightarrow> u64 \<Rightarrow> 'c uc_struct \<Rightarrow> (uc_err \<times> 'c uc_struct) option" where
  "install_count_hook env count uc =
    (if 0 < count \<and> count_hook uc = 0 then do {
       (err, hh, uc) \<leftarrow> uc_hook_add env UC_HOOK_CODE HOOK_COUNT_CB 0 1 0 no_args
         (uc\<lparr>hook_insert_mode := True\<rparr>);
       Some (err, uc\<lparr>hook_insert_mode := False,
         count_hook := (case hh of None \<Rightarrow> count_hook uc | Some p \<Rightarrow> p)\<rparr>) }
     else Some (UC_ERR_OK, uc))"

text \<open>
  \<^verbatim>\<open>uc_emu_start\<close>. The timer thread acts through the environment while the guest runs; its creation
  records the timeout.
\<close>

definition uc_emu_start ::
  "config_flag set \<Rightarrow> 'c uc_env \<Rightarrow> u64 \<Rightarrow> u64 \<Rightarrow> u64 \<Rightarrow> u64 \<Rightarrow> 'c uc_struct \<Rightarrow> (uc_err \<times> 'c uc_struct) option" where
  "uc_emu_start cfg env begin until timeout count uc =
    (let uc = uc\<lparr>emu_counter := 0, invalid_error := UC_ERR_OK, emulation_done := False, size_recur_mem := 0,
       timed_out := False, first_tb := True\<rparr> in
     UC_INIT env Pair uc (\<lambda>uc.
       if UC_MAX_NESTED_LEVEL \<le> nested_level uc then Some (UC_ERR_RESOURCE, uc)
       else do {
         let uc = uc\<lparr>nested_level := nested_level uc + 1\<rparr>;
         uc \<leftarrow> set_start_pc cfg env begin uc;
         let uc = uc\<lparr>stop_request := False, emu_count := count\<rparr>;
         uc \<leftarrow> remove_count_hook env count uc;
         (err, uc) \<leftarrow> install_count_hook env count uc;
         if err \<noteq> UC_ERR_OK then Some (err, uc\<lparr>nested_level := nested_level uc - 1\<rparr>)
         else do {
           let uc = (if \<not> use_exits uc
             then uc\<lparr>uc_exits := (uc_exits uc)(nested_level uc - 1 := until)\<rparr> else uc);
           let uc = (if timeout \<noteq> 0 then uc\<lparr>uc_timeout := timeout * 1000\<rparr> else uc);
           uc \<leftarrow> vm_start env uc;
           let uc = uc\<lparr>nested_level := nested_level uc - 1\<rparr>;
           uc \<leftarrow> (if nested_level uc = 0 then clear_deleted_hooks (uc\<lparr>emulation_done := True\<rparr>) else Some uc);
           Some (invalid_error uc, uc\<lparr>invalid_error := UC_ERR_OK\<rparr>) } }))"

section \<open>Queries\<close>

definition uc_query ::
  "config_flag set \<Rightarrow> 'c uc_env \<Rightarrow> u32 \<Rightarrow> 'c uc_struct \<Rightarrow> (uc_err \<times> u64 option \<times> 'c uc_struct) option" where
  "uc_query cfg env type uc = UC_INIT env (\<lambda>err uc. (err, None, uc)) uc (\<lambda>uc.
     if type = 2 then Some (UC_ERR_OK, Some (ucast (target_page_size uc)), uc)
     else if type = 3 then Some (UC_ERR_OK, Some (ucast (uc_arch uc)), uc)
     else if type = 1 then
       if UNICORN_HAS_ARM \<in> cfg \<and> uc_arch uc = UC_ARCH_ARM
       then (let (err, r) = env_query_mode env uc in Some (err, Some r, uc))
       else Some (UC_ERR_OK, Some (ucast (uc_mode uc)), uc)
     else if type = 4 then Some (UC_ERR_OK, Some (of_bool (timed_out uc)), uc)
     else Some (UC_ERR_ARG, None, uc))"

section \<open>Contexts\<close>

definition sizeof_uc_context :: u64 where "sizeof_uc_context = 16"

text \<open>The numbers of the error codes: \<^verbatim>\<open>uc_context_size\<close> returns one where a size is expected.\<close>

definition uc_err_code :: "uc_err \<Rightarrow> u64" where
  "uc_err_code e = (case e of UC_ERR_HANDLE \<Rightarrow> 3 | UC_ERR_RESOURCE \<Rightarrow> 20 | _ \<Rightarrow> 0)"

definition uc_context_size :: "'c uc_env \<Rightarrow> 'c uc_struct \<Rightarrow> (u64 \<times> 'c uc_struct) option" where
  "uc_context_size env uc = UC_INIT env (\<lambda>err uc. (uc_err_code err, uc)) uc (\<lambda>uc.
     Some (sizeof_uc_context +
       (case env_context_size env of None \<Rightarrow> cpu_context_size uc | Some f \<Rightarrow> f uc), uc))"

definition uc_context_alloc ::
  "'c uc_env \<Rightarrow> (u64 \<Rightarrow> 'c option) \<Rightarrow> 'c uc_struct \<Rightarrow> (uc_err \<times> 'c uc_context option \<times> 'c uc_struct) option" where
  "uc_context_alloc env malloc uc = do {
     (sz, uc) \<leftarrow> uc_context_size env uc;
     UC_INIT env (\<lambda>err uc. (err, None, uc)) uc (\<lambda>uc.
       case malloc sz of
         None \<Rightarrow> Some (UC_ERR_NOMEM, None, uc)
       | Some mem \<Rightarrow> Some (UC_ERR_OK,
           Some \<lparr>cx_context_size = sz - sizeof_uc_context, cx_mode = uc_mode uc, cx_arch = uc_arch uc,
             cx_data = mem\<rparr>, uc)) }"

definition uc_context_save ::
  "'c uc_env \<Rightarrow> 'c uc_context \<Rightarrow> 'c uc_struct \<Rightarrow> (uc_err \<times> 'c uc_context \<times> 'c uc_struct) option" where
  "uc_context_save env ctx uc = UC_INIT env (\<lambda>err uc. (err, ctx, uc)) uc (\<lambda>uc.
     case env_context_save env of
       None \<Rightarrow> do {
         cpu \<leftarrow> uc_cpu uc;
         Some (UC_ERR_OK,
           ctx\<lparr>cx_data := env_memcpy env (cx_context_size ctx) (cpu_arch cpu) (cx_data ctx)\<rparr>, uc) }
     | Some f \<Rightarrow> let (err, ctx) = f uc ctx in Some (err, ctx, uc))"

definition uc_context_restore ::
  "'c uc_env \<Rightarrow> 'c uc_context \<Rightarrow> 'c uc_struct \<Rightarrow> (uc_err \<times> 'c uc_struct) option" where
  "uc_context_restore env ctx uc = UC_INIT env Pair uc (\<lambda>uc.
     case env_context_restore env of
       None \<Rightarrow> do {
         cpu \<leftarrow> uc_cpu uc;
         Some (UC_ERR_OK, uc\<lparr>uc_cpu :=
           Some (cpu\<lparr>cpu_arch := env_memcpy env (cx_context_size ctx) (cx_data ctx) (cpu_arch cpu)\<rparr>)\<rparr>) }
     | Some f \<Rightarrow> Some (f ctx uc))"

text \<open>
  \<^verbatim>\<open>find_context_reg_rw_function\<close>: the functions it stores, \<^verbatim>\<open>NULL\<close> pointers, or a structure left
  uninitialised (\<^const>\<open>None\<close>).
\<close>

datatype context_rw = RwNull | RwOf string

definition find_context_reg_rw_function :: "config_flag set \<Rightarrow> u32 \<Rightarrow> u32 \<Rightarrow> context_rw option" where
  "find_context_reg_rw_function cfg arch mode =
    (if arch = UC_ARCH_M68K \<and> UNICORN_HAS_M68K \<in> cfg then Some (RwOf ''m68k'')
     else if arch = UC_ARCH_X86 \<and> UNICORN_HAS_X86 \<in> cfg then Some (RwOf ''x86'')
     else if arch = UC_ARCH_ARM \<and> UNICORN_HAS_ARM \<in> cfg then Some (RwOf ''arm'')
     else if arch = UC_ARCH_ARM64 \<and> UNICORN_HAS_ARM64 \<in> cfg then Some (RwOf ''arm64'')
     else if arch = UC_ARCH_MIPS \<and>
       cfg \<inter> {UNICORN_HAS_MIPS, UNICORN_HAS_MIPSEL, UNICORN_HAS_MIPS64, UNICORN_HAS_MIPS64EL} \<noteq> {} then
       if mode AND UC_MODE_BIG_ENDIAN \<noteq> 0 then
         if UNICORN_HAS_MIPS64 \<in> cfg \<and> mode AND 8 \<noteq> 0 then Some (RwOf ''mips64'')
         else if UNICORN_HAS_MIPS \<in> cfg \<and> mode AND 4 \<noteq> 0 then Some (RwOf ''mips'') else None
       else
         if UNICORN_HAS_MIPS64EL \<in> cfg \<and> mode AND 8 \<noteq> 0 then Some (RwOf ''mips64el'')
         else if UNICORN_HAS_MIPSEL \<in> cfg \<and> mode AND 4 \<noteq> 0 then Some (RwOf ''mipsel'') else None
     else if arch = UC_ARCH_SPARC \<and> UNICORN_HAS_SPARC \<in> cfg
     then Some (RwOf (if mode AND 8 \<noteq> 0 then ''sparc64'' else ''sparc''))
     else if arch = UC_ARCH_PPC \<and> UNICORN_HAS_PPC \<in> cfg
     then Some (RwOf (if mode AND 8 \<noteq> 0 then ''ppc64'' else ''ppc''))
     else if arch = UC_ARCH_RISCV \<and> UNICORN_HAS_RISCV \<in> cfg then
       if mode AND 4 \<noteq> 0 then Some (RwOf ''riscv32'')
       else if mode AND 8 \<noteq> 0 then Some (RwOf ''riscv64'') else None
     else if arch = UC_ARCH_S390X \<and> UNICORN_HAS_S390X \<in> cfg then Some (RwOf ''s390'')
     else if arch = UC_ARCH_TRICORE \<and> UNICORN_HAS_TRICORE \<in> cfg then Some (RwOf ''tricore'')
     else Some RwNull)"

section \<open>uc\_ctl\<close>

definition UC_CTL_IO_WRITE :: u32 where "UC_CTL_IO_WRITE = 1"
definition UC_CTL_IO_READ :: u32 where "UC_CTL_IO_READ = 2"
definition UC_CTL_IO_READ_WRITE :: u32 where "UC_CTL_IO_READ_WRITE = 3"

datatype ctl_type =
    UC_CTL_UC_MODE | UC_CTL_UC_PAGE_SIZE | UC_CTL_UC_ARCH | UC_CTL_UC_TIMEOUT | UC_CTL_UC_USE_EXITS
  | UC_CTL_UC_EXITS_CNT | UC_CTL_UC_EXITS | UC_CTL_CPU_MODEL | UC_CTL_TB_REQUEST_CACHE
  | UC_CTL_TB_REMOVE_CACHE | UC_CTL_TB_FLUSH | UC_CTL_OTHER

definition ctl_type_of :: "u32 \<Rightarrow> ctl_type" where
  "ctl_type_of t =
    (if t = 0 then UC_CTL_UC_MODE else if t = 1 then UC_CTL_UC_PAGE_SIZE else if t = 2 then UC_CTL_UC_ARCH
     else if t = 3 then UC_CTL_UC_TIMEOUT else if t = 4 then UC_CTL_UC_USE_EXITS
     else if t = 5 then UC_CTL_UC_EXITS_CNT else if t = 6 then UC_CTL_UC_EXITS
     else if t = 7 then UC_CTL_CPU_MODEL else if t = 8 then UC_CTL_TB_REQUEST_CACHE
     else if t = 9 then UC_CTL_TB_REMOVE_CACHE else if t = 10 then UC_CTL_TB_FLUSH else UC_CTL_OTHER)"

text \<open>The loop that turns the page size into \<^verbatim>\<open>target_bits\<close>.\<close>

function page_size_bits :: "nat \<Rightarrow> int \<Rightarrow> int" where
  "page_size_bits page_size bits =
    (if page_size \<noteq> 0 then page_size_bits (page_size div 2) (bits + 1) else bits)"
  by pat_completeness auto
termination by (relation "measure fst") auto

declare page_size_bits.simps [simp del]

text \<open>The checks on a CPU model for the architecture and mode of the engine.\<close>

definition model_ok :: "u32 \<Rightarrow> u32 \<Rightarrow> int \<Rightarrow> bool" where
  "model_ok arch mode model \<longleftrightarrow>
    (let m32 = (mode AND UC_MODE_32 \<noteq> 0); m64 = (mode AND UC_MODE_64 \<noteq> 0) in
     if arch = UC_ARCH_X86 then model < 38
     else if arch = UC_ARCH_ARM then
       model < 34 \<and> \<not> (mode AND UC_MODE_BIG_ENDIAN \<noteq> 0 \<and> model \<le> 17 \<and> 14 \<le> model)
     else if arch = UC_ARCH_ARM64 then model < 4
     else if arch = UC_ARCH_MIPS then \<not> (m32 \<and> 16 \<le> model) \<and> \<not> (m64 \<and> 13 \<le> model)
     else if arch = UC_ARCH_PPC then \<not> (m32 \<and> 290 \<le> model) \<and> \<not> (m64 \<and> 19 \<le> model)
     else if arch = UC_ARCH_RISCV then \<not> (m32 \<and> 4 \<le> model) \<and> \<not> (m64 \<and> 4 \<le> model)
     else if arch = UC_ARCH_S390X then model < 38
     else if arch = UC_ARCH_SPARC then \<not> (m32 \<and> 13 \<le> model) \<and> \<not> (m64 \<and> 17 \<le> model)
     else if arch = UC_ARCH_M68K then model < 9
     else False)"

text \<open>
  \<^verbatim>\<open>uc_ctl\<close>: \<^term>\<open>ins\<close> are the values of the variable arguments (an array and its length are the list of
  its elements, or the capacity alone for reading), the second result the values stored through the
  pointers among them.
\<close>

definition ctl_page_size ::
  "'c uc_env \<Rightarrow> u32 \<Rightarrow> u64 list \<Rightarrow> 'c uc_struct \<Rightarrow> (uc_err \<times> u64 list \<times> 'c uc_struct) option" where
  "ctl_page_size env rw ins uc =
    (if rw = UC_CTL_IO_READ
     then UC_INIT env (\<lambda>err uc. (err, [], uc)) uc (\<lambda>uc. Some (UC_ERR_OK, [ucast (target_page_size uc)], uc))
     else case ins of
       [] \<Rightarrow> None
     | w # _ \<Rightarrow>
         let page_size = ucast w :: u32 in
         if uc_init_done uc then Some (UC_ERR_ARG, [], uc)
         else if uc_arch uc \<noteq> UC_ARCH_ARM then Some (UC_ERR_ARG, [], uc)
         else if page_size AND (page_size - 1) \<noteq> 0 then Some (UC_ERR_ARG, [], uc)
         else Some (UC_ERR_OK, [], uc\<lparr>uc_target_bits := page_size_bits (unat page_size) 0\<rparr>))"

text \<open>The array a walk over the exits fills, up to its current length.\<close>

definition uc_read_exit_iter :: "u64 \<Rightarrow> nat \<Rightarrow> u64 list \<Rightarrow> (u64 list \<times> bool) option" where
  "uc_read_exit_iter key val req = Some (req @ [key], False)"

definition ctl_exits_rw ::
  "'c uc_env \<Rightarrow> u32 \<Rightarrow> u64 list \<Rightarrow> 'c uc_struct \<Rightarrow> (uc_err \<times> u64 list \<times> 'c uc_struct) option" where
  "ctl_exits_rw env rw ins uc = UC_INIT env (\<lambda>err uc. (err, [], uc)) uc (\<lambda>uc.
     if \<not> use_exits uc then Some (UC_ERR_ARG, [], uc)
     else if rw = UC_CTL_IO_READ then
       (case ins of
          [] \<Rightarrow> None
        | cnt # _ \<Rightarrow>
            if cnt < word_of_int (g_tree_nnodes (ctl_exits uc)) then Some (UC_ERR_ARG, [], uc)
            else do {
              exits \<leftarrow> g_tree_foreach (ctl_exits uc) uc_read_exit_iter [];
              Some (UC_ERR_OK, exits, uc) })
     else if rw = UC_CTL_IO_WRITE then do {
       uc \<leftarrow> foldM uc_add_exit ins (uc\<lparr>ctl_exits := g_tree_remove_all (ctl_exits uc)\<rparr>);
       Some (UC_ERR_OK, [], uc) }
     else Some (UC_ERR_ARG, [], uc))"

definition ctl_cpu_model ::
  "'c uc_env \<Rightarrow> u32 \<Rightarrow> u64 list \<Rightarrow> 'c uc_struct \<Rightarrow> (uc_err \<times> u64 list \<times> 'c uc_struct) option" where
  "ctl_cpu_model env rw ins uc =
    (if rw = UC_CTL_IO_READ
     then UC_INIT env (\<lambda>err uc. (err, [], uc)) uc (\<lambda>uc. Some (UC_ERR_OK, [word_of_int (uc_cpu_model uc)], uc))
     else case ins of
       [] \<Rightarrow> None
     | w # _ \<Rightarrow>
         let model = sint (ucast w :: u32) in
         if model < 0 \<or> uc_init_done uc then Some (UC_ERR_ARG, [], uc)
         else if \<not> model_ok (uc_arch uc) (uc_mode uc) model then Some (UC_ERR_ARG, [], uc)
         else Some (UC_ERR_OK, [], uc\<lparr>uc_cpu_model := model\<rparr>))"

definition uc_ctl ::
  "'c uc_env \<Rightarrow> u32 \<Rightarrow> u64 list \<Rightarrow> 'c uc_struct \<Rightarrow> (uc_err \<times> u64 list \<times> 'c uc_struct) option" where
  "uc_ctl env control ins uc =
    (let rw = drop_bit 30 control;
         get = (\<lambda>v. if rw = UC_CTL_IO_READ then Some (UC_ERR_OK, [v], uc) else Some (UC_ERR_ARG, [], uc)) in
     case ctl_type_of (control AND 0xffff) of
       UC_CTL_UC_MODE \<Rightarrow> get (ucast (uc_mode uc))
     | UC_CTL_UC_ARCH \<Rightarrow> get (ucast (uc_arch uc))
     | UC_CTL_UC_TIMEOUT \<Rightarrow> get (uc_timeout uc)
     | UC_CTL_UC_PAGE_SIZE \<Rightarrow> ctl_page_size env rw ins uc
     | UC_CTL_UC_USE_EXITS \<Rightarrow>
         (case ins of
            w # _ \<Rightarrow> if rw = UC_CTL_IO_WRITE then Some (UC_ERR_OK, [], uc\<lparr>use_exits := (w \<noteq> 0)\<rparr>)
              else Some (UC_ERR_ARG, [], uc)
          | [] \<Rightarrow> if rw = UC_CTL_IO_WRITE then None else Some (UC_ERR_ARG, [], uc))
     | UC_CTL_UC_EXITS_CNT \<Rightarrow> UC_INIT env (\<lambda>err uc. (err, [], uc)) uc (\<lambda>uc.
         if use_exits uc \<and> rw = UC_CTL_IO_READ then Some (UC_ERR_OK, [word_of_int (g_tree_nnodes (ctl_exits uc))], uc)
         else Some (UC_ERR_ARG, [], uc))
     | UC_CTL_UC_EXITS \<Rightarrow> ctl_exits_rw env rw ins uc
     | UC_CTL_CPU_MODEL \<Rightarrow> ctl_cpu_model env rw ins uc
     | UC_CTL_TB_REQUEST_CACHE \<Rightarrow> UC_INIT env (\<lambda>err uc. (err, [], uc)) uc (\<lambda>uc.
         if rw = UC_CTL_IO_READ_WRITE
         then (case ins of [] \<Rightarrow> None | addr # _ \<Rightarrow> let (err, uc) = env_gen_tb env addr uc in Some (err, [], uc))
         else Some (UC_ERR_ARG, [], uc))
     | UC_CTL_TB_REMOVE_CACHE \<Rightarrow> UC_INIT env (\<lambda>err uc. (err, [], uc)) uc (\<lambda>uc.
         if rw = UC_CTL_IO_WRITE
         then (case ins of
             addr # stop # _ \<Rightarrow>
               if stop \<le> addr then Some (UC_ERR_ARG, [], uc)
               else Some (UC_ERR_OK, [], env_invalidate_tb env addr (stop - addr) uc)
           | _ \<Rightarrow> None)
         else Some (UC_ERR_ARG, [], uc))
     | UC_CTL_TB_FLUSH \<Rightarrow> UC_INIT env (\<lambda>err uc. (err, [], uc)) uc (\<lambda>uc.
         if rw = UC_CTL_IO_WRITE
         then Some (UC_ERR_OK, [], upd_cpu (\<lambda>cpu. cpu\<lparr>cpu_arch := env_tb_flush env (cpu_arch cpu)\<rparr>) uc)
         else Some (UC_ERR_ARG, [], uc))
     | UC_CTL_OTHER \<Rightarrow> Some (UC_ERR_ARG, [], uc))"

end
