(* ===== verification/EngineProps.thy ===== *)
theory EngineProps
  imports UcEngine ExecInv InitInv
begin

text \<open>
  Properties of the engine interface: what \<^verbatim>\<open>uc_open\<close> accepts in this build, the exits and the page size
  of \<^verbatim>\<open>uc_ctl\<close>, and the bound on nested starts.
\<close>

section \<open>Opening\<close>

text \<open>
  C38: in this build \<^verbatim>\<open>uc_open\<close> succeeds exactly for the two ARM architectures with a mode inside
  \<^verbatim>\<open>UC_MODE_ARM_MASK\<close>; a mode outside gives \<^verbatim>\<open>UC_ERR_MODE\<close>, every other architecture \<^verbatim>\<open>UC_ERR_ARCH\<close>, and
  a failed allocation \<^verbatim>\<open>UC_ERR_NOMEM\<close>. The engine opened has the architecture and the mode, is not
  initialised, and runs in Thumb state exactly as the mode says.
\<close>

theorem uc_open_outcomes:
  "case uc_open tank_config calloc_ok arch mode of (err, res) \<Rightarrow>
    err = (if UC_ARCH_MAX \<le> arch then UC_ERR_ARCH else if \<not> calloc_ok then UC_ERR_NOMEM
       else if arch \<noteq> UC_ARCH_ARM \<and> arch \<noteq> UC_ARCH_ARM64 then UC_ERR_ARCH
       else if mode AND NOT UC_MODE_ARM_MASK \<noteq> 0 then UC_ERR_MODE else UC_ERR_OK) \<and>
    (case res of
       None \<Rightarrow> err \<noteq> UC_ERR_OK
     | Some uc \<Rightarrow> err = UC_ERR_OK \<and> uc_arch uc = arch \<and> uc_mode uc = mode \<and> \<not> uc_init_done uc \<and>
         mapped_blocks uc = [] \<and> uc_thumb uc = (arch = UC_ARCH_ARM \<and> mode AND UC_MODE_THUMB \<noteq> 0))"
proof -
  have o: "open_arch tank_config arch mode =
      (if arch \<noteq> UC_ARCH_ARM \<and> arch \<noteq> UC_ARCH_ARM64 then UC_ERR_ARCH
       else if mode AND NOT UC_MODE_ARM_MASK \<noteq> 0 then UC_ERR_MODE else UC_ERR_OK)"
    by (simp add: open_arch_def tank_config_def uc_arch_defs)
  have h: "UNICORN_HAS_ARM \<in> tank_config" by (simp add: tank_config_def)
  show ?thesis unfolding uc_open_def o
    by (auto simp: h Let_def uc_zero_def not_less uc_arch_defs word_le_nat_alt word_less_nat_alt split: if_splits)
qed

theorem uc_open_outcomes_witness:
  "fst (uc_open tank_config True UC_ARCH_ARM UC_MODE_V8 :: uc_err \<times> unit uc_struct option) = UC_ERR_MODE \<and>
   fst (uc_open tank_config True UC_ARCH_X86 0 :: uc_err \<times> unit uc_struct option) = UC_ERR_ARCH"
  using uc_open_outcomes [where calloc_ok = True and arch = UC_ARCH_ARM and mode = UC_MODE_V8, where ?'a = unit]
    uc_open_outcomes [where calloc_ok = True and arch = UC_ARCH_X86 and mode = 0, where ?'a = unit]
  by (simp add: uc_arch_defs UC_MODE_V8_def UC_MODE_ARM_MASK_def UC_MODE_BIG_ENDIAN_def case_prod_unfold word_le_nat_alt)

section \<open>Exits\<close>

lemma foldM_uc_add_exit:
  assumes "foldM (\<lambda>a t. g_tree_insert uc_exits_cmp t a 1) as (ctl_exits uc) = Some t"
  shows "foldM uc_add_exit as uc = Some (uc\<lparr>ctl_exits := t\<rparr>)"
  using assms
proof (induction as arbitrary: uc)
  case (Cons a as)
  then obtain t1 where t1: "g_tree_insert uc_exits_cmp (ctl_exits uc) a 1 = Some t1"
    "foldM (\<lambda>a t. g_tree_insert uc_exits_cmp t a 1) as t1 = Some t" by (auto split: option.splits)
  then show ?case using Cons.IH [of "uc\<lparr>ctl_exits := t1\<rparr>"] by (simp add: uc_add_exit_def)
qed simp

lemma read_exits: "g_tree_foreach t uc_read_exit_iter [] = Some (map fst (g_entries (g_root t)))"
proof -
  have "fold (\<lambda>(k, v) req. req @ [k]) es req = req @ map fst es" for es :: "(u64 \<times> nat) list" and req
    by (induction es arbitrary: req) auto
  then show ?thesis
    using g_tree_foreach_entries [of uc_read_exit_iter "\<lambda>k req. req @ [k]" t "[]"]
    by (simp add: uc_read_exit_iter_def)
qed

lemma exits_sorted: "key_sorted uc_exits_cmp es \<Longrightarrow> sorted_wrt (<) (map fst es)"
  unfolding key_sorted_def by (erule sorted_wrt_mono_rel [rotated]) (simp add: uc_exits_cmp_def split: if_splits)

text \<open>
  C39: the exits written through \<^verbatim>\<open>uc_ctl\<close> replace the old ones; reading gives back exactly them, in strictly
  ascending order, reading into a smaller array is refused, and the translator stops exactly at them. The
  tree they are kept in stays balanced, so that no insertion overruns its path, for up to two to the 28
  exits.
\<close>

theorem ctl_exits_round_trip:
  assumes "uc_init_done uc" "use_exits uc" "length exits \<le> 2 ^ 28"
  shows "\<exists>uc' out. ctl_exits_rw env UC_CTL_IO_WRITE exits uc = Some (UC_ERR_OK, [], uc') \<and>
    sorted_wrt (<) out \<and> set out = set exits \<and> gtree_inv uc_exits_cmp (ctl_exits uc') \<and>
    (\<forall>cnt. ctl_exits_rw env UC_CTL_IO_READ [cnt] uc' =
      (if unat cnt < length out then Some (UC_ERR_ARG, [], uc') else Some (UC_ERR_OK, out, uc'))) \<and>
    (\<forall>a. uc_addr_is_exit uc' a \<longleftrightarrow> a \<in> set exits)"
proof -
  let ?t0 = "g_tree_remove_all (ctl_exits uc)"
  have "length (g_entries (g_root ?t0)) + length exits \<le> 433494436" using assms(3) by simp
  from exits.insert_list_ok [OF gtree_inv_new(2) this, of 1] obtain t where t:
    "foldM (\<lambda>a t. g_tree_insert uc_exits_cmp t a 1) exits ?t0 = Some t" "gtree_inv uc_exits_cmp t"
    "fst ` set (g_entries (g_root t)) = set exits" "length (g_entries (g_root t)) \<le> length exits"
    "map_of (g_entries (g_root t)) = (\<lambda>k. if k \<in> set exits then Some 1 else map_of [] k)"
    unfolding entries_empty by (auto simp del: One_nat_def)
  define out where "out = map fst (g_entries (g_root t))"
  have out: "sorted_wrt (<) out" "set out = set exits" "length out \<le> 2 ^ 28"
    using t(2,3,4) exits_sorted assms(3) by (auto simp: out_def gtree_inv_def)
  have w: "ctl_exits_rw env UC_CTL_IO_WRITE exits uc = Some (UC_ERR_OK, [], uc\<lparr>ctl_exits := t\<rparr>)"
    using foldM_uc_add_exit [of exits "uc\<lparr>ctl_exits := ?t0\<rparr>" t] t(1) assms(1,2)
    by (simp add: ctl_exits_rw_def UC_CTL_IO_WRITE_def UC_CTL_IO_READ_def)
  have n: "g_tree_nnodes t = int (length out)"
    using g_tree_nnodes_entries [OF t(2)] out(3) by (simp add: out_def)
  have "cnt < word_of_int (g_tree_nnodes t) \<longleftrightarrow> unat cnt < length out" for cnt :: u64
    using out(3) unfolding n by (simp add: word_less_nat_alt unsigned_of_nat take_bit_nat_eq_self)
  then have r: "ctl_exits_rw env UC_CTL_IO_READ [cnt] (uc\<lparr>ctl_exits := t\<rparr>) =
      (if unat cnt < length out then Some (UC_ERR_ARG, [], uc\<lparr>ctl_exits := t\<rparr>)
       else Some (UC_ERR_OK, out, uc\<lparr>ctl_exits := t\<rparr>))" for cnt
    using assms(1,2) by (simp add: ctl_exits_rw_def read_exits out_def [symmetric])
  have l: "uc_addr_is_exit (uc\<lparr>ctl_exits := t\<rparr>) a \<longleftrightarrow> a \<in> set exits" for a
    using assms(2) exits.lookup_ok [OF t(2), of a] t(5) by (simp add: uc_addr_is_exit_def)
  show ?thesis
    by (rule exI [of _ "uc\<lparr>ctl_exits := t\<rparr>"], rule exI [of _ out]) (use w r l out t(2) in simp)
qed

theorem ctl_exits_round_trip_witness:
  "\<exists>uc uc' :: unit uc_struct. ctl_exits_rw plain_env UC_CTL_IO_WRITE [8, 4, 8] uc = Some (UC_ERR_OK, [], uc') \<and>
    ctl_exits_rw plain_env UC_CTL_IO_READ [2] uc' = Some (UC_ERR_OK, [4, 8], uc') \<and>
    uc_addr_is_exit uc' 4 \<and> \<not> uc_addr_is_exit uc' 5"
proof -
  have "uc_init_done (demo_hooks\<lparr>use_exits := True\<rparr>)" "use_exits (demo_hooks\<lparr>use_exits := True\<rparr>)"
    "length [8, 4, 8 :: u64] \<le> 2 ^ 28" by (simp_all add: demo_hooks_def)
  from ctl_exits_round_trip [OF this, of plain_env] obtain uc' out where u:
    "ctl_exits_rw plain_env UC_CTL_IO_WRITE [8, 4, 8] (demo_hooks\<lparr>use_exits := True\<rparr>) = Some (UC_ERR_OK, [], uc')"
    "sorted_wrt (<) out" "set out = set [8, 4, 8]"
    "\<forall>cnt. ctl_exits_rw plain_env UC_CTL_IO_READ [cnt] uc' =
      (if unat cnt < length out then Some (UC_ERR_ARG, [], uc') else Some (UC_ERR_OK, out, uc'))"
    "\<forall>a. uc_addr_is_exit uc' a \<longleftrightarrow> a \<in> set [8, 4, 8]" by blast
  have "out = [4, 8]"
    using u(2,3) by (intro sorted_distinct_set_unique) (auto simp: strict_sorted_iff)
  then show ?thesis using u by (intro exI [of _ "demo_hooks\<lparr>use_exits := True\<rparr>"] exI [of _ uc']) simp
qed

section \<open>Page size\<close>

lemma page_size_bits_power: "page_size_bits (2 ^ n) b = b + int n + 1"
proof (induction n arbitrary: b)
  case 0
  then show ?case by (simp add: page_size_bits.simps)
next
  case (Suc n)
  have "page_size_bits (2 ^ Suc n) b = page_size_bits (2 ^ n) (b + 1)" by (subst page_size_bits.simps) simp
  then show ?case using Suc by simp
qed

lemma ctl_page_size_write:
  "ctl_page_size env UC_CTL_IO_WRITE [w] uc =
    (if uc_init_done uc \<or> uc_arch uc \<noteq> UC_ARCH_ARM \<or> (ucast w :: u32) AND (ucast w - 1) \<noteq> 0 then Some (UC_ERR_ARG, [], uc)
     else Some (UC_ERR_OK, [], uc\<lparr>uc_target_bits := page_size_bits (unat (ucast w :: u32)) 0\<rparr>))"
  by (simp add: ctl_page_size_def UC_CTL_IO_WRITE_def UC_CTL_IO_READ_def Let_def)

lemma page_bits_requested:
  assumes "init_target_page uc = None" "env_page_bits_vary env"
  shows "page_bits env (uc\<lparr>uc_target_bits := b\<rparr>) = (if 0 < b then nat b else env_target_page_bits env)"
  using assms by (simp add: page_bits_def finalize_target_page_bits_def Let_def)

lemma uc_init_page_bits:
  fixes uc :: "'c uc_struct"
  assumes "fresh_engine uc" "alloc_ok env" "arch_ok env" "\<forall>u. \<not> fst (env_cpus_init env u)"
    and "0 < page_bits env uc" "page_bits env uc \<le> 16"
  shows "\<exists>uc'. uc_init env uc = Some (UC_ERR_OK, uc') \<and> target_page_bits uc' = page_bits env uc"
proof -
  obtain failed v and u :: "'c uc_struct" where
    "uc_init env uc = Some (if failed then UC_ERR_RESOURCE else UC_ERR_OK, v)"
    "failed \<longrightarrow> (\<exists>u. fst (env_cpus_init env u)) \<and> \<not> uc_init_done v"
    "\<not> failed \<longrightarrow> memory_state v = memory_state u \<and> target_page_bits u = page_bits env uc"
    using uc_init_run [OF assms(1,2,3,5,6)] by blast
  then show ?thesis using assms(4) by (auto simp: memory_state_def)
qed

text \<open>
  C40: before the initialisation of an ARM engine, \<^verbatim>\<open>uc_ctl\<close> accepts as a page size exactly the powers of
  two and zero. For the size \<open>2^n\<close> it stores \<open>n + 1\<close> bits, so that \<^verbatim>\<open>uc_init\<close> then sets up pages of twice
  the size, here for sizes up to 32 KiB; the size zero leaves the default of the target. Every other size, other architectures and
  an initialised engine are refused without effect.
\<close>

theorem ctl_page_size_doubles:
  fixes uc :: "'c uc_struct"
  assumes "fresh_engine uc" "uc_arch uc = UC_ARCH_ARM" "init_target_page uc = None" "env_page_bits_vary env"
    and "alloc_ok env" "arch_ok env" "\<forall>u. \<not> fst (env_cpus_init env u)"
    and "0 < env_target_page_bits env" "env_target_page_bits env \<le> 16"
  shows "(\<forall>w. if (ucast w :: u32) = 0 \<or> (\<exists>n < 32. (ucast w :: u32) = 2 ^ n)
       then \<exists>uc'. ctl_page_size env UC_CTL_IO_WRITE [w] uc = Some (UC_ERR_OK, [], uc')
       else ctl_page_size env UC_CTL_IO_WRITE [w] uc = Some (UC_ERR_ARG, [], uc)) \<and>
    (\<forall>n < 16. \<exists>uc' uc''. ctl_page_size env UC_CTL_IO_WRITE [2 ^ n] uc = Some (UC_ERR_OK, [], uc') \<and>
       uc_init env uc' = Some (UC_ERR_OK, uc'') \<and> target_page_bits uc'' = Suc n) \<and>
    (\<exists>uc' uc''. ctl_page_size env UC_CTL_IO_WRITE [0] uc = Some (UC_ERR_OK, [], uc') \<and>
       uc_init env uc' = Some (UC_ERR_OK, uc'') \<and> target_page_bits uc'' = env_target_page_bits env) \<and>
    (\<forall>(u :: 'c uc_struct) w. uc_init_done u \<or> uc_arch u \<noteq> UC_ARCH_ARM \<longrightarrow>
       ctl_page_size env UC_CTL_IO_WRITE [w] u = Some (UC_ERR_ARG, [], u))"
proof (intro conjI allI impI)
  have not_done: "\<not> uc_init_done uc" using assms(1) by (simp add: fresh_engine_def)
  show "if (ucast w :: u32) = 0 \<or> (\<exists>n < 32. (ucast w :: u32) = 2 ^ n)
       then \<exists>uc'. ctl_page_size env UC_CTL_IO_WRITE [w] uc = Some (UC_ERR_OK, [], uc')
       else ctl_page_size env UC_CTL_IO_WRITE [w] uc = Some (UC_ERR_ARG, [], uc)" for w
    using and_minus_one_iff [of "ucast w :: u32"] not_done assms(2) by (simp add: ctl_page_size_write)
  have run: "\<exists>uc''. uc_init env (uc\<lparr>uc_target_bits := b\<rparr>) = Some (UC_ERR_OK, uc'') \<and>
      target_page_bits uc'' = (if 0 < b then nat b else env_target_page_bits env)" if "b \<le> 16" for b
    using uc_init_page_bits [of "uc\<lparr>uc_target_bits := b\<rparr>" env] page_bits_requested [OF assms(3,4), of b] that assms
    by (auto simp: fresh_engine_def)
  show "\<exists>uc' uc''. ctl_page_size env UC_CTL_IO_WRITE [2 ^ n] uc = Some (UC_ERR_OK, [], uc') \<and>
       uc_init env uc' = Some (UC_ERR_OK, uc'') \<and> target_page_bits uc'' = Suc n" if n: "n < 16" for n
  proof -
    have u: "(ucast (2 ^ n :: u64) :: u32) = 2 ^ n" by (rule bit_word_eqI) (auto simp: bit_simps)
    have "(2 ^ n :: u32) AND (2 ^ n - 1) = 0" using n by (intro and_minus_one_iff [THEN iffD2] disjI2 exI [of _ n]) simp
    moreover have "unat (2 ^ n :: u32) = 2 ^ n" using n by (intro unat_exp_len) simp
    ultimately have "ctl_page_size env UC_CTL_IO_WRITE [2 ^ n] uc = Some (UC_ERR_OK, [], uc\<lparr>uc_target_bits := int n + 1\<rparr>)"
      using u not_done assms(2) by (simp add: ctl_page_size_write page_size_bits_power)
    moreover obtain uc'' where "uc_init env (uc\<lparr>uc_target_bits := int n + 1\<rparr>) = Some (UC_ERR_OK, uc'')"
      "target_page_bits uc'' = Suc n" using run [of "int n + 1"] n by (auto simp: nat_add_distrib)
    ultimately show ?thesis by blast
  qed
  have "ctl_page_size env UC_CTL_IO_WRITE [0] uc = Some (UC_ERR_OK, [], uc\<lparr>uc_target_bits := 0\<rparr>)"
    using not_done assms(2) by (simp add: ctl_page_size_write page_size_bits.simps)
  then show "\<exists>uc' uc''. ctl_page_size env UC_CTL_IO_WRITE [0] uc = Some (UC_ERR_OK, [], uc') \<and>
       uc_init env uc' = Some (UC_ERR_OK, uc'') \<and> target_page_bits uc'' = env_target_page_bits env"
    using run [of 0] by auto
qed (auto simp: ctl_page_size_write)

theorem ctl_page_size_doubles_witness:
  "\<exists>uc' uc'' :: unit uc_struct. ctl_page_size (plain_env\<lparr>env_page_bits_vary := True\<rparr>) UC_CTL_IO_WRITE [2 ^ 12]
      (uc_zero\<lparr>uc_arch := UC_ARCH_ARM\<rparr>) = Some (UC_ERR_OK, [], uc') \<and>
    uc_init (plain_env\<lparr>env_page_bits_vary := True\<rparr>) uc' = Some (UC_ERR_OK, uc'') \<and> target_page_bits uc'' = 13"
proof -
  let ?env = "plain_env\<lparr>env_page_bits_vary := True\<rparr>" and ?uc = "uc_zero\<lparr>uc_arch := UC_ARCH_ARM\<rparr> :: unit uc_struct"
  have "fresh_engine ?uc" "init_target_page ?uc = None" by (simp_all add: fresh_engine_def uc_zero_def)
  moreover have "alloc_ok ?env" using plain_alloc(1) by (simp add: alloc_ok_def)
  moreover have "arch_ok ?env" using plain_arch(1) by (simp add: arch_ok_def)
  moreover have "\<forall>u. \<not> fst (env_cpus_init ?env u)" "env_page_bits_vary ?env"
    "0 < env_target_page_bits ?env" "env_target_page_bits ?env \<le> 16" by (simp_all add: plain_env_def)
  ultimately have "\<forall>n < 16. \<exists>uc' uc''. ctl_page_size ?env UC_CTL_IO_WRITE [2 ^ n] ?uc = Some (UC_ERR_OK, [], uc') \<and>
       uc_init ?env uc' = Some (UC_ERR_OK, uc'') \<and> target_page_bits uc'' = Suc n"
    using ctl_page_size_doubles [of ?uc ?env] by simp
  from this [rule_format, of 12] show ?thesis by simp
qed

end
