(* ===== verification/Spec2Isabelle.thy ===== *)
theory Spec2Isabelle
  imports UcList GTree BSwap HostUtils WideArith Int128 UcRange MemRegion FlatView PhysMap Dispatch UcState MemTopo MemAccess UcMap UcInit UcMem MemView MemInv MemRw MemMap RamOffset InitInv GuestMem MemUnmap UcHooks HookInv CpuExec ExecInv UcEngine EngineProps
begin

text \<open>
  A verification development of the emulation engine of Tank: the C sources under
  \<^verbatim>\<open>src/uni/src/main/cpp/unicorn\<close>, to which all paths below are relative. Tank loads Android libraries
  and runs their ARM and AArch64 code; its Java part drives the engine through the interface of \<^verbatim>\<open>uc.c\<close>.

  \<^bold>\<open>The program.\<close> The engine has these parts. The interface (\<^verbatim>\<open>uc.c\<close>) opens an engine, maps, reads, writes,
  protects and unmaps guest memory, adds and deletes hooks, and starts and stops the emulation. Below it
  the memory system (\<^verbatim>\<open>qemu/softmmu/memory.c\<close>, \<^verbatim>\<open>qemu/exec.c\<close>) keeps a tree of regions, renders it into
  a flat view at every change, builds a radix tree over the pages from the view, and resolves every
  physical access through that tree to a block of RAM or to the callbacks of a device. The CPU loop
  (\<^verbatim>\<open>qemu/accel/tcg/cpu-exec.c\<close>, \<^verbatim>\<open>qemu/softmmu/cpus.c\<close>) runs translated blocks and handles exceptions
  and interrupts. All of them share small libraries of arithmetic, ranges, lists and byte order.

  \<^bold>\<open>How it is modelled.\<close> The state of the engine, \<^verbatim>\<open>struct uc_struct\<close>, is a record that every operation takes
  and returns. Pointers to regions, RAM blocks, hooks and list nodes are numbers into stores of the
  record, so that aliasing, freeing and dangling pointers are visible. What the sources reach through
  function pointers (the target's CPU, the translated code, the callbacks of the client) and the results
  of the allocators are the fields of one record \<^verbatim>\<open>uc_env\<close> (theory \<^verbatim>\<open>UcState\<close>), an argument of the
  operations. Machine integers are words of their width; \<^verbatim>\<open>Int128\<close> values of the memory code are
  integers, which theory \<^verbatim>\<open>Int128\<close> justifies. The value \<^const>\<open>None\<close> of an operation is a failed assertion, an
  abort, the use of a dangling pointer or a loop that does not end; error codes are ordinary results.

  \<^bold>\<open>Theories, in the order of their imports.\<close>

  \<^item> \<^verbatim>\<open>UcPrelude\<close>: word types, the monad of options, arrays that grow and shrink.

  \<^item> \<^verbatim>\<open>UcList\<close> (\<^verbatim>\<open>list.c\<close>): the linked lists, and the locale of the contract of a list of pointers, interpreted
  on the heap model: every operation implements the operation on sequences.

  \<^item> \<^verbatim>\<open>GTree\<close> (\<^verbatim>\<open>glib_compat/gtree.c\<close>): the balanced tree that holds the exits of an engine: insertion with its
  rotations, lookup, the walk in order and emptying. The locale of an ordered key type gives the behaviour
  as a sorted association list, and the balance bounds the height by the fixed array of the insertion.

  \<^item> \<^verbatim>\<open>BSwap\<close>, \<^verbatim>\<open>HostUtils\<close>, \<^verbatim>\<open>WideArith\<close> (\<^verbatim>\<open>bswap.h\<close>, \<^verbatim>\<open>host-utils.h\<close>, \<^verbatim>\<open>host-utils.c\<close>): byte order, bit
  counts, powers of two, 128-bit products and quotients. The portable versions equal the ones on compiler
  builtins, and the ones that do not are shown to differ.

  \<^item> \<^verbatim>\<open>Int128\<close> (\<^verbatim>\<open>int128.h\<close>), \<^verbatim>\<open>UcRange\<close> (\<^verbatim>\<open>range.h\<close>, \<^verbatim>\<open>range.c\<close>): the two-word integers compute exactly, and the
  sorted range lists represent sets of addresses.

  \<^item> \<^verbatim>\<open>MemRegion\<close>, \<^verbatim>\<open>FlatView\<close> (\<^verbatim>\<open>memory.c\<close>): regions, rendering and simplification of views, and the passes over
  an old and a new view, with the assertion on the start of every range they report. A view resolves each address to the region that has priority there.

  \<^item> \<^verbatim>\<open>PhysMap\<close>, \<^verbatim>\<open>Dispatch\<close> (\<^verbatim>\<open>exec.c\<close>): the radix tree, its compaction, sections and subpages. The tree built
  from a view with fewer ranges than a page has bytes and than its 16-bit section numbers resolves every
  address as the view does, and its reserved nodes are enough.

  \<^item> \<^verbatim>\<open>UcState\<close>, \<^verbatim>\<open>MemTopo\<close> (\<^verbatim>\<open>uc_priv.h\<close>, \<^verbatim>\<open>memory.c\<close>, \<^verbatim>\<open>exec.c\<close>): the engine, transactions, RAM blocks,
  mapping and unmapping of regions.

  \<^item> \<^verbatim>\<open>MemAccess\<close> (\<^verbatim>\<open>exec.c\<close>, \<^verbatim>\<open>memory.c\<close>, \<^verbatim>\<open>unicorn_common.h\<close>): translation of addresses, RAM pointers and
  device accesses.

  \<^item> \<^verbatim>\<open>UcMap\<close>, \<^verbatim>\<open>UcInit\<close>, \<^verbatim>\<open>UcMem\<close> (\<^verbatim>\<open>uc.c\<close>): the sorted table of mapped regions, the initialisation on first use
  and the memory calls of the interface.

  \<^item> \<^verbatim>\<open>MemView\<close>, \<^verbatim>\<open>MemInv\<close>, \<^verbatim>\<open>MemRw\<close>: the invariant \<^verbatim>\<open>mem_inv\<close> that ties the table, the tree of regions, the RAM
  blocks and the current dispatch together; the guest memory \<^verbatim>\<open>ram_of\<close>, a partial map from addresses to
  bytes, that an engine represents; and the proof that reading and writing implement that memory,
  through all of the layers above.

  \<^item> \<^verbatim>\<open>MemMap\<close>, \<^verbatim>\<open>RamOffset\<close>, \<^verbatim>\<open>InitInv\<close>: mapping accepts exactly the free page-aligned areas, adds them zeroed and
  keeps the invariant; the offsets of RAM blocks stay aligned and apart and are found while there is room (the alignment is
  that of a host with 64-bit longs, such as arm64-v8a; a host with 32-bit longs aligns to 32 pages);
  the initialisation of a fresh engine establishes the invariant.

  \<^item> \<^verbatim>\<open>GuestMem\<close>: the contract of the memory as a pair of locales over read, write and map, with its clients
  (sequences of calls, writes that do not disturb other areas), interpreted on the engine. Every sequence
  of calls from a fresh engine gives the error codes and bytes of the abstract memory.

  \<^item> \<^verbatim>\<open>MemUnmap\<close>: unmapping a region removes exactly its addresses, frees its RAM block and keeps the invariant.
  Unmapping and protecting a part of a region, which splits it, is modelled in \<^verbatim>\<open>UcMem\<close> without a property.

  \<^item> \<^verbatim>\<open>UcHooks\<close>, \<^verbatim>\<open>HookInv\<close> (\<^verbatim>\<open>uc.c\<close>, \<^verbatim>\<open>uc_priv.h\<close>): adding, deleting, clearing and running hooks. The invariant
  counts the references to each hook in the lists; every sequence of operations keeps it, so that no hook
  is freed while it is listed, and clearing frees exactly the deleted ones. The hooks of an instruction run
  as an inductive relation describes, also when the callbacks add and delete hooks themselves. The count
  of references is an integer here and a C \<^verbatim>\<open>int\<close> in the source. The comparison of exits interprets the
  order that \<^verbatim>\<open>GTree\<close> asks for.

  \<^item> \<^verbatim>\<open>CpuExec\<close>, \<^verbatim>\<open>ExecInv\<close> (\<^verbatim>\<open>cpu-exec.c\<close>, \<^verbatim>\<open>cpus.c\<close>): the execution loops as partial functions and, equivalently,
  as a step relation. After a request to stop no further block runs and the loops return; what a block would do
  while an exit or an exception is pending makes no difference; an exception of the guest needs a hook.
  The target's \<^verbatim>\<open>stop_interrupt\<close> may change the engine, as the one of ARM does.

  \<^item> \<^verbatim>\<open>UcEngine\<close>, \<^verbatim>\<open>EngineProps\<close> (\<^verbatim>\<open>uc.c\<close>): opening and closing, registers, contexts, the emulation calls and
  \<^verbatim>\<open>uc_ctl\<close>; which architectures and modes open, the exits of an engine through their tree, and its page size through
  the initialisation.

  \<^bold>\<open>Bounds.\<close> The tree of regions has depth two in this engine (\<^verbatim>\<open>topology_depth\<close>): the system memory and
  the regions mapped in it; a commit at any such tree succeeds. The compaction of the radix tree takes the
  number of its levels as bound, which the tree never exceeds. \<^verbatim>\<open>uc_mem_unmap\<close> is called again by the
  splitting of a region, never deeper than \<^verbatim>\<open>unmap_nesting\<close>. The path array of the tree of exits has 40 entries, enough
  for more than two to the 28 exits. The contract of the memory bounds the number
  of mappings by the bytes of a page and their sizes by the range of RAM offsets. All other loops that need not end are
  \<^theory_text>\<open>partial_function\<close>s, and the properties about them show that they return.

  \<^bold>\<open>Not modelled.\<close> The translator, the code generator and its run-time helpers, the software TLB and the
  instruction sets of the targets: they produce or are reached from generated machine code, whose
  semantics is outside the sources; running a translated block is a parameter. The targets other than ARM
  and AArch64, which the build leaves out; software floating point and decimal arithmetic, which only
  instruction helpers use; the vendored GLib containers other than the
  balanced tree, for which sets and maps stand; threads and
  system calls; the JNI glue and the Java part of Tank.
\<close>

end
